(* ===== verification/Prelude.thy ===== *)
theory Prelude
  imports Main "HOL-Library.Word" "HOL-Library.Monad_Syntax"
begin

text \<open>
  What every theory of the development shares: the machine types of the C sources, the
  convention for undefined behaviour, two collections of rewrite rules, and the generic lemmas
  on byte objects, power-of-two masks and wrapping counters.

  A C object (a buffer, a string, the bytes behind a pointer) is a list of bytes. A function that
  dereferences pointers returns an option: \<^term>\<open>None\<close> is undefined behaviour (an access outside
  the object, a NULL dereference) or a loop that does not end; \<^term>\<open>Some\<close> is a normal return.
  Integers keep the width the sources give them, so \<open>+\<close> and \<open>-\<close> wrap as the C operators do.
\<close>

unbundle bit_operations_syntax

type_synonym u8 = "8 word"
type_synonym u16 = "16 word"
type_synonym u32 = "32 word"
type_synonym u64 = "64 word"
type_synonym bytes = "8 word list"

named_theorems cdefs \<open>definitions of C operations, unfolded when a body is executed\<close>
named_theorems cmem \<open>closed forms of the byte-object primitives\<close>

section \<open>Options as the C fault monad\<close>

lemma bind_eq_SomeD:
  assumes "Option.bind x f = Some y"
  obtains z where "x = Some z" and "f z = Some y"
  using assms by (auto simp: bind_eq_Some_conv)

lemma foldl_bind_None [simp]:
  "foldl (\<lambda>acc i. Option.bind acc (f i)) None xs = None"
  by (induction xs) auto

section \<open>Byte objects\<close>

definition rd :: "'a list \<Rightarrow> nat \<Rightarrow> 'a option" where
  "rd m a = (if a < length m then Some (m ! a) else None)"

definition wr :: "'a list \<Rightarrow> nat \<Rightarrow> 'a \<Rightarrow> 'a list option" where
  "wr m a v = (if a < length m then Some (m[a := v]) else None)"

definition rd_seg :: "'a list \<Rightarrow> nat \<Rightarrow> nat \<Rightarrow> 'a list option" where
  "rd_seg m a n = (if a + n \<le> length m then Some (take n (drop a m)) else None)"

definition put_seg :: "'a list \<Rightarrow> nat \<Rightarrow> 'a list \<Rightarrow> 'a list" where
  "put_seg m a bs = take a m @ bs @ drop (a + length bs) m"

definition wr_seg :: "'a list \<Rightarrow> nat \<Rightarrow> 'a list \<Rightarrow> 'a list option" where
  "wr_seg m a bs = (if a + length bs \<le> length m then Some (put_seg m a bs) else None)"

lemma rd_in [simp]: "a < length m \<Longrightarrow> rd m a = Some (m ! a)"
  by (simp add: rd_def)

lemma wr_in [simp]: "a < length m \<Longrightarrow> wr m a v = Some (m[a := v])"
  by (simp add: wr_def)

lemma rd_seg_in [simp]: "a + n \<le> length m \<Longrightarrow> rd_seg m a n = Some (take n (drop a m))"
  by (simp add: rd_seg_def)

lemma wr_seg_in [simp]: "a + length bs \<le> length m \<Longrightarrow> wr_seg m a bs = Some (put_seg m a bs)"
  by (simp add: wr_seg_def)

lemma length_put_seg [simp]: "a + length bs \<le> length m \<Longrightarrow> length (put_seg m a bs) = length m"
  by (simp add: put_seg_def)

lemma put_seg_Nil [simp]: "a \<le> length m \<Longrightarrow> put_seg m a [] = m"
  by (simp add: put_seg_def)

lemma nth_put_seg:
  assumes "a + length bs \<le> length m" and "i < length m"
  shows "put_seg m a bs ! i = (if a \<le> i \<and> i < a + length bs then bs ! (i - a) else m ! i)"
  using assms by (auto simp: put_seg_def nth_append min_def add.commute)

lemma take_put_seg [simp]: "n \<le> a \<Longrightarrow> a \<le> length m \<Longrightarrow> take n (put_seg m a bs) = take n m"
  by (simp add: put_seg_def min_def)

lemma drop_put_seg [simp]:
  "a + length bs \<le> n \<Longrightarrow> a \<le> length m \<Longrightarrow> drop n (put_seg m a bs) = drop n m"
  by (simp add: put_seg_def min_def)

lemma take_drop_put_seg [simp]:
  "a \<le> length m \<Longrightarrow> take (length bs) (drop a (put_seg m a bs)) = bs"
  by (simp add: put_seg_def)

lemma put_seg_append:
  assumes "a + length xs + length ys \<le> length m"
  shows "put_seg (put_seg m a xs) (a + length xs) ys = put_seg m a (xs @ ys)"
proof -
  have "min (length m) a = a" using assms by simp
  then show ?thesis using assms by (simp add: put_seg_def ac_simps)
qed

lemma put_seg_single: "i < length m \<Longrightarrow> m[i := v] = put_seg m i [v]"
  by (simp add: put_seg_def upd_conv_take_nth_drop)

lemma take_drop_add: "take n (drop a m) @ take k (drop (a + n) m) = take (n + k) (drop a m)"
  by (metis add.commute drop_drop take_add)

lemma take_put_seg_end [simp]:
  "a \<le> length m \<Longrightarrow> take (a + length bs) (put_seg m a bs) = take a m @ bs"
  by (simp add: put_seg_def)

text \<open>An object holds a byte string at an offset.\<close>

definition holds_at :: "'a list \<Rightarrow> nat \<Rightarrow> 'a list \<Rightarrow> bool" where
  "holds_at m a xs \<longleftrightarrow> a + length xs \<le> length m \<and> take (length xs) (drop a m) = xs"

lemma holds_at_append:
  "holds_at m a (xs @ ys) \<longleftrightarrow> holds_at m a xs \<and> holds_at m (a + length xs) ys"
  by (auto simp: holds_at_def take_add add.commute)

lemma holds_at_Cons:
  "holds_at m a (x # xs) \<longleftrightarrow> a < length m \<and> m ! a = x \<and> holds_at m (a + 1) xs"
proof -
  have "holds_at m a [x] \<longleftrightarrow> a < length m \<and> m ! a = x"
  proof (cases "a < length m")
    case True
    then have "drop a m = m ! a # drop (Suc a) m" by (simp add: Cons_nth_drop_Suc)
    with True show ?thesis by (simp add: holds_at_def)
  qed (simp add: holds_at_def)
  then show ?thesis using holds_at_append[of m a "[x]" xs] by simp
qed

lemma holds_at_rd: "holds_at m a (x # xs) \<Longrightarrow> rd m a = Some x"
  by (simp add: holds_at_Cons)

lemma holds_at_seg: "holds_at m a xs \<Longrightarrow> rd_seg m a (length xs) = Some xs"
  by (simp add: holds_at_def)

lemma holds_at_Nil [simp]: "holds_at m a [] \<longleftrightarrow> a \<le> length m"
  by (simp add: holds_at_def)

section \<open>Masks and wrapping counters\<close>

lemma unat_and_mask: "unat (x AND mask k) = unat x mod 2 ^ k" for x :: "'a::len word"
proof -
  have "unat (x AND mask k) = unat (take_bit k x)" by (simp add: take_bit_eq_mask)
  also have "\<dots> = take_bit k (unat x)" by (rule unsigned_take_bit_eq)
  finally show ?thesis by (simp add: take_bit_eq_mod)
qed

lemma unat_exp_eq: "k < LENGTH('a) \<Longrightarrow> unat (2 ^ k :: 'a::len word) = 2 ^ k"
proof -
  assume "k < LENGTH('a)"
  then have "(2::nat) ^ k mod 2 ^ LENGTH('a) = 2 ^ k" by simp
  then have "unat (word_of_nat (2 ^ k) :: 'a word) = 2 ^ k" by (simp only: unat_of_nat)
  then show ?thesis by simp
qed

lemma word_eq_of_nat: "unat w = n \<Longrightarrow> w = of_nat n" for w :: "'a::len word"
  by auto

lemma unat_min_word: "unat (if a > b then b else a) = min (unat a) (unat b)" for a b :: "'a::len word"
  by (auto simp: word_less_nat_alt)

lemma sint_eq_iff [simp]: "sint x = sint y \<longleftrightarrow> x = y"
  by (auto intro: signed_word_eqI)

text \<open>
  A ring size is a power of two that fits its word; indexing a ring is then \<open>mod\<close>.
\<close>

definition pow2 :: "'a::len word \<Rightarrow> bool" where
  "pow2 n \<longleftrightarrow> (\<exists>k < LENGTH('a). n = 2 ^ k)"

lemma pow2_unat_pos: "pow2 n \<Longrightarrow> 0 < unat n"
  by (auto simp: pow2_def unat_exp_eq)

lemma pow2_dvd: "pow2 n \<Longrightarrow> unat n dvd 2 ^ LENGTH('a)" for n :: "'a::len word"
  by (auto simp: pow2_def unat_exp_eq le_imp_power_dvd less_imp_le)

lemma unat_ring_index: "pow2 n \<Longrightarrow> unat (x AND (n - 1)) = unat x mod unat n"
  by (auto simp: pow2_def unat_exp_eq unat_and_mask simp flip: mask_eq_exp_minus_1)

section \<open>Widths\<close>

lemma unat64_less: "unat x < 2 ^ 64" for x :: u64
proof -
  have "unat x < 2 ^ LENGTH(64)" by (rule unsigned_less)
  then show ?thesis by simp
qed

lemma unat16_less: "unat x < 65536" for x :: u16
proof -
  have "unat x < 2 ^ LENGTH(16)" by (rule unsigned_less)
  then show ?thesis by simp
qed

lemma unat_of_nat_small: "n < 2 ^ 64 \<Longrightarrow> unat (of_nat n :: u64) = n"
  by (simp add: unat_of_nat)

lemma of_nat_less_small: "m < n \<Longrightarrow> n < 2 ^ 64 \<Longrightarrow> (of_nat m :: u64) < of_nat n"
  by (simp add: word_less_nat_alt unat_of_nat)

lemma of_nat_eq_small:
  "m < 2 ^ 64 \<Longrightarrow> n < 2 ^ 64 \<Longrightarrow> (of_nat m :: u64) = of_nat n \<longleftrightarrow> m = n"
  using word_of_nat_eq_iff[where 'a=64, of m n] by (simp add: take_bit_nat_eq_self)

lemma unat_add_small:
  "unat a + n < 2 ^ 64 \<Longrightarrow> unat (a + of_nat n) = unat a + n" for a :: u64
  by (simp add: unat_word_ariths unat_of_nat)

lemma ucast_u8_of_nat: "(ucast c :: u64) = of_nat (unat c)" for c :: u8
  by transfer simp

lemma ucast_of_nat_u8: "m < 2 ^ 64 \<Longrightarrow> ucast (of_nat m :: u64) = (of_nat m :: u8)"
  by (simp add: unsigned_of_nat take_bit_nat_eq_self)

lemma ucast_u16_of_nat: "(ucast c :: u64) = of_nat (unat c)" for c :: u16
  by transfer simp

lemma unat_ucast_u16 [simp]: "unat (ucast c :: u64) = unat c" for c :: u16
  unfolding ucast_u16_of_nat using unat16_less[of c] by (intro unat_of_nat_small) simp

lemma bind_SomeE:
  assumes "Option.bind x f = Some y"
  obtains a where "x = Some a" and "f a = Some y"
  using assms by (cases x) auto

end
