(* ===== verification/Mem.thy ===== *)
theory Mem
  imports Prelude
begin

text \<open>
  The byte and string primitives of \<open>src/src/xnet/xmalloc.c\<close> that every other component calls:
  \<open>slength\<close>, \<open>mcompare\<close>, \<open>mcopy\<close>, \<open>mclear\<close>. Each definition keeps the loops of the C body
  (whole words first, then the remaining bytes; the pre-decremented counter of \<open>mcompare\<close>); the
  lemmas give their closed forms and characterise exactly when the body stays inside its objects.
  Objects are lists of bytes with a base offset; source and destination of \<open>mcopy\<close> are distinct
  objects, as at every call site of the modelled components.
\<close>

section \<open>Definitions\<close>

text \<open>A \<open>char\<close> is signed on the supported targets: its value is the two's complement reading.\<close>

definition schar :: "u8 \<Rightarrow> int" where
  "schar c = sint c"

function slength_loop :: "bytes \<Rightarrow> nat \<Rightarrow> nat option" where
  "slength_loop s l = (if l < length s
     then (if s ! l \<noteq> 0 then slength_loop s (l + 1) else Some l)
     else None)"
  by pat_completeness auto
termination
  by (relation "measure (\<lambda>(s, l). length s - l)") auto

declare slength_loop.simps [simp del]

text \<open>\<open>slength\<close>: NULL has length 0.\<close>

definition slength :: "bytes option \<Rightarrow> nat option" where
  "slength p = (case p of None \<Rightarrow> Some 0 | Some s \<Rightarrow> slength_loop s 0)"

text \<open>
  \<open>mcompare\<close>: the guard is \<open>--n && *s1 == *s2\<close>; the byte at which the loop stops decides. The
  counter argument is the value of \<open>n\<close> before the decrement.
\<close>

fun mcompare_loop :: "bytes \<Rightarrow> nat \<Rightarrow> bytes \<Rightarrow> nat \<Rightarrow> nat \<Rightarrow> int option" where
  "mcompare_loop s1 i s2 j 0 = None"
| "mcompare_loop s1 i s2 j (Suc n) =
     (if n = 0 then do { a \<leftarrow> rd s1 i; b \<leftarrow> rd s2 j; Some (schar a - schar b) }
      else do { a \<leftarrow> rd s1 i; b \<leftarrow> rd s2 j;
                if a = b then mcompare_loop s1 (i + 1) s2 (j + 1) n
                else Some (schar a - schar b) })"

definition mcompare :: "bytes option \<Rightarrow> nat \<Rightarrow> bytes option \<Rightarrow> nat \<Rightarrow> nat \<Rightarrow> int option" where
  "mcompare p i q j n = (case (p, q) of
       (Some s1, Some s2) \<Rightarrow> (if n = 0 then Some 0 else mcompare_loop s1 i s2 j n)
     | _ \<Rightarrow> Some 0)"

text \<open>\<open>mcopy\<close>: \<open>n / 8\<close> words, then \<open>n % 8\<close> bytes counted down from the end.\<close>

function mcopy_words :: "bytes \<Rightarrow> nat \<Rightarrow> bytes \<Rightarrow> nat \<Rightarrow> nat \<Rightarrow> nat \<Rightarrow> bytes option" where
  "mcopy_words dst d src s i l = (if i < l
     then do { w \<leftarrow> rd_seg src (s + 8 * i) 8;
               dst' \<leftarrow> wr_seg dst (d + 8 * i) w;
               mcopy_words dst' d src s (i + 1) l }
     else Some dst)"
  by pat_completeness auto
termination
  by (relation "measure (\<lambda>(dst, d, src, s, i, l). l - i)") auto

declare mcopy_words.simps [simp del]

fun mcopy_tail :: "bytes \<Rightarrow> nat \<Rightarrow> bytes \<Rightarrow> nat \<Rightarrow> nat \<Rightarrow> nat \<Rightarrow> bytes option" where
  "mcopy_tail dst d src s n 0 = Some dst"
| "mcopy_tail dst d src s n (Suc r) =
     do { c \<leftarrow> rd src (s + (n - Suc r));
          dst' \<leftarrow> wr dst (d + (n - Suc r)) c;
          mcopy_tail dst' d src s n r }"

definition mcopy :: "bytes \<Rightarrow> nat \<Rightarrow> bytes \<Rightarrow> nat \<Rightarrow> nat \<Rightarrow> bytes option" where
  "mcopy dst d src s n = (if n = 0 then Some dst
     else do { dst' \<leftarrow> mcopy_words dst d src s 0 (n div 8);
               mcopy_tail dst' d src s n (n mod 8) })"

text \<open>\<open>mclear\<close>: the same two loops, storing zero.\<close>

function mclear_words :: "bytes \<Rightarrow> nat \<Rightarrow> nat \<Rightarrow> nat \<Rightarrow> bytes option" where
  "mclear_words m a i l = (if i < l
     then do { m' \<leftarrow> wr_seg m (a + 8 * i) (replicate 8 0); mclear_words m' a (i + 1) l }
     else Some m)"
  by pat_completeness auto
termination
  by (relation "measure (\<lambda>(m, a, i, l). l - i)") auto

declare mclear_words.simps [simp del]

fun mclear_tail :: "bytes \<Rightarrow> nat \<Rightarrow> nat \<Rightarrow> nat \<Rightarrow> bytes option" where
  "mclear_tail m a len 0 = Some m"
| "mclear_tail m a len (Suc r) =
     do { m' \<leftarrow> wr m (a + (len - Suc r)) 0; mclear_tail m' a len r }"

definition mclear :: "bytes \<Rightarrow> nat \<Rightarrow> nat \<Rightarrow> bytes option" where
  "mclear m a len =
     do { m' \<leftarrow> mclear_words m a 0 (len div 8); mclear_tail m' a len (len mod 8) }"

section \<open>String length\<close>

definition cstr :: "bytes \<Rightarrow> bytes" where
  "cstr s = takeWhile (\<lambda>c. c \<noteq> 0) s"

lemma slength_loop_eq:
  "slength_loop s l = (if 0 \<in> set (drop l s) then Some (l + length (cstr (drop l s))) else None)"
proof (induction s l rule: slength_loop.induct)
  case (1 s l)
  show ?case
  proof (cases "l < length s")
    case True
    then have "drop l s = s ! l # drop (Suc l) s" by (simp add: Cons_nth_drop_Suc)
    with True 1 show ?thesis
      by (subst slength_loop.simps) (auto simp: cstr_def)
  next
    case False
    then show ?thesis by (subst slength_loop.simps) simp
  qed
qed

lemma slength_eq [cmem]:
  "slength (Some s) = (if 0 \<in> set s then Some (length (cstr s)) else None)"
  by (simp add: slength_def slength_loop_eq)

lemma cstr_terminated [simp]: "0 \<notin> set k \<Longrightarrow> cstr (k @ 0 # rest) = k"
  by (induction k) (auto simp: cstr_def)

lemma cstr_nonzero: "0 \<notin> set (cstr s)"
  by (auto simp: cstr_def dest: set_takeWhileD)

section \<open>Comparison\<close>

lemma mcompare_loop_zero_iff:
  assumes "0 < n" and "i + n \<le> length s1" and "j + n \<le> length s2"
  shows "\<exists>v. mcompare_loop s1 i s2 j n = Some v \<and>
           (v = 0 \<longleftrightarrow> take n (drop i s1) = take n (drop j s2))"
  using assms
proof (induction s1 i s2 j n rule: mcompare_loop.induct)
  case (2 s1 i s2 j n)
  have d1: "drop i s1 = s1 ! i # drop (Suc i) s1" and d2: "drop j s2 = s2 ! j # drop (Suc j) s2"
    using 2(2-4) by (simp_all add: Cons_nth_drop_Suc)
  show ?case
  proof (cases "n = 0")
    case True
    then show ?thesis using 2(2-4) by (simp add: d1 d2 schar_def)
  next
    case False
    show ?thesis
    proof (cases "s1 ! i = s2 ! j")
      case True
      with False 2 show ?thesis by (simp add: d1 d2)
    next
      case neq: False
      then have "schar (s1 ! i) - schar (s2 ! j) \<noteq> 0" by (auto simp: schar_def)
      with False neq 2(2-4) show ?thesis by (simp add: d1 d2)
    qed
  qed
qed simp

section \<open>Copying and clearing\<close>

lemma mcopy_words_eq:
  assumes "i \<le> l" and "d + 8 * l \<le> length dst" and "s + 8 * l \<le> length src"
  shows "mcopy_words dst d src s i l =
    Some (put_seg dst (d + 8 * i) (take (8 * (l - i)) (drop (s + 8 * i) src)))"
  using assms
proof (induction dst d src s i l rule: mcopy_words.induct)
  case (1 dst d src s i l)
  show ?case
  proof (cases "i < l")
    case True
    let ?w = "take 8 (drop (s + 8 * i) src)"
    have b: "s + 8 * i + 8 \<le> length src" "d + 8 * i + 8 \<le> length dst"
      using True 1(3,4) by auto
    have w: "length ?w = 8" using b by simp
    have split: "take (8 * (l - i)) (drop (s + 8 * i) src)
        = ?w @ take (8 * (l - (i + 1))) (drop (s + 8 * (i + 1)) src)"
      using True take_drop_add[of 8 "s + 8 * i" src "8 * (l - (i + 1))"]
      by (simp add: algebra_simps)
    have IH: "mcopy_words (put_seg dst (d + 8 * i) ?w) d src s (i + 1) l =
      Some (put_seg (put_seg dst (d + 8 * i) ?w) (d + 8 * (i + 1))
             (take (8 * (l - (i + 1))) (drop (s + 8 * (i + 1)) src)))"
      using 1(1)[of ?w "put_seg dst (d + 8 * i) ?w"] True b w 1(2-4) by simp
    have "put_seg (put_seg dst (d + 8 * i) ?w) (d + 8 * i + length ?w)
             (take (8 * (l - (i + 1))) (drop (s + 8 * (i + 1)) src))
          = put_seg dst (d + 8 * i) (take (8 * (l - i)) (drop (s + 8 * i) src))"
      unfolding split using True w 1(3,4) by (intro put_seg_append) auto
    with True b w IH show ?thesis
      by (subst mcopy_words.simps) (simp add: algebra_simps)
  next
    case False
    with 1(2,3) show ?thesis by (subst mcopy_words.simps) simp
  qed
qed

lemma mcopy_tail_eq:
  assumes "r \<le> n" and "d + n \<le> length dst" and "s + n \<le> length src"
  shows "mcopy_tail dst d src s n r =
    Some (put_seg dst (d + (n - r)) (take r (drop (s + (n - r)) src)))"
  using assms
proof (induction r arbitrary: dst)
  case (Suc r)
  let ?k = "n - Suc r"
  have step: "n - r = ?k + 1" using Suc.prems by simp
  have "dst[d + ?k := src ! (s + ?k)] = put_seg dst (d + ?k) [src ! (s + ?k)]"
    using Suc.prems by (intro put_seg_single) simp
  moreover have "take (Suc r) (drop (s + ?k) src) = src ! (s + ?k) # take r (drop (s + (n - r)) src)"
    using Suc.prems by (simp add: step take_Suc_conv_app_nth flip: Cons_nth_drop_Suc)
  moreover have "put_seg (put_seg dst (d + ?k) [src ! (s + ?k)]) (d + ?k + length [src ! (s + ?k)])
       (take r (drop (s + (n - r)) src))
     = put_seg dst (d + ?k) ([src ! (s + ?k)] @ take r (drop (s + (n - r)) src))"
    using Suc.prems by (intro put_seg_append) auto
  ultimately show ?case
    using Suc.prems Suc.IH[of "dst[d + ?k := src ! (s + ?k)]"] by (simp add: step)
qed simp

text \<open>\<open>mcopy\<close> is the byte-for-byte copy of the segment, for every length and alignment.\<close>

lemma mcopy_eq [cmem]:
  assumes "d + n \<le> length dst" and "s + n \<le> length src"
  shows "mcopy dst d src s n = Some (put_seg dst d (take n (drop s src)))"
proof (cases "n = 0")
  case True
  then show ?thesis using assms by (simp add: mcopy_def)
next
  case False
  let ?l = "n div 8" and ?r = "n mod 8"
  have n: "8 * ?l + ?r = n" by simp
  have "mcopy_words dst d src s 0 ?l = Some (put_seg dst d (take (8 * ?l) (drop s src)))"
    using assms n by (subst mcopy_words_eq) auto
  moreover have "mcopy_tail (put_seg dst d (take (8 * ?l) (drop s src))) d src s n ?r
    = Some (put_seg (put_seg dst d (take (8 * ?l) (drop s src))) (d + (n - ?r))
        (take ?r (drop (s + (n - ?r)) src)))"
    using assms n by (intro mcopy_tail_eq) auto
  moreover have "put_seg (put_seg dst d (take (8 * ?l) (drop s src)))
        (d + length (take (8 * ?l) (drop s src))) (take ?r (drop (s + 8 * ?l) src))
      = put_seg dst d (take (8 * ?l) (drop s src) @ take ?r (drop (s + 8 * ?l) src))"
  proof (rule put_seg_append)
    have "length (take (8 * ?l) (drop s src)) \<le> 8 * ?l"
      and "length (take ?r (drop (s + 8 * ?l) src)) \<le> ?r" by simp_all
    with assms n show "d + length (take (8 * ?l) (drop s src))
        + length (take ?r (drop (s + 8 * ?l) src)) \<le> length dst" by linarith
  qed
  moreover have "length (take (8 * ?l) (drop s src)) = 8 * ?l" using assms n by simp
  moreover have "take (8 * ?l) (drop s src) @ take ?r (drop (s + 8 * ?l) src) = take n (drop s src)"
    using take_drop_add[of "8 * ?l" s src ?r] n by simp
  moreover have "n - ?r = 8 * ?l" using n by linarith
  ultimately show ?thesis using False by (simp add: mcopy_def)
qed

text \<open>Nothing fits an object of size 0.\<close>

lemma mcopy_into_nothing: "0 < n \<Longrightarrow> mcopy [] d src s n = None"
proof -
  assume n: "0 < n"
  have words: "mcopy_words [] d src s 0 l = None" if "0 < l" for l
    using that by (subst mcopy_words.simps) (auto simp: rd_seg_def wr_seg_def bind_eq_None_conv)
  have tail: "mcopy_tail [] d src s n r = None" if "0 < r" for r
    using that by (cases r) (auto simp: wr_def bind_eq_None_conv)
  show ?thesis
  proof (cases "n div 8 = 0")
    case True
    then have "0 < n mod 8" using n by (metis mod_less div_eq_0_iff not_gr0 zero_neq_numeral)
    then show ?thesis using n tail True by (simp add: mcopy_def) (subst mcopy_words.simps, simp)
  qed (use n words in \<open>simp add: mcopy_def\<close>)
qed

lemma mclear_words_eq:
  assumes "i \<le> l" and "a + 8 * l \<le> length m"
  shows "mclear_words m a i l = Some (put_seg m (a + 8 * i) (replicate (8 * (l - i)) 0))"
  using assms
proof (induction m a i l rule: mclear_words.induct)
  case (1 m a i l)
  show ?case
  proof (cases "i < l")
    case True
    let ?z = "replicate 8 (0::u8)"
    have "put_seg (put_seg m (a + 8 * i) ?z) (a + 8 * i + length ?z) (replicate (8 * (l - (i + 1))) 0)
        = put_seg m (a + 8 * i) (?z @ replicate (8 * (l - (i + 1))) 0)"
      using True 1(3) by (intro put_seg_append) auto
    moreover have "?z @ replicate (8 * (l - (i + 1))) 0 = replicate (8 * (l - i)) 0"
    proof -
      have "8 * (l - i) = 8 + 8 * (l - (i + 1))" using True by simp
      then show ?thesis by (metis replicate_add)
    qed
    ultimately show ?thesis
      using 1(1)[of "put_seg m (a + 8 * i) ?z"] True 1(2,3)
      by (subst mclear_words.simps) (simp add: algebra_simps)
  next
    case False
    with 1(2,3) show ?thesis by (subst mclear_words.simps) simp
  qed
qed

lemma mclear_tail_eq:
  assumes "r \<le> n" and "a + n \<le> length m"
  shows "mclear_tail m a n r = Some (put_seg m (a + (n - r)) (replicate r 0))"
  using assms
proof (induction r arbitrary: m)
  case (Suc r)
  let ?k = "n - Suc r"
  have "m[a + ?k := 0] = put_seg m (a + ?k) [0]"
    using Suc.prems by (intro put_seg_single) simp
  moreover have "put_seg (put_seg m (a + ?k) [0]) (a + ?k + length [0::u8]) (replicate r 0)
      = put_seg m (a + ?k) ([0] @ replicate r 0)"
    using Suc.prems by (intro put_seg_append) auto
  moreover have "n - r = ?k + 1" using Suc.prems by simp
  ultimately show ?case
    using Suc.prems Suc.IH[of "m[a + ?k := 0]"] by simp
qed simp

lemma mclear_eq [cmem]:
  assumes "a + n \<le> length m"
  shows "mclear m a n = Some (put_seg m a (replicate n 0))"
proof -
  let ?l = "n div 8" and ?r = "n mod 8" and ?z = "replicate (8 * (n div 8)) (0::u8)"
  have n: "8 * ?l + ?r = n" by simp
  have "mclear_words m a 0 ?l = Some (put_seg m a ?z)"
    using assms n by (subst mclear_words_eq) auto
  moreover have "mclear_tail (put_seg m a ?z) a n ?r
      = Some (put_seg (put_seg m a ?z) (a + (n - ?r)) (replicate ?r 0))"
    using assms n by (intro mclear_tail_eq) auto
  moreover have "put_seg (put_seg m a ?z) (a + length ?z) (replicate ?r 0)
      = put_seg m a (?z @ replicate ?r 0)"
    using assms n by (intro put_seg_append) auto
  moreover have "?z @ replicate ?r 0 = replicate n 0" by (simp flip: replicate_add)
  moreover have "n - ?r = 8 * ?l" using n by linarith
  ultimately show ?thesis by (simp add: mclear_def)
qed

end
