(* ===== verification/Pipe.thy ===== *)
theory Pipe
  imports Mem
begin

text \<open>
  The byte pipe of \<open>src/src/xnet/xpipe.h\<close>: a ring of a power-of-two number of bytes with a
  64-bit writer and a 64-bit reader counter that are never reset and wrap around. The
  definitions are the single attempts \<open>__xpipe_write\<close> and \<open>__xpipe_read\<close> (lock bit, amount,
  one or two copies, counter), the size queries, \<open>xpipe_clear\<close>, \<open>xpipe_break\<close> and
  \<open>xpipe_create\<close>. The lemmas show that the ring is a bounded FIFO of bytes for every value of
  the counters, stated as the locale \<open>byte_fifo\<close> and its interpretation.
\<close>

section \<open>State and operations\<close>

record xpipe =
  p_len :: u64
  p_writer :: u64
  p_reader :: u64
  p_breaker :: bool
  p_rlock :: bool
  p_wlock :: bool
  p_rblock :: bool
  p_wblock :: bool
  p_name :: bytes
  p_buf :: bytes

definition xpipe_readable :: "xpipe \<Rightarrow> u64" where
  "xpipe_readable p = p_writer p - p_reader p"

definition xpipe_writable :: "xpipe \<Rightarrow> u64" where
  "xpipe_writable p = p_len p - p_writer p + p_reader p"

text \<open>
  \<open>__xpipe_write(pipe, data + pos, len)\<close>: a lock bit already set returns 0 at once; otherwise
  the amount is cut to what fits and copied in one piece or, where it passes the end of the
  buffer, in two (\<open>pipe_copy_in\<close>, the block under \<open>if (writable > 0)\<close>).
\<close>

definition pipe_copy_in :: "xpipe \<Rightarrow> bytes \<Rightarrow> nat \<Rightarrow> u64 \<Rightarrow> xpipe option" where
  "pipe_copy_in p data pos writable =
     (if writable > 0 then
        let off = p_writer p AND (p_len p - 1); leftover = p_len p - off in
        if leftover \<ge> writable then do {
          b \<leftarrow> mcopy (p_buf p) (unat off) data pos (unat writable);
          Some (p\<lparr>p_buf := b, p_writer := p_writer p + writable\<rparr>) }
        else do {
          b \<leftarrow> mcopy (p_buf p) (unat off) data pos (unat leftover);
          b' \<leftarrow> mcopy b 0 data (pos + unat leftover) (unat (writable - leftover));
          Some (p\<lparr>p_buf := b', p_writer := p_writer p + writable\<rparr>) }
      else Some p)"

definition raw_xpipe_write :: "xpipe \<Rightarrow> bytes \<Rightarrow> nat \<Rightarrow> u64 \<Rightarrow> (xpipe \<times> u64) option" where
  "raw_xpipe_write pipe data pos len =
     (if p_wlock pipe then Some (pipe, 0)
      else let w = p_len pipe - p_writer pipe + p_reader pipe;
               writable = (if w > len then len else w)
           in do {
             p \<leftarrow> pipe_copy_in (pipe\<lparr>p_wlock := True\<rparr>) data pos writable;
             Some (p\<lparr>p_wlock := False\<rparr>, writable) })"

text \<open>\<open>__xpipe_read(pipe, buf + pos, len)\<close>: the same with the roles exchanged.\<close>

definition pipe_copy_out :: "xpipe \<Rightarrow> bytes \<Rightarrow> nat \<Rightarrow> u64 \<Rightarrow> (xpipe \<times> bytes) option" where
  "pipe_copy_out p buf pos readable =
     (if readable > 0 then
        let off = p_reader p AND (p_len p - 1); leftover = p_len p - off in
        if leftover \<ge> readable then do {
          b \<leftarrow> mcopy buf pos (p_buf p) (unat off) (unat readable);
          Some (p\<lparr>p_reader := p_reader p + readable\<rparr>, b) }
        else do {
          b \<leftarrow> mcopy buf pos (p_buf p) (unat off) (unat leftover);
          b' \<leftarrow> mcopy b (pos + unat leftover) (p_buf p) 0 (unat (readable - leftover));
          Some (p\<lparr>p_reader := p_reader p + readable\<rparr>, b') }
      else Some (p, buf))"

definition raw_xpipe_read :: "xpipe \<Rightarrow> bytes \<Rightarrow> nat \<Rightarrow> u64 \<Rightarrow> (xpipe \<times> bytes \<times> u64) option" where
  "raw_xpipe_read pipe buf pos len =
     (if p_rlock pipe then Some (pipe, buf, 0)
      else let r = p_writer pipe - p_reader pipe;
               readable = (if r > len then len else r)
           in do {
             (p, b) \<leftarrow> pipe_copy_out (pipe\<lparr>p_rlock := True\<rparr>) buf pos readable;
             Some (p\<lparr>p_rlock := False\<rparr>, b, readable) })"

definition xpipe_clear :: "xpipe \<Rightarrow> xpipe" where
  "xpipe_clear p = (let p1 = p\<lparr>p_reader := p_reader p - p_reader p\<rparr>
                    in p1\<lparr>p_writer := p_writer p1 - p_writer p1\<rparr>)"

definition xpipe_break :: "xpipe \<Rightarrow> xpipe" where
  "xpipe_break p = p\<lparr>p_breaker := True\<rparr>"

text \<open>
  The size of the ring: the argument itself when it passes the power-of-two test, else the loop
  \<open>do { size <<= 1 } while (len >>= 1)\<close> started at 1.
\<close>

function pipe_size_loop :: "u64 \<Rightarrow> u64 \<Rightarrow> u64" where
  "pipe_size_loop sz len =
     (let sz' = push_bit 1 sz; len' = drop_bit 1 len
      in if len' \<noteq> 0 then pipe_size_loop sz' len' else sz')"
  by pat_completeness auto
termination
proof (relation "measure (\<lambda>(s, l). unat l)")
  fix sz len :: u64 and x y
  assume "y = drop_bit 1 len" and "y \<noteq> 0"
  then have "unat y = unat len div 2" and "0 < unat len div 2"
    by (auto simp: drop_bit_eq_div unat_div unat_eq_0 simp flip: unat_eq_zero)
  then show "((x, y), sz, len) \<in> measure (\<lambda>(s, l). unat l)" by simp
qed simp

declare pipe_size_loop.simps [simp del]

definition pipe_size :: "u64 \<Rightarrow> u64" where
  "pipe_size len = (if len AND (len - 1) = 0 then len else pipe_size_loop 1 len)"

text \<open>
  \<open>xpipe_create(len, name)\<close>. The allocator decides whether the two allocations and the mutex
  succeed (\<open>ok_pipe\<close>, \<open>ok_buf\<close>, \<open>ok_mutex\<close>) and what the fresh buffer holds (\<open>junk\<close>). When the
  first allocation fails the function returns NULL (the inner \<^term>\<open>None\<close>). When the second fails
  the cleanup path calls \<open>xpipe_break\<close> on \<open>pipe->mutex\<close> before any value was stored in it, and
  when the mutex cannot be created it locks a NULL mutex: both are undefined behaviour.
\<close>

definition pipe_name :: "bytes \<Rightarrow> bytes option" where
  "pipe_name name = do {
     n \<leftarrow> slength (Some name);
     if n > 15 then do { s \<leftarrow> mcopy (replicate 16 0) 0 name 0 15; wr s 15 0 }
     else do { s \<leftarrow> mcopy (replicate 16 0) 0 name 0 n; wr s n 0 } }"

definition xpipe_create ::
  "bool \<Rightarrow> bool \<Rightarrow> bool \<Rightarrow> (nat \<Rightarrow> u8) \<Rightarrow> u64 \<Rightarrow> bytes \<Rightarrow> xpipe option option" where
  "xpipe_create ok_pipe ok_buf ok_mutex junk len name =
     (if \<not> ok_pipe then Some None
      else do {
        nm \<leftarrow> pipe_name name;
        let sz = pipe_size len;
        if ok_buf \<and> ok_mutex
        then Some (Some \<lparr>p_len = sz, p_writer = 0, p_reader = 0, p_breaker = False,
               p_rlock = False, p_wlock = False, p_rblock = False, p_wblock = False,
               p_name = nm, p_buf = map junk [0..<unat sz]\<rparr>)
        else None })"

section \<open>Ring arithmetic\<close>

definition ring_put :: "nat \<Rightarrow> bytes \<Rightarrow> nat \<Rightarrow> nat \<Rightarrow> bytes \<Rightarrow> bytes" where
  "ring_put L b off n d =
     (if n \<le> L - off then put_seg b off (take n d)
      else put_seg (put_seg b off (take (L - off) d)) 0 (take (n - (L - off)) (drop (L - off) d)))"

lemma ring_index:
  fixes off i L :: nat
  assumes "off < L" and "i < L"
  shows "(off + i) mod L = (if off + i < L then off + i else off + i - L)"
  using assms by (cases "off + i < L") (simp_all add: le_mod_geq)

lemma length_ring_put:
  assumes "off < L" and "length b = L" and "n \<le> L" and "n \<le> length d"
  shows "length (ring_put L b off n d) = L"
  using assms by (simp add: ring_put_def)

lemma ring_put_nth:
  assumes "off < L" and "length b = L" and "n \<le> L" and "n \<le> length d" and "i < L"
  shows "ring_put L b off n d ! ((off + i) mod L) = (if i < n then d ! i else b ! ((off + i) mod L))"
proof (cases "n \<le> L - off")
  case True
  then show ?thesis
    using assms by (cases "off + i < L") (auto simp: ring_put_def ring_index nth_put_seg)
next
  case False
  let ?b1 = "put_seg b off (take (L - off) d)"
  let ?t = "take (n - (L - off)) (drop (L - off) d)"
  have b1: "length ?b1 = L" and t: "length ?t = n - (L - off)" using False assms by auto
  have "put_seg ?b1 0 ?t ! ((off + i) mod L) = (if i < n then d ! i else b ! ((off + i) mod L))"
  proof (cases "off + i < L")
    case True
    have "put_seg ?b1 0 ?t ! (off + i) = ?b1 ! (off + i)"
    proof (subst nth_put_seg)
      have "\<not> off + i < 0 + length ?t" using False assms(1-3) unfolding t by linarith
      then show "(if 0 \<le> off + i \<and> off + i < 0 + length ?t then ?t ! (off + i - 0)
          else ?b1 ! (off + i)) = ?b1 ! (off + i)" by (intro if_not_P) blast
    qed (use True b1 t assms in auto)
    also have "\<dots> = d ! i" using True False assms by (simp add: nth_put_seg)
    moreover have "i < n" using True False by linarith
    ultimately show ?thesis using True assms by (simp add: ring_index)
  next
    case wrap: False
    then have k: "off + i - L < L" "off + i - L < off" using assms by auto
    show ?thesis
    proof (cases "i < n")
      case True
      then have "put_seg ?b1 0 ?t ! (off + i - L) = ?t ! (off + i - L)"
        using wrap b1 t k assms by (subst nth_put_seg) auto
      also have "\<dots> = d ! i" using True wrap assms by simp
      finally show ?thesis using True wrap assms by (simp add: ring_index)
    next
      case big: False
      then have "put_seg ?b1 0 ?t ! (off + i - L) = ?b1 ! (off + i - L)"
        using wrap b1 t k assms by (subst nth_put_seg) auto
      also have "\<dots> = b ! (off + i - L)" using k assms by (simp add: nth_put_seg)
      finally show ?thesis using big wrap assms by (simp add: ring_index)
    qed
  qed
  then show ?thesis using False by (simp add: ring_put_def)
qed

definition pipe_inv :: "xpipe \<Rightarrow> bool" where
  "pipe_inv p \<longleftrightarrow> pow2 (p_len p) \<and> length (p_buf p) = unat (p_len p)
     \<and> unat (xpipe_readable p) \<le> unat (p_len p)"

definition pipe_data :: "xpipe \<Rightarrow> bytes" where
  "pipe_data p = map (\<lambda>i. p_buf p ! ((unat (p_reader p) + i) mod unat (p_len p)))
                     [0..<unat (xpipe_readable p)]"

lemma length_pipe_data [simp]: "length (pipe_data p) = unat (xpipe_readable p)"
  by (simp add: pipe_data_def)

lemma unat_writable:
  assumes "pipe_inv p"
  shows "unat (xpipe_writable p) = unat (p_len p) - length (pipe_data p)"
proof -
  have "xpipe_writable p = p_len p - xpipe_readable p"
    by (simp add: xpipe_writable_def xpipe_readable_def)
  moreover have "xpipe_readable p \<le> p_len p"
    using assms by (simp add: pipe_inv_def word_le_nat_alt)
  ultimately show ?thesis by (simp add: unat_sub)
qed

lemma writer_mod:
  assumes "pipe_inv p"
  shows "unat (p_writer p) mod unat (p_len p)
       = (unat (p_reader p) + unat (xpipe_readable p)) mod unat (p_len p)"
proof -
  have "p_writer p = p_reader p + xpipe_readable p" by (simp add: xpipe_readable_def)
  then have "unat (p_writer p) = (unat (p_reader p) + unat (xpipe_readable p)) mod 2 ^ LENGTH(64)"
    by (simp only: unat_word_ariths)
  then show ?thesis using assms pow2_dvd[of "p_len p"]
    by (simp add: pipe_inv_def mod_mod_cancel)
qed

lemma pipe_inv_dest:
  assumes "pipe_inv p"
  shows "0 < unat (p_len p)" and "length (p_buf p) = unat (p_len p)"
    and "unat (x AND (p_len p - 1)) = unat x mod unat (p_len p)"
    and "unat (p_len p - (x AND (p_len p - 1))) = unat (p_len p) - unat x mod unat (p_len p)"
    and "unat x mod unat (p_len p) < unat (p_len p)"
proof -
  show 0: "0 < unat (p_len p)" and "length (p_buf p) = unat (p_len p)"
    using assms by (auto simp: pipe_inv_def pow2_unat_pos)
  show 1: "unat (x AND (p_len p - 1)) = unat x mod unat (p_len p)"
    using assms by (simp add: pipe_inv_def unat_ring_index)
  show 2: "unat x mod unat (p_len p) < unat (p_len p)" using 0 by simp
  then show "unat (p_len p - (x AND (p_len p - 1))) = unat (p_len p) - unat x mod unat (p_len p)"
    by (simp add: unat_sub word_le_nat_alt 1)
qed

text \<open>The two copies of a write amount to one update of the ring.\<close>

lemma pipe_copy_in_run:
  assumes inv: "pipe_inv p" and src: "pos + unat W \<le> length data" and fits: "unat W \<le> unat (p_len p)"
  shows "pipe_copy_in p data pos W =
    Some (p\<lparr>p_buf := ring_put (unat (p_len p)) (p_buf p) (unat (p_writer p) mod unat (p_len p))
                        (unat W) (drop pos data),
            p_writer := p_writer p + W\<rparr>)"
proof (cases "W = 0")
  case True
  then show ?thesis by (simp add: pipe_copy_in_def ring_put_def pipe_inv_dest[OF inv] less_imp_le)
next
  case False
  then have W0: "W > 0" by (simp add: word_gt_0)
  let ?L = "unat (p_len p)" and ?off = "p_writer p AND (p_len p - 1)"
  let ?o = "unat (p_writer p) mod ?L"
  note d = pipe_inv_dest[OF inv] pipe_inv_dest(5)[OF inv, of "p_writer p"]
  have le: "p_len p - ?off \<ge> W \<longleftrightarrow> unat W \<le> ?L - ?o" by (simp add: word_le_nat_alt d)
  show ?thesis
  proof (cases "unat W \<le> ?L - ?o")
    case True
    then show ?thesis
      using W0 le src d by (simp add: pipe_copy_in_def ring_put_def mcopy_eq)
  next
    case False
    define k where "k = ?L - ?o"
    have k: "k < unat W" "k \<le> ?L" "?o + k = ?L" using False d(6) by (auto simp: k_def)
    let ?b = "put_seg (p_buf p) ?o (take k (drop pos data))"
    have r: "unat (W - (p_len p - ?off)) = unat W - k"
      using k by (simp add: unat_sub word_le_nat_alt d k_def)
    have "mcopy (p_buf p) ?o data pos k = Some ?b"
      using k src fits d(2) by (intro mcopy_eq) auto
    moreover have "mcopy ?b 0 data (pos + k) (unat W - k)
        = Some (put_seg ?b 0 (take (unat W - k) (drop (pos + k) data)))"
      using k src fits d(2) by (intro mcopy_eq) auto
    ultimately show ?thesis
      using False W0 le k by (simp add: pipe_copy_in_def ring_put_def r d(3,4) add.commute[of pos] flip: k_def)
  qed
qed

lemma raw_xpipe_write_run:
  assumes inv: "pipe_inv p" and free: "\<not> p_wlock p" and src: "pos + unat len \<le> length data"
  defines "n \<equiv> min (unat (p_len p) - length (pipe_data p)) (unat len)"
  shows "raw_xpipe_write p data pos len =
    Some (p\<lparr>p_buf := ring_put (unat (p_len p)) (p_buf p) (unat (p_writer p) mod unat (p_len p)) n
                        (drop pos data),
            p_writer := p_writer p + of_nat n, p_wlock := False\<rparr>, of_nat n)"
proof -
  let ?w = "p_len p - p_writer p + p_reader p"
  have "unat (if ?w > len then len else ?w) = n"
    using unat_writable[OF inv] by (simp add: n_def unat_min_word xpipe_writable_def)
  moreover from this have "(if ?w > len then len else ?w) = of_nat n" by (rule word_eq_of_nat)
  moreover have "n \<le> unat len" "n \<le> unat (p_len p)" by (simp_all add: n_def)
  moreover have "pipe_inv (p\<lparr>p_wlock := True\<rparr>)"
    using inv by (simp add: pipe_inv_def xpipe_readable_def)
  ultimately show ?thesis
    using free src pipe_copy_in_run[of "p\<lparr>p_wlock := True\<rparr>" pos "of_nat n" data]
    by (simp add: raw_xpipe_write_def Let_def)
qed


lemma pipe_data_write:
  fixes p :: xpipe and n :: nat and d :: bytes
  defines "p' \<equiv> p\<lparr>p_buf := ring_put (unat (p_len p)) (p_buf p) (unat (p_writer p) mod unat (p_len p)) n d,
                  p_writer := p_writer p + of_nat n, p_wlock := False\<rparr>"
  assumes inv: "pipe_inv p" and fits: "n \<le> unat (p_len p) - length (pipe_data p)" and d: "n \<le> length d"
  shows "pipe_inv p'" and "pipe_data p' = pipe_data p @ take n d"
proof -
  let ?L = "unat (p_len p)" and ?k = "unat (xpipe_readable p)" and ?o = "unat (p_writer p) mod unat (p_len p)"
  note dest = pipe_inv_dest[OF inv] pipe_inv_dest(5)[OF inv, of "p_writer p"]
  have kL: "?k \<le> ?L" and n: "?k + n \<le> ?L" using inv fits by (auto simp: pipe_inv_def)
  have "xpipe_readable p' = xpipe_readable p + of_nat n" by (simp add: p'_def xpipe_readable_def)
  moreover have "?L < 2 ^ LENGTH(64)" by (rule unsigned_less)
  ultimately have rd': "unat (xpipe_readable p') = ?k + n"
    using n by (simp only: unat_word_ariths unat_of_nat) (simp add: mod_add_right_eq)
  have lb: "length (p_buf p') = ?L"
    using dest n d by (simp add: p'_def length_ring_put)
  show "pipe_inv p'" using inv rd' lb n by (simp add: pipe_inv_def) (simp add: p'_def)
  show "pipe_data p' = pipe_data p @ take n d"
  proof (rule nth_equalityI)
    show "length (pipe_data p') = length (pipe_data p @ take n d)" using rd' d by simp
    fix i assume "i < length (pipe_data p')"
    then have i: "i < ?k + n" by (simp add: rd')
    define j where "j = (if i < ?k then ?L - ?k + i else i - ?k)"
    have jL: "j < ?L" using i n by (auto simp: j_def)
    have idx: "(unat (p_reader p) + i) mod ?L = (?o + j) mod ?L"
    proof -
      have "(?o + j) mod ?L = (unat (p_reader p) + ?k + j) mod ?L"
        by (simp add: writer_mod[OF inv] mod_add_left_eq)
      also have "\<dots> = (unat (p_reader p) + i) mod ?L"
      proof (cases "i < ?k")
        case True
        then have "unat (p_reader p) + ?k + j = unat (p_reader p) + i + ?L" using kL by (simp add: j_def)
        then show ?thesis by (simp only: mod_add_self2)
      qed (simp add: j_def)
      finally show ?thesis by simp
    qed
    have "pipe_data p' ! i = p_buf p' ! ((unat (p_reader p) + i) mod ?L)"
      using i rd' by (simp add: pipe_data_def) (simp add: p'_def)
    also have "\<dots> = (if j < n then d ! j else p_buf p ! ((?o + j) mod ?L))"
      unfolding idx using ring_put_nth[OF _ _ _ d jL] dest n by (simp add: p'_def)
    also have "\<dots> = (if j < n then d ! j else p_buf p ! ((unat (p_reader p) + i) mod ?L))"
      by (simp only: idx)
    also have "\<dots> = (pipe_data p @ take n d) ! i"
      using i n kL by (cases "i < ?k") (auto simp: j_def nth_append pipe_data_def)
    finally show "pipe_data p' ! i = (pipe_data p @ take n d) ! i" .
  qed
qed


text \<open>The read side: the bytes taken out are the front of the queue.\<close>

lemma pipe_copy_out_run:
  assumes inv: "pipe_inv p" and dst: "pos + unat R \<le> length buf"
    and avail: "unat R \<le> length (pipe_data p)"
  shows "pipe_copy_out p buf pos R =
    Some (p\<lparr>p_reader := p_reader p + R\<rparr>, put_seg buf pos (take (unat R) (pipe_data p)))"
proof (cases "R = 0")
  case True
  then show ?thesis using dst by (simp add: pipe_copy_out_def)
next
  case False
  then have R0: "R > 0" by (simp add: word_gt_0)
  let ?L = "unat (p_len p)" and ?off = "p_reader p AND (p_len p - 1)" and ?n = "unat R"
  let ?o = "unat (p_reader p) mod ?L"
  note d = pipe_inv_dest[OF inv] pipe_inv_dest(5)[OF inv, of "p_reader p"]
  have nL: "?n \<le> ?L" using inv avail by (simp add: pipe_inv_def)
  have le: "p_len p - ?off \<ge> R \<longleftrightarrow> ?n \<le> ?L - ?o" by (simp add: word_le_nat_alt d)
  have nth: "pipe_data p ! i = p_buf p ! ((?o + i) mod ?L)" if "i < ?n" for i
    using that avail by (simp add: pipe_data_def mod_add_left_eq)
  show ?thesis
  proof (cases "?n \<le> ?L - ?o")
    case True
    have "take ?n (drop ?o (p_buf p)) = take ?n (pipe_data p)"
      using True d avail by (intro nth_equalityI) (auto simp: nth)
    moreover have "mcopy buf pos (p_buf p) ?o ?n = Some (put_seg buf pos (take ?n (drop ?o (p_buf p))))"
      using True dst d by (intro mcopy_eq) auto
    ultimately show ?thesis using True R0 le by (simp add: pipe_copy_out_def d(3))
  next
    case False
    define k where "k = ?L - ?o"
    have k: "k < ?n" "k \<le> ?L" "?o + k = ?L" using False d(6) by (auto simp: k_def)
    have r: "unat (R - (p_len p - ?off)) = ?n - k"
      using k by (simp add: unat_sub word_le_nat_alt d k_def)
    let ?x = "take k (drop ?o (p_buf p))" and ?y = "take (?n - k) (p_buf p)"
    have len: "length ?x = k" "length ?y = ?n - k" using k d(2) nL by auto
    have xy: "?x @ ?y = take ?n (pipe_data p)"
      using k d(2) nL avail
      by (intro nth_equalityI) (auto simp: nth nth_append ring_index le_mod_geq add.commute)
    have "mcopy buf pos (p_buf p) ?o k = Some (put_seg buf pos ?x)"
      using k dst d(2) by (intro mcopy_eq) auto
    moreover have "mcopy (put_seg buf pos ?x) (pos + k) (p_buf p) 0 (?n - k)
        = Some (put_seg (put_seg buf pos ?x) (pos + k) ?y)"
      using k dst d(2) nL len by (subst mcopy_eq) auto
    moreover have "put_seg (put_seg buf pos ?x) (pos + k) ?y = put_seg buf pos (?x @ ?y)"
      using put_seg_append[of pos ?x ?y buf] len dst k by simp
    ultimately show ?thesis
      using False R0 le k by (simp add: pipe_copy_out_def r d(3,4) xy flip: k_def)
  qed
qed

lemma pipe_data_read:
  fixes p :: xpipe and n :: nat
  defines "p' \<equiv> p\<lparr>p_reader := p_reader p + of_nat n, p_rlock := False\<rparr>"
  assumes inv: "pipe_inv p" and avail: "n \<le> length (pipe_data p)"
  shows "pipe_inv p'" and "pipe_data p' = drop n (pipe_data p)"
proof -
  let ?L = "unat (p_len p)" and ?k = "unat (xpipe_readable p)"
  have n: "n \<le> ?k" using avail by simp
  then have "n < 2 ^ LENGTH(64)" by (rule le_less_trans[OF _ unsigned_less])
  then have un: "unat (of_nat n :: u64) = n" by (simp add: unat_of_nat)
  have "xpipe_readable p' = xpipe_readable p - of_nat n" by (simp add: p'_def xpipe_readable_def)
  then have rd': "unat (xpipe_readable p') = ?k - n"
    using n un by (simp add: unat_sub word_le_nat_alt)
  show "pipe_inv p'" using inv rd' by (simp add: pipe_inv_def) (auto simp: p'_def)
  have "unat (p_reader p') = (unat (p_reader p) + n) mod 2 ^ LENGTH(64)"
    using un by (simp add: p'_def unat_word_ariths)
  then have r: "(unat (p_reader p') + i) mod ?L = (unat (p_reader p) + (n + i)) mod ?L" for i
  proof -
    have "unat (p_reader p') mod ?L = (unat (p_reader p) + n) mod ?L"
      using \<open>unat (p_reader p') = _\<close> inv pow2_dvd[of "p_len p"]
      by (simp add: pipe_inv_def mod_mod_cancel)
    then show ?thesis by (metis add.assoc mod_add_left_eq)
  qed
  show "pipe_data p' = drop n (pipe_data p)"
  proof (rule nth_equalityI)
    show "length (pipe_data p') = length (drop n (pipe_data p))" by (simp add: rd')
    fix i assume "i < length (pipe_data p')"
    then have "i < ?k - n" by (simp add: rd')
    then show "pipe_data p' ! i = drop n (pipe_data p) ! i"
      using r[of i] n rd' by (simp add: pipe_data_def) (simp add: p'_def)
  qed
qed

lemma raw_xpipe_read_run:
  assumes inv: "pipe_inv p" and free: "\<not> p_rlock p" and dst: "pos + unat len \<le> length buf"
  defines "n \<equiv> min (length (pipe_data p)) (unat len)"
  shows "raw_xpipe_read p buf pos len =
    Some (p\<lparr>p_reader := p_reader p + of_nat n, p_rlock := False\<rparr>,
          put_seg buf pos (take n (pipe_data p)), of_nat n)"
proof -
  let ?r = "p_writer p - p_reader p"
  have "unat (if ?r > len then len else ?r) = n"
    by (simp add: n_def unat_min_word xpipe_readable_def)
  moreover from this have "(if ?r > len then len else ?r) = of_nat n" by (rule word_eq_of_nat)
  moreover have "n \<le> unat len" "n \<le> length (pipe_data p)" by (simp_all add: n_def)
  moreover have "pipe_inv (p\<lparr>p_rlock := True\<rparr>)" "pipe_data (p\<lparr>p_rlock := True\<rparr>) = pipe_data p"
    using inv by (simp_all add: pipe_inv_def pipe_data_def xpipe_readable_def)
  ultimately show ?thesis
    using free dst pipe_copy_out_run[of "p\<lparr>p_rlock := True\<rparr>" pos "of_nat n" buf]
    by (simp add: raw_xpipe_read_def Let_def)
qed

section \<open>The pipe as a bounded FIFO\<close>

text \<open>
  What the users of the pipe (the message queues of \<open>xltp.c\<close> and \<open>xlio.c\<close>) rely on: a write
  appends as much as fits, a read takes from the front, the capacity never changes.
\<close>

datatype fifo_op = Put bytes | Get nat

fun fifo_run ::
  "('p \<Rightarrow> bytes \<Rightarrow> ('p \<times> nat) option) \<Rightarrow> ('p \<Rightarrow> nat \<Rightarrow> ('p \<times> bytes) option) \<Rightarrow> 'p \<Rightarrow>
   fifo_op list \<Rightarrow> ('p \<times> bytes \<times> bytes) option" where
  "fifo_run put get p [] = Some (p, [], [])"
| "fifo_run put get p (Put d # ops) = do {
     (p1, n) \<leftarrow> put p d;
     (p2, i, out) \<leftarrow> fifo_run put get p1 ops;
     Some (p2, take n d @ i, out) }"
| "fifo_run put get p (Get k # ops) = do {
     (p1, bs) \<leftarrow> get p k;
     (p2, i, out) \<leftarrow> fifo_run put get p1 ops;
     Some (p2, i, bs @ out) }"

fun fifo_op_ok :: "fifo_op \<Rightarrow> bool" where
  "fifo_op_ok (Put d) = (length d < 2 ^ 64)"
| "fifo_op_ok (Get k) = (k < 2 ^ 64)"

locale byte_fifo =
  fixes inv :: "'p \<Rightarrow> bool"
    and contents :: "'p \<Rightarrow> bytes"
    and cap :: "'p \<Rightarrow> nat"
    and put :: "'p \<Rightarrow> bytes \<Rightarrow> ('p \<times> nat) option"
    and get :: "'p \<Rightarrow> nat \<Rightarrow> ('p \<times> bytes) option"
  assumes bounded: "inv p \<Longrightarrow> length (contents p) \<le> cap p"
    and put_law: "inv p \<Longrightarrow> length d < 2 ^ 64 \<Longrightarrow>
      \<exists>p'. put p d = Some (p', min (cap p - length (contents p)) (length d)) \<and> inv p'
         \<and> cap p' = cap p
         \<and> contents p' = contents p @ take (cap p - length (contents p)) d"
    and get_law: "inv p \<Longrightarrow> k < 2 ^ 64 \<Longrightarrow>
      \<exists>p'. get p k = Some (p', take k (contents p)) \<and> inv p' \<and> cap p' = cap p
         \<and> contents p' = drop k (contents p)"
begin

text \<open>Over any run nothing is lost, duplicated or reordered.\<close>

lemma run_conserves:
  assumes "inv p" and "list_all fifo_op_ok ops"
  shows "\<exists>p' i out. fifo_run put get p ops = Some (p', i, out) \<and> inv p' \<and> cap p' = cap p
           \<and> contents p @ i = out @ contents p'"
  using assms
proof (induction ops arbitrary: p)
  case (Cons op ops)
  show ?case
  proof (cases op)
    case (Put d)
    let ?n = "min (cap p - length (contents p)) (length d)"
    obtain p1 where p1: "put p d = Some (p1, ?n)" "inv p1" "cap p1 = cap p"
        "contents p1 = contents p @ take (cap p - length (contents p)) d"
      using put_law[of p d] Put Cons.prems by auto
    moreover obtain p' i out where "fifo_run put get p1 ops = Some (p', i, out)" "inv p'"
        "cap p' = cap p1" "contents p1 @ i = out @ contents p'"
      using Cons.IH[of p1] p1 Cons.prems by auto
    moreover have "take ?n d = take (cap p - length (contents p)) d" by (simp add: min_def)
    ultimately show ?thesis using Put by simp
  next
    case (Get k)
    obtain p1 where p1: "get p k = Some (p1, take k (contents p))" "inv p1" "cap p1 = cap p"
        "contents p1 = drop k (contents p)"
      using get_law[of p k] Get Cons.prems by auto
    moreover obtain p' i out where "fifo_run put get p1 ops = Some (p', i, out)" "inv p'"
        "cap p' = cap p1" "contents p1 @ i = out @ contents p'"
      using Cons.IH[of p1] p1 Cons.prems by auto
    moreover have "contents p @ i = take k (contents p) @ contents p1 @ i" by (simp add: p1(4))
    ultimately show ?thesis using Get by simp
  qed
qed simp

text \<open>
  The queues carry pointers: when the capacity and the current length are multiples of the
  record size, a record is written whole or not at all, and the length stays a multiple.
\<close>

lemma put_record_atomic:
  assumes "inv p" and "length d < 2 ^ 64" and "length d dvd cap p"
    and "length d dvd length (contents p)"
  shows "\<exists>p' n. put p d = Some (p', n) \<and> inv p' \<and> cap p' = cap p \<and>
      ((n = length d \<and> contents p' = contents p @ d)
        \<or> (n = 0 \<and> contents p' = contents p \<and> length (contents p) = cap p))"
proof -
  let ?free = "cap p - length (contents p)"
  have "length d dvd ?free" using assms bounded by (simp add: dvd_diff_nat)
  then consider "?free = 0" | "length d \<le> ?free" by (cases "?free = 0") (auto dest: dvd_imp_le)
  then show ?thesis
    using put_law[OF assms(1,2)] bounded[OF assms(1)] by cases fastforce+
qed

end

definition pipe_put :: "xpipe \<Rightarrow> bytes \<Rightarrow> (xpipe \<times> nat) option" where
  "pipe_put p d = map_option (\<lambda>(p', n). (p', unat n)) (raw_xpipe_write p d 0 (of_nat (length d)))"

definition pipe_get :: "xpipe \<Rightarrow> nat \<Rightarrow> (xpipe \<times> bytes) option" where
  "pipe_get p k = map_option (\<lambda>(p', buf, n). (p', take (unat n) buf))
                    (raw_xpipe_read p (replicate k 0) 0 (of_nat k))"

definition pipe_idle :: "xpipe \<Rightarrow> bool" where
  "pipe_idle p \<longleftrightarrow> pipe_inv p \<and> \<not> p_wlock p \<and> \<not> p_rlock p"

abbreviation pipe_cap :: "xpipe \<Rightarrow> nat" where
  "pipe_cap p \<equiv> unat (p_len p)"

lemma pipe_put_law:
  assumes "pipe_idle p" and "length d < 2 ^ 64"
  shows "\<exists>p'. pipe_put p d = Some (p', min (pipe_cap p - length (pipe_data p)) (length d))
     \<and> pipe_idle p' \<and> pipe_cap p' = pipe_cap p
     \<and> pipe_data p' = pipe_data p @ take (pipe_cap p - length (pipe_data p)) d"
proof -
  let ?n = "min (pipe_cap p - length (pipe_data p)) (length d)"
  let ?p = "p\<lparr>p_buf := ring_put (pipe_cap p) (p_buf p) (unat (p_writer p) mod pipe_cap p) ?n d,
              p_writer := p_writer p + of_nat ?n, p_wlock := False\<rparr>"
  have un: "unat (of_nat (length d) :: u64) = length d" "unat (of_nat ?n :: u64) = ?n"
    using assms(2) by (simp_all add: unat_of_nat)
  have inv: "pipe_inv p" "\<not> p_wlock p" "\<not> p_rlock p" using assms by (auto simp: pipe_idle_def)
  have "raw_xpipe_write p d 0 (of_nat (length d)) = Some (?p, of_nat ?n)"
    using raw_xpipe_write_run[OF inv(1,2), of 0 "of_nat (length d)" d] un by simp
  moreover have "pipe_inv ?p" and "pipe_data ?p = pipe_data p @ take ?n d"
    using pipe_data_write[OF inv(1), of ?n d] by simp_all
  moreover have "take ?n d = take (pipe_cap p - length (pipe_data p)) d" by (simp add: min_def)
  ultimately show ?thesis
    using inv un by (intro exI[of _ ?p]) (simp add: pipe_put_def pipe_idle_def)
qed

lemma pipe_get_law:
  assumes "pipe_idle p" and "k < 2 ^ 64"
  shows "\<exists>p'. pipe_get p k = Some (p', take k (pipe_data p)) \<and> pipe_idle p'
     \<and> pipe_cap p' = pipe_cap p \<and> pipe_data p' = drop k (pipe_data p)"
proof -
  let ?n = "min (length (pipe_data p)) k"
  let ?p = "p\<lparr>p_reader := p_reader p + of_nat ?n, p_rlock := False\<rparr>"
  have un: "unat (of_nat k :: u64) = k" "unat (of_nat ?n :: u64) = ?n"
    using assms(2) by (simp_all add: unat_of_nat)
  have inv: "pipe_inv p" "\<not> p_wlock p" "\<not> p_rlock p" using assms by (auto simp: pipe_idle_def)
  have "raw_xpipe_read p (replicate k 0) 0 (of_nat k)
      = Some (?p, put_seg (replicate k 0) 0 (take ?n (pipe_data p)), of_nat ?n)"
    using raw_xpipe_read_run[OF inv(1,3), of 0 "of_nat k" "replicate k 0"] un by simp
  moreover have "pipe_inv ?p" and "pipe_data ?p = drop ?n (pipe_data p)"
    using pipe_data_read[OF inv(1), of ?n] by simp_all
  moreover have "take ?n (put_seg (replicate k 0) 0 (take ?n (pipe_data p))) = take k (pipe_data p)"
    by (simp add: put_seg_def min_def)
  moreover have "drop ?n (pipe_data p) = drop k (pipe_data p)" by (simp add: min_def)
  ultimately show ?thesis
    using inv un by (intro exI[of _ ?p]) (simp add: pipe_get_def pipe_idle_def)
qed

interpretation pipe_fifo: byte_fifo pipe_idle pipe_data pipe_cap pipe_put pipe_get
proof unfold_locales
  show "length (pipe_data p) \<le> pipe_cap p" if "pipe_idle p" for p
    using that by (simp add: pipe_idle_def pipe_inv_def)
qed (use pipe_put_law pipe_get_law in auto)

section \<open>Creation\<close>

lemma pipe_size_loop_pow2:
  assumes "len \<noteq> 0"
  shows "\<exists>b. 2 ^ b \<le> unat len \<and> unat len < 2 ^ (b + 1)
           \<and> pipe_size_loop (2 ^ a) len = 2 ^ (a + b + 1)"
  using assms
proof (induction "(2::u64) ^ a" len arbitrary: a rule: pipe_size_loop.induct)
  case (1 len a)
  have sh: "push_bit 1 ((2::u64) ^ a) = 2 ^ (a + 1)" by (simp add: push_bit_eq_mult)
  have half: "unat (drop_bit 1 len) = unat len div 2" by (simp add: drop_bit_eq_div unat_div)
  show ?case
  proof (cases "drop_bit 1 len = 0")
    case True
    then have "unat len div 2 = 0" using half by simp
    moreover have "0 < unat len" using 1(2) by (simp add: unat_gt_0)
    ultimately have "unat len = 1" by linarith
    then show ?thesis
      using True by (intro exI[of _ 0]) (subst pipe_size_loop.simps, simp add: sh)
  next
    case False
    then obtain b where b: "2 ^ b \<le> unat len div 2" "unat len div 2 < 2 ^ (b + 1)"
        "pipe_size_loop (2 ^ (a + 1)) (drop_bit 1 len) = 2 ^ (a + 1 + b + 1)"
      using 1(1)[of "a + 1" "drop_bit 1 len"] sh half by auto
    then have "2 ^ (b + 1) \<le> unat len" "unat len < 2 ^ (b + 1 + 1)" by auto
    with b False show ?thesis
      by (intro exI[of _ "b + 1"]) (subst pipe_size_loop.simps, simp add: sh mult.commute)
  qed
qed

lemma top_bit_set: "2 ^ b \<le> unat x \<Longrightarrow> unat x < 2 ^ (b + 1) \<Longrightarrow> bit x b" for x :: "'a::len word"
proof -
  assume "2 ^ b \<le> unat x" "unat x < 2 ^ (b + 1)"
  then have "unat x div 2 ^ b = 1" by (simp add: div_nat_eqI)
  then have "bit (unat x) b" by (simp add: bit_iff_odd)
  then show ?thesis by (simp add: bit_unsigned_iff)
qed

lemma and_pred_zero_pow2:
  assumes "len AND (len - 1) = 0" and "len \<noteq> (0::u64)"
  shows "pow2 len"
proof -
  obtain b where b: "2 ^ b \<le> unat len" "unat len < 2 ^ (b + 1)"
    using pipe_size_loop_pow2[OF assms(2), of 0] by auto
  have "b < 64"
  proof (rule ccontr)
    assume "\<not> b < 64"
    then have "(2::nat) ^ 64 \<le> 2 ^ b" by (intro power_increasing) auto
    moreover have "unat len < 2 ^ LENGTH(64)" by (rule unsigned_less)
    ultimately show False using b(1) by simp
  qed
  have "unat len = 2 ^ b"
  proof (rule ccontr)
    assume "unat len \<noteq> 2 ^ b"
    then have "2 ^ b \<le> unat (len - 1)" "unat (len - 1) < 2 ^ (b + 1)"
      using b assms(2) by (auto simp: unat_minus_one)
    then have "bit (len AND (len - 1)) b" using b by (simp add: bit_and_iff top_bit_set)
    then show False using assms(1) by simp
  qed
  then have "len = 2 ^ b" using \<open>b < 64\<close> by (simp add: word_unat_eq_iff unat_exp_eq)
  then show ?thesis using \<open>b < 64\<close> by (auto simp: pow2_def)
qed

lemma pipe_size_bounds:
  assumes "0 < len" and "len \<le> 2 ^ 63"
  shows "pow2 (pipe_size len)" and "len \<le> pipe_size len" and "unat (pipe_size len) < 2 * unat len"
proof -
  have len: "len \<noteq> 0" "unat len \<le> 2 ^ 63" using assms by (auto simp: word_le_nat_alt word_gt_0)
  have "pow2 (pipe_size len) \<and> unat len \<le> unat (pipe_size len) \<and> unat (pipe_size len) < 2 * unat len"
  proof (cases "len AND (len - 1) = 0")
    case True
    with len show ?thesis by (simp add: pipe_size_def and_pred_zero_pow2 unat_gt_0)
  next
    case False
    obtain b where b: "2 ^ b \<le> unat len" "unat len < 2 ^ (b + 1)" "pipe_size_loop 1 len = 2 ^ (b + 1)"
      using pipe_size_loop_pow2[OF len(1), of 0] by auto
    have "unat len \<noteq> 2 ^ b"
    proof
      assume eq: "unat len = 2 ^ b"
      moreover have "b < 64" using eq len(2) power_increasing_iff[of "2::nat" b 63] by simp
      ultimately have "len = 2 ^ b" by (simp add: word_unat_eq_iff unat_exp_eq)
      then have "len AND (len - 1) = 2 ^ b AND mask b" by (simp add: mask_eq_exp_minus_1)
      also have "\<dots> = 0" by (rule bit_word_eqI) (auto simp: bit_and_iff bit_mask_iff bit_exp_iff)
      finally show False using False by simp
    qed
    then have "2 ^ b < (2::nat) ^ 63" using b len(2) by linarith
    then have "b < 63" by (rule power_less_imp_less_exp[rotated]) simp
    then have "unat (pipe_size len) = 2 ^ (b + 1)" "pow2 (pipe_size len)"
      using False b(3) unat_exp_eq[of "b + 1", where 'a = 64]
      by (auto simp: pipe_size_def pow2_def intro!: exI[of _ "b + 1"])
    with b \<open>unat len \<noteq> 2 ^ b\<close> show ?thesis by simp
  qed
  then show "pow2 (pipe_size len)" "len \<le> pipe_size len" "unat (pipe_size len) < 2 * unat len"
    by (auto simp: word_le_nat_alt)
qed


lemma pipe_name_total: "0 \<in> set name \<Longrightarrow> \<exists>nm. pipe_name name = Some nm \<and> length nm = 16"
proof -
  assume z: "0 \<in> set name"
  have "length (cstr name) \<le> length name"
    by (simp add: cstr_def length_takeWhile_le)
  then show ?thesis
    using z by (auto simp: pipe_name_def slength_eq mcopy_eq)
qed

text \<open>
  A freshly created pipe is an idle, empty ring whose size is a power of two, at least the
  size asked for and less than twice it, for every request from 1 byte to \<open>2^63\<close> bytes.
\<close>

theorem xpipe_create_capacity:
  assumes "0 < len" and "len \<le> 2 ^ 63" and "0 \<in> set name"
  shows "\<exists>p. xpipe_create True True True junk len name = Some (Some p)
     \<and> pipe_idle p \<and> pipe_data p = [] \<and> len \<le> p_len p \<and> unat (p_len p) < 2 * unat len"
proof -
  obtain nm where "pipe_name name = Some nm" using pipe_name_total[OF assms(3)] by blast
  then show ?thesis
    using pipe_size_bounds[OF assms(1,2)]
    by (simp add: xpipe_create_def Let_def pipe_idle_def pipe_inv_def pipe_data_def xpipe_readable_def)
qed

theorem xpipe_create_capacity_witness:
  "\<exists>p. xpipe_create True True True (\<lambda>_. 0) 100 [77, 0] = Some (Some p)
     \<and> pipe_idle p \<and> pipe_data p = [] \<and> 100 \<le> p_len p \<and> unat (p_len p) < 200"
  using xpipe_create_capacity[of 100 "[77, 0]" "\<lambda>_. 0"] by simp

text \<open>
  C7. The pipe is a FIFO: from an idle pipe any sequence of write and read attempts runs without
  leaving the buffers, and the bytes read so far followed by the bytes still in the ring are
  exactly the bytes that were in it followed by the bytes accepted, whatever the values of the two
  64-bit counters (also when they wrap).
\<close>

theorem xpipe_fifo:
  assumes "pipe_idle p" and "list_all fifo_op_ok ops"
  shows "\<exists>p' i out. fifo_run pipe_put pipe_get p ops = Some (p', i, out) \<and> pipe_idle p'
     \<and> pipe_cap p' = pipe_cap p \<and> pipe_data p @ i = out @ pipe_data p'"
  using assms by (rule pipe_fifo.run_conserves)

text \<open>The witness starts two bytes before the counters wrap, on a ring of four bytes.\<close>

definition wrap_pipe :: xpipe where
  "wrap_pipe = \<lparr>p_len = 4, p_writer = - 2, p_reader = - 2, p_breaker = False, p_rlock = False,
     p_wlock = False, p_rblock = False, p_wblock = False, p_name = [0], p_buf = [0, 0, 0, 0]\<rparr>"

lemma wrap_pipe_idle: "pipe_idle wrap_pipe"
proof -
  have "pow2 (4::u64)" by (auto simp: pow2_def intro: exI[of _ 2])
  then show ?thesis by (simp add: wrap_pipe_def pipe_idle_def pipe_inv_def xpipe_readable_def)
qed

theorem xpipe_fifo_witness:
  "\<exists>p' i out. fifo_run pipe_put pipe_get wrap_pipe [Put [1, 2, 3], Get 2, Put [4, 5, 6, 7], Get 4]
       = Some (p', i, out) \<and> pipe_idle p' \<and> pipe_cap p' = pipe_cap wrap_pipe
     \<and> pipe_data wrap_pipe @ i = out @ pipe_data p'"
  using xpipe_fifo[OF wrap_pipe_idle, of "[Put [1, 2, 3], Get 2, Put [4, 5, 6, 7], Get 4]"] by simp

text \<open>
  Records are atomic: on a pipe whose capacity and fill are multiples of the record size (the
  pointer queues, 8192 bytes of 8-byte records) a write attempt stores the whole record or, only when
  the ring is full, nothing; a short write never tears a record.
\<close>

theorem xpipe_record_atomic:
  assumes "pipe_idle p" and "length d < 2 ^ 64" and "length d dvd pipe_cap p"
    and "length d dvd length (pipe_data p)"
  shows "\<exists>p' n. pipe_put p d = Some (p', n) \<and> pipe_idle p' \<and> pipe_cap p' = pipe_cap p \<and>
      ((n = length d \<and> pipe_data p' = pipe_data p @ d)
        \<or> (n = 0 \<and> pipe_data p' = pipe_data p \<and> length (pipe_data p) = pipe_cap p))"
  using assms by (rule pipe_fifo.put_record_atomic)

theorem xpipe_record_atomic_witness:
  "\<exists>p' n. pipe_put wrap_pipe [8, 9] = Some (p', n) \<and> pipe_idle p' \<and> pipe_cap p' = pipe_cap wrap_pipe \<and>
      ((n = length [8::u8, 9] \<and> pipe_data p' = pipe_data wrap_pipe @ [8, 9])
        \<or> (n = 0 \<and> pipe_data p' = pipe_data wrap_pipe
             \<and> length (pipe_data wrap_pipe) = pipe_cap wrap_pipe))"
  by (rule xpipe_record_atomic[OF wrap_pipe_idle])
     (simp_all add: wrap_pipe_def xpipe_readable_def flip: numeral_2_eq_2)

end
