(* ===== verification/Xline_Codec.thy ===== *)
theory Xline_Codec
  imports Xline
begin

text \<open>
  The specification of the xline wire format and the proofs that the frame builders and the parser
  of \<open>Xline\<close> implement it.
\<close>

section \<open>Numbers\<close>

lemma xl_n2b_Cons: "xl_n2b n t = t # obj_le n"
  by (simp add: xl_n2b_le_def obj_le_def Let_def)

lemma length_obj_le [simp]: "length (obj_le n) = 8"
  by (simp add: obj_le_def)

lemma length_xl_n2b [simp]: "length (xl_n2b n t) = 9"
  by (simp add: xl_n2b_Cons)

lemma bit_byte_of: "bit (push_bit k (ucast (ucast (drop_bit k n) :: u8)) :: u64) m
    \<longleftrightarrow> k \<le> m \<and> m < k + 8 \<and> m < 64 \<and> bit n m" for n :: u64
  by (auto simp: bit_push_bit_iff bit_unsigned_iff bit_drop_bit_eq)

lemma bit_byte_of0: "bit (ucast (ucast n :: u8) :: u64) m \<longleftrightarrow> m < 8 \<and> bit n m" for n :: u64
  by (auto simp: bit_unsigned_iff)

lemma xl_b2n_holds:
  assumes "holds_at m a (t # obj_le n)"
  shows "xl_b2n m a = Some n"
proof -
  have seg: "rd_seg m a 9 = Some (t # obj_le n)"
    using holds_at_seg[OF assms] by simp
  have "push_bit 56 (ucast ((t # obj_le n) ! 8)) OR push_bit 48 (ucast ((t # obj_le n) ! 7))
     OR push_bit 40 (ucast ((t # obj_le n) ! 6)) OR push_bit 32 (ucast ((t # obj_le n) ! 5))
     OR push_bit 24 (ucast ((t # obj_le n) ! 4)) OR push_bit 16 (ucast ((t # obj_le n) ! 3))
     OR push_bit 8 (ucast ((t # obj_le n) ! 2)) OR ucast ((t # obj_le n) ! 1) = n"
  proof (rule bit_word_eqI)
    fix i assume "i < LENGTH(64)"
    then have "i < 64" by simp
    then show "bit (push_bit 56 (ucast ((t # obj_le n) ! 8)) OR push_bit 48 (ucast ((t # obj_le n) ! 7))
     OR push_bit 40 (ucast ((t # obj_le n) ! 6)) OR push_bit 32 (ucast ((t # obj_le n) ! 5))
     OR push_bit 24 (ucast ((t # obj_le n) ! 4)) OR push_bit 16 (ucast ((t # obj_le n) ! 3))
     OR push_bit 8 (ucast ((t # obj_le n) ! 2)) OR ucast ((t # obj_le n) ! 1) :: u64) i = bit n i"
      by (simp add: obj_le_def bit_or_iff bit_byte_of bit_byte_of0) linarith
  qed
  with seg show ?thesis by (simp add: xl_b2n_def)
qed

lemma xl_b2float_holds:
  assumes "holds_at m a (t # obj_le n)"
  shows "xl_b2float m a = Some (obj_le n)"
proof -
  have "rd_seg m a 9 = Some (t # obj_le n)" using holds_at_seg[OF assms] by simp
  then show ?thesis by (simp add: xl_b2float_def obj_le_def)
qed

section \<open>Values and their encoding\<close>

datatype xval = XInt u64 | XUint u64 | XReal u64 | XStr bytes | XBin bytes
  | XObj "(bytes \<times> xval) list" | XList "xval list"

definition enc_key :: "bytes \<Rightarrow> bytes" where
  "enc_key k = of_nat (length k + 1) # k @ [0]"

definition enc_block :: "u8 \<Rightarrow> bytes \<Rightarrow> bytes" where
  "enc_block t b = t # obj_le (of_nat (length b)) @ b"

fun enc_val :: "xval \<Rightarrow> bytes" where
  "enc_val (XInt n) = XLINE_TYPE_INT # obj_le n"
| "enc_val (XUint n) = XLINE_TYPE_UINT # obj_le n"
| "enc_val (XReal n) = XLINE_TYPE_REAL # obj_le n"
| "enc_val (XStr s) = enc_block XLINE_TYPE_STR s"
| "enc_val (XBin s) = enc_block XLINE_TYPE_BIN s"
| "enc_val (XObj fs) = enc_block XLINE_TYPE_OBJ (concat (map (\<lambda>(k, v). enc_key k @ enc_val v) fs))"
| "enc_val (XList vs) = enc_block XLINE_TYPE_LIST (concat (map enc_val vs))"

definition enc_field :: "bytes \<times> xval \<Rightarrow> bytes" where
  "enc_field f = enc_key (fst f) @ enc_val (snd f)"

definition enc_fields :: "(bytes \<times> xval) list \<Rightarrow> bytes" where
  "enc_fields fs = concat (map enc_field fs)"

lemma enc_val_XObj: "enc_val (XObj fs) = enc_block XLINE_TYPE_OBJ (enc_fields fs)"
  by (simp add: enc_fields_def enc_field_def[abs_def] case_prod_unfold)

declare enc_val.simps(6) [simp del] enc_val_XObj [simp]

lemma enc_fields_simps [simp]:
  "enc_fields [] = []" "enc_fields (f # fs) = enc_field f @ enc_fields fs"
  "enc_fields (fs @ gs) = enc_fields fs @ enc_fields gs"
  by (simp_all add: enc_fields_def)

lemma length_enc_key [simp]: "length (enc_key k) = length k + 2"
  by (simp add: enc_key_def)

lemma length_enc_block [simp]: "length (enc_block t b) = length b + 9"
  by (simp add: enc_block_def)

lemma enc_val_pos: "9 \<le> length (enc_val v)"
  by (cases v) auto

definition wf_key :: "bytes \<Rightarrow> bool" where
  "wf_key k \<longleftrightarrow> length k \<le> 64 \<and> 0 \<notin> set k"

lemma sizeof_line_holds:
  assumes "holds_at m a (enc_val v)" and "length (enc_val v) < 2 ^ 64"
  shows "xl_sizeof_line m a = Some (of_nat (length (enc_val v)))"
proof -
  have num: ?thesis if "holds_at m a (t # obj_le n)" "t \<le> XLINE_TYPE_REAL"
      "length (enc_val v) = 9" for t n
    using that by (simp add: xl_sizeof_line_def xl_typeis_num_def holds_at_rd)
  have blk: ?thesis if "enc_val v = enc_block t b" "\<not> t \<le> XLINE_TYPE_REAL" for t b
  proof -
    have "holds_at m a (t # obj_le (of_nat (length b)))"
      using assms(1) that(1) holds_at_append[of m a "t # obj_le (of_nat (length b))" b]
      by (simp add: enc_block_def)
    then show ?thesis
      using that by (simp add: xl_sizeof_line_def xl_typeis_num_def holds_at_rd xl_b2n_holds)
  qed
  show ?thesis
    using assms(1) num blk by (cases v) (auto simp: xline_types)
qed

lemma sizeof_body_block:
  assumes "holds_at m a (enc_block t b)" and "\<not> t \<le> XLINE_TYPE_REAL"
  shows "xl_sizeof_body m a = Some (of_nat (length b))"
proof -
  have "holds_at m a (t # obj_le (of_nat (length b)))"
    using assms(1) holds_at_append[of m a "t # obj_le (of_nat (length b))" b]
    by (simp add: enc_block_def)
  then show ?thesis
    using assms(2) by (simp add: xl_sizeof_body_def xl_typeis_num_def holds_at_rd xl_b2n_holds)
qed

section \<open>The parser on encoded fields\<close>

text \<open>A C string object for a key: the bytes before its first NUL are the key.\<close>

definition key_obj :: "bytes \<Rightarrow> bytes \<Rightarrow> bool" where
  "key_obj ks k \<longleftrightarrow> 0 \<in> set ks \<and> cstr ks = k"

lemma key_obj_slength: "key_obj ks k \<Longrightarrow> slength (Some ks) = Some (length k)"
  by (simp add: key_obj_def slength_eq)

lemma key_obj_prefix: "key_obj ks k \<Longrightarrow> holds_at ks 0 (k @ [0])"
proof -
  assume k: "key_obj ks k"
  have "\<exists>r. ks = k @ 0 # r"
  proof -
    have "dropWhile (\<lambda>c. c \<noteq> 0) ks \<noteq> []" using k by (auto simp: key_obj_def dropWhile_eq_Nil_conv)
    then obtain c r where c: "dropWhile (\<lambda>c. c \<noteq> 0) ks = c # r" by (cases "dropWhile (\<lambda>c. c \<noteq> 0) ks") auto
    then have "c = 0" using hd_dropWhile[of "\<lambda>c. c \<noteq> 0" ks] by auto
    then show ?thesis
      using c k takeWhile_dropWhile_id[of "\<lambda>c. c \<noteq> 0" ks] by (auto simp: key_obj_def cstr_def)
  qed
  then show ?thesis by (auto simp: holds_at_def)
qed

lemma key_len_byte:
  assumes "wf_key k"
  shows "unat (of_nat (length k + 1) :: u8) = length k + 1"
    and "(ucast (of_nat (length k + 1) :: u8) :: u64) = of_nat (length k + 1)"
proof -
  show 1: "unat (of_nat (length k + 1) :: u8) = length k + 1"
    by (simp only: unat_of_nat) (use assms in \<open>simp add: wf_key_def\<close>)
  have "(ucast (of_nat (length k + 1) :: u8) :: u64) = of_nat (unat (of_nat (length k + 1) :: u8))"
    by (rule ucast_u8_of_nat)
  then show "(ucast (of_nat (length k + 1) :: u8) :: u64) = of_nat (length k + 1)"
    by (simp only: 1)
qed

lemma xl_find_step_field:
  assumes hold: "holds_at (q_mem q) (q_ptr q + unat (q_rpos q)) (enc_key k @ enc_val v)"
    and wf: "wf_key k" and small: "unat (q_rpos q) + length k + 2 + length (enc_val v) < 2 ^ 64"
    and key: "key_obj ks key" and klen: "length key < 2 ^ 63"
  shows "xl_find_step q (Some ks) = Some
     (q\<lparr>q_key := q_ptr q + unat (q_rpos q) + (if key = k then 1 else 0),
        q_rpos := q_rpos q + of_nat (length k + 2 + length (enc_val v)),
        q_val := Some (q_ptr q + unat (q_rpos q) + length k + 2)\<rparr>, key = k)"
proof -
  let ?kp = "q_ptr q + unat (q_rpos q)" and ?c = "of_nat (length k + 1) :: u8"
  note c = key_len_byte[OF wf]
  have hk: "holds_at (q_mem q) ?kp (enc_key k)"
    and hv: "holds_at (q_mem q) (?kp + (length k + 2)) (enc_val v)"
    using hold by (simp_all add: holds_at_append)
  have rdk: "rd (q_mem q) ?kp = Some ?c" using hk by (simp add: enc_key_def holds_at_rd)
  have hk2: "holds_at (q_mem q) (?kp + 1) (k @ [0])" using hk by (simp add: enc_key_def holds_at_Cons)
  have r1: "unat (q_rpos q + (of_nat (length k + 1) + 1)) = unat (q_rpos q) + (length k + 2)"
    using unat_add_small[of "q_rpos q" "length k + 2"] small by simp
  have sz: "xl_sizeof_line (q_mem q) (?kp + (length k + 2)) = Some (of_nat (length (enc_val v)))"
    using hv small by (intro sizeof_line_holds) auto
  have len: "(of_nat (length key) :: u64) + 1 = ucast ?c \<longleftrightarrow> length key = length k"
  proof -
    have "(of_nat (length key) :: u64) + 1 = of_nat (length key + 1)" by simp
    then have "(of_nat (length key) :: u64) + 1 = ucast ?c \<longleftrightarrow> length key + 1 = length k + 1"
      using of_nat_eq_small[of "length key + 1" "length k + 1"] klen wf
      by (simp only: c) (simp add: wf_key_def)
    then show ?thesis by simp
  qed
  have cmp: "\<exists>w. mcompare (Some ks) 0 (Some (q_mem q)) (?kp + 1) (length k + 1) = Some w \<and> (w = 0 \<longleftrightarrow> key = k)"
    if l: "length key = length k"
  proof -
    have a: "take (length k + 1) ks = key @ [0]" "length k + 1 \<le> length ks"
      using key_obj_prefix[OF key] l by (auto simp: holds_at_def)
    have b: "take (length k + 1) (drop (?kp + 1) (q_mem q)) = k @ [0]" "?kp + 1 + (length k + 1) \<le> length (q_mem q)"
      using hk2 by (auto simp: holds_at_def)
    show ?thesis
      using mcompare_loop_zero_iff[of "length k + 1" 0 ks "?kp + 1" "q_mem q"] a b
      by (simp add: mcompare_def)
  qed
  define cb where "cb = ?c"
  define w where "w = (of_nat (length k + 1) + 1 :: u64)"
  have cb: "unat cb = length k + 1" "(ucast cb + 1 :: u64) = w"
    using c by (simp_all add: cb_def w_def)
  have pos: "q_rpos q + w + of_nat (length (enc_val v))
      = q_rpos q + of_nat (length k + 2 + length (enc_val v))"
    by (simp add: w_def)
  note run = rdk[folded cb_def] r1[folded w_def] sz len[folded cb_def] key_obj_slength[OF key] cb
  show ?thesis
  proof (cases "length key = length k")
    case True
    then obtain r where "mcompare (Some ks) 0 (Some (q_mem q)) (?kp + 1) (length k + 1) = Some r"
        "r = 0 \<longleftrightarrow> key = k" using cmp by blast
    with True show ?thesis
      unfolding pos[symmetric] using run by (simp add: xl_find_step_def Let_def add.assoc)
  next
    case False
    then have "key \<noteq> k" by auto
    with False show ?thesis
      unfolding pos[symmetric] using run by (simp add: xl_find_step_def Let_def add.assoc)
  qed
qed


text \<open>
  A parser stands at a field boundary of an encoded object: \<open>pre\<close> are the fields before \<open>rpos\<close>,
  \<open>post\<close> the fields from \<open>rpos\<close> to \<open>wpos\<close>.
\<close>

definition wf_fields :: "(bytes \<times> xval) list \<Rightarrow> bool" where
  "wf_fields fs \<longleftrightarrow> (\<forall>f \<in> set fs. wf_key (fst f))"

definition at_fields :: "xparser \<Rightarrow> (bytes \<times> xval) list \<Rightarrow> (bytes \<times> xval) list \<Rightarrow> bool" where
  "at_fields q pre post \<longleftrightarrow> holds_at (q_mem q) (q_ptr q) (enc_fields (pre @ post))
     \<and> wf_fields (pre @ post) \<and> length (enc_fields (pre @ post)) < 2 ^ 64
     \<and> q_rpos q = of_nat (length (enc_fields pre))
     \<and> q_wpos q = of_nat (length (enc_fields (pre @ post)))"

lemma length_enc_field: "length (enc_field f) = length (fst f) + 2 + length (enc_val (snd f))"
  by (simp add: enc_field_def)

text \<open>One step of the search at a boundary inside the fields, for any bound of the loop.\<close>

lemma xl_find_step_at:
  assumes at: "at_fields q pre ((k, v) # post)" and key: "key_obj ks key" "length key < 2 ^ 63"
  shows "\<exists>q1. xl_find_step q (Some ks) = Some (q1, key = k) \<and> at_fields q1 (pre @ [(k, v)]) post
     \<and> q_val q1 = Some (q_ptr q + length (enc_fields pre) + length k + 2)
     \<and> q_mem q1 = q_mem q \<and> q_ptr q1 = q_ptr q"
proof -
  let ?n = "length (enc_fields pre)"
  have h: "holds_at (q_mem q) (q_ptr q + ?n) (enc_key k @ enc_val v)" and wf: "wf_key k"
    and small: "?n + length k + 2 + length (enc_val v) < 2 ^ 64" "?n < 2 ^ 64"
    using at by (auto simp: at_fields_def wf_fields_def holds_at_append enc_field_def)
  have r: "unat (q_rpos q) = ?n" using at small by (simp add: at_fields_def unat_of_nat_small)
  have "q_rpos q + of_nat (length k + 2 + length (enc_val v)) = of_nat (length (enc_fields (pre @ [(k, v)])))"
    using at by (simp add: at_fields_def length_enc_field)
  then show ?thesis
    using xl_find_step_field[of q k v ks key] h wf small key at
    by (simp add: r at_fields_def)
qed

lemma enc_fields_pos: "0 < length (enc_field f)"
  by (simp add: enc_field_def enc_key_def)

text \<open>
  The loop over the fields \<open>mid\<close> up to the boundary \<open>limit\<close>: it stops at the first field with the
  key, or at the boundary.
\<close>

lemma xl_find_loop_run:
  assumes "at_fields q pre (mid @ post)" and "limit = of_nat (length (enc_fields (pre @ mid)))"
    and "key_obj ks key" "length key < 2 ^ 63"
  shows "(key \<notin> fst ` set mid \<longrightarrow> (\<exists>q1. xl_find_loop q (Some ks) limit = Some (q1, False)
            \<and> at_fields q1 (pre @ mid) post \<and> q_mem q1 = q_mem q \<and> q_ptr q1 = q_ptr q))
    \<and> (\<forall>as v bs. mid = as @ (key, v) # bs \<longrightarrow> key \<notin> fst ` set as \<longrightarrow>
         (\<exists>q1. xl_find_loop q (Some ks) limit = Some (q1, True)
            \<and> at_fields q1 (pre @ as @ [(key, v)]) (bs @ post) \<and> q_mem q1 = q_mem q \<and> q_ptr q1 = q_ptr q
            \<and> q_val q1 = Some (q_ptr q + length (enc_fields (pre @ as)) + length key + 2)))"
  using assms
proof (induction mid arbitrary: q pre)
  case Nil
  then show ?case
    by (subst xl_find_loop.simps) (simp add: at_fields_def)
next
  case (Cons f mid)
  obtain k v where f: "f = (k, v)" by (cases f)
  have less: "q_rpos q < limit"
  proof -
    have "(of_nat (length (enc_fields pre)) :: u64) < of_nat (length (enc_fields (pre @ f # mid)))"
      using Cons.prems(1) enc_fields_pos[of f] by (intro of_nat_less_small) (auto simp: at_fields_def)
    then show ?thesis using Cons.prems(1,2) by (simp add: at_fields_def)
  qed
  obtain q1 where q1: "xl_find_step q (Some ks) = Some (q1, key = k)" "at_fields q1 (pre @ [(k, v)]) (mid @ post)"
    "q_val q1 = Some (q_ptr q + length (enc_fields pre) + length k + 2)" "q_mem q1 = q_mem q" "q_ptr q1 = q_ptr q"
    using xl_find_step_at[of q pre k v "mid @ post" ks key] Cons.prems f by auto
  have run: "xl_find_loop q (Some ks) limit
      = (if key = k then Some (q1, True) else xl_find_loop q1 (Some ks) limit)"
    using less q1(1) by (subst xl_find_loop.simps) simp
  note IH = Cons.IH[OF q1(2), unfolded append.assoc append.simps, OF Cons.prems(2)[unfolded f] Cons.prems(3,4)]
  show ?case
  proof (cases "key = k")
    case True
    then show ?thesis using run q1 f by (auto simp: Cons_eq_append_conv)
  next
    case False
    then show ?thesis using run IH q1(4,5) f by (auto simp: Cons_eq_append_conv)
  qed
qed


lemmas xl_find_loop_miss = xl_find_loop_run[THEN conjunct1, rule_format]
lemmas xl_find_loop_hit = xl_find_loop_run[THEN conjunct2, rule_format]

lemma map_of_split:
  assumes "map_of fs k = Some v"
  shows "\<exists>as bs. fs = as @ (k, v) # bs \<and> k \<notin> fst ` set as"
  using assms
proof (induction fs)
  case (Cons f fs)
  show ?case
  proof (cases "fst f = k")
    case True
    then show ?thesis using Cons.prems by (intro exI[of _ "[]"] exI[of _ fs]) (cases f, simp)
  next
    case False
    then obtain as bs where "fs = as @ (k, v) # bs" "k \<notin> fst ` set as" using Cons by (cases f) auto
    with False show ?thesis by (intro exI[of _ "f # as"] exI[of _ bs]) auto
  qed
qed simp

lemma at_fields_value:
  assumes "at_fields q (pre @ [(k, v)]) post"
  shows "holds_at (q_mem q) (q_ptr q + length (enc_fields pre) + length k + 2) (enc_val v)"
  using assms by (simp add: at_fields_def holds_at_append enc_field_def add.assoc)

lemma at_fields_rewind:
  assumes "at_fields q pre post"
  shows "at_fields (q\<lparr>q_rpos := 0\<rparr>) [] (pre @ post)"
  using assms by (simp add: at_fields_def)

text \<open>
  \<open>xl_find\<close> from a boundary: the field found is the first with the key in cyclic order, and the
  parser is at a boundary again, so calls compose.
\<close>

lemma xl_find_run:
  assumes at: "at_fields q pre post" and key: "key_obj ks key" "length key < 2 ^ 63"
  shows "\<exists>q' r pre' post'. xl_find q (Some ks) = Some (q', r) \<and> pre' @ post' = pre @ post
     \<and> at_fields q' pre' post' \<and> q_mem q' = q_mem q \<and> q_ptr q' = q_ptr q
     \<and> (case map_of (post @ pre) key of None \<Rightarrow> r = None
        | Some v \<Rightarrow> \<exists>a. r = Some a \<and> holds_at (q_mem q) a (enc_val v))"
proof (cases "map_of post key")
  case (Some v)
  then obtain as bs where s: "post = as @ (key, v) # bs" "key \<notin> fst ` set as" using map_of_split by metis
  have w: "q_wpos q = of_nat (length (enc_fields (pre @ post)))" using at by (simp add: at_fields_def)
  then obtain q1 where q1: "xl_find_loop q (Some ks) (q_wpos q) = Some (q1, True)"
      "at_fields q1 ((pre @ as) @ [(key, v)]) bs" "q_mem q1 = q_mem q" "q_ptr q1 = q_ptr q"
      "q_val q1 = Some (q_ptr q + length (enc_fields (pre @ as)) + length key + 2)"
    using xl_find_loop_hit[of q pre post "[]" "q_wpos q" ks key as v bs] at key s(2) by (auto simp: s(1))
  have "map_of (post @ pre) key = Some v" using Some by (simp add: map_add_def)
  then show ?thesis
    using q1 s(1) at_fields_value[OF q1(2)]
    by (intro exI[of _ q1] exI[of _ "q_val q1"] exI[of _ "pre @ as @ [(key, v)]"] exI[of _ bs])
       (simp add: xl_find_def)
next
  case None
  then have "key \<notin> fst ` set post" by (simp add: map_of_eq_None_iff)
  moreover have "q_wpos q = of_nat (length (enc_fields (pre @ post)))" using at by (simp add: at_fields_def)
  ultimately obtain q1 where q1: "xl_find_loop q (Some ks) (q_wpos q) = Some (q1, False)"
      "at_fields q1 (pre @ post) []" "q_mem q1 = q_mem q" "q_ptr q1 = q_ptr q"
    using xl_find_loop_miss[of q pre post "[]" "q_wpos q" ks key] at key by auto
  have at2: "at_fields (q1\<lparr>q_rpos := 0\<rparr>) [] (pre @ post)" using at_fields_rewind[OF q1(2)] by simp
  have lim: "q_rpos q = of_nat (length (enc_fields ([] @ pre)))" using at by (simp add: at_fields_def)
  show ?thesis
  proof (cases "map_of pre key")
    case n2: None
    then obtain q2 where "xl_find_loop (q1\<lparr>q_rpos := 0\<rparr>) (Some ks) (q_rpos q) = Some (q2, False)"
      "at_fields q2 pre post" "q_mem q2 = q_mem q" "q_ptr q2 = q_ptr q"
      using xl_find_loop_miss[OF at2 lim key] q1(3,4) by (auto simp: map_of_eq_None_iff)
    then show ?thesis
      using q1 None n2
      by (intro exI[of _ "q2\<lparr>q_val := None\<rparr>"] exI[of _ None] exI[of _ pre] exI[of _ post])
         (simp add: xl_find_def map_add_def at_fields_def)
  next
    case (Some v)
    then obtain as bs where s: "pre = as @ (key, v) # bs" "key \<notin> fst ` set as" using map_of_split by metis
    then obtain q2 where q2: "xl_find_loop (q1\<lparr>q_rpos := 0\<rparr>) (Some ks) (q_rpos q) = Some (q2, True)"
      "at_fields q2 (as @ [(key, v)]) (bs @ post)" "q_mem q2 = q_mem q" "q_ptr q2 = q_ptr q"
      "q_val q2 = Some (q_ptr q + length (enc_fields as) + length key + 2)"
      using xl_find_loop_hit[OF at2 lim key s] q1(3,4) by auto
    have "map_of (post @ pre) key = Some v" using None Some by (simp add: map_add_def)
    then show ?thesis
      using q1 q2 s(1) at_fields_value[OF q2(2)]
      by (intro exI[of _ q2] exI[of _ "q_val q2"] exI[of _ "as @ [(key, v)]"] exI[of _ "bs @ post"])
         (simp add: xl_find_def)
  qed
qed

lemma xl_parser_at:
  assumes "holds_at m a (enc_val (XObj fs))" and "wf_fields fs" and "length (enc_fields fs) < 2 ^ 64"
  shows "\<exists>q. xl_parser m a = Some q \<and> at_fields q [] fs \<and> q_mem q = m \<and> q_ptr q = a + 9"
proof -
  have "xl_sizeof_body m a = Some (of_nat (length (enc_fields fs)))"
    using sizeof_body_block[OF assms(1)[unfolded enc_val_XObj]] by (simp add: xline_types)
  moreover have "holds_at m (a + 9) (enc_fields fs)"
    using assms(1) holds_at_append[of m a "XLINE_TYPE_OBJ # obj_le (of_nat (length (enc_fields fs)))" "enc_fields fs"]
    by (simp add: enc_val_XObj enc_block_def)
  ultimately show ?thesis using assms(2,3) by (simp add: xl_parser_def at_fields_def)
qed


end
