(* ===== verification/Xline_Frame.thy ===== *)
theory Xline_Frame
  imports Xline_Codec
begin

text \<open>
  The frame builders of \<open>src/src/xnet/xline.h\<close>: every \<open>xl_add_*\<close> appends exactly the encoding of
  its field, growing the frame when it must. The contract is the locale \<open>field_adder\<close>, with one
  interpretation per builder; what a client gets from it is that the value added is the value the
  parser finds. Nested objects and lists, and the failure path of the growth, follow.
\<close>

section \<open>The frame builders\<close>

definition frame_ok :: "xframe \<Rightarrow> bool" where
  "frame_ok f \<longleftrightarrow> length (f_data f) = unat (f_size f) \<and> f_wpos f \<le> f_size f"

definition frame_bytes :: "xframe \<Rightarrow> bytes" where
  "frame_bytes f = take (unat (f_wpos f)) (f_data f)"

lemma length_frame_bytes: "frame_ok f \<Longrightarrow> length (frame_bytes f) = unat (f_wpos f)"
  by (simp add: frame_ok_def frame_bytes_def word_le_nat_alt)

lemma frame_put:
  assumes ok: "frame_ok f" and room: "unat (f_wpos f) + length bs \<le> unat (f_size f)"
    and w: "w = of_nat (length bs)"
  defines "f' \<equiv> f\<lparr>f_data := put_seg (f_data f) (unat (f_wpos f)) bs, f_wpos := f_wpos f + w\<rparr>"
  shows "frame_ok f'" and "frame_bytes f' = frame_bytes f @ bs"
    and "unat (f_wpos f') = unat (f_wpos f) + length bs" and "f_size f' = f_size f"
proof -
  have "unat (f_wpos f) + length bs < 2 ^ 64"
    using room unat64_less[of "f_size f"] by simp
  then show u: "unat (f_wpos f') = unat (f_wpos f) + length bs"
    unfolding f'_def w by (simp add: unat_add_small)
  show "f_size f' = f_size f" by (simp add: f'_def)
  show "frame_ok f'" using ok room u by (simp add: f'_def frame_ok_def word_le_nat_alt)
  show "frame_bytes f' = frame_bytes f @ bs"
    unfolding frame_bytes_def u using ok room by (simp add: f'_def frame_ok_def)
qed

text \<open>What an append does to a frame, and that appends compose.\<close>

definition appended :: "xframe \<Rightarrow> bytes \<Rightarrow> xframe \<Rightarrow> bool" where
  "appended f bs f' \<longleftrightarrow> frame_ok f' \<and> frame_bytes f' = frame_bytes f @ bs \<and> f_size f' = f_size f
     \<and> unat (f_wpos f') = unat (f_wpos f) + length bs"

lemma appended_trans: "appended f as g \<Longrightarrow> appended g bs h \<Longrightarrow> appended f (as @ bs) h"
  by (simp add: appended_def)

lemma xl_put_line_appends:
  assumes "frame_ok f" and "length l = 9" and "unat (f_wpos f) + 9 \<le> unat (f_size f)"
  shows "\<exists>f'. xl_put_line f l = Some f' \<and> appended f l f'"
  using frame_put[of f l 9] assms by (simp add: xl_put_line_def appended_def frame_ok_def)

lemma xl_put_body_appends:
  assumes "frame_ok f" and "a + unat n \<le> length s" and "unat (f_wpos f) + unat n \<le> unat (f_size f)"
  shows "\<exists>f'. xl_put_body f (Some s) a n = Some f' \<and> appended f (take (unat n) (drop a s)) f'"
  using frame_put[of f "take (unat n) (drop a s)" n] assms
  by (simp add: xl_put_body_def appended_def frame_ok_def mcopy_eq)

lemma xl_fill_key_appends:
  assumes ok: "frame_ok f" and key: "key_obj ks k" "wf_key k"
    and room: "unat (f_wpos f) + length k + 2 \<le> unat (f_size f)"
  shows "\<exists>f'. xl_fill_key f (Some ks) (of_nat (length k)) = Some f' \<and> appended f (enc_key k) f'"
proof -
  let ?a = "unat (f_wpos f)" and ?d = "f_data f" and ?c = "of_nat (length k + 1) :: u8"
  have small: "length k \<le> 64" using key by (simp add: wf_key_def)
  then have kl: "(if (of_nat (length k) :: u64) > 64 then 64 else of_nat (length k)) = (of_nat (length k) :: u64)"
      and un: "unat (of_nat (length k) :: u64) = length k"
    by (simp_all add: word_less_nat_alt unat_of_nat)
  have cb: "ucast (of_nat (length k) + 1 :: u64) = ?c"
    using ucast_of_nat_u8[of "length k + 1"] small by (simp add: add.commute)
  have len: "?a + length k + 2 \<le> length ?d" using ok room by (simp add: frame_ok_def)
  have tk: "take (length k) ks = k" "length k \<le> length ks"
    using key_obj_prefix[OF key(1)] by (auto simp: holds_at_def take_Suc_conv_app_nth)
  define d1 where "d1 = ?d[?a := ?c]"
  have d1: "wr ?d ?a (ucast (of_nat (length k) + 1 :: u64)) = Some d1" "d1 = put_seg ?d ?a [?c]"
    using len by (simp_all add: d1_def cb put_seg_single)
  define d2 where "d2 = put_seg ?d ?a (?c # k)"
  have d2: "mcopy d1 (?a + 1) ks 0 (length k) = Some d2"
    using len tk put_seg_append[of ?a "[?c]" k ?d] by (simp add: mcopy_eq d1(2) d2_def)
  define d3 where "d3 = put_seg ?d ?a (enc_key k)"
  have at: "d2 ! ?a = ?c" "d3 ! ?a = ?c"
    using len by (simp_all add: d2_def d3_def nth_put_seg enc_key_def)
  have "d2[?a + unat ?c := 0] = d3"
    using len put_seg_append[of ?a "?c # k" "[0]" ?d] key_len_byte(1)[OF key(2)]
    by (simp add: put_seg_single d2_def d3_def enc_key_def)
  then have d3: "wr d2 (?a + unat ?c) 0 = Some d3"
    using len key_len_byte(1)[OF key(2)] by (simp add: d2_def)
  have w: "(ucast ?c + 1 :: u64) = of_nat (length (enc_key k))"
    unfolding key_len_byte(2)[OF key(2)] by simp
  show ?thesis
    using d1(1) d2 d3 at kl un frame_put[of f "enc_key k" "ucast ?c + 1"] ok room w
    by (simp add: xl_fill_key_def appended_def d3_def Let_def frame_ok_def frame_bytes_def)
qed


lemma appended_objline: "appended f bs g \<Longrightarrow> appended f bs (xl_set_objline g)"
  by (auto simp: appended_def xl_set_objline_def frame_ok_def frame_bytes_def)

text \<open>
  The guard: when memory is available and the doubled size fits 64 bits, the frame keeps its bytes
  and has room for the record.
\<close>

lemma xl_reserve_ok:
  assumes ok: "frame_ok f" and fits: "2 * unat (f_size f) + unat n < 2 ^ 64"
  shows "\<exists>f1. xl_reserve True junk f n = Some (f1, True)
     \<and> frame_ok f1 \<and> frame_bytes f1 = frame_bytes f \<and> f_wpos f1 = f_wpos f
     \<and> unat (f_wpos f1) + unat n \<le> unat (f_size f1) \<and> unat (f_size f1) \<le> 2 * unat (f_size f) + unat n"
proof (cases "f_size f - f_wpos f < n")
  case False
  then have "unat n \<le> unat (f_size f) - unat (f_wpos f)"
    using ok by (simp add: frame_ok_def word_less_nat_alt unat_sub)
  then have "unat (f_wpos f) + unat n \<le> unat (f_size f)"
    using ok by (auto simp: frame_ok_def word_le_nat_alt)
  with False ok show ?thesis by (simp add: xl_reserve_def)
next
  case True
  have sz: "unat (f_size f * 2 + n) = 2 * unat (f_size f) + unat n"
    using fits by (simp add: unat_word_ariths)
  show ?thesis
    using True ok sz
    by (simp add: xl_reserve_def xl_realloc_def frame_ok_def word_le_nat_alt frame_bytes_def put_seg_def)
qed


text \<open>A frame that holds fields, with its line up to date.\<close>

definition frame_holds :: "xframe \<Rightarrow> (bytes \<times> xval) list \<Rightarrow> bool" where
  "frame_holds f fs \<longleftrightarrow> frame_ok f \<and> frame_bytes f = enc_fields fs \<and> wf_fields fs"

definition line_ok :: "xframe \<Rightarrow> bool" where
  "line_ok f \<longleftrightarrow> f_line f = xl_n2b (f_wpos f) XLINE_TYPE_OBJ"

lemma line_ok_objline [simp]: "line_ok (xl_set_objline f)"
  by (simp add: line_ok_def xl_set_objline_def)

text \<open>
  The shape the \<open>xl_add_*\<close> functions share after the guard: the key, then the bytes of the value;
  stated once for any continuation that appends \<open>bs\<close>.
\<close>

lemma add_after_reserve:
  assumes f: "frame_ok f" and key: "key_obj ks k" "wf_key k"
    and fits: "2 * unat (f_size f) + unat n < 2 ^ 64" and n: "length k + 2 + length bs \<le> unat n"
    and cont: "\<And>g. frame_ok g \<Longrightarrow> unat (f_wpos g) + length bs \<le> unat (f_size g) \<Longrightarrow>
        \<exists>h. cnt g = Some h \<and> appended g bs h"
  shows "\<exists>f1 g h. xl_reserve True junk f n = Some (f1, True)
     \<and> xl_fill_key f1 (Some ks) (of_nat (length k)) = Some g \<and> cnt g = Some h
     \<and> frame_ok h \<and> frame_bytes h = frame_bytes f @ enc_key k @ bs
     \<and> unat (f_size h) \<le> 2 * unat (f_size f) + unat n"
proof -
  obtain f1 where f1: "xl_reserve True junk f n = Some (f1, True)" "frame_ok f1" "frame_bytes f1 = frame_bytes f"
     "unat (f_wpos f1) + unat n \<le> unat (f_size f1)" "unat (f_size f1) \<le> 2 * unat (f_size f) + unat n"
    using xl_reserve_ok[OF f fits] by blast
  obtain g where g: "xl_fill_key f1 (Some ks) (of_nat (length k)) = Some g" "appended f1 (enc_key k) g"
    using xl_fill_key_appends[OF f1(2) key] f1(4) n by auto
  then obtain h where h: "cnt g = Some h" "appended g bs h"
    using cont[of g] f1(4) n by (auto simp: appended_def)
  show ?thesis using f1 g h appended_trans[OF g(2) h(2)] by (auto simp: appended_def)
qed

lemma num_continuation:
  assumes "frame_ok g" and "unat (f_wpos g) + length (xl_n2b n t) \<le> unat (f_size g)"
  shows "\<exists>h. xl_put_line g (xl_n2b n t) = Some h \<and> appended g (xl_n2b n t) h"
  using assms by (intro xl_put_line_appends) auto

lemma block_continuation:
  assumes "frame_ok g" and "unat (f_wpos g) + length (xl_n2b n t @ take (unat n) s) \<le> unat (f_size g)"
    and "unat n \<le> length s"
  shows "\<exists>h. Option.bind (xl_put_line g (xl_n2b n t)) (\<lambda>f3. xl_put_body f3 (Some s) 0 n) = Some h
    \<and> appended g (xl_n2b n t @ take (unat n) s) h"
proof -
  obtain f3 where f3: "xl_put_line g (xl_n2b n t) = Some f3" "appended g (xl_n2b n t) f3"
    using xl_put_line_appends[of g "xl_n2b n t"] assms by auto
  moreover obtain h where "xl_put_body f3 (Some s) 0 n = Some h" "appended f3 (take (unat n) s) h"
    using xl_put_body_appends[of f3 0 n s] f3(2) assms by (auto simp: appended_def)
  ultimately show ?thesis using appended_trans[OF f3(2)] by auto
qed

lemma frame_holds_obj:
  assumes "frame_holds f fs" and "line_ok f"
  shows "holds_at (f_obj f) 0 (enc_val (XObj fs))" and "length (enc_fields fs) < 2 ^ 64"
proof -
  have len: "length (enc_fields fs) = unat (f_wpos f)" and ok: "unat (f_wpos f) \<le> length (f_data f)"
    using assms(1) length_frame_bytes[of f] by (auto simp: frame_holds_def frame_ok_def word_le_nat_alt)
  show "length (enc_fields fs) < 2 ^ 64" unfolding len by (rule unat64_less)
  have "f_wpos f = of_nat (length (enc_fields fs))" using len by (simp add: word_eq_of_nat)
  then show "holds_at (f_obj f) 0 (enc_val (XObj fs))"
    using assms ok len
    by (simp add: f_obj_def line_ok_def xl_n2b_Cons holds_at_def enc_block_def frame_holds_def
        frame_bytes_def take_Cons')
qed

lemma frame_holds_parser:
  assumes "frame_holds f fs" and "line_ok f"
  shows "\<exists>q. xl_parser (f_obj f) 0 = Some q \<and> at_fields q [] fs \<and> q_mem q = f_obj f"
  using xl_parser_at[OF frame_holds_obj(1)[OF assms] _ frame_holds_obj(2)[OF assms]] assms(1)
  by (auto simp: frame_holds_def)

lemma frame_holds_add:
  assumes "frame_holds f fs" and "wf_key k" and "frame_ok h"
    and "frame_bytes h = frame_bytes f @ enc_field (k, v)"
  shows "frame_holds h (fs @ [(k, v)])"
  using assms by (simp add: frame_holds_def wf_fields_def)

section \<open>The interface of the builders\<close>

text \<open>
  Every builder is a function of the value \<open>'v\<close> it stores; what it promises is that the frame then
  holds one field more. A client that builds a frame and parses it again needs nothing else.
\<close>

locale field_adder =
  fixes add :: "bool \<Rightarrow> (nat \<Rightarrow> u8) \<Rightarrow> xframe \<Rightarrow> bytes option \<Rightarrow> 'v \<Rightarrow> (xframe \<times> u64) option"
    and enc :: "'v \<Rightarrow> xval" and ok :: "'v \<Rightarrow> bool"
  assumes add_appends: "\<lbrakk>frame_ok f; key_obj ks k; wf_key k; ok v;
      2 * unat (f_size f) + length k + 11 + length (enc_val (enc v)) < 2 ^ 64\<rbrakk> \<Longrightarrow>
    \<exists>f'. add True junk f (Some ks) v = Some (f', f_wpos f') \<and> frame_ok f' \<and> line_ok f'
      \<and> frame_bytes f' = frame_bytes f @ enc_field (k, enc v)"
begin

text \<open>What was added is what the parser finds, and what other keys find is unchanged.\<close>

lemma added_field_found:
  assumes "frame_holds f fs" and "key_obj ks k" and "wf_key k" and "ok v"
    and "2 * unat (f_size f) + length k + 11 + length (enc_val (enc v)) < 2 ^ 64"
    and "key_obj ks' k'" "length k' < 2 ^ 63"
  shows "\<exists>f' q q' r. add True junk f (Some ks) v = Some (f', f_wpos f') \<and> frame_holds f' (fs @ [(k, enc v)])
    \<and> xl_parser (f_obj f') 0 = Some q \<and> xl_find q (Some ks') = Some (q', r)
    \<and> (case map_of (fs @ [(k, enc v)]) k' of None \<Rightarrow> r = None
       | Some w \<Rightarrow> \<exists>a. r = Some a \<and> holds_at (f_obj f') a (enc_val w))
    \<and> q_mem q' = f_obj f'"
proof -
  have ok: "frame_ok f" using assms(1) by (simp add: frame_holds_def)
  obtain f' where a: "add True junk f (Some ks) v = Some (f', f_wpos f')" "frame_ok f'" "line_ok f'"
      "frame_bytes f' = frame_bytes f @ enc_field (k, enc v)"
    using add_appends[OF ok assms(2-5)] by blast
  note f' = a(1) frame_holds_add[OF assms(1,3) a(2,4)] a(3)
  let ?fs = "fs @ [(k, enc v)]"
  obtain q where q: "xl_parser (f_obj f') 0 = Some q" "at_fields q [] ?fs" "q_mem q = f_obj f'"
    using frame_holds_parser[OF f'(2,3)] by blast
  show ?thesis using xl_find_run[OF q(2) assms(6,7), unfolded q(3)] f'(1,2) q(1) by fastforce
qed

end


lemma newlen_unat:
  assumes "wf_key k" and "2 * s + length k + 11 + m < 2 ^ 64"
  shows "unat ((of_nat (length k) :: u64) + 2 + 9 + of_nat m) = length k + 11 + m"
proof -
  have "(of_nat (length k) :: u64) + 2 + 9 + of_nat m = of_nat (length k + 11 + m)" by simp
  then show ?thesis using assms(2) by (simp only:) (rule unat_of_nat_small, linarith)
qed

text \<open>\<open>stored f k v f'\<close>: the frame \<open>f'\<close> is \<open>f\<close> with one field more and its line up to date.\<close>

definition stored :: "xframe \<Rightarrow> bytes \<Rightarrow> xval \<Rightarrow> xframe \<Rightarrow> bool" where
  "stored f k v f' \<longleftrightarrow> frame_ok f' \<and> line_ok f' \<and> frame_bytes f' = frame_bytes f @ enc_field (k, v)"

lemma stored_objline:
  assumes "frame_ok h" and "frame_bytes h = frame_bytes f @ enc_key k @ enc_val v"
  shows "stored f k v (xl_set_objline h)"
  using assms by (simp add: stored_def enc_field_def)
     (simp add: xl_set_objline_def frame_ok_def frame_bytes_def)

lemma xl_add_num_appends:
  assumes f: "frame_ok f" and key: "key_obj ks k" "wf_key k"
    and t: "enc_val v = t # obj_le n" and fits: "2 * unat (f_size f) + length k + 11 < 2 ^ 64"
  shows "\<exists>f'. xl_add_num t True junk f (Some ks) n = Some (f', f_wpos f') \<and> stored f k v f'"
proof -
  let ?n = "(of_nat (length k) :: u64) + 2 + 9"
  have un: "unat ?n = length k + 11" using newlen_unat[OF key(2), of "unat (f_size f)" 0] fits by simp
  obtain f1 g h where r: "xl_reserve True junk f ?n = Some (f1, True)"
     "xl_fill_key f1 (Some ks) (of_nat (length k)) = Some g" "xl_put_line g (xl_n2b n t) = Some h"
     "frame_ok h" "frame_bytes h = frame_bytes f @ enc_key k @ xl_n2b n t"
    using add_after_reserve[OF f key, of ?n "xl_n2b n t" "\<lambda>g. xl_put_line g (xl_n2b n t)" junk]
      num_continuation fits un by auto
  have "stored f k v (xl_set_objline h)"
    using stored_objline[OF r(4)] r(5) by (simp add: t xl_n2b_Cons)
  then show ?thesis
    using r key_obj_slength[OF key(1)] by (simp add: xl_add_num_def Let_def)
qed

lemma xl_add_block_appends:
  assumes f: "frame_ok f" and key: "key_obj ks k" "wf_key k"
    and t: "enc_val v = enc_block t (take (unat n) s)" and n: "unat n \<le> length s"
    and fits: "2 * unat (f_size f) + length k + 11 + unat n < 2 ^ 64"
  shows "\<exists>f1 g g2 h. xl_reserve True junk f (of_nat (length k) + 2 + 9 + n) = Some (f1, True)
      \<and> xl_fill_key f1 (Some ks) (of_nat (length k)) = Some g \<and> xl_put_line g (xl_n2b n t) = Some g2
      \<and> xl_put_body g2 (Some s) 0 n = Some h \<and> stored f k v (xl_set_objline h)"
proof -
  let ?n = "(of_nat (length k) :: u64) + 2 + 9 + n" and ?b = "xl_n2b n t @ take (unat n) s"
  have un: "unat ?n = length k + 11 + unat n" using newlen_unat[OF key(2), of "unat (f_size f)" "unat n"] fits by simp
  have lb: "length ?b = 9 + unat n" using n by simp
  obtain f1 g h where r: "xl_reserve True junk f ?n = Some (f1, True)"
     "xl_fill_key f1 (Some ks) (of_nat (length k)) = Some g"
     "Option.bind (xl_put_line g (xl_n2b n t)) (\<lambda>f3. xl_put_body f3 (Some s) 0 n) = Some h"
     "frame_ok h" "frame_bytes h = frame_bytes f @ enc_key k @ ?b"
    using add_after_reserve[OF f key, of ?n ?b
        "\<lambda>g. Option.bind (xl_put_line g (xl_n2b n t)) (\<lambda>f3. xl_put_body f3 (Some s) 0 n)" junk]
      block_continuation[of _ n t s] fits un lb n by fastforce
  have "?b = enc_val v" using n by (simp add: t enc_block_def xl_n2b_Cons min_absorb2)
  then show ?thesis
    using r(1,2) r(3)[unfolded bind_eq_Some_conv] stored_objline[OF r(4)] r(5) by auto
qed

interpretation int_adder: field_adder xl_add_int XInt "\<lambda>_. True"
  by unfold_locales (use xl_add_num_appends in \<open>fastforce simp: xl_add_int_def stored_def\<close>)

interpretation uint_adder: field_adder xl_add_uint XUint "\<lambda>_. True"
  by unfold_locales (use xl_add_num_appends in \<open>fastforce simp: xl_add_uint_def stored_def\<close>)

interpretation ptr_adder: field_adder xl_add_ptr XUint "\<lambda>_. True"
  by unfold_locales (use xl_add_num_appends in \<open>fastforce simp: xl_add_ptr_def stored_def\<close>)

interpretation float_adder: field_adder xl_add_float XReal "\<lambda>_. True"
  by unfold_locales (use xl_add_num_appends in \<open>fastforce simp: xl_add_float_def stored_def\<close>)

interpretation str_adder: field_adder "\<lambda>ok junk f key (s, n). xl_add_str ok junk f key (Some s) n"
    "\<lambda>(s, n). XStr (take (unat n) s)" "\<lambda>(s, n). unat n \<le> length s"
proof (unfold_locales, clarify, goal_cases)
  case (1 f ks k s n junk)
  then show ?case
    using xl_add_block_appends[OF 1(1-3), of "XStr (take (unat n) s)" XLINE_TYPE_STR n s junk] key_obj_slength[OF 1(2)]
    by (auto simp: xl_add_str_def stored_def Let_def)
qed

interpretation bin_adder: field_adder "\<lambda>ok junk f key (s, n). xl_add_bin ok junk f key (Some s) n"
    "\<lambda>(s, n). XBin (take (unat n) s)" "\<lambda>(s, n). unat n \<le> length s"
proof (unfold_locales, clarify, goal_cases)
  case (1 f ks k s n junk)
  then show ?case
    using xl_add_block_appends[OF 1(1-3), of "XBin (take (unat n) s)" XLINE_TYPE_BIN n s junk] key_obj_slength[OF 1(2)]
    by (auto simp: xl_add_bin_def stored_def Let_def)
qed

text \<open>\<open>xl_add_word\<close> stores the C string with its NUL.\<close>

interpretation word_adder: field_adder xl_add_word "\<lambda>s. XStr (cstr s @ [0])"
    "\<lambda>s. 0 \<in> set s \<and> length (cstr s) < 2 ^ 63"
proof (unfold_locales, elim conjE, goal_cases)
  case (1 f ks k s junk)
  let ?n = "of_nat (length (cstr s)) + 1 :: u64"
  have p: "take (Suc (length (cstr s))) s = cstr s @ [0]" "length (cstr s) + 1 \<le> length s"
    using key_obj_prefix[of s "cstr s"] 1(5) by (auto simp: key_obj_def holds_at_def)
  have n: "unat ?n = length (cstr s) + 1" using 1(6) unat_of_nat_small[of "length (cstr s) + 1"]
    by (simp add: add.commute)
  show ?case
    using xl_add_block_appends[OF 1(1-3), of "XStr (cstr s @ [0])" XLINE_TYPE_STR ?n s junk] 1 p n
      key_obj_slength[OF 1(2)]
    by (auto simp: xl_add_word_def stored_def Let_def slength_eq)
qed


lemma put_seg_self: "a + n \<le> length m \<Longrightarrow> put_seg m a (take n (drop a m)) = m"
  by (rule nth_equalityI) (auto simp: nth_put_seg)

text \<open>\<open>xl_add_obj\<close> copies a whole line, whatever its type, from another object.\<close>

interpretation obj_adder: field_adder "\<lambda>ok junk f key (m, a, v). xl_add_obj ok junk f key m a"
    "\<lambda>(m, a, v). v" "\<lambda>(m, a, v). holds_at m a (enc_val v)"
proof (unfold_locales, clarify, goal_cases)
  case (1 f ks k m a v junk)
  let ?b = "enc_val v" and ?n = "of_nat (length (enc_val v)) :: u64"
  have sz: "xl_sizeof_line m a = Some ?n" using 1 by (intro sizeof_line_holds) auto
  have un: "unat ?n = length ?b" using 1 by (intro unat_of_nat_small) auto
  have nn: "unat ((of_nat (length k) :: u64) + 2 + 9 + ?n) = length k + 11 + length ?b"
    using newlen_unat[OF 1(3), of "unat (f_size f)" "length ?b"] 1 by auto
  have cont: "\<exists>h. xl_put_body g (Some m) a ?n = Some h \<and> appended g ?b h"
    if "frame_ok g" "unat (f_wpos g) + length ?b \<le> unat (f_size g)" for g
    using xl_put_body_appends[of g a ?n m] that 1(4) un by (simp add: holds_at_def)
  obtain f1 g h where r: "xl_reserve True junk f (of_nat (length k) + 2 + 9 + ?n) = Some (f1, True)"
     "xl_fill_key f1 (Some ks) (of_nat (length k)) = Some g" "xl_put_body g (Some m) a ?n = Some h"
     "frame_ok h" "frame_bytes h = frame_bytes f @ enc_key k @ ?b"
    using add_after_reserve[OF 1(1-3), of "of_nat (length k) + 2 + 9 + ?n" ?b "\<lambda>g. xl_put_body g (Some m) a ?n" junk]
      cont 1(5) nn by auto
  show ?case
    using r stored_objline[OF r(4,5)] sz key_obj_slength[OF 1(2)]
    by (simp add: xl_add_obj_def stored_def Let_def)
qed

section \<open>Nested objects and lists\<close>

text \<open>
  Between \<open>xl_obj_begin\<close> and \<open>xl_obj_end\<close> the frame ends in a hole of nine bytes and the fields
  added since; closing fills the hole.
\<close>

lemma xl_obj_begin_opens:
  assumes f: "frame_ok f" and key: "key_obj ks k" "wf_key k"
    and fits: "2 * unat (f_size f) + length k + 11 < 2 ^ 64"
  shows "\<exists>g hole. xl_obj_begin True junk f (Some ks) = Some (g, of_nat (length (frame_bytes f) + length k + 2))
    \<and> frame_ok g \<and> length hole = 9 \<and> frame_bytes g = frame_bytes f @ enc_key k @ hole
    \<and> unat (f_size g) \<le> 2 * unat (f_size f) + length k + 11"
proof -
  let ?n = "(of_nat (length k) :: u64) + 2 + 9"
  have un: "unat ?n = length k + 11" using newlen_unat[OF key(2), of "unat (f_size f)" 0] fits by simp
  have fit': "2 * unat (f_size f) + unat ?n < 2 ^ 64" using fits un by simp
  obtain f1 where f1: "xl_reserve True junk f ?n = Some (f1, True)" "frame_ok f1" "frame_bytes f1 = frame_bytes f"
     "unat (f_wpos f1) + unat ?n \<le> unat (f_size f1)" "unat (f_size f1) \<le> 2 * unat (f_size f) + unat ?n"
    using xl_reserve_ok[OF f fit'] by blast
  obtain g where g: "xl_fill_key f1 (Some ks) (of_nat (length k)) = Some g" "appended f1 (enc_key k) g"
    using xl_fill_key_appends[OF f1(2) key] f1(4) un by auto
  let ?w = "unat (f_wpos g)" and ?hole = "take 9 (drop (unat (f_wpos g)) (f_data g))"
  have room: "?w + 9 \<le> unat (f_size g)" using g(2) f1(4) un by (simp add: appended_def)
  have hole: "length ?hole = 9" "put_seg (f_data g) ?w ?hole = f_data g"
    using room g(2) by (simp_all add: appended_def frame_ok_def put_seg_self)
  note p = frame_put[of g ?hole 9, unfolded hole(2)]
  have w: "f_wpos g = of_nat (length (frame_bytes f) + length k + 2)"
    using g(2) f1(3) length_frame_bytes[OF f1(2)] by (intro word_eq_of_nat) (simp add: appended_def)
  show ?thesis
    using f1 g p hole room w key_obj_slength[OF key(1)] un
    by (intro exI[of _ "g\<lparr>f_wpos := f_wpos g + 9\<rparr>"] exI[of _ ?hole])
       (simp add: xl_obj_begin_def Let_def appended_def)
qed

lemma close_hole:
  fixes t :: u8
  assumes h: "frame_ok h" and b: "frame_bytes h = pre @ hole @ body" and hole: "length hole = 9"
  defines "d \<equiv> put_seg (f_data h) (length pre) (xl_n2b (of_nat (length body)) t)"
  shows "wr_seg (f_data h) (length pre) (xl_n2b (of_nat (length body)) t) = Some d"
    and "frame_ok (h\<lparr>f_data := d\<rparr>)" and "frame_bytes (h\<lparr>f_data := d\<rparr>) = pre @ enc_block t body"
    and "f_wpos h - of_nat (length pre) - 9 = of_nat (length body)"
    and "(of_nat (length pre) :: u64) < XEOF" and "unat (of_nat (length pre) :: u64) = length pre"
proof -
  have w: "unat (f_wpos h) = length pre + 9 + length body"
    using b hole length_frame_bytes[OF h] by simp
  then have len: "length pre + 9 + length body \<le> length (f_data h)"
    using h by (simp add: frame_ok_def word_le_nat_alt)
  have small: "length pre + 9 + length body < 2 ^ 64" using w unat64_less[of "f_wpos h"] by simp
  show "wr_seg (f_data h) (length pre) (xl_n2b (of_nat (length body)) t) = Some d"
    using len by (simp add: d_def)
  show "frame_ok (h\<lparr>f_data := d\<rparr>)" using h len by (simp add: frame_ok_def d_def)
  have "f_data h = (pre @ hole @ body) @ drop (unat (f_wpos h)) (f_data h)"
    using b[unfolded frame_bytes_def] append_take_drop_id by metis
  then obtain r where r: "f_data h = pre @ hole @ body @ r" by simp
  then show "frame_bytes (h\<lparr>f_data := d\<rparr>) = pre @ enc_block t body"
    using hole by (simp add: frame_bytes_def d_def put_seg_def w enc_block_def xl_n2b_Cons take_Cons')
  have "f_wpos h = of_nat (length pre + 9 + length body)" using w by (rule word_eq_of_nat)
  then show "f_wpos h - of_nat (length pre) - 9 = of_nat (length body)" by simp
  show u: "unat (of_nat (length pre) :: u64) = length pre" using small by (intro unat_of_nat_small) simp
  have "(of_nat (length pre) :: u64) < of_nat (2 ^ 64 - 1)"
    using small by (intro of_nat_less_small) auto
  then show "(of_nat (length pre) :: u64) < XEOF" by (simp add: XEOF_def)
qed

lemma xl_obj_end_closes:
  assumes "frame_ok h" and "frame_bytes h = pre @ hole @ body" and "length hole = 9"
  shows "\<exists>e. xl_obj_end h (of_nat (length pre)) = Some (e, of_nat (length pre)) \<and> frame_ok e
     \<and> frame_bytes e = pre @ enc_block XLINE_TYPE_OBJ body"
  using close_hole(1-3)[where t = XLINE_TYPE_OBJ, OF assms] close_hole(4-6)[OF assms] by (simp add: xl_obj_end_def Let_def)

lemma xl_list_end_closes:
  assumes "frame_ok h" and "frame_bytes h = pre @ hole @ body" and "length hole = 9"
  shows "\<exists>e. xl_list_end h (of_nat (length pre)) = Some (e, of_nat (length pre)) \<and> frame_ok e \<and> line_ok e
     \<and> frame_bytes e = pre @ enc_block XLINE_TYPE_LIST body"
  using close_hole(1-3)[where t = XLINE_TYPE_LIST, OF assms] close_hole(4-6)[OF assms]
  by (simp add: xl_list_end_def Let_def) (simp add: xl_set_objline_def frame_ok_def frame_bytes_def)


lemma xl_list_append_appends:
  assumes f: "frame_ok f" and v: "holds_at m a (enc_val v)"
    and fits: "2 * unat (f_size f) + length (enc_val v) < 2 ^ 64"
  shows "\<exists>f'. xl_list_append True junk f m a = Some (f', f_wpos f') \<and> frame_ok f'
     \<and> frame_bytes f' = frame_bytes f @ enc_val v"
proof -
  let ?n = "of_nat (length (enc_val v)) :: u64"
  have sz: "xl_sizeof_line m a = Some ?n" using v fits by (intro sizeof_line_holds) auto
  have un: "unat ?n = length (enc_val v)" using fits by (intro unat_of_nat_small) auto
  have "2 * unat (f_size f) + unat ?n < 2 ^ 64" using fits un by simp
  then obtain f1 where f1: "xl_reserve True junk f ?n = Some (f1, True)" "frame_ok f1"
     "frame_bytes f1 = frame_bytes f" "unat (f_wpos f1) + unat ?n \<le> unat (f_size f1)"
    using xl_reserve_ok[OF f] by blast
  then show ?thesis
    using xl_put_body_appends[OF f1(2), of a ?n m] v sz
    by (auto simp: xl_list_append_def un holds_at_def appended_def)
qed

section \<open>Walking\<close>

lemma xl_next_at:
  assumes at: "at_fields q pre ((k, v) # post)"
  shows "\<exists>q1 a. xl_next q = Some (q1, Some a) \<and> at_fields q1 (pre @ [(k, v)]) post
     \<and> holds_at (q_mem q) (q_key q1) (k @ [0]) \<and> holds_at (q_mem q) a (enc_val v)
     \<and> q_mem q1 = q_mem q \<and> q_ptr q1 = q_ptr q"
proof -
  let ?n = "length (enc_fields pre)" and ?p = "q_ptr q + length (enc_fields pre)"
  have h: "holds_at (q_mem q) ?p (enc_key k)" "holds_at (q_mem q) (?p + (length k + 2)) (enc_val v)"
    and wf: "wf_key k" and small: "?n + length k + 2 + length (enc_val v) < 2 ^ 64"
    using at by (auto simp: at_fields_def wf_fields_def holds_at_append enc_field_def)
  define cb where "cb = (of_nat (length k + 1) :: u8)"
  define w where "w = (of_nat (length k + 1) + 1 :: u64)"
  have cb: "(ucast cb + 1 :: u64) = w" using key_len_byte[OF wf] by (simp add: cb_def w_def)
  have hk: "rd (q_mem q) ?p = Some cb" "holds_at (q_mem q) (?p + 1) (k @ [0])"
    using h(1) by (simp_all add: enc_key_def holds_at_Cons cb_def)
  have r: "unat (q_rpos q) = ?n" using at small by (simp add: at_fields_def unat_of_nat_small)
  have rw: "unat (q_rpos q + w) = ?n + (length k + 2)"
    using unat_add_small[of "q_rpos q" "length k + 2"] small r by (simp add: w_def)
  have sz: "xl_sizeof_line (q_mem q) (?p + (length k + 2)) = Some (of_nat (length (enc_val v)))"
    using h(2) small by (intro sizeof_line_holds) auto
  have pos: "q_rpos q + w + of_nat (length (enc_val v)) = of_nat (length (enc_fields (pre @ [(k, v)])))"
    using at by (simp add: at_fields_def length_enc_field w_def)
  have less: "q_rpos q < q_wpos q"
  proof -
    have "(of_nat ?n :: u64) < of_nat (length (enc_fields (pre @ (k, v) # post)))"
      using at enc_fields_pos[of "(k, v)"] by (intro of_nat_less_small) (auto simp: at_fields_def)
    then show ?thesis using at by (simp add: at_fields_def)
  qed
  have "xl_next q = Some (q\<lparr>q_key := ?p + 1, q_rpos := of_nat (length (enc_fields (pre @ [(k, v)])))\<rparr>,
      Some (?p + (length k + 2)))"
    unfolding pos[symmetric] using less hk(1) sz by (simp add: xl_next_def Let_def r rw cb add.assoc)
  then show ?thesis using at hk(2) h(2) by (simp add: at_fields_def)
qed

lemma xl_next_end: "at_fields q pre [] \<Longrightarrow> xl_next q = Some (q, None)"
  by (simp add: at_fields_def xl_next_def)

text \<open>A parser over the body of an encoded list.\<close>

definition enc_vals :: "xval list \<Rightarrow> bytes" where
  "enc_vals vs = concat (map enc_val vs)"

lemma enc_vals_simps [simp]:
  "enc_vals [] = []" "enc_vals (v # vs) = enc_val v @ enc_vals vs" "enc_vals (vs @ ws) = enc_vals vs @ enc_vals ws"
  by (simp_all add: enc_vals_def)

definition at_list :: "xparser \<Rightarrow> xval list \<Rightarrow> xval list \<Rightarrow> bool" where
  "at_list q pre post \<longleftrightarrow> holds_at (q_mem q) (q_ptr q) (enc_vals (pre @ post))
     \<and> length (enc_vals (pre @ post)) < 2 ^ 64 \<and> q_rpos q = of_nat (length (enc_vals pre))
     \<and> q_wpos q = of_nat (length (enc_vals (pre @ post)))"

lemma xl_list_next_at:
  assumes at: "at_list q pre (v # post)"
  shows "\<exists>q1 a. xl_list_next q = Some (q1, Some a) \<and> at_list q1 (pre @ [v]) post
     \<and> holds_at (q_mem q) a (enc_val v) \<and> q_mem q1 = q_mem q \<and> q_ptr q1 = q_ptr q"
proof -
  let ?n = "length (enc_vals pre)"
  have h: "holds_at (q_mem q) (q_ptr q + ?n) (enc_val v)" and small: "?n + length (enc_val v) < 2 ^ 64"
    using at by (auto simp: at_list_def holds_at_append)
  have r: "unat (q_rpos q) = ?n" using at small by (simp add: at_list_def unat_of_nat_small)
  have sz: "xl_sizeof_line (q_mem q) (q_ptr q + ?n) = Some (of_nat (length (enc_val v)))"
    using h small by (intro sizeof_line_holds) auto
  have less: "q_rpos q < q_wpos q"
  proof -
    have "(of_nat ?n :: u64) < of_nat (length (enc_vals (pre @ v # post)))"
      using at enc_val_pos[of v] by (intro of_nat_less_small) (auto simp: at_list_def)
    then show ?thesis using at by (simp add: at_list_def)
  qed
  then have "xl_list_next q = Some (q\<lparr>q_rpos := q_rpos q + of_nat (length (enc_val v))\<rparr>, Some (q_ptr q + ?n))"
    using sz by (simp add: xl_list_next_def Let_def r)
  then show ?thesis using at h by (simp add: at_list_def)
qed

lemma xl_list_next_end: "at_list q pre [] \<Longrightarrow> xl_list_next q = Some (q, None)"
  by (simp add: at_list_def xl_list_next_def)


section \<open>The failure path of the growth\<close>

text \<open>
  When the allocation fails, the builder reports \<open>XEOF\<close> and the frame keeps its bytes, but its size
  field already has the new value: it exceeds the buffer.
\<close>

lemma xl_reserve_failure:
  assumes "frame_ok f" and "f_size f - f_wpos f < n"
  shows "xl_reserve False junk f n = Some (f\<lparr>f_size := f_size f * 2 + n\<rparr>, False)"
  using assms by (simp add: xl_reserve_def xl_realloc_def Let_def)

lemma xl_add_num_no_memory:
  assumes "frame_ok f" and "key_obj ks k" and "f_size f - f_wpos f < of_nat (length k) + 11"
  shows "xl_add_num t False junk f (Some ks) n
    = Some (f\<lparr>f_size := f_size f * 2 + (of_nat (length k) + 11)\<rparr>, XEOF)"
proof -
  have "f_size f - f_wpos f < of_nat (length k) + 2 + 9" using assms(3) by (simp add: add.assoc)
  then show ?thesis
    using xl_reserve_failure[OF assms(1)] key_obj_slength[OF assms(2)]
    by (simp add: xl_add_num_def add.assoc)
qed

section \<open>Properties\<close>

text \<open>
  C26. The number codec: both byte-order variants of \<open>__xl_n2b\<close> produce the same nine bytes, and
  reading them with \<open>__xl_b2n\<close> of the little-endian build gives the number back, for all 64-bit
  numbers and every type byte.
\<close>

theorem xline_number_roundtrip:
  "xl_n2b_be n t = xl_n2b_le n t \<and> xl_b2n (xl_n2b_le n t) 0 = Some n
     \<and> xl_b2float (xl_n2b_le n t) 0 = Some (obj_le n)"
proof (intro conjI)
  show "xl_n2b_be n t = xl_n2b_le n t" by (simp add: xl_n2b_be_def xl_n2b_le_def obj_be_def obj_le_def Let_def)
  have "holds_at (xl_n2b_le n t) 0 (t # obj_le n)" by (simp add: xl_n2b_Cons holds_at_def)
  then show "xl_b2n (xl_n2b_le n t) 0 = Some n" "xl_b2float (xl_n2b_le n t) 0 = Some (obj_le n)"
    by (rule xl_b2n_holds, rule xl_b2float_holds)
qed

text \<open>The big-endian reader reverses the bytes the big-endian writer stored.\<close>

lemma xline_be_number_swapped: "xl_b2n_be (xl_n2b_be 1 t) 0 = Some 0x0100000000000000"
  by (simp add: xl_n2b_be_def xl_b2n_be_def obj_be_def obj_le_def Let_def rd_seg_def)

text \<open>
  C14. Lookup: on an encoded object (keys of at most 64 bytes without NUL) \<open>xl_parser\<close> and then
  \<open>xl_find\<close> terminate inside the object and find exactly the first field with the key: the pointer
  returned is at that field's value, and NULL is returned when no field has the key.
\<close>

theorem xl_find_first:
  assumes "holds_at m a (enc_val (XObj fs))" and "wf_fields fs" and "length (enc_fields fs) < 2 ^ 64"
    and "key_obj ks key" and "length key < 2 ^ 63"
  shows "\<exists>q q' r. xl_parser m a = Some q \<and> xl_find q (Some ks) = Some (q', r)
     \<and> (case map_of fs key of None \<Rightarrow> r = None
        | Some v \<Rightarrow> \<exists>b. r = Some b \<and> holds_at m b (enc_val v))"
proof -
  obtain q where q: "xl_parser m a = Some q" "at_fields q [] fs" "q_mem q = m"
    using xl_parser_at[OF assms(1-3)] by blast
  obtain q' r where "xl_find q (Some ks) = Some (q', r)"
      "case map_of (fs @ []) key of None \<Rightarrow> r = None | Some v \<Rightarrow> \<exists>b. r = Some b \<and> holds_at m b (enc_val v)"
    using xl_find_run[OF q(2) assms(4,5), unfolded q(3)] by blast
  with q(1) show ?thesis by auto
qed

definition demo_fields :: "(bytes \<times> xval) list" where
  "demo_fields = [([97], XUint 7), ([98], XStr [104, 105, 0]), ([97], XUint 9)]"

theorem xl_find_first_witness:
  "\<exists>q q' r. xl_parser (enc_val (XObj demo_fields)) 0 = Some q \<and> xl_find q (Some [97, 0]) = Some (q', r)
     \<and> (case map_of demo_fields [97] of None \<Rightarrow> r = None
        | Some v \<Rightarrow> \<exists>b. r = Some b \<and> holds_at (enc_val (XObj demo_fields)) b (enc_val v))"
  by (rule xl_find_first)
     (simp_all add: holds_at_def wf_fields_def demo_fields_def wf_key_def enc_field_def key_obj_def cstr_def)

text \<open>
  The search is cyclic and composes: from any field boundary, with the fields \<open>pre\<close> already
  passed and \<open>post\<close> ahead, \<open>xl_find\<close> returns the first match of \<open>post\<close> followed by \<open>pre\<close> and
  leaves the parser at a field boundary of the same object.
\<close>

theorem xl_find_cyclic:
  assumes "at_fields q pre post" and "key_obj ks key" and "length key < 2 ^ 63"
  shows "\<exists>q' r pre' post'. xl_find q (Some ks) = Some (q', r) \<and> pre' @ post' = pre @ post
     \<and> at_fields q' pre' post' \<and> q_mem q' = q_mem q \<and> q_ptr q' = q_ptr q
     \<and> (case map_of (post @ pre) key of None \<Rightarrow> r = None
        | Some v \<Rightarrow> \<exists>a. r = Some a \<and> holds_at (q_mem q) a (enc_val v))"
  using assms by (rule xl_find_run)

definition demo_parser :: xparser where
  "demo_parser = \<lparr>q_rpos = of_nat (length (enc_fields [([97], XUint 7)])),
     q_wpos = of_nat (length (enc_fields demo_fields)), q_size = 0, q_key = 0, q_val = None, q_ptr = 0,
     q_mem = enc_fields demo_fields\<rparr>"

theorem xl_find_cyclic_witness:
  "\<exists>q' r pre' post'. xl_find demo_parser (Some [97, 0]) = Some (q', r)
     \<and> pre' @ post' = take 1 demo_fields @ drop 1 demo_fields
     \<and> at_fields q' pre' post' \<and> q_mem q' = q_mem demo_parser \<and> q_ptr q' = q_ptr demo_parser
     \<and> (case map_of (drop 1 demo_fields @ take 1 demo_fields) [97] of None \<Rightarrow> r = None
        | Some v \<Rightarrow> \<exists>a. r = Some a \<and> holds_at (q_mem demo_parser) a (enc_val v))"
  by (rule xl_find_cyclic)
     (simp_all add: at_fields_def demo_parser_def holds_at_def wf_fields_def demo_fields_def wf_key_def
        enc_field_def key_obj_def cstr_def)


text \<open>A frame for the concrete runs below.\<close>

definition demo_frame :: xframe where
  "demo_frame = \<lparr>f_ref = 1, f_flag = 0, f_type = 0, f_id = 0, f_spos = 0, f_range = 0, f_rpos = 0, f_wpos = 0,
     f_size = 16, f_key = 0, f_args = [0, 0, 0, 0], f_line = replicate 9 0, f_data = replicate 16 0\<rparr>"

lemma demo_frame_holds: "frame_holds demo_frame []"
  by (simp add: frame_holds_def frame_ok_def frame_bytes_def demo_frame_def wf_fields_def)

text \<open>
  C16. Round trip of an integer through a frame: \<open>xl_add_int\<close> under a fresh key, growing the frame
  when needed, then \<open>xl_parser\<close> on the frame's line and \<open>xl_find_int\<close> with the same key give back
  the signed value stored.
\<close>

theorem xline_int_roundtrip:
  assumes "frame_holds f fs" and "key_obj ks k" and "wf_key k" and "k \<notin> fst ` set fs"
    and "2 * unat (f_size f) + 84 < 2 ^ 64"
  shows "\<exists>f' q q' a. xl_add_int True junk f (Some ks) n = Some (f', f_wpos f')
     \<and> frame_holds f' (fs @ [(k, XInt n)]) \<and> xl_parser (f_obj f') 0 = Some q
     \<and> xl_find_int q (Some ks) = Some (q', Some a, Some (sint n))"
proof -
  have "2 * unat (f_size f) + length k + 11 + length (enc_val (XInt n)) < 2 ^ 64" "length k < 2 ^ 63"
    using assms(3,5) by (auto simp: wf_key_def)
  from int_adder.added_field_found[OF assms(1-3) TrueI this(1) assms(2) this(2)]
  obtain f' q q' r where r: "xl_add_int True junk f (Some ks) n = Some (f', f_wpos f')"
     "frame_holds f' (fs @ [(k, XInt n)])" "xl_parser (f_obj f') 0 = Some q" "xl_find q (Some ks) = Some (q', r)"
     "case map_of (fs @ [(k, XInt n)]) k of None \<Rightarrow> r = None | Some w \<Rightarrow> \<exists>a. r = Some a \<and> holds_at (f_obj f') a (enc_val w)"
     "q_mem q' = f_obj f'"
    by blast
  moreover have "map_of (fs @ [(k, XInt n)]) k = Some (XInt n)"
    using assms(4) by (simp add: map_add_def map_of_eq_None_iff[THEN iffD2])
  ultimately obtain a where "r = Some a" "holds_at (f_obj f') a (XLINE_TYPE_INT # obj_le n)" by auto
  then show ?thesis using r by (simp add: xl_find_int_def xl_b2n_holds)
qed

theorem xline_int_roundtrip_witness:
  "\<exists>f' q q' a. xl_add_int True (\<lambda>_. 0xAA) demo_frame (Some [97, 98, 99, 100, 101, 102, 0]) (- 5) = Some (f', f_wpos f')
     \<and> frame_holds f' ([] @ [([97, 98, 99, 100, 101, 102], XInt (- 5))]) \<and> xl_parser (f_obj f') 0 = Some q
     \<and> xl_find_int q (Some [97, 98, 99, 100, 101, 102, 0]) = Some (q', Some a, Some (sint (- 5 :: u64)))"
  by (rule xline_int_roundtrip[OF demo_frame_holds])
     (simp_all add: key_obj_def cstr_def wf_key_def demo_frame_def)

text \<open>
  C25. Nested objects: \<open>xl_obj_begin\<close> opens a field, whatever is added up to \<open>xl_obj_end\<close> becomes the
  body of an object stored under the key, at any nesting depth; the frame then holds the outer
  fields followed by that object.
\<close>

theorem xline_nested_object:
  assumes "frame_holds f fs" and "key_obj ks k" and "wf_key k" and "2 * unat (f_size f) + 75 < 2 ^ 64"
  shows "\<exists>g pos. xl_obj_begin True junk f (Some ks) = Some (g, pos) \<and> frame_ok g
     \<and> (\<forall>h inner. frame_ok h \<longrightarrow> frame_bytes h = frame_bytes g @ enc_fields inner \<longrightarrow>
          (\<exists>e. xl_obj_end h pos = Some (e, pos) \<and> frame_holds e (fs @ [(k, XObj inner)])
             \<and> line_ok (xl_fixed e)))"
proof -
  have "2 * unat (f_size f) + length k + 11 < 2 ^ 64" "frame_ok f" "frame_bytes f = enc_fields fs"
    using assms by (auto simp: wf_key_def frame_holds_def)
  then obtain g hole where g: "xl_obj_begin True junk f (Some ks) = Some (g, of_nat (length (frame_bytes f @ enc_key k)))"
      "frame_ok g" "length hole = 9" "frame_bytes g = (frame_bytes f @ enc_key k) @ hole"
    using xl_obj_begin_opens[OF _ assms(2,3), of f junk] by (auto simp: add.assoc)
  have "\<exists>e. xl_obj_end h (of_nat (length (frame_bytes f @ enc_key k))) = Some (e, of_nat (length (frame_bytes f @ enc_key k)))
       \<and> frame_holds e (fs @ [(k, XObj inner)]) \<and> line_ok (xl_fixed e)"
    if "frame_ok h" "frame_bytes h = frame_bytes g @ enc_fields inner" for h inner
  proof -
    have "frame_bytes h = (frame_bytes f @ enc_key k) @ hole @ enc_fields inner" using that(2) g(4) by simp
    from xl_obj_end_closes[OF that(1) this g(3)] assms(1,3) show ?thesis
      by (auto simp: frame_holds_def wf_fields_def enc_field_def line_ok_def xl_fixed_def)
  qed
  with g(1,2) show ?thesis by blast
qed

theorem xline_nested_object_witness:
  "\<exists>g pos. xl_obj_begin True (\<lambda>_. 0xAA) demo_frame (Some [97, 0]) = Some (g, pos) \<and> frame_ok g
     \<and> (\<forall>h inner. frame_ok h \<longrightarrow> frame_bytes h = frame_bytes g @ enc_fields inner \<longrightarrow>
          (\<exists>e. xl_obj_end h pos = Some (e, pos) \<and> frame_holds e ([] @ [([97], XObj inner)])
             \<and> line_ok (xl_fixed e)))"
  by (rule xline_nested_object[OF demo_frame_holds])
     (simp_all add: key_obj_def cstr_def wf_key_def demo_frame_def)

text \<open>A client's loop over a list that expects \<open>n\<close> elements.\<close>

fun walk_list :: "nat \<Rightarrow> xparser \<Rightarrow> nat list option" where
  "walk_list 0 q = do { (q1, r) \<leftarrow> xl_list_next q; case r of None \<Rightarrow> Some [] | Some _ \<Rightarrow> None }"
| "walk_list (Suc n) q = do { (q1, r) \<leftarrow> xl_list_next q;
     case r of None \<Rightarrow> None | Some a \<Rightarrow> do { as \<leftarrow> walk_list n q1; Some (a # as) } }"

lemma walk_list_run:
  "at_list q pre post \<Longrightarrow> \<exists>as. walk_list (length post) q = Some as
     \<and> list_all2 (\<lambda>a v. holds_at (q_mem q) a (enc_val v)) as post"
proof (induction post arbitrary: q pre)
  case Nil
  then show ?case by (simp add: xl_list_next_end)
next
  case (Cons v post)
  obtain q1 a where q1: "xl_list_next q = Some (q1, Some a)" "at_list q1 (pre @ [v]) post"
     "holds_at (q_mem q) a (enc_val v)" "q_mem q1 = q_mem q"
    using xl_list_next_at[OF Cons.prems] by blast
  then show ?case using Cons.IH[OF q1(2)] by auto
qed

text \<open>
  Iteration: over a list \<open>xl_list_next\<close> yields one pointer per element, in order, at the
  element's line, and NULL at the end; the walk never leaves the list.
\<close>

theorem xline_list_walk:
  assumes "holds_at m a (enc_val (XList vs))" and "length (enc_val (XList vs)) < 2 ^ 64"
  shows "\<exists>q as. xl_parser m a = Some q \<and> walk_list (length vs) q = Some as
     \<and> list_all2 (\<lambda>p v. holds_at m p (enc_val v)) as vs"
proof -
  have blk: "holds_at m a (enc_block XLINE_TYPE_LIST (enc_vals vs))" using assms(1) by (simp add: enc_vals_def)
  have "xl_sizeof_body m a = Some (of_nat (length (enc_vals vs)))"
    using sizeof_body_block[OF blk] by (simp add: xline_types)
  moreover have "holds_at m (a + 9) (enc_vals vs)"
    using blk holds_at_append[of m a "XLINE_TYPE_LIST # obj_le (of_nat (length (enc_vals vs)))" "enc_vals vs"]
    by (simp add: enc_block_def)
  ultimately obtain q where q: "xl_parser m a = Some q" "at_list q [] vs" "q_mem q = m"
    using assms(2) by (simp add: xl_parser_def at_list_def enc_vals_def)
  then show ?thesis using walk_list_run[OF q(2)] by auto
qed

theorem xline_list_walk_witness:
  "\<exists>q as. xl_parser (enc_val (XList [XUint 1, XStr [97, 0], XUint 3])) 0 = Some q
     \<and> walk_list (length [XUint 1, XStr [97, 0], XUint 3]) q = Some as
     \<and> list_all2 (\<lambda>p v. holds_at (enc_val (XList [XUint 1, XStr [97, 0], XUint 3])) p (enc_val v)) as
         [XUint 1, XStr [97, 0], XUint 3]"
  by (rule xline_list_walk) (simp_all add: holds_at_def)

text \<open>
  C33. When the frame must grow and memory is exhausted, the number builders report \<open>XEOF\<close> and change
  no byte of the frame, but leave its size field at the enlarged value, larger than the buffer: the
  room check of the next call then passes and that call writes outside the buffer.
\<close>

theorem xline_no_memory_corrupts:
  assumes "frame_ok f" and "key_obj ks k" and "wf_key k"
    and "f_size f - f_wpos f < of_nat (length k) + 11"
    and "f_wpos f = f_size f" and "2 * unat (f_size f) + 75 < 2 ^ 64"
  shows "\<exists>f'. xl_add_num t False junk f (Some ks) n = Some (f', XEOF) \<and> f_data f' = f_data f
     \<and> f_wpos f' = f_wpos f \<and> \<not> frame_ok f' \<and> xl_add_num t' ok junk f' (Some ks) n' = None"
proof -
  let ?f = "f\<lparr>f_size := f_size f * 2 + (of_nat (length k) + 11)\<rparr>"
  have k: "length k \<le> 64" using assms(3) by (simp add: wf_key_def)
  have sz: "unat (f_size ?f) = 2 * unat (f_size f) + (length k + 11)"
  proof -
    have "f_size ?f = of_nat (2 * unat (f_size f) + (length k + 11))" by (simp add: mult.commute)
    then show ?thesis using assms(6) k by (simp only:) (rule unat_of_nat_small, linarith)
  qed
  have d: "length (f_data f) = unat (f_size f)" using assms(1) by (simp add: frame_ok_def)
  have "\<not> f_size ?f - f_wpos ?f < of_nat (length k) + 2 + 9"
  proof -
    have "f_size ?f - f_wpos ?f = of_nat (unat (f_size f) + (length k + 11))"
      using assms(5) by simp
    moreover have "unat (of_nat (unat (f_size f) + (length k + 11)) :: u64) = unat (f_size f) + (length k + 11)"
      using assms(6) k by (intro unat_of_nat_small) linarith
    moreover have "unat ((of_nat (length k) :: u64) + 2 + 9) = length k + 11"
      using newlen_unat[OF assms(3), of "unat (f_size f)" 0] assms(6) k by simp
    ultimately show ?thesis by (simp add: word_less_nat_alt)
  qed
  moreover have "xl_fill_key ?f (Some ks) (of_nat (length k)) = None"
    using d assms(5) by (simp add: xl_fill_key_def Let_def wr_def)
  ultimately have "xl_add_num t' ok junk ?f (Some ks) n' = None"
    using key_obj_slength[OF assms(2)] by (simp add: xl_add_num_def xl_reserve_def)
  then show ?thesis
    using xl_add_num_no_memory[OF assms(1,2,4), of t junk n] sz d
    by (intro exI[of _ ?f]) (simp add: frame_ok_def)
qed

theorem xline_no_memory_corrupts_witness:
  "\<exists>f'. xl_add_num 2 False (\<lambda>_. 0) (demo_frame\<lparr>f_wpos := 16\<rparr>) (Some [97, 0]) 1 = Some (f', XEOF)
     \<and> f_data f' = f_data (demo_frame\<lparr>f_wpos := 16\<rparr>) \<and> f_wpos f' = f_wpos (demo_frame\<lparr>f_wpos := 16\<rparr>)
     \<and> \<not> frame_ok f' \<and> xl_add_num 2 True (\<lambda>_. 0) f' (Some [97, 0]) 2 = None"
  by (rule xline_no_memory_corrupts[where k = "[97]"])
     (simp_all add: frame_ok_def demo_frame_def key_obj_def cstr_def wf_key_def)


end
