(* ===== verification/Channel.thy ===== *)
theory Channel
  imports Xline_Frame
begin

text \<open>
  The channel of \<open>src/src/xnet/xmsger.c\<close>: one connection of the reliable message transport over
  UDP. Its state is the three ring buffers with 16-bit counters (messages to send, packets sent and
  not yet acknowledged, packets received), the pacing and round-trip statistics and the pending
  acknowledgement. The definitions are the packet-level operations of the file; the theories
  \<open>Channel_Recv\<close> and \<open>Channel_Send\<close> prove what the receiving and the sending half promise.

  What the code asks of the operating system is part of the state it runs in: the readings of the
  clock and the results of \<open>udp_sendto\<close> are arbitrary sequences, \<open>w_out\<close> is what was handed to the
  network, \<open>w_from\<close> and \<open>w_to\<close> are the calls of \<open>on_message_from_peer\<close> and \<open>on_message_to_peer\<close>.
  Messages live in a store, since the message ring and the packets share them; address 0 is NULL.
\<close>

section \<open>Constants and data\<close>

definition XBODY_SIZE :: nat where "XBODY_SIZE = 1280"
definition XPACK_SERIAL_RANGE :: u16 where "XPACK_SERIAL_RANGE = 64"
definition XPACK_PSF_DEFAULT :: u64 where "XPACK_PSF_DEFAULT = 100000"
definition XPACK_PSF_SAMPLING :: u64 where "XPACK_PSF_SAMPLING = 10000000"
definition XMSG_BUF_RANGE :: u16 where "XMSG_BUF_RANGE = 8"
definition XCHANNEL_TIMEDOUT_LIMIT :: u64 where "XCHANNEL_TIMEDOUT_LIMIT = 10"
definition XCHANNEL_RTT_SAMPLING_COUNTS :: u16 where "XCHANNEL_RTT_SAMPLING_COUNTS = 256"
definition XCHANNEL_THRESHOLD_MIN :: u16 where "XCHANNEL_THRESHOLD_MIN = 8"
definition XCHANNEL_THRESHOLD_INIT :: u16 where "XCHANNEL_THRESHOLD_INIT = XPACK_SERIAL_RANGE"

definition XPACK_TYPE_ACK :: u16 where "XPACK_TYPE_ACK = 0x00"
definition XPACK_TYPE_REQ :: u16 where "XPACK_TYPE_REQ = 0x01"
definition XPACK_TYPE_MSG :: u16 where "XPACK_TYPE_MSG = 0x02"
definition XPACK_TYPE_RES :: u16 where "XPACK_TYPE_RES = 0x03"
definition XPACK_TYPE_FLUSH :: u16 where "XPACK_TYPE_FLUSH = 0xF0"
definition XPACK_TYPE_LOCAL :: u16 where "XPACK_TYPE_LOCAL = 0xF1"

lemmas xpack_types = XPACK_TYPE_ACK_def XPACK_TYPE_REQ_def XPACK_TYPE_MSG_def XPACK_TYPE_RES_def
  XPACK_TYPE_FLUSH_def XPACK_TYPE_LOCAL_def

text \<open>
  \<open>x * XCHANNEL_RESEND_SCALING_FACTOR\<close> (the \<open>double\<close> 1.5) converted back to 64 bits. The integer
  formula is what the conversion gives as long as the product is exact in a \<open>double\<close>, i.e. for
  times below \<open>2^51\<close> nanoseconds (26 days).
\<close>

definition resend_scaled :: "u64 \<Rightarrow> u64" where
  "resend_scaled x = of_nat (unat x * 3 div 2)"

record xhead =
  h_type :: u16
  h_sn :: u16
  h_resend :: u16
  h_ack_type :: u16
  h_ack_sn :: u16
  h_ack_pos :: u16
  h_cid :: u16
  h_len :: u16
  h_range :: u16

record xpack =
  k_ts :: u64
  k_kabuf :: u64
  k_timedout :: u64
  k_msg :: nat
  k_head :: xhead
  k_body :: bytes

record 'a serialbuf =
  b_range :: u16
  b_spos :: u16
  b_rpos :: u16
  b_wpos :: u16
  b_buf :: "'a list"

record xchannel =
  c_serial_range :: u16
  c_kabuf :: u64
  c_threshold :: u16
  c_psf :: u64
  c_psf_begin :: u64
  c_psf_counter :: u64
  c_rtt :: u64
  c_rtt_counter :: u16
  c_rtt_duration :: u64
  c_send_ts :: u64
  c_recv_ts :: u64
  c_ack_ts :: u64
  c_cid :: u16
  c_addr :: nat
  c_timedout :: bool
  c_spos :: u64
  c_rpos :: u64
  c_wpos :: u64
  c_msg :: "xframe option"
  c_req :: nat
  c_ack :: xhead
  c_msgbuf :: "nat serialbuf"
  c_recvbuf :: "xpack option serialbuf"
  c_sendbuf :: "xpack serialbuf"

record xstate =
  w_chan :: xchannel
  w_msgs :: "nat \<Rightarrow> xframe option"
  w_mpos :: u64
  w_mlen :: u64
  w_clock :: "nat \<Rightarrow> u64"
  w_ticks :: nat
  w_sendok :: "nat \<Rightarrow> bool"
  w_sends :: nat
  w_malloc :: bool
  w_junk :: "nat \<Rightarrow> u8"
  w_raw :: xframe
  w_out :: "(xhead \<times> bytes) list"
  w_from :: "xframe list"
  w_to :: "nat list"

section \<open>Ring counters\<close>

text \<open>The index macros \<open>__serialbuf_wpos\<close>, \<open>__serialbuf_rpos\<close> and \<open>__serialbuf_spos\<close> on a counter value.\<close>

definition serialbuf_index :: "'a serialbuf \<Rightarrow> u16 \<Rightarrow> nat" where
  "serialbuf_index b p = unat (p AND (b_range b - 1))"

definition serialbuf_recvable :: "'a serialbuf \<Rightarrow> u16" where
  "serialbuf_recvable b = b_spos b - b_rpos b"

definition serialbuf_sendable :: "'a serialbuf \<Rightarrow> u16" where
  "serialbuf_sendable b = b_wpos b - b_spos b"

definition serialbuf_readable :: "'a serialbuf \<Rightarrow> u16" where
  "serialbuf_readable b = b_wpos b - b_rpos b"

definition serialbuf_writable :: "'a serialbuf \<Rightarrow> u16" where
  "serialbuf_writable b = b_range b - b_wpos b + b_rpos b"

lemmas serialbuf_counts = serialbuf_recvable_def serialbuf_sendable_def serialbuf_readable_def
  serialbuf_writable_def

section \<open>The environment\<close>

definition clock :: "xstate \<Rightarrow> u64 \<times> xstate" where
  "clock w = (w_clock w (w_ticks w), w\<lparr>w_ticks := w_ticks w + 1\<rparr>)"

text \<open>\<open>udp_sendto(sock, addr, &head, XHEAD_SIZE + len) == XHEAD_SIZE + len\<close>; \<open>body\<close> is what follows the head.\<close>

definition udp_sendto :: "xhead \<Rightarrow> bytes \<Rightarrow> xstate \<Rightarrow> bool \<times> xstate" where
  "udp_sendto h body w =
     (if w_sendok w (w_sends w)
      then (True, w\<lparr>w_sends := w_sends w + 1, w_out := w_out w @ [(h, body)]\<rparr>)
      else (False, w\<lparr>w_sends := w_sends w + 1\<rparr>))"

section \<open>Messages\<close>

text \<open>\<open>xmsg_fixed\<close>: the number of packets a message takes.\<close>

definition xmsg_fixed :: "xframe \<Rightarrow> xframe" where
  "xmsg_fixed m =
     (let m1 = m\<lparr>f_rpos := 0, f_spos := 0\<rparr> in
      if f_wpos m1 > 0 then
        let r = f_wpos m1 div of_nat XBODY_SIZE in
        m1\<lparr>f_range := (if r * of_nat XBODY_SIZE < f_wpos m1 then r + 1 else r)\<rparr>
      else m1\<lparr>f_range := 1\<rparr>)"

text \<open>\<open>xmsger_send\<close> on a live channel and message: the address \<open>mp\<close> goes into the message ring.\<close>

definition msgbuf_put :: "nat \<Rightarrow> xframe \<Rightarrow> xstate \<Rightarrow> xstate option" where
  "msgbuf_put mp m w = do {
     let c = w_chan w;
     let mb = c_msgbuf c;
     buf \<leftarrow> wr (b_buf mb) (serialbuf_index mb (b_wpos mb)) mp;
     Some (w\<lparr>w_mlen := w_mlen w + f_wpos m, w_msgs := (w_msgs w)(mp \<mapsto> m),
             w_chan := c\<lparr>c_wpos := c_wpos c + f_wpos m, c_msgbuf := mb\<lparr>b_buf := buf, b_wpos := b_wpos mb + 1\<rparr>\<rparr>\<rparr>) }"

definition xmsger_send :: "nat \<Rightarrow> xstate \<Rightarrow> (xstate \<times> int) option" where
  "xmsger_send mp w =
     (if mp = 0 then Some (w, - 1)
      else if serialbuf_writable (c_msgbuf (w_chan w)) > 0 then do {
        m \<leftarrow> w_msgs w mp;
        w' \<leftarrow> msgbuf_put mp (xmsg_fixed m) w;
        Some (w', 0) }
      else Some (w, - 1))"

section \<open>Creating a channel\<close>

definition zero_head :: xhead where
  "zero_head = \<lparr>h_type = 0, h_sn = 0, h_resend = 0, h_ack_type = 0, h_ack_sn = 0, h_ack_pos = 0, h_cid = 0,
     h_len = 0, h_range = 0\<rparr>"

definition zero_pack :: xpack where
  "zero_pack = \<lparr>k_ts = 0, k_kabuf = 0, k_timedout = 0, k_msg = 0, k_head = zero_head,
     k_body = replicate XBODY_SIZE 0\<rparr>"

text \<open>
  \<open>xchannel_create\<close> after its allocations succeeded: the ring arrays have \<open>1 + range\<close> elements.
  \<open>now\<close> is the reading of the clock.
\<close>

definition xchannel_create :: "u64 \<Rightarrow> u16 \<Rightarrow> xchannel" where
  "xchannel_create now serial_range = \<lparr>c_serial_range = serial_range, c_kabuf = 0,
     c_threshold = XCHANNEL_THRESHOLD_INIT, c_psf = 0, c_psf_begin = 0, c_psf_counter = 0, c_rtt = 100000000,
     c_rtt_counter = 0, c_rtt_duration = 0, c_send_ts = now, c_recv_ts = now, c_ack_ts = 0, c_cid = 0,
     c_addr = 0, c_timedout = False, c_spos = 0, c_rpos = 0, c_wpos = 0, c_msg = None, c_req = 0,
     c_ack = zero_head,
     c_msgbuf = \<lparr>b_range = XMSG_BUF_RANGE, b_spos = 0, b_rpos = 0, b_wpos = 0,
        b_buf = replicate (unat XMSG_BUF_RANGE + 1) 0\<rparr>,
     c_recvbuf = \<lparr>b_range = serial_range, b_spos = 0, b_rpos = 0, b_wpos = 0,
        b_buf = replicate (unat serial_range + 1) None\<rparr>,
     c_sendbuf = \<lparr>b_range = serial_range, b_spos = 0, b_rpos = 0, b_wpos = 0,
        b_buf = replicate (unat serial_range + 1) zero_pack\<rparr>\<rparr>"

section \<open>Sending\<close>

text \<open>The length of the next fragment of a message.\<close>

definition frag_len :: "xframe \<Rightarrow> u16" where
  "frag_len m = (if f_wpos m > 0
     then (if f_wpos m - f_spos m < of_nat XBODY_SIZE then ucast (f_wpos m - f_spos m) else of_nat XBODY_SIZE)
     else 0)"

text \<open>The packet of a fragment, made in the slot it will be sent from.\<close>

definition fill_pack :: "xchannel \<Rightarrow> nat \<Rightarrow> xframe \<Rightarrow> bytes \<Rightarrow> xpack \<Rightarrow> xpack" where
  "fill_pack c mp m body pack = pack\<lparr>k_msg := mp, k_ts := c_rtt c, k_body := body,
     k_head := (k_head pack)\<lparr>h_type := f_type m, h_len := frag_len m, h_range := ucast (f_range m),
       h_resend := 0, h_ack_type := 0, h_ack_pos := c_serial_range c, h_cid := c_cid c,
       h_sn := b_wpos (c_sendbuf c)\<rparr>\<rparr>"

definition xchannel_serial_msg :: "xstate \<Rightarrow> xstate option" where
  "xchannel_serial_msg w =
     (let c = w_chan w; sb = c_sendbuf c; mb = c_msgbuf c in
      if serialbuf_writable sb > 0 \<and> serialbuf_sendable mb > 0 then do {
        mp \<leftarrow> rd (b_buf mb) (serialbuf_index mb (b_spos mb));
        m \<leftarrow> w_msgs w mp;
        pack \<leftarrow> rd (b_buf sb) (serialbuf_index sb (b_wpos sb));
        let len = frag_len m;
        body \<leftarrow> mcopy (k_body pack) 0 (f_data m) (unat (f_spos m)) (unat len);
        let m' = m\<lparr>f_spos := f_spos m + ucast len, f_range := f_range m - 1\<rparr>;
        buf \<leftarrow> wr (b_buf sb) (serialbuf_index sb (b_wpos sb)) (fill_pack c mp m body pack);
        let mb' = (if f_spos m' = f_wpos m' then mb\<lparr>b_spos := b_spos mb + 1\<rparr> else mb);
        Some (w\<lparr>w_msgs := (w_msgs w)(mp \<mapsto> m'),
               w_chan := c\<lparr>c_sendbuf := sb\<lparr>b_buf := buf, b_wpos := b_wpos sb + 1\<rparr>, c_msgbuf := mb'\<rparr>\<rparr>) }
      else Some w)"

text \<open>The block of \<open>xchannel_send_pack\<close> after the packet was taken from the ring.\<close>

definition send_front :: "xpack \<Rightarrow> xstate \<Rightarrow> xstate option" where
  "send_front pack0 w =
     (let c = w_chan w; sb = c_sendbuf c; i = serialbuf_index sb (b_spos sb);
          pack = (if h_ack_type (c_ack c) \<noteq> 0
            then pack0\<lparr>k_head := (k_head pack0)\<lparr>h_ack_type := h_ack_type (c_ack c),
                   h_ack_sn := h_ack_sn (c_ack c), h_ack_pos := h_ack_pos (c_ack c)\<rparr>\<rparr>
            else pack0) in do {
        body \<leftarrow> rd_seg (k_body pack) 0 (unat (h_len (k_head pack)));
        let (sent, w1) = udp_sendto (k_head pack) body w;
        if sent then do {
          let (now, w2) = clock w1;
          let pack' = pack\<lparr>k_head := (k_head pack)\<lparr>h_resend := 1\<rparr>, k_ts := now,
                k_kabuf := (if c_kabuf c \<noteq> 0 then now - c_kabuf c else 0),
                k_timedout := of_nat (unat (c_rtt c) * 3)\<rparr>;
          buf \<leftarrow> wr (b_buf sb) i pack';
          xchannel_serial_msg (w2\<lparr>w_chan := c\<lparr>c_ack := (c_ack c)\<lparr>h_ack_type := 0\<rparr>, c_send_ts := now, c_kabuf := 0,
             c_spos := c_spos c + ucast (h_len (k_head pack)),
             c_sendbuf := sb\<lparr>b_buf := buf, b_spos := b_spos sb + 1\<rparr>\<rparr>\<rparr>) }
        else do {
          buf \<leftarrow> wr (b_buf sb) i pack;
          Some (w1\<lparr>w_chan := c\<lparr>c_sendbuf := sb\<lparr>b_buf := buf\<rparr>\<rparr>\<rparr>) } })"

definition xchannel_send_pack :: "xstate \<Rightarrow> xstate option" where
  "xchannel_send_pack w = do {
     w1 \<leftarrow> (if serialbuf_sendable (c_sendbuf (w_chan w)) = 0 then xchannel_serial_msg w else Some w);
     let sb = c_sendbuf (w_chan w1);
     if serialbuf_sendable sb > 0 then do {
       pack \<leftarrow> rd (b_buf sb) (serialbuf_index sb (b_spos sb));
       send_front pack w1 }
     else Some w1 }"

definition xchannel_send_ack :: "xstate \<Rightarrow> xstate" where
  "xchannel_send_ack w =
     (let c = w_chan w; (sent, w1) = udp_sendto (c_ack c) [] w in
      if sent then w1\<lparr>w_chan := c\<lparr>c_ack := (c_ack c)\<lparr>h_ack_type := 0, h_resend := 0\<rparr>\<rparr>\<rparr> else w1)"

text \<open>\<open>xchannel_send_final\<close> answers a packet whose channel is gone.\<close>

definition final_head :: "xhead \<Rightarrow> xhead" where
  "final_head h = h\<lparr>h_type := XPACK_TYPE_ACK, h_ack_type := XPACK_TYPE_RES, h_ack_pos := h_sn h + 1,
     h_ack_sn := h_sn h + 1, h_len := 0, h_range := 1\<rparr>"

definition xchannel_send_final :: "xhead \<Rightarrow> xstate \<Rightarrow> xstate" where
  "xchannel_send_final h w = snd (udp_sendto (final_head h) [] w)"

section \<open>Receiving\<close>

text \<open>
  One pass of the loop of \<open>xchannel_recv_msg\<close>: the packet is appended to the message being
  assembled; the flag is \<open>False\<close> when \<open>xl_creator\<close> returned NULL.
\<close>

definition recv_msg_step :: "xpack \<Rightarrow> xstate \<Rightarrow> (xstate \<times> bool) option" where
  "recv_msg_step pack w =
     (let c = w_chan w; rb = c_recvbuf c; h = k_head pack in
      case (case c_msg c of Some m \<Rightarrow> Some m
            | None \<Rightarrow> map_option (\<lambda>m. m\<lparr>f_type := h_type h, f_range := ucast (h_range h)\<rparr>)
                (xl_creator (w_malloc w) (w_junk w) (w_raw w) (ucast (h_range h) * of_nat XBODY_SIZE))) of
        None \<Rightarrow> Some (w, False)
      | Some m \<Rightarrow> do {
          m1 \<leftarrow> (if h_len h > 0 then xl_put_body m (Some (k_body pack)) 0 (ucast (h_len h)) else Some m);
          let m2 = m1\<lparr>f_range := f_range m1 - 1\<rparr>;
          buf \<leftarrow> wr (b_buf rb) (serialbuf_index rb (b_rpos rb)) None;
          let c1 = c\<lparr>c_recvbuf := rb\<lparr>b_buf := buf, b_rpos := b_rpos rb + 1\<rparr>\<rparr>;
          if f_range m2 = 0 then
            let m3 = xl_fixed m2; m4 = m3\<lparr>f_args := (f_args m3)[2 := c_addr c]\<rparr> in
            Some (w\<lparr>w_chan := c1\<lparr>c_msg := None\<rparr>, w_from := w_from w @ [m4]\<rparr>, True)
          else Some (w\<lparr>w_chan := c1\<lparr>c_msg := Some m2\<rparr>\<rparr>, True) })"

partial_function (option) recv_msg_loop :: "xstate \<Rightarrow> (xstate \<times> bool) option" where
  "recv_msg_loop w = do {
     let rb = c_recvbuf (w_chan w);
     slot \<leftarrow> rd (b_buf rb) (serialbuf_index rb (b_rpos rb));
     case slot of None \<Rightarrow> Some (w, True)
     | Some pack \<Rightarrow> Option.bind (recv_msg_step pack w) (\<lambda>(w1, ok).
         if ok then recv_msg_loop w1 else Some (w1, False)) }"

text \<open>
  \<open>xchannel_recv_msg\<close>. The loop of the source is a \<open>do\<close>-\<open>while\<close>: its first packet is dereferenced
  without a test, so a NULL there is undefined behaviour.
\<close>

definition xchannel_recv_msg :: "xstate \<Rightarrow> (xstate \<times> int) option" where
  "xchannel_recv_msg w0 =
     (let (now, w1) = clock w0; w = w1\<lparr>w_chan := (w_chan w1)\<lparr>c_recv_ts := now\<rparr>\<rparr>;
          rb = c_recvbuf (w_chan w) in
      if serialbuf_readable rb > 0 then do {
        first \<leftarrow> rd (b_buf rb) (serialbuf_index rb (b_rpos rb));
        _ \<leftarrow> first;
        (w', ok) \<leftarrow> recv_msg_loop w;
        Some (w', if ok then 0 else - 1) }
      else Some (w, 0))"

text \<open>\<open>xchannel_sampling\<close>: \<^term>\<open>None\<close> is the division by a zero \<open>psf\<close>.\<close>

definition sampling_rtt :: "xchannel \<Rightarrow> u64 \<Rightarrow> xchannel" where
  "sampling_rtt c ts =
     (let rtt = c_ack_ts c - ts;
          dur = c_rtt_duration c + (if rtt > push_bit 1 (c_rtt c) then push_bit 1 (c_rtt c) else rtt) in
      if c_rtt_counter c < XCHANNEL_RTT_SAMPLING_COUNTS
      then c\<lparr>c_rtt_counter := c_rtt_counter c + 1, c_rtt_duration := dur,
             c_rtt := dur div ucast (c_rtt_counter c + 1)\<rparr>
      else c\<lparr>c_rtt_duration := dur - c_rtt c, c_rtt := drop_bit 8 (dur - c_rtt c)\<rparr>)"

definition sampling_psf :: "xchannel \<Rightarrow> u64 \<Rightarrow> xchannel option" where
  "sampling_psf c kabuf =
     (if c_psf c = 0 then
        if c_psf_begin c = 0
        then Some (c\<lparr>c_psf_begin := c_ack_ts c, c_psf_counter := c_psf_counter c + 1\<rparr>)
        else let n = c_psf_counter c + 1 in
          if c_ack_ts c - c_psf_begin c \<ge> XPACK_PSF_SAMPLING then
            if n = 0 then None
            else let psf = XPACK_PSF_SAMPLING div n in
              if psf = 0 then None
              else let t = ucast ((c_rtt c + psf - 1) div psf + 1) in
                Some (c\<lparr>c_psf_counter := n, c_psf := psf,
                   c_threshold := (if t > b_range (c_recvbuf c) then b_range (c_recvbuf c) else t)\<rparr>)
          else Some (c\<lparr>c_psf_counter := n\<rparr>)
      else if 2 * unat kabuf > 3 * unat (c_rtt c)
      then Some (c\<lparr>c_psf := 0, c_psf_begin := 0, c_psf_counter := 0, c_threshold := XCHANNEL_THRESHOLD_INIT\<rparr>)
      else Some c)"

definition xchannel_sampling :: "xchannel \<Rightarrow> xpack \<Rightarrow> (xchannel \<times> xpack) option" where
  "xchannel_sampling c pack = do {
     c' \<leftarrow> sampling_psf (sampling_rtt c (k_ts pack)) (k_kabuf pack);
     Some (c', pack\<lparr>k_ts := 0\<rparr>) }"

text \<open>Sampling the packet in slot \<open>i\<close> of the send ring, when it has a time stamp.\<close>

definition sample_slot :: "nat \<Rightarrow> xchannel \<Rightarrow> (xchannel \<times> xpack) option" where
  "sample_slot i c = do {
     pack \<leftarrow> rd (b_buf (c_sendbuf c)) i;
     if k_ts pack \<noteq> 0 then do {
       (c1, pack1) \<leftarrow> xchannel_sampling c pack;
       buf \<leftarrow> wr (b_buf (c_sendbuf c1)) i pack1;
       Some (c1\<lparr>c_sendbuf := (c_sendbuf c1)\<lparr>b_buf := buf\<rparr>\<rparr>, pack1) }
     else Some (c, pack) }"

text \<open>The bytes of the channel that have arrived; when all have, the statistics start anew.\<close>

definition ack_account :: "u64 \<Rightarrow> xchannel \<Rightarrow> xchannel" where
  "ack_account len c =
     (let c2 = c\<lparr>c_rpos := c_rpos c + len\<rparr> in
      if c_rpos c2 = c_wpos c2
      then c2\<lparr>c_threshold := XCHANNEL_THRESHOLD_INIT, c_ack_ts := 0, c_rtt_counter := 0, c_psf_begin := 0, c_psf := 0\<rparr>
      else c2)"

text \<open>One pass of the first loop of \<open>xchannel_recv_ack\<close>: the packet at \<open>rpos\<close> has arrived.\<close>

definition ack_front :: "xstate \<Rightarrow> xstate option" where
  "ack_front w = do {
     let i = serialbuf_index (c_sendbuf (w_chan w)) (b_rpos (c_sendbuf (w_chan w)));
     (c1, pack) \<leftarrow> sample_slot i (w_chan w);
     let len = (ucast (h_len (k_head pack)) :: u64);
     let c3 = ack_account len c1;
     m \<leftarrow> w_msgs w (k_msg pack);
     let m' = m\<lparr>f_rpos := f_rpos m + len\<rparr>;
     let w1 = w\<lparr>w_mpos := w_mpos w + len, w_msgs := (w_msgs w)(k_msg pack \<mapsto> m')\<rparr>;
     if f_rpos m' = f_wpos m' then do {
       let mb = c_msgbuf c3;
       mbuf \<leftarrow> wr (b_buf mb) (serialbuf_index mb (b_rpos mb)) 0;
       sbuf \<leftarrow> wr (b_buf (c_sendbuf c3)) i (pack\<lparr>k_msg := 0\<rparr>);
       Some (w1\<lparr>w_to := w_to w @ [k_msg pack],
          w_chan := c3\<lparr>c_msgbuf := mb\<lparr>b_buf := mbuf, b_rpos := b_rpos mb + 1\<rparr>,
            c_sendbuf := (c_sendbuf c3)\<lparr>b_buf := sbuf, b_rpos := b_rpos (c_sendbuf c3) + 1\<rparr>\<rparr>\<rparr>) }
     else Some (w1\<lparr>w_chan := c3\<lparr>c_sendbuf := (c_sendbuf c3)\<lparr>b_rpos := b_rpos (c_sendbuf c3) + 1\<rparr>\<rparr>\<rparr>) }"

text \<open>The first loop: \<open>ack\<close> is the cumulative acknowledgement \<open>head.ack.pos\<close>.\<close>

definition ack_more :: "u16 \<Rightarrow> xpack serialbuf \<Rightarrow> bool" where
  "ack_more ack sb \<longleftrightarrow> ack - b_rpos sb \<le> b_spos sb - b_rpos sb \<and> b_rpos sb \<noteq> ack"

partial_function (option) ack_loop :: "u16 \<Rightarrow> xstate \<Rightarrow> xstate option" where
  "ack_loop ack w =
     (if ack_more ack (c_sendbuf (w_chan w))
      then Option.bind (ack_front w) (\<lambda>w1. ack_loop ack w1) else Some w)"

text \<open>
  The second loop: the packets from \<open>index\<close> up to the one acknowledged alone are inspected, and
  the first that was neither received nor resent is sent again.
\<close>

definition resend_slot :: "nat \<Rightarrow> xpack \<Rightarrow> xstate \<Rightarrow> (xstate \<times> bool) option" where
  "resend_slot i pack0 w =
     (let (now, w1) = clock w; c = w_chan w; sb = c_sendbuf c;
          kab = now - k_ts pack0;
          pack = pack0\<lparr>k_kabuf := kab, k_ts := k_ts pack0 + kab,
            k_head := (let h = (k_head pack0)\<lparr>h_resend := h_resend (k_head pack0) + 1\<rparr> in
              if h_ack_type h \<noteq> 0 then h\<lparr>h_ack_pos := b_wpos (c_recvbuf c)\<rparr> else h)\<rparr> in do {
        body \<leftarrow> rd_seg (k_body pack) 0 (unat (h_len (k_head pack)));
        let (sent, w2) = udp_sendto (k_head pack) body w1;
        buf \<leftarrow> wr (b_buf sb) i (if sent then pack\<lparr>k_timedout := resend_scaled (k_timedout pack)\<rparr> else pack);
        Some (w2\<lparr>w_chan := c\<lparr>c_sendbuf := sb\<lparr>b_buf := buf\<rparr>\<rparr>\<rparr>, sent) })"

partial_function (option) resend_loop :: "u16 \<Rightarrow> u16 \<Rightarrow> xstate \<Rightarrow> xstate option" where
  "resend_loop sn index w =
     (if index \<noteq> sn then do {
        let sb = c_sendbuf (w_chan w);
        pack \<leftarrow> rd (b_buf sb) (serialbuf_index sb index);
        if k_ts pack \<noteq> 0 \<and> h_resend (k_head pack) < 2
        then Option.bind (resend_slot (serialbuf_index sb index) pack w) (\<lambda>(w1, sent).
               if sent then Some w1 else resend_loop sn (index + 1) w1)
        else resend_loop sn (index + 1) w }
      else Some w)"

text \<open>The block for an acknowledgement of a packet behind a gap (\<open>ack.sn\<close> differs from \<open>ack.pos\<close>).\<close>

definition ack_single :: "u16 \<Rightarrow> xstate \<Rightarrow> xstate option" where
  "ack_single sn w = do {
     (c, _) \<leftarrow> sample_slot (serialbuf_index (c_sendbuf (w_chan w)) sn) (w_chan w);
     if sn - b_rpos (c_sendbuf c) > 3 then resend_loop sn (b_rpos (c_sendbuf c)) (w\<lparr>w_chan := c\<rparr>)
     else Some (w\<lparr>w_chan := c\<rparr>) }"

definition ack_stamp :: "xstate \<Rightarrow> xstate" where
  "ack_stamp w = (let (now, w1) = clock w in w1\<lparr>w_chan := (w_chan w1)\<lparr>c_recv_ts := now, c_ack_ts := now\<rparr>\<rparr>)"

definition xchannel_recv_ack :: "xhead \<Rightarrow> xstate \<Rightarrow> xstate option" where
  "xchannel_recv_ack h w =
     (let sb = c_sendbuf (w_chan w) in
      if serialbuf_recvable sb > 0 \<and> h_ack_sn h - b_rpos sb \<le> b_spos sb - b_rpos sb then do {
        w2 \<leftarrow> ack_loop (h_ack_pos h) (ack_stamp w);
        if h_ack_sn h \<noteq> h_ack_pos h then ack_single (h_ack_sn h) w2 else Some w2 }
      else Some w)"

text \<open>The loop of \<open>xchannel_recv_pack\<close> over packets that had arrived early.\<close>

partial_function (option) early_loop :: "xchannel \<Rightarrow> xchannel option" where
  "early_loop c = do {
     let rb = c_recvbuf c;
     slot \<leftarrow> rd (b_buf rb) (serialbuf_index rb (b_wpos rb));
     if slot \<noteq> None \<and> serialbuf_writable rb > 0
     then let w = b_wpos rb + 1 in
       early_loop (c\<lparr>c_recvbuf := rb\<lparr>b_wpos := w\<rparr>, c_ack := (c_ack c)\<lparr>h_ack_pos := w, h_ack_sn := w\<rparr>\<rparr>)
     else Some c }"

text \<open>
  \<open>xchannel_recv_pack\<close>. The flag of the result says whether the packet was kept (\<open>*rpack = NULL\<close>);
  the integer is the return value of \<open>xchannel_recv_msg\<close>.
\<close>

definition carried_ack :: "xpack \<Rightarrow> xstate \<Rightarrow> xstate option" where
  "carried_ack pack w = (if h_ack_type (k_head pack) \<noteq> 0 then xchannel_recv_ack (k_head pack) w else Some w)"

definition store_pack :: "nat \<Rightarrow> xpack \<Rightarrow> xstate \<Rightarrow> xstate option" where
  "store_pack i pack w = do {
     let c = w_chan w;
     let rb = c_recvbuf c;
     buf \<leftarrow> wr (b_buf rb) i (Some pack);
     Some (w\<lparr>w_chan := c\<lparr>c_recvbuf := rb\<lparr>b_buf := buf\<rparr>\<rparr>\<rparr>) }"

definition recv_pack_place :: "xpack \<Rightarrow> xstate \<Rightarrow> (xstate \<times> bool) option" where
  "recv_pack_place pack w0 =
     (let h = k_head pack; c0 = w_chan w0;
          w = w0\<lparr>w_chan := c0\<lparr>c_ack := (c_ack c0)\<lparr>h_type := XPACK_TYPE_ACK, h_ack_type := h_type h\<rparr>\<rparr>\<rparr>;
          rb = c_recvbuf c0; i = serialbuf_index rb (h_sn h) in
      if h_sn h = b_wpos rb then do {
        w1 \<leftarrow> carried_ack pack w;
        w2 \<leftarrow> store_pack i pack w1;
        let c = w_chan w2;
        let wp = b_wpos (c_recvbuf c) + 1;
        c' \<leftarrow> early_loop (c\<lparr>c_recvbuf := (c_recvbuf c)\<lparr>b_wpos := wp\<rparr>, c_ack := (c_ack c)\<lparr>h_ack_pos := wp, h_ack_sn := wp\<rparr>\<rparr>);
        Some (w2\<lparr>w_chan := c'\<rparr>, True) }
      else if b_wpos rb - h_sn h > h_sn h - b_wpos rb then do {
        let c = w_chan w;
        let w1 = w\<lparr>w_chan := c\<lparr>c_ack := (c_ack c)\<lparr>h_ack_sn := h_sn h, h_ack_pos := b_wpos rb\<rparr>\<rparr>\<rparr>;
        slot \<leftarrow> rd (b_buf rb) i;
        if slot = None then do {
          w2 \<leftarrow> carried_ack pack w1;
          w3 \<leftarrow> store_pack i pack w2;
          Some (w3, True) }
        else Some (w1, False) }
      else let c = w_chan w in
        Some (w\<lparr>w_chan := c\<lparr>c_ack := (c_ack c)\<lparr>h_ack_pos := b_wpos rb, h_ack_sn := b_wpos rb, h_resend := 2\<rparr>\<rparr>\<rparr>, False))"

definition xchannel_recv_pack :: "xpack \<Rightarrow> xstate \<Rightarrow> (xstate \<times> bool \<times> int) option" where
  "xchannel_recv_pack pack w = do {
     (w1, kept) \<leftarrow> recv_pack_place pack w;
     (w2, r) \<leftarrow> xchannel_recv_msg w1;
     Some (w2, kept, r) }"

end
