(* ===== verification/Channel_Recv.thy ===== *)
theory Channel_Recv
  imports Channel
begin

text \<open>
  The receiving half of a channel (\<open>xchannel_recv_pack\<close>, \<open>xchannel_recv_msg\<close>): whatever order
  packets arrive in, with losses and duplicates, the packets handed to reassembly are the packets of
  the peer's stream in order, each exactly once, and nothing is written outside a message.
\<close>

section \<open>Reassembly\<close>

text \<open>
  What assembling a stream of packets means: the message in progress (type, bytes, packets still
  missing) and the messages completed.
\<close>

type_synonym asm = "(u16 \<times> bytes \<times> nat) option \<times> (u16 \<times> bytes) list"

definition pack_bytes :: "xpack \<Rightarrow> bytes" where
  "pack_bytes p = take (unat (h_len (k_head p))) (k_body p)"

definition asm_step :: "xpack \<Rightarrow> asm \<Rightarrow> asm" where
  "asm_step p s = (case s of (cur, out) \<Rightarrow>
     let (t, b, r) = (case cur of None \<Rightarrow> (h_type (k_head p), [], unat (h_range (k_head p))) | Some x \<Rightarrow> x);
         b' = b @ pack_bytes p in
     if r = 1 then (None, out @ [(t, b')]) else (Some (t, b', r - 1), out))"

text \<open>A packet as the receive loop of the messenger accepts it.\<close>

definition pack_ok :: "xpack \<Rightarrow> bool" where
  "pack_ok p \<longleftrightarrow> length (k_body p) = XBODY_SIZE \<and> unat (h_len (k_head p)) \<le> XBODY_SIZE \<and> 0 < h_range (k_head p)"

definition asm_abs :: "xframe option \<Rightarrow> xframe list \<Rightarrow> asm" where
  "asm_abs m out = (map_option (\<lambda>m. (f_type m, frame_bytes m, unat (f_range m))) m,
     map (\<lambda>m. (f_type m, frame_bytes m)) out)"

definition asm_of :: "xstate \<Rightarrow> asm" where
  "asm_of w = asm_abs (c_msg (w_chan w)) (w_from w)"

text \<open>The part of the state that reassembly writes.\<close>

definition recvd :: "xpack option serialbuf \<Rightarrow> xframe option \<Rightarrow> xframe list \<Rightarrow> xstate \<Rightarrow> xstate" where
  "recvd rb m out w = w\<lparr>w_chan := (w_chan w)\<lparr>c_recvbuf := rb, c_msg := m\<rparr>, w_from := out\<rparr>"

lemma recvd_simps [simp]:
  "recvd (c_recvbuf (w_chan w)) (c_msg (w_chan w)) (w_from w) w = w"
  "recvd rb m out (recvd rb' m' out' w) = recvd rb m out w"
  "c_recvbuf (w_chan (recvd rb m out w)) = rb" "c_msg (w_chan (recvd rb m out w)) = m"
  "w_from (recvd rb m out w) = out" "w_malloc (recvd rb m out w) = w_malloc w"
  "asm_of (recvd rb m out w) = asm_abs m out"
  by (simp_all add: recvd_def asm_of_def)

text \<open>The message in progress has room for all the packets it still expects.\<close>

definition expects :: "xframe \<Rightarrow> bool" where
  "expects m \<longleftrightarrow> frame_ok m \<and> 0 < f_range m \<and> unat (f_wpos m) + unat (f_range m) * XBODY_SIZE \<le> unat (f_size m)"

definition asm_inv :: "xstate \<Rightarrow> bool" where
  "asm_inv w \<longleftrightarrow> w_malloc w \<and> (\<forall>m. c_msg (w_chan w) = Some m \<longrightarrow> expects m)"

lemma fresh_message_expects:
  assumes "pack_ok p"
  shows "\<exists>m. xl_creator True junk raw (ucast (h_range (k_head p)) * of_nat XBODY_SIZE) = Some m
    \<and> expects (m\<lparr>f_type := h_type (k_head p), f_range := ucast (h_range (k_head p))\<rparr>)
    \<and> frame_bytes m = []"
proof -
  let ?r = "h_range (k_head p)"
  have r: "unat ?r < 65536" by (rule unat16_less)
  have "ucast ?r * of_nat XBODY_SIZE = (of_nat (unat ?r * XBODY_SIZE) :: u64)"
    by (simp only: ucast_u16_of_nat of_nat_mult)
  then have sz: "unat (ucast ?r * of_nat XBODY_SIZE :: u64) = unat ?r * XBODY_SIZE"
    using r by (simp only:) (rule unat_of_nat_small, simp add: XBODY_SIZE_def)
  have pos: "(0::u64) < ucast ?r" using assms by (simp add: pack_ok_def word_less_nat_alt)
  show ?thesis
    using sz pos by (simp add: xl_creator_def expects_def frame_ok_def frame_bytes_def)
qed


lemma assemble_one:
  assumes m: "expects m" and p: "pack_ok p"
  shows "\<exists>m1. (if h_len (k_head p) > 0 then xl_put_body m (Some (k_body p)) 0 (ucast (h_len (k_head p))) else Some m) = Some m1
    \<and> frame_ok m1 \<and> frame_bytes m1 = frame_bytes m @ pack_bytes p \<and> f_type m1 = f_type m \<and> f_range m1 = f_range m
    \<and> unat (f_wpos m1) + (unat (f_range m) - 1) * XBODY_SIZE \<le> unat (f_size m1)"
proof -
  let ?n = "h_len (k_head p)"
  have "0 < unat (f_range m)" using m by (simp add: expects_def word_less_nat_alt)
  then have room: "unat (f_wpos m) + unat ?n + (unat (f_range m) - 1) * XBODY_SIZE \<le> unat (f_size m)"
    using m p by (cases "unat (f_range m)") (auto simp: expects_def pack_ok_def)
  show ?thesis
  proof (cases "?n > 0")
    case True
    have len: "length (pack_bytes p) = unat ?n" using p by (simp add: pack_bytes_def pack_ok_def)
    have w: "(ucast ?n :: u64) = of_nat (length (pack_bytes p))" unfolding len by (rule ucast_u16_of_nat)
    have ok: "frame_ok m" and le: "unat (f_wpos m) + length (pack_bytes p) \<le> unat (f_size m)"
      using m room len by (auto simp: expects_def)
    note put = frame_put[OF ok le w]
    have "xl_put_body m (Some (k_body p)) 0 (ucast ?n) = Some (m\<lparr>f_data := put_seg (f_data m) (unat (f_wpos m)) (pack_bytes p), f_wpos := f_wpos m + ucast ?n\<rparr>)"
      using ok le p len by (simp add: xl_put_body_def mcopy_eq pack_bytes_def frame_ok_def pack_ok_def)
    then show ?thesis
      using True put room len by simp
  next
    case False
    then have "unat ?n = 0" by (simp add: word_less_nat_alt)
    then show ?thesis using False m room by (auto simp: expects_def pack_bytes_def)
  qed
qed

lemma recv_msg_step_run:
  assumes p: "pack_ok p" and inv: "asm_inv w"
    and i: "serialbuf_index (c_recvbuf (w_chan w)) (b_rpos (c_recvbuf (w_chan w))) < length (b_buf (c_recvbuf (w_chan w)))"
  defines "rb \<equiv> c_recvbuf (w_chan w)"
  shows "\<exists>m out. recv_msg_step p w = Some (recvd (rb\<lparr>b_buf := (b_buf rb)[serialbuf_index rb (b_rpos rb) := None],
         b_rpos := b_rpos rb + 1\<rparr>) m out w, True)
     \<and> (\<forall>m'. m = Some m' \<longrightarrow> expects m') \<and> asm_abs m out = asm_step p (asm_of w)"
proof -
  let ?h = "k_head p"
  obtain m0 where m0: "(case c_msg (w_chan w) of Some m \<Rightarrow> Some m
            | None \<Rightarrow> map_option (\<lambda>m. m\<lparr>f_type := h_type ?h, f_range := ucast (h_range ?h)\<rparr>)
                (xl_creator (w_malloc w) (w_junk w) (w_raw w) (ucast (h_range ?h) * of_nat XBODY_SIZE))) = Some m0"
      "expects m0"
      "(f_type m0, frame_bytes m0, unat (f_range m0)) = (case fst (asm_of w) of None \<Rightarrow> (h_type ?h, [], unat (h_range ?h)) | Some x \<Rightarrow> x)"
  proof (cases "c_msg (w_chan w)")
    case None
    obtain m where m: "xl_creator True (w_junk w) (w_raw w) (ucast (h_range ?h) * of_nat XBODY_SIZE) = Some m"
      "expects (m\<lparr>f_type := h_type ?h, f_range := ucast (h_range ?h)\<rparr>)" "frame_bytes m = []"
      using fresh_message_expects[OF p] by blast
    show ?thesis
      by (rule that[of "m\<lparr>f_type := h_type ?h, f_range := ucast (h_range ?h)\<rparr>"])
         (use None m inv in \<open>auto simp: asm_inv_def asm_of_def asm_abs_def frame_bytes_def\<close>)
  next
    case (Some m)
    then show ?thesis using inv that[of m] by (auto simp: asm_inv_def asm_of_def asm_abs_def)
  qed
  obtain m1 where m1: "(if h_len ?h > 0 then xl_put_body m0 (Some (k_body p)) 0 (ucast (h_len ?h)) else Some m0) = Some m1"
    "frame_ok m1" "frame_bytes m1 = frame_bytes m0 @ pack_bytes p" "f_type m1 = f_type m0" "f_range m1 = f_range m0"
    "unat (f_wpos m1) + (unat (f_range m0) - 1) * XBODY_SIZE \<le> unat (f_size m1)"
    using assemble_one[OF m0(2) p] by blast
  have r0: "0 < f_range m0" using m0(2) by (simp add: expects_def)
  then have r1: "unat (f_range m0 - 1) = unat (f_range m0) - 1" 
    by (simp add: unat_sub word_le_nat_alt word_less_nat_alt)
  have z: "f_range m0 - 1 = 0 \<longleftrightarrow> unat (f_range m0) = 1" using r0 r1 
    by (metis diff_eq_eq add_0 unat_1 word_unat_eq_iff)
  let ?m2 = "m1\<lparr>f_range := f_range m1 - 1\<rparr>"
  have b2: "frame_bytes (?m2\<lparr>f_line := l, f_args := a\<rparr>) = frame_bytes m0 @ pack_bytes p" for l a
    using m1(3) by (simp add: frame_bytes_def)
  have s: "asm_step p (asm_of w) = (let b' = frame_bytes m0 @ pack_bytes p in
     if unat (f_range m0) = 1 then (None, snd (asm_of w) @ [(f_type m0, b')])
     else (Some (f_type m0, b', unat (f_range m0) - 1), snd (asm_of w)))"
    using m0(3) by (cases "asm_of w") (auto simp: asm_step_def Let_def split: option.splits)
  show ?thesis
  proof (cases "unat (f_range m0) = 1")
    case True
    then show ?thesis
      using m0(1) m1 i z b2 s
      by (intro exI[of _ None] exI[of _ "w_from w @ [(xl_fixed ?m2)\<lparr>f_args := (f_args (xl_fixed ?m2))[2 := c_addr (w_chan w)]\<rparr>]"])
         (simp add: recv_msg_step_def Let_def rb_def xl_fixed_def asm_of_def asm_abs_def recvd_def)
  next
    case False
    have "1 < unat (f_range m0)" using False r0 by (simp add: word_less_nat_alt)
    then have "expects ?m2"
      using m1(2,5,6) r1 by (simp add: expects_def frame_ok_def word_less_nat_alt)
    then show ?thesis
      using False m0(1) m1 i z b2 s r1
      by (intro exI[of _ "Some ?m2"] exI[of _ "w_from w"])
         (simp add: recv_msg_step_def Let_def rb_def asm_of_def asm_abs_def frame_bytes_def recvd_def)
  qed
qed


section \<open>The receive window\<close>

definition ring_ok :: "'a serialbuf \<Rightarrow> bool" where
  "ring_ok b \<longleftrightarrow> pow2 (b_range b) \<and> length (b_buf b) = unat (b_range b) + 1"

lemma ring_range:
  assumes "ring_ok b"
  shows "0 < unat (b_range b)" and "unat (b_range b) \<le> 32768" and "unat (b_range b) dvd 65536"
    and "length (b_buf b) = unat (b_range b) + 1"
proof -
  obtain k where k: "k < 16" "b_range b = 2 ^ k" using assms by (auto simp: ring_ok_def pow2_def)
  then have u: "unat (b_range b) = 2 ^ k" by (simp add: unat_exp_eq)
  then show "0 < unat (b_range b)" by simp
  have "(2::nat) ^ k \<le> 2 ^ 15" using k by (intro power_increasing) auto
  then show "unat (b_range b) \<le> 32768" using u by simp
  have "(2::nat) ^ k dvd 2 ^ 16" using k by (intro le_imp_power_dvd) auto
  then show "unat (b_range b) dvd 65536" using u by simp
  show "length (b_buf b) = unat (b_range b) + 1" using assms by (simp add: ring_ok_def)
qed

lemma unat_of_nat16: "unat (of_nat i :: u16) = i mod 65536"
  by (simp add: unat_of_nat)

lemma ring_slot: "ring_ok b \<Longrightarrow> serialbuf_index b (of_nat i) = i mod unat (b_range b)"
  using ring_range(3)[of b]
  by (simp add: serialbuf_index_def ring_ok_def unat_ring_index unat_of_nat16 mod_mod_cancel)

lemma ring_slot_less: "ring_ok b \<Longrightarrow> serialbuf_index b (of_nat i) < length (b_buf b)"
  using ring_range[of b] by (simp add: ring_slot less_SucI)

text \<open>
  \<open>window S n A rb\<close>: in the ring \<open>rb\<close> the slots of the positions from \<open>n\<close> to \<open>n + range - 1\<close> hold
  exactly the packets of the stream \<open>S\<close> whose positions are in \<open>A\<close>.
\<close>

definition window :: "(nat \<Rightarrow> xpack) \<Rightarrow> nat \<Rightarrow> nat set \<Rightarrow> xpack option serialbuf \<Rightarrow> bool" where
  "window S n A rb \<longleftrightarrow> ring_ok rb \<and> (\<forall>i. n \<le> i \<and> i < n + unat (b_range rb) \<longrightarrow>
      b_buf rb ! (i mod unat (b_range rb)) = (if i \<in> A then Some (S i) else None))"

lemma window_slot:
  "window S n A rb \<Longrightarrow> n \<le> i \<Longrightarrow> i < n + unat (b_range rb) \<Longrightarrow>
     rd (b_buf rb) (serialbuf_index rb (of_nat i)) = Some (if i \<in> A then Some (S i) else None)"
  using ring_slot_less[of rb i] by (auto simp: window_def ring_slot)

lemma mod_inj_window:
  fixes i j n R :: nat
  assumes "n \<le> i" "i < n + R" "n \<le> j" "j < n + R" "i mod R = j mod R"
  shows "i = j"
proof -
  have "False" if "a < b" "n \<le> a" "b < n + R" "b mod R = a mod R" for a b
  proof -
    have "R dvd b - a" using that by (simp add: mod_eq_dvd_iff_nat)
    then have "R \<le> b - a" using that(1) by (intro dvd_imp_le) auto
    then show False using that by linarith
  qed
  then show ?thesis using assms by (metis linorder_neqE_nat)
qed

lemma window_add:
  assumes w: "window S n A rb" and i: "n \<le> i" "i < n + unat (b_range rb)"
  shows "window S n (insert i A) (rb\<lparr>b_buf := (b_buf rb)[serialbuf_index rb (of_nat i) := Some (S i)]\<rparr>)"
proof -
  have ok: "ring_ok rb" using w by (simp add: window_def)
  have ok': "ring_ok (rb\<lparr>b_buf := (b_buf rb)[serialbuf_index rb (of_nat i) := Some (S i)]\<rparr>)"
    using ok by (simp add: ring_ok_def)
  have "(b_buf rb)[i mod unat (b_range rb) := Some (S i)] ! (j mod unat (b_range rb))
      = (if j \<in> insert i A then Some (S j) else None)"
    if j: "n \<le> j" "j < n + unat (b_range rb)" for j
  proof (cases "j = i")
    case True
    then show ?thesis using ring_slot_less[OF ok, of i] ring_slot[OF ok, of i] by simp
  next
    case False
    then have "i mod unat (b_range rb) \<noteq> j mod unat (b_range rb)" using mod_inj_window[OF i j] by auto
    then show ?thesis using w j False by (simp add: window_def)
  qed
  then show ?thesis using ok' ring_slot[OF ok] by (simp add: window_def)
qed

lemma window_shift:
  assumes w: "window S n A rb" and "n \<in> A" and A: "A \<subseteq> {..<n + unat (b_range rb)}"
  shows "window S (n + 1) A (rb\<lparr>b_buf := (b_buf rb)[serialbuf_index rb (of_nat n) := None]\<rparr>)"
proof -
  let ?R = "unat (b_range rb)"
  have ok: "ring_ok rb" using w by (simp add: window_def)
  have ok': "ring_ok (rb\<lparr>b_buf := (b_buf rb)[serialbuf_index rb (of_nat n) := None]\<rparr>)"
    using ok by (simp add: ring_ok_def)
  have "(b_buf rb)[n mod ?R := None] ! (j mod ?R) = (if j \<in> A then Some (S j) else None)"
    if j: "n + 1 \<le> j" "j < n + 1 + ?R" for j
  proof (cases "j = n + ?R")
    case True
    then have "j \<notin> A" "j mod ?R = n mod ?R" using A by auto
    then show ?thesis using ring_slot_less[OF ok, of n] ring_slot[OF ok, of n] by simp
  next
    case False
    then have "n mod ?R \<noteq> j mod ?R" using mod_inj_window[of n n ?R j] j ring_range(1)[OF ok] by auto
    then show ?thesis using w j False by (simp add: window_def)
  qed
  then show ?thesis using ok' ring_slot[OF ok] by (simp add: window_def)
qed

text \<open>The counters do not matter to the window.\<close>

lemma window_counters [simp]:
  "window S n A (rb\<lparr>b_rpos := x\<rparr>) = window S n A rb"
  "window S n A (rb\<lparr>b_wpos := x\<rparr>) = window S n A rb"
  by (simp_all add: window_def ring_ok_def)

definition mex :: "nat set \<Rightarrow> nat" where
  "mex A = (LEAST k. k \<notin> A)"

lemma mex_eqI: "{..<n} \<subseteq> A \<Longrightarrow> n \<notin> A \<Longrightarrow> mex A = n"
  unfolding mex_def by (rule Least_equality) (auto simp: not_le[symmetric])

lemma mex_props:
  assumes "finite A"
  shows "{..<mex A} \<subseteq> A" and "mex A \<notin> A"
proof -
  have "\<exists>k. k \<notin> A" using assms ex_new_if_finite infinite_UNIV_nat by blast
  then show "mex A \<notin> A" unfolding mex_def by (rule LeastI_ex)
  show "{..<mex A} \<subseteq> A" unfolding mex_def using not_less_Least by blast
qed

lemma mex_fill_gap:
  assumes fin: "finite A" and sub: "A \<subseteq> {..<mex A + R}" and R: "0 < R"
  shows "mex A < mex (insert (mex A) A)" and "mex (insert (mex A) A) \<le> mex A + R"
proof -
  let ?B = "insert (mex A) A"
  note A = mex_props[OF fin] and B = mex_props[of ?B]
  show "mex A < mex ?B"
  proof (rule ccontr)
    assume "\<not> mex A < mex ?B"
    then have "mex ?B \<in> ?B" using A(1) by (cases "mex ?B = mex A") auto
    then show False using B(2) fin by simp
  qed
  have "mex A + R \<notin> ?B" using sub R by auto
  then show "mex ?B \<le> mex A + R" using B(1) fin by (metis finite.insertI lessThan_iff not_le subsetD)
qed

text \<open>The loop of \<open>xchannel_recv_msg\<close> on a run of packets.\<close>

lemma recv_msg_loop_run:
  assumes "window S n A (c_recvbuf (w_chan w))" and "b_rpos (c_recvbuf (w_chan w)) = of_nat n"
    and "{n..<n + k} \<subseteq> A" and "n + k \<notin> A" and "A \<subseteq> {..<n + unat (b_range (c_recvbuf (w_chan w)))}"
    and "asm_inv w" and "\<forall>i. pack_ok (S i)"
  shows "\<exists>rb m out. recv_msg_loop w = Some (recvd rb m out w, True)
    \<and> window S (n + k) A rb \<and> b_rpos rb = of_nat (n + k) \<and> b_wpos rb = b_wpos (c_recvbuf (w_chan w))
    \<and> b_range rb = b_range (c_recvbuf (w_chan w)) \<and> (\<forall>m'. m = Some m' \<longrightarrow> expects m')
    \<and> asm_abs m out = fold asm_step (map S [n..<n + k]) (asm_of w)"
  using assms
proof (induction k arbitrary: n w)
  case 0
  let ?rb = "c_recvbuf (w_chan w)"
  have "0 < unat (b_range ?rb)" using 0(1) ring_range(1) by (auto simp: window_def)
  then have "rd (b_buf ?rb) (serialbuf_index ?rb (b_rpos ?rb)) = Some None"
    using window_slot[OF 0(1), of n] 0(2,4) by simp
  then have "recv_msg_loop w = Some (w, True)" by (subst recv_msg_loop.simps) simp
  then show ?case
    using 0 by (intro exI[of _ ?rb] exI[of _ "c_msg (w_chan w)"] exI[of _ "w_from w"])
      (simp add: asm_of_def asm_inv_def)
next
  case (Suc k)
  let ?rb = "c_recvbuf (w_chan w)"
  have R: "0 < unat (b_range ?rb)" and ok: "ring_ok ?rb" using Suc.prems(1) ring_range(1) by (auto simp: window_def)
  have n: "n \<in> A" using Suc.prems(3) by auto
  have slot: "rd (b_buf ?rb) (serialbuf_index ?rb (b_rpos ?rb)) = Some (Some (S n))"
    using window_slot[OF Suc.prems(1), of n] Suc.prems(2) n R by simp
  have idx: "serialbuf_index ?rb (b_rpos ?rb) < length (b_buf ?rb)"
    using ring_slot_less[OF ok] Suc.prems(2) by simp
  define rb1 where "rb1 = ?rb\<lparr>b_buf := (b_buf ?rb)[serialbuf_index ?rb (b_rpos ?rb) := None], b_rpos := b_rpos ?rb + 1\<rparr>"
  obtain m out where step: "recv_msg_step (S n) w = Some (recvd rb1 m out w, True)"
     "\<forall>m'. m = Some m' \<longrightarrow> expects m'" "asm_abs m out = asm_step (S n) (asm_of w)"
    using recv_msg_step_run[OF _ Suc.prems(6) idx, of "S n"] Suc.prems(7) unfolding rb1_def by blast
  let ?w1 = "recvd rb1 m out w"
  have run: "recv_msg_loop w = recv_msg_loop ?w1"
    using slot step(1) by (subst recv_msg_loop.simps) simp
  have win: "window S (n + 1) A rb1"
    using window_shift[OF Suc.prems(1) n Suc.prems(5)] Suc.prems(2) by (simp add: rb1_def)
  have rb1: "b_rpos rb1 = of_nat (n + 1)" "b_range rb1 = b_range ?rb" "b_wpos rb1 = b_wpos ?rb"
    using Suc.prems(2) by (simp_all add: rb1_def)
  have A: "{n + 1..<n + 1 + k} \<subseteq> A" "n + 1 + k \<notin> A" "A \<subseteq> {..<n + 1 + unat (b_range rb1)}"
    using Suc.prems(3,4,5) rb1(2) by auto
  have inv: "asm_inv ?w1" using step(2) Suc.prems(6) by (simp add: asm_inv_def)
  have "[n..<n + Suc k] = n # [n + 1..<n + 1 + k]" by (simp add: upt_conv_Cons)
  then have f: "fold asm_step (map S [n..<n + Suc k]) (asm_of w) = fold asm_step (map S [n + 1..<n + 1 + k]) (asm_of ?w1)"
    using step(3) by simp
  obtain rb m' out' where "recv_msg_loop ?w1 = Some (recvd rb m' out' ?w1, True)"
     "window S (n + 1 + k) A rb" "b_rpos rb = of_nat (n + 1 + k)" "b_wpos rb = b_wpos rb1" "b_range rb = b_range rb1"
     "\<forall>x. m' = Some x \<longrightarrow> expects x" "asm_abs m' out' = fold asm_step (map S [n + 1..<n + 1 + k]) (asm_of ?w1)"
    using Suc.IH[of "n + 1" ?w1] win rb1(1) A inv Suc.prems(7) by auto
  then show ?case
    unfolding run f using rb1 by (intro exI[of _ rb] exI[of _ m'] exI[of _ out']) simp
qed


definition advance :: "nat \<Rightarrow> xchannel \<Rightarrow> xchannel" where
  "advance v c = c\<lparr>c_recvbuf := (c_recvbuf c)\<lparr>b_wpos := of_nat v\<rparr>,
     c_ack := (c_ack c)\<lparr>h_ack_pos := of_nat v, h_ack_sn := of_nat v\<rparr>\<rparr>"

lemma advance_simps [simp]:
  "c_recvbuf (advance v c) = (c_recvbuf c)\<lparr>b_wpos := of_nat v\<rparr>"
  "advance u (advance v c) = advance u c"
  by (simp_all add: advance_def)

lemma writable_pos:
  assumes "ring_ok rb" and "n \<le> v" and "v \<le> n + unat (b_range rb)"
    and "b_rpos rb = of_nat n" and "b_wpos rb = of_nat v"
  shows "serialbuf_writable rb > 0 \<longleftrightarrow> v < n + unat (b_range rb)"
proof -
  have "b_range rb - of_nat v + of_nat n = (of_nat (n + unat (b_range rb) - v) :: u16)"
    using assms(3) by (simp add: of_nat_diff)
  then have "serialbuf_writable rb = of_nat (n + unat (b_range rb) - v)"
    using assms(4,5) by (simp add: serialbuf_writable_def)
  moreover have "n + unat (b_range rb) - v < 65536"
    using assms(2) ring_range(2)[OF assms(1)] by linarith
  ultimately show ?thesis by (simp add: word_less_nat_alt unat_of_nat16)
qed

lemma early_loop_run:
  assumes "window S n A (c_recvbuf c)" and "b_rpos (c_recvbuf c) = of_nat n" and "n \<le> v"
    and "{v..<v + k} \<subseteq> A" and "v + k \<le> n + unat (b_range (c_recvbuf c))"
    and "v + k \<notin> A \<or> v + k = n + unat (b_range (c_recvbuf c))"
  shows "early_loop (advance v c) = Some (advance (v + k) c)"
  using assms
proof (induction k arbitrary: v)
  case 0
  let ?rb = "c_recvbuf c"
  let ?rbv = "?rb\<lparr>b_wpos := of_nat v\<rparr>"
  have ok: "ring_ok ?rb" and R: "0 < unat (b_range ?rb)" using 0(1) ring_range(1) by (auto simp: window_def)
  have wr: "serialbuf_writable ?rbv > 0 \<longleftrightarrow> v < n + unat (b_range ?rb)"
    using writable_pos[of ?rbv n v] ok 0(2,3,5) by (simp add: ring_ok_def)
  have idx: "serialbuf_index ?rbv (of_nat v) = serialbuf_index ?rb (of_nat v)" by (simp add: serialbuf_index_def)
  have "\<exists>s. rd (b_buf ?rb) (serialbuf_index ?rb (of_nat v)) = Some s \<and> (s = None \<or> v = n + unat (b_range ?rb))"
  proof (cases "v = n + unat (b_range ?rb)")
    case True
    then show ?thesis using ring_slot_less[OF ok, of v] by simp
  next
    case False
    then show ?thesis using window_slot[OF 0(1), of v] 0(3,5,6) by simp
  qed
  then show ?case using wr idx by (subst early_loop.simps) auto
next
  case (Suc k)
  let ?rb = "c_recvbuf c"
  let ?rbv = "?rb\<lparr>b_wpos := of_nat v\<rparr>"
  have ok: "ring_ok ?rb" using Suc.prems(1) by (auto simp: window_def)
  have lt: "v < n + unat (b_range ?rb)" and vA: "v \<in> A" using Suc.prems(4,5) by auto
  have wr: "serialbuf_writable ?rbv > 0"
    using writable_pos[of ?rbv n v] ok Suc.prems(2,3) lt by (simp add: ring_ok_def)
  have idx: "serialbuf_index ?rbv (of_nat v) = serialbuf_index ?rb (of_nat v)" by (simp add: serialbuf_index_def)
  have slot: "rd (b_buf ?rb) (serialbuf_index ?rb (of_nat v)) = Some (Some (S v))"
    using window_slot[OF Suc.prems(1,3) lt] vA by simp
  have "early_loop (advance v c) = early_loop (advance (v + 1) c)"
    using slot wr idx by (subst early_loop.simps) (simp add: Let_def, simp add: advance_def add.commute)
  also have "\<dots> = Some (advance (v + 1 + k) c)"
    using Suc.prems by (intro Suc.IH) auto
  finally show ?case by simp
qed


section \<open>Acknowledgements do not touch the receiving half\<close>

definition recv_part :: "xstate \<Rightarrow> xpack option serialbuf \<times> xframe option \<times> xframe list \<times> bool \<times> xhead" where
  "recv_part w = (c_recvbuf (w_chan w), c_msg (w_chan w), w_from w, w_malloc w, c_ack (w_chan w))"

definition chan_recv :: "xchannel \<Rightarrow> xpack option serialbuf \<times> xframe option \<times> xhead" where
  "chan_recv c = (c_recvbuf c, c_msg c, c_ack c)"

lemma sampling_rtt_frame [simp]: "chan_recv (sampling_rtt c t) = chan_recv c"
  by (simp add: sampling_rtt_def chan_recv_def Let_def)

lemma sampling_psf_frame: "sampling_psf c k = Some c' \<Longrightarrow> chan_recv c' = chan_recv c"
  by (auto simp: sampling_psf_def chan_recv_def Let_def split: if_splits)

lemma sample_slot_frame: "sample_slot i c = Some (c', p) \<Longrightarrow> chan_recv c' = chan_recv c"
proof -
  assume "sample_slot i c = Some (c', p)"
  then show ?thesis
    using sampling_psf_frame sampling_rtt_frame
    by (fastforce simp: sample_slot_def xchannel_sampling_def bind_eq_Some_conv chan_recv_def split: if_splits)
qed

lemma ack_account_frame [simp]: "chan_recv (ack_account l c) = chan_recv c"
  by (simp add: ack_account_def chan_recv_def Let_def)

lemma ack_front_frame:
  assumes "ack_front w = Some w'"
  shows "recv_part w' = recv_part w"
proof -
  let ?i = "serialbuf_index (c_sendbuf (w_chan w)) (b_rpos (c_sendbuf (w_chan w)))"
  obtain c1 p where s: "sample_slot ?i (w_chan w) = Some (c1, p)"
  proof (cases "sample_slot ?i (w_chan w)")
    case None
    then show ?thesis using assms by (simp add: ack_front_def)
  next
    case (Some x)
    then show ?thesis using that by (cases x) simp
  qed
  define c3 where "c3 = ack_account (ucast (h_len (k_head p))) c1"
  obtain m where m: "w_msgs w (k_msg p) = Some m"
    using assms by (cases "w_msgs w (k_msg p)") (simp_all add: ack_front_def s)
  note run = assms[unfolded ack_front_def Let_def s m Option.bind.simps prod.case c3_def[symmetric]]
  have "recv_part w' = (c_recvbuf c3, c_msg c3, w_from w, w_malloc w, c_ack c3)"
  proof (cases "f_rpos m + ucast (h_len (k_head p)) = f_wpos m")
    case True
    then show ?thesis using run by (auto simp: recv_part_def elim!: bind_eq_SomeD)
  next
    case False
    then show ?thesis using run by (auto simp: recv_part_def)
  qed
  moreover have "chan_recv c3 = chan_recv (w_chan w)" using sample_slot_frame[OF s] by (simp add: c3_def)
  ultimately show ?thesis by (simp add: recv_part_def chan_recv_def)
qed

lemma ack_loop_frame:
  assumes "ack_loop a w = Some w'"
  shows "recv_part w' = recv_part w"
proof (rule ack_loop.raw_induct[OF _ assms])
  fix f a w w'
  assume IH: "\<And>a w w'. f a w = Some w' \<Longrightarrow> recv_part w' = recv_part w"
    and "(if ack_more a (c_sendbuf (w_chan w)) then ack_front w \<bind> (\<lambda>w1. f a w1) else Some w) = Some w'"
  then show "recv_part w' = recv_part w"
    by (auto simp: bind_eq_Some_conv dest!: IH dest: ack_front_frame split: if_splits)
qed

lemma resend_slot_frame: "resend_slot i p w = Some (w', s) \<Longrightarrow> recv_part w' = recv_part w"
  by (auto simp: resend_slot_def bind_eq_Some_conv recv_part_def Let_def udp_sendto_def clock_def split: if_splits)

lemma resend_loop_frame:
  assumes "resend_loop sn i w = Some w'"
  shows "recv_part w' = recv_part w"
proof (rule resend_loop.raw_induct[where P = "\<lambda>sn i w w'. recv_part w' = recv_part w", OF _ assms], goal_cases)
  case (1 f sn i w w')
  then show ?case
    by (auto simp: bind_eq_Some_conv Let_def dest!: 1(1) dest: resend_slot_frame split: if_splits)
qed

lemma ack_single_frame:
  assumes "ack_single sn w = Some w'"
  shows "recv_part w' = recv_part w"
proof -
  obtain c p where s: "sample_slot (serialbuf_index (c_sendbuf (w_chan w)) sn) (w_chan w) = Some (c, p)"
    using assms by (auto simp: ack_single_def bind_eq_Some_conv)
  have p: "recv_part (w\<lparr>w_chan := c\<rparr>) = recv_part w"
    using sample_slot_frame[OF s] by (simp add: recv_part_def chan_recv_def)
  show ?thesis
    using assms s p resend_loop_frame[of sn "b_rpos (c_sendbuf c)" "w\<lparr>w_chan := c\<rparr>" w']
    by (auto simp: ack_single_def split: if_splits)
qed

lemma ack_stamp_frame [simp]: "recv_part (ack_stamp w) = recv_part w"
  by (simp add: ack_stamp_def clock_def recv_part_def)

lemma recv_ack_frame:
  assumes "xchannel_recv_ack h w = Some w'"
  shows "recv_part w' = recv_part w"
  using assms
  by (auto simp: xchannel_recv_ack_def Let_def bind_eq_Some_conv split: if_splits
      dest!: ack_loop_frame ack_single_frame)

lemma carried_ack_frame: "carried_ack p w = Some w' \<Longrightarrow> recv_part w' = recv_part w"
  by (auto simp: carried_ack_def dest: recv_ack_frame split: if_splits)


section \<open>The invariant of the receiving half\<close>

definition stream_ok :: "(nat \<Rightarrow> xpack) \<Rightarrow> bool" where
  "stream_ok S \<longleftrightarrow> (\<forall>i. pack_ok (S i) \<and> h_sn (k_head (S i)) = of_nat i)"

text \<open>
  \<open>recv_inv S A w\<close>: of the peer's stream \<open>S\<close> exactly the packets at the positions \<open>A\<close> have arrived;
  the ring holds those from the first gap \<open>mex A\<close> on, and the packets before the gap went through
  reassembly in order.
\<close>

definition recv_inv :: "(nat \<Rightarrow> xpack) \<Rightarrow> nat set \<Rightarrow> xstate \<Rightarrow> bool" where
  "recv_inv S A w \<longleftrightarrow> finite A \<and> (let rb = c_recvbuf (w_chan w) in
     A \<subseteq> {..<mex A + unat (b_range rb)} \<and> window S (mex A) A rb
     \<and> b_rpos rb = of_nat (mex A) \<and> b_wpos rb = of_nat (mex A))
     \<and> asm_inv w \<and> asm_of w = fold asm_step (map S [0..<mex A]) (None, [])"

lemma recv_inv_cong:
  assumes "c_recvbuf (w_chan w') = c_recvbuf (w_chan w)" and "c_msg (w_chan w') = c_msg (w_chan w)"
    and "w_from w' = w_from w" and "w_malloc w' = w_malloc w"
  shows "recv_inv S A w' = recv_inv S A w"
  using assms by (simp add: recv_inv_def asm_inv_def asm_of_def)

text \<open>
  The packets that may be under way: not beyond the window the sender keeps to, and not delayed by
  more than half the range of the serial numbers.
\<close>

definition in_flight :: "nat set \<Rightarrow> xstate \<Rightarrow> nat \<Rightarrow> bool" where
  "in_flight A w i \<longleftrightarrow> i < mex A + unat (b_range (c_recvbuf (w_chan w))) \<and> mex A \<le> i + 32768"

definition acks_return :: "xpack \<Rightarrow> xstate \<Rightarrow> bool" where
  "acks_return p w \<longleftrightarrow> (\<forall>a. \<exists>w'. carried_ack p (w\<lparr>w_chan := (w_chan w)\<lparr>c_ack := a\<rparr>\<rparr>) = Some w')"

lemma acks_return_none: "h_ack_type (k_head p) = 0 \<Longrightarrow> acks_return p w"
  by (simp add: acks_return_def carried_ack_def)

lemma serial_eq: "(of_nat i :: u16) = of_nat j \<longleftrightarrow> i mod 65536 = j mod 65536"
  by (simp add: word_unat_eq_iff unat_of_nat16)

lemma serial_diff:
  assumes "j \<le> i" "i - j < 65536"
  shows "unat ((of_nat i :: u16) - of_nat j) = i - j"
proof -
  have "(of_nat i :: u16) - of_nat j = of_nat (i - j)" using assms(1) by (simp add: of_nat_diff)
  then show ?thesis using assms(2) by (simp add: unat_of_nat16)
qed

lemma serial_diff_back:
  assumes "j < i" "i - j < 65536"
  shows "unat ((of_nat j :: u16) - of_nat i) = 65536 - (i - j)"
proof -
  have "(of_nat j :: u16) - of_nat i = of_nat (65536 - (i - j))"
    using assms by (simp add: of_nat_diff)
  then have "unat ((of_nat j :: u16) - of_nat i) = (65536 - (i - j)) mod 65536" by (simp only: unat_of_nat16)
  then show ?thesis using assms by simp
qed

text \<open>Ahead of \<open>wpos\<close> or behind it, as the comparison of the two differences decides.\<close>

lemma early_test:
  assumes "n < i" and "i - n < 32768"
  shows "(of_nat n :: u16) - of_nat i > of_nat i - of_nat n" and "(of_nat i :: u16) \<noteq> of_nat n"
  using assms serial_diff[of n i] serial_diff_back[of n i] by (auto simp: word_less_nat_alt)

lemma late_test:
  assumes "i < n" and "n - i \<le> 32768"
  shows "\<not> (of_nat n :: u16) - of_nat i > of_nat i - of_nat n" and "(of_nat i :: u16) \<noteq> of_nat n"
  using assms serial_diff[of i n] serial_diff_back[of i n] by (auto simp: word_less_nat_alt)

text \<open>\<open>xchannel_recv_msg\<close> on an empty window and on a run of packets.\<close>

lemma recv_msg_idle:
  assumes "b_rpos (c_recvbuf (w_chan w)) = b_wpos (c_recvbuf (w_chan w))"
  shows "\<exists>w'. xchannel_recv_msg w = Some (w', 0) \<and> recv_part w' = recv_part w"
  using assms by (simp add: xchannel_recv_msg_def Let_def clock_def serialbuf_readable_def recv_part_def)

lemma recv_msg_run:
  assumes win: "window S n A (c_recvbuf (w_chan w))" and pos: "b_rpos (c_recvbuf (w_chan w)) = of_nat n"
      "b_wpos (c_recvbuf (w_chan w)) = of_nat (n + k)"
    and k: "0 < k" "k \<le> unat (b_range (c_recvbuf (w_chan w)))" "{n..<n + k} \<subseteq> A" "n + k \<notin> A"
    and A: "A \<subseteq> {..<n + unat (b_range (c_recvbuf (w_chan w)))}"
    and inv: "asm_inv w" and S: "\<forall>i. pack_ok (S i)"
  shows "\<exists>w' rb. xchannel_recv_msg w = Some (w', 0) \<and> c_recvbuf (w_chan w') = rb
    \<and> window S (n + k) A rb \<and> b_rpos rb = of_nat (n + k) \<and> b_wpos rb = of_nat (n + k)
    \<and> b_range rb = b_range (c_recvbuf (w_chan w)) \<and> asm_inv w' \<and> c_ack (w_chan w') = c_ack (w_chan w)
    \<and> asm_of w' = fold asm_step (map S [n..<n + k]) (asm_of w)"
proof -
  let ?rb = "c_recvbuf (w_chan w)"
  define w1 where "w1 = (snd (clock w))\<lparr>w_chan := (w_chan (snd (clock w)))\<lparr>c_recv_ts := fst (clock w)\<rparr>\<rparr>"
  have w1: "c_recvbuf (w_chan w1) = ?rb" "asm_of w1 = asm_of w" "asm_inv w1" "c_ack (w_chan w1) = c_ack (w_chan w)"
    using inv by (simp_all add: w1_def clock_def asm_of_def asm_inv_def)
  have ok: "ring_ok ?rb" using win by (simp add: window_def)
  have "serialbuf_readable ?rb = of_nat (n + k) - of_nat n" using pos by (simp add: serialbuf_readable_def)
  then have rd: "serialbuf_readable ?rb > 0"
    using serial_diff[of n "n + k"] k(1,2) ring_range(2)[OF ok] by (simp add: word_less_nat_alt)
  have first: "rd (b_buf ?rb) (serialbuf_index ?rb (b_rpos ?rb)) = Some (Some (S n))"
    using window_slot[OF win, of n] k pos by auto
  obtain rb m out where loop: "recv_msg_loop w1 = Some (recvd rb m out w1, True)"
      "window S (n + k) A rb" "b_rpos rb = of_nat (n + k)" "b_wpos rb = b_wpos ?rb" "b_range rb = b_range ?rb"
      "\<forall>m'. m = Some m' \<longrightarrow> expects m'" "asm_abs m out = fold asm_step (map S [n..<n + k]) (asm_of w1)"
    using recv_msg_loop_run[of S n A w1 k] win pos k A w1 S by auto
  have "xchannel_recv_msg w = Some (recvd rb m out w1, 0)"
    using rd first loop(1) by (simp add: xchannel_recv_msg_def Let_def w1_def clock_def)
  then show ?thesis
    using loop pos w1 inv by (auto simp: asm_inv_def) (simp add: recvd_def)
qed


text \<open>The three cases of \<open>recv_pack_place\<close>.\<close>

lemma place_next:
  assumes inv: "recv_inv S A w" and S: "stream_ok S" and acks: "acks_return (S (mex A)) w"
  defines "n \<equiv> mex A" and "A' \<equiv> insert (mex A) A"
  shows "\<exists>w1. recv_pack_place (S n) w = Some (w1, True)
     \<and> window S n A' (c_recvbuf (w_chan w1)) \<and> b_rpos (c_recvbuf (w_chan w1)) = of_nat n
     \<and> b_wpos (c_recvbuf (w_chan w1)) = of_nat (mex A')
     \<and> b_range (c_recvbuf (w_chan w1)) = b_range (c_recvbuf (w_chan w))
     \<and> asm_inv w1 \<and> asm_of w1 = asm_of w
     \<and> h_ack_pos (c_ack (w_chan w1)) = of_nat (mex A') \<and> h_ack_sn (c_ack (w_chan w1)) = of_nat (mex A')
     \<and> h_ack_type (c_ack (w_chan w1)) = h_type (k_head (S n))"
proof -
  let ?rb = "c_recvbuf (w_chan w)" and ?R = "unat (b_range (c_recvbuf (w_chan w)))" and ?h = "k_head (S n)"
  have fin: "finite A" and sub: "A \<subseteq> {..<n + ?R}" and win: "window S n A ?rb"
    and pos: "b_rpos ?rb = of_nat n" "b_wpos ?rb = of_nat n" and ai: "asm_inv w"
    using inv by (auto simp: recv_inv_def Let_def n_def)
  have ok: "ring_ok ?rb" using win by (simp add: window_def)
  note R = ring_range[OF ok]
  define a where "a = (c_ack (w_chan w))\<lparr>h_type := XPACK_TYPE_ACK, h_ack_type := h_type ?h\<rparr>"
  obtain w1 where w1: "carried_ack (S n) (w\<lparr>w_chan := (w_chan w)\<lparr>c_ack := a\<rparr>\<rparr>) = Some w1"
    using acks by (auto simp: acks_return_def n_def)
  have p1: "c_recvbuf (w_chan w1) = ?rb" "c_msg (w_chan w1) = c_msg (w_chan w)" "w_from w1 = w_from w"
      "w_malloc w1 = w_malloc w" "c_ack (w_chan w1) = a"
    using carried_ack_frame[OF w1] by (simp_all add: recv_part_def)
  let ?i = "serialbuf_index ?rb (of_nat n)"
  define rb2 where "rb2 = ?rb\<lparr>b_buf := (b_buf ?rb)[?i := Some (S n)]\<rparr>"
  define c2 where "c2 = (w_chan w1)\<lparr>c_recvbuf := rb2\<rparr>"
  have st: "store_pack ?i (S n) w1 = Some (w1\<lparr>w_chan := c2\<rparr>)"
    using ring_slot_less[OF ok, of n] p1(1) by (simp add: store_pack_def Let_def c2_def rb2_def)
  have win2: "window S n A' rb2" using window_add[OF win, of n] R by (simp add: rb2_def A'_def n_def)
  have A': "{..<mex A'} \<subseteq> A'" "mex A' \<notin> A'" using mex_props[of A'] fin by (auto simp: A'_def)
  have lo: "n + 1 \<le> mex A'" and hi: "mex A' \<le> n + ?R"
    using mex_fill_gap[OF fin sub[unfolded n_def] R(1)] by (simp_all add: A'_def n_def)
  define k where "k = mex A' - (n + 1)"
  have k: "n + 1 + k = mex A'" using lo by (simp add: k_def)
  have "early_loop (advance (n + 1) c2) = Some (advance (n + 1 + k) c2)"
    using win2 pos A' hi k by (intro early_loop_run[of S n A']) (auto simp: c2_def rb2_def)
  then have early: "early_loop (advance (n + 1) c2) = Some (advance (mex A') c2)" unfolding k .
  have adv: "advance (n + 1) c2 = c2\<lparr>c_recvbuf := (c_recvbuf c2)\<lparr>b_wpos := of_nat n + 1\<rparr>,
      c_ack := (c_ack c2)\<lparr>h_ack_pos := of_nat n + 1, h_ack_sn := of_nat n + 1\<rparr>\<rparr>"
    by (simp add: advance_def add.commute)
  have sn: "h_sn ?h = of_nat n" using S by (simp add: stream_ok_def)
  have "recv_pack_place (S n) w = Some (w1\<lparr>w_chan := advance (mex A') c2\<rparr>, True)"
    using w1 st early[unfolded adv] pos sn p1(1)
    by (simp add: recv_pack_place_def Let_def a_def[symmetric] c2_def rb2_def)
  then show ?thesis
    using win2 pos p1 ai
    by (intro exI[of _ "w1\<lparr>w_chan := advance (mex A') c2\<rparr>"])
       (simp add: advance_def c2_def rb2_def asm_inv_def asm_of_def a_def)
qed


lemma place_early:
  assumes inv: "recv_inv S A w" and S: "stream_ok S" and acks: "acks_return (S i) w"
    and i: "mex A < i" "i < mex A + unat (b_range (c_recvbuf (w_chan w)))"
  shows "\<exists>w1. recv_pack_place (S i) w = Some (w1, i \<notin> A) \<and> recv_inv S (insert i A) w1
     \<and> h_ack_pos (c_ack (w_chan w1)) = of_nat (mex A) \<and> h_ack_sn (c_ack (w_chan w1)) = of_nat i
     \<and> h_ack_type (c_ack (w_chan w1)) = h_type (k_head (S i))
     \<and> b_range (c_recvbuf (w_chan w1)) = b_range (c_recvbuf (w_chan w))"
proof -
  let ?rb = "c_recvbuf (w_chan w)" and ?n = "mex A" and ?h = "k_head (S i)"
  have fin: "finite A" and win: "window S ?n A ?rb" and pos: "b_rpos ?rb = of_nat ?n" "b_wpos ?rb = of_nat ?n"
    using inv by (auto simp: recv_inv_def Let_def)
  have ok: "ring_ok ?rb" using win by (simp add: window_def)
  have sn: "h_sn ?h = of_nat i" using S by (simp add: stream_ok_def)
  have e: "(of_nat ?n :: u16) - of_nat i > of_nat i - of_nat ?n" "(of_nat i :: u16) \<noteq> of_nat ?n"
    using i ring_range(2)[OF ok] by (intro early_test; linarith)+
  define a where "a = (c_ack (w_chan w))\<lparr>h_type := XPACK_TYPE_ACK, h_ack_type := h_type ?h, h_ack_sn := of_nat i, h_ack_pos := of_nat ?n\<rparr>"
  let ?w1 = "w\<lparr>w_chan := (w_chan w)\<lparr>c_ack := a\<rparr>\<rparr>" and ?i = "serialbuf_index ?rb (of_nat i)"
  have slot: "rd (b_buf ?rb) ?i = Some (if i \<in> A then Some (S i) else None)"
    using window_slot[OF win] i by simp
  show ?thesis
  proof (cases "i \<in> A")
    case True
    then have "recv_pack_place (S i) w = Some (?w1, False)"
      using slot e sn pos by (simp add: recv_pack_place_def Let_def a_def)
    moreover have "recv_inv S A ?w1 = recv_inv S A w" by (intro recv_inv_cong) auto
    ultimately show ?thesis using True inv by (simp add: a_def insert_absorb)
  next
    case False
    obtain w2 where w2: "carried_ack (S i) ?w1 = Some w2" using acks by (auto simp: acks_return_def)
    have p2: "c_recvbuf (w_chan w2) = ?rb" "c_msg (w_chan w2) = c_msg (w_chan w)" "w_from w2 = w_from w"
        "w_malloc w2 = w_malloc w" "c_ack (w_chan w2) = a"
      using carried_ack_frame[OF w2] by (simp_all add: recv_part_def)
    define rb3 where "rb3 = ?rb\<lparr>b_buf := (b_buf ?rb)[?i := Some (S i)]\<rparr>"
    define w3 where "w3 = w2\<lparr>w_chan := (w_chan w2)\<lparr>c_recvbuf := rb3\<rparr>\<rparr>"
    have st: "store_pack ?i (S i) w2 = Some w3"
      using ring_slot_less[OF ok, of i] p2(1) by (simp add: store_pack_def Let_def w3_def rb3_def)
    have "recv_pack_place (S i) w = Some (w3, True)"
      using False slot e sn pos w2 st by (simp add: recv_pack_place_def Let_def a_def)
    moreover have "mex (insert i A) = ?n"
      using mex_props[OF fin] i(1) by (intro mex_eqI) auto
    moreover have "window S ?n (insert i A) rb3" using window_add[OF win _ i(2)] i(1) by (simp add: rb3_def)
    ultimately show ?thesis
      using False inv i(2) p2
      by (intro exI[of _ w3])
         (auto simp: recv_inv_def Let_def w3_def rb3_def asm_inv_def asm_of_def a_def)
  qed
qed

lemma place_late:
  assumes inv: "recv_inv S A w" and S: "stream_ok S" and i: "i < mex A" "mex A \<le> i + 32768"
  shows "\<exists>w1. recv_pack_place (S i) w = Some (w1, False) \<and> recv_inv S A w1
     \<and> h_ack_pos (c_ack (w_chan w1)) = of_nat (mex A) \<and> h_ack_sn (c_ack (w_chan w1)) = of_nat (mex A)
     \<and> h_ack_type (c_ack (w_chan w1)) = h_type (k_head (S i))
     \<and> b_range (c_recvbuf (w_chan w1)) = b_range (c_recvbuf (w_chan w))"
proof -
  let ?rb = "c_recvbuf (w_chan w)" and ?n = "mex A" and ?h = "k_head (S i)"
  have pos: "b_rpos ?rb = of_nat ?n" "b_wpos ?rb = of_nat ?n" using inv by (auto simp: recv_inv_def Let_def)
  have sn: "h_sn ?h = of_nat i" using S by (simp add: stream_ok_def)
  have l: "\<not> (of_nat ?n :: u16) - of_nat i > of_nat i - of_nat ?n" "(of_nat i :: u16) \<noteq> of_nat ?n"
    using i by (intro late_test; linarith)+
  define a where "a = (c_ack (w_chan w))\<lparr>h_type := XPACK_TYPE_ACK, h_ack_type := h_type ?h,
     h_ack_pos := of_nat ?n, h_ack_sn := of_nat ?n, h_resend := 2\<rparr>"
  let ?w1 = "w\<lparr>w_chan := (w_chan w)\<lparr>c_ack := a\<rparr>\<rparr>"
  have "recv_pack_place (S i) w = Some (?w1, False)"
    using l sn pos by (simp add: recv_pack_place_def Let_def a_def)
  moreover have "recv_inv S A ?w1 = recv_inv S A w" by (intro recv_inv_cong) auto
  ultimately show ?thesis using inv by (simp add: a_def)
qed

text \<open>One arrival.\<close>

lemma recv_pack_arrival:
  assumes inv: "recv_inv S A w" and S: "stream_ok S" and acks: "acks_return (S i) w" and i: "in_flight A w i"
  shows "\<exists>w'. xchannel_recv_pack (S i) w = Some (w', i \<notin> A, 0) \<and> recv_inv S (insert i A) w'
     \<and> h_ack_pos (c_ack (w_chan w')) = of_nat (mex (insert i A))
     \<and> h_ack_sn (c_ack (w_chan w')) = of_nat (if i < mex (insert i A) then mex (insert i A) else i)
     \<and> h_ack_type (c_ack (w_chan w')) = h_type (k_head (S i))
     \<and> b_range (c_recvbuf (w_chan w')) = b_range (c_recvbuf (w_chan w))"
proof -
  let ?n = "mex A"
  have fin: "finite A" using inv by (simp add: recv_inv_def)
  note A = mex_props[OF fin]
  have idle: "\<exists>w'. xchannel_recv_msg w1 = Some (w', 0) \<and> recv_inv S B w' \<and> recv_part w' = recv_part w1"
    if "recv_inv S B w1" for w1 B
  proof -
    have "b_rpos (c_recvbuf (w_chan w1)) = b_wpos (c_recvbuf (w_chan w1))" using that by (simp add: recv_inv_def Let_def)
    then obtain w' where w': "xchannel_recv_msg w1 = Some (w', 0)" "recv_part w' = recv_part w1"
      using recv_msg_idle by blast
    then have "recv_inv S B w' = recv_inv S B w1" by (intro recv_inv_cong) (simp_all add: recv_part_def)
    with w' that show ?thesis by blast
  qed
  consider "i < ?n" | "i = ?n" | "?n < i" by linarith
  then show ?thesis
  proof cases
    case 1
    then obtain w1 where w1: "recv_pack_place (S i) w = Some (w1, False)" "recv_inv S A w1"
       "h_ack_pos (c_ack (w_chan w1)) = of_nat ?n" "h_ack_sn (c_ack (w_chan w1)) = of_nat ?n"
       "h_ack_type (c_ack (w_chan w1)) = h_type (k_head (S i))"
       "b_range (c_recvbuf (w_chan w1)) = b_range (c_recvbuf (w_chan w))"
      using place_late[OF inv S] i by (auto simp: in_flight_def)
    have "insert i A = A" using 1 A(1) by auto
    with 1 w1 idle[OF w1(2)] A(1) show ?thesis by (auto simp: xchannel_recv_pack_def recv_part_def)
  next
    case 3
    obtain w1 where w1: "recv_pack_place (S i) w = Some (w1, i \<notin> A)" "recv_inv S (insert i A) w1"
       "h_ack_pos (c_ack (w_chan w1)) = of_nat ?n" "h_ack_sn (c_ack (w_chan w1)) = of_nat i"
       "h_ack_type (c_ack (w_chan w1)) = h_type (k_head (S i))"
       "b_range (c_recvbuf (w_chan w1)) = b_range (c_recvbuf (w_chan w))"
      using place_early[OF inv S acks 3] i by (auto simp: in_flight_def)
    have "mex (insert i A) = ?n" using A 3 by (intro mex_eqI) auto
    with 3 w1 idle[OF w1(2)] show ?thesis by (auto simp: xchannel_recv_pack_def recv_part_def)
  next
    case 2
    let ?A = "insert ?n A"
    obtain w1 where w1: "recv_pack_place (S ?n) w = Some (w1, True)" "window S ?n ?A (c_recvbuf (w_chan w1))"
       "b_rpos (c_recvbuf (w_chan w1)) = of_nat ?n" "b_wpos (c_recvbuf (w_chan w1)) = of_nat (mex ?A)"
       "b_range (c_recvbuf (w_chan w1)) = b_range (c_recvbuf (w_chan w))" "asm_inv w1" "asm_of w1 = asm_of w"
       "h_ack_pos (c_ack (w_chan w1)) = of_nat (mex ?A)" "h_ack_sn (c_ack (w_chan w1)) = of_nat (mex ?A)"
       "h_ack_type (c_ack (w_chan w1)) = h_type (k_head (S ?n))"
      using place_next[OF inv S acks[unfolded 2]] by blast
    have sub: "A \<subseteq> {..<?n + unat (b_range (c_recvbuf (w_chan w1)))}" using inv w1(5) by (simp add: recv_inv_def Let_def)
    note B = mex_props[of ?A]
    have R: "0 < unat (b_range (c_recvbuf (w_chan w1)))" using w1(2) ring_range(1) by (auto simp: window_def)
    note lo = mex_fill_gap(1)[OF fin sub R] and hi = mex_fill_gap(2)[OF fin sub R]
    define k where "k = mex ?A - ?n"
    have k: "?n + k = mex ?A" "0 < k" using lo by (simp_all add: k_def)
    have run: "{?n..<mex ?A} \<subseteq> ?A" using B(1) fin by auto
    obtain w' where w': "xchannel_recv_msg w1 = Some (w', 0)" "window S (mex ?A) ?A (c_recvbuf (w_chan w'))"
       "b_rpos (c_recvbuf (w_chan w')) = of_nat (mex ?A)" "b_wpos (c_recvbuf (w_chan w')) = of_nat (mex ?A)"
       "b_range (c_recvbuf (w_chan w')) = b_range (c_recvbuf (w_chan w1))" "asm_inv w'"
       "c_ack (w_chan w') = c_ack (w_chan w1)" "asm_of w' = fold asm_step (map S [?n..<mex ?A]) (asm_of w1)"
      using recv_msg_run[OF w1(2,3), of k] w1(4,6) k hi B fin sub R S lo run
      by (auto simp: stream_ok_def)
    have "map S [0..<mex ?A] = map S [0..<?n] @ map S [?n..<mex ?A]"
      using lo by (metis map_append upt_add_eq_append le0 less_imp_le le_add_diff_inverse)
    then have "asm_of w' = fold asm_step (map S [0..<mex ?A]) (None, [])"
      using w'(8) w1(7) inv by (simp add: recv_inv_def)
    moreover have "?A \<subseteq> {..<mex ?A + unat (b_range (c_recvbuf (w_chan w')))}"
      using sub lo w'(5) by auto
    ultimately have "recv_inv S ?A w'" using w' fin by (simp add: recv_inv_def Let_def)
    then show ?thesis using 2 w1 w' A(2) lo by (simp add: xchannel_recv_pack_def)
  qed
qed


section \<open>Sequences of arrivals\<close>

text \<open>Running \<open>xchannel_recv_pack\<close> on the packets at the given positions, in that order.\<close>

fun arrivals :: "(nat \<Rightarrow> xpack) \<Rightarrow> nat list \<Rightarrow> xstate \<Rightarrow> xstate option" where
  "arrivals S [] w = Some w"
| "arrivals S (i # is) w = do { (w1, kept, r) \<leftarrow> xchannel_recv_pack (S i) w; if r = 0 then arrivals S is w1 else None }"

text \<open>
  A schedule the network can produce: every packet is in the window when it arrives (which the
  sender guarantees) and no packet is delayed by more than 32768 packets.
\<close>

fun schedule :: "nat \<Rightarrow> nat set \<Rightarrow> nat list \<Rightarrow> bool" where
  "schedule R A [] = True"
| "schedule R A (i # is) = (i < mex A + R \<and> mex A \<le> i + 32768 \<and> schedule R (insert i A) is)"

lemma arrivals_run:
  assumes "recv_inv S A w" and "stream_ok S" and "\<forall>i. h_ack_type (k_head (S i)) = 0"
    and "schedule (unat (b_range (c_recvbuf (w_chan w)))) A is"
  shows "\<exists>w'. arrivals S is w = Some w' \<and> recv_inv S (A \<union> set is) w'"
  using assms
proof (induction "is" arbitrary: A w)
  case Nil
  then show ?case by simp
next
  case (Cons i "is")
  have "acks_return (S i) w" using Cons.prems(3) by (intro acks_return_none) simp
  moreover have "in_flight A w i" using Cons.prems(4) by (simp add: in_flight_def)
  ultimately obtain w1 where w1: "xchannel_recv_pack (S i) w = Some (w1, i \<notin> A, 0)" "recv_inv S (insert i A) w1"
      "b_range (c_recvbuf (w_chan w1)) = b_range (c_recvbuf (w_chan w))"
    using recv_pack_arrival[OF Cons.prems(1,2)] by blast
  then show ?case using Cons.IH[of "insert i A" w1] Cons.prems by simp
qed

lemma recv_inv_asm: "recv_inv S A w \<Longrightarrow> asm_of w = fold asm_step (map S [0..<mex A]) (None, [])"
  by (simp add: recv_inv_def)

text \<open>A fresh channel.\<close>

lemma mex_empty [simp]: "mex {} = 0"
  by (rule mex_eqI) auto

lemma window_fresh: "pow2 r \<Longrightarrow> window S 0 {} (c_recvbuf (xchannel_create now r))"
  using ring_range[of "c_recvbuf (xchannel_create now r)"]
  by (auto simp: ring_ok_def window_def xchannel_create_def nth_Cons')

lemma recv_inv_fresh:
  assumes "pow2 r" and "w_chan w = xchannel_create now r" and "w_malloc w" and "w_from w = []"
  shows "recv_inv S {} w"
  using window_fresh[OF assms(1), of S now] assms
  by (simp add: recv_inv_def Let_def asm_inv_def asm_of_def asm_abs_def) (simp add: xchannel_create_def)


section \<open>Fragments of a message\<close>

text \<open>The chunks a message is cut into: full packets and a remainder, one empty packet for an empty message.\<close>

function chunks :: "bytes \<Rightarrow> bytes list" where
  "chunks b = (if length b \<le> XBODY_SIZE then [b] else take XBODY_SIZE b # chunks (drop XBODY_SIZE b))"
  by pat_completeness auto
termination
  by (relation "measure length") (auto simp: XBODY_SIZE_def)

declare chunks.simps [simp del]

lemma chunks_nonempty [simp]: "chunks b \<noteq> []"
  by (subst chunks.simps) simp

lemma concat_chunks [simp]: "concat (chunks b) = b"
proof (induction b rule: chunks.induct)
  case (1 b)
  then show ?case by (subst chunks.simps) simp
qed

definition fragments :: "u16 \<Rightarrow> bytes \<Rightarrow> xpack list \<Rightarrow> bool" where
  "fragments t b ps \<longleftrightarrow> map pack_bytes ps = chunks b \<and> length ps < 65536
     \<and> h_type (k_head (hd ps)) = t \<and> h_range (k_head (hd ps)) = of_nat (length ps)"

lemma fold_asm_progress:
  "ps \<noteq> [] \<Longrightarrow> fold asm_step ps (Some (t, b, length ps), out) = (None, out @ [(t, b @ concat (map pack_bytes ps))])"
proof (induction ps arbitrary: b)
  case (Cons p ps)
  show ?case
  proof (cases "ps = []")
    case True
    then show ?thesis by (simp add: asm_step_def)
  next
    case False
    then show ?thesis using Cons.IH by (simp add: asm_step_def)
  qed
qed simp

text \<open>Reassembly undoes fragmentation.\<close>

lemma fold_asm_fragments:
  assumes "fragments t b ps"
  shows "fold asm_step ps (None, out) = (None, out @ [(t, b)])"
proof -
  have m: "map pack_bytes ps = chunks b" using assms by (simp add: fragments_def)
  then have ne: "ps \<noteq> []" using chunks_nonempty[of b] by (metis list.map_disc_iff)
  then obtain p qs where ps: "ps = p # qs" by (cases ps) auto
  have r: "unat (h_range (k_head p)) = length ps" "h_type (k_head p) = t"
  proof -
    have "h_range (k_head p) = of_nat (length ps)" "length ps < 65536" "h_type (k_head p) = t"
      using assms by (auto simp: fragments_def ps)
    then show "unat (h_range (k_head p)) = length ps" "h_type (k_head p) = t"
      by (simp_all only: unat_of_nat16 mod_less)
  qed
  have "asm_step p (None, out) = asm_step p (Some (t, [], length ps), out)"
    using r by (simp add: asm_step_def)
  then have "fold asm_step ps (None, out) = fold asm_step ps (Some (t, [], length ps), out)"
    by (simp add: ps)
  also have "\<dots> = (None, out @ [(t, b)])" using fold_asm_progress[OF ne] m by simp
  finally show ?thesis .
qed

lemma fold_asm_messages:
  "list_all2 (\<lambda>(t, b) ps. fragments t b ps) ms pss \<Longrightarrow>
     fold asm_step (concat pss) (None, out) = (None, out @ ms)"
proof (induction ms pss arbitrary: out rule: list_all2_induct)
  case (Cons m ms ps pss)
  then show ?case by (cases m) (simp add: fold_asm_fragments)
qed simp

section \<open>Properties\<close>

text \<open>
  C2. In-order, exactly-once reassembly: a fresh channel that is fed packets of a peer's stream in any
  order, with losses and any number of duplicates, always returns normally, and what it has handed to
  reassembly is the packets of the stream up to the first that never arrived, each once and in order.
\<close>

theorem recv_in_order:
  assumes "pow2 r" and "w_chan w = xchannel_create now r" and "w_malloc w" and "w_from w = []"
    and "stream_ok S" and "\<forall>i. h_ack_type (k_head (S i)) = 0" and "schedule (unat r) {} is"
  shows "\<exists>w'. arrivals S is w = Some w' \<and> asm_of w' = fold asm_step (map S [0..<mex (set is)]) (None, [])"
proof -
  have "unat (b_range (c_recvbuf (w_chan w))) = unat r" using assms(2) by (simp add: xchannel_create_def)
  then show ?thesis
    using arrivals_run[OF recv_inv_fresh[OF assms(1-4)] assms(5,6)] assms(7) recv_inv_asm by fastforce
qed

definition demo_stream :: "nat \<Rightarrow> xpack" where
  "demo_stream i = zero_pack\<lparr>k_head := zero_head\<lparr>h_type := XPACK_TYPE_MSG, h_sn := of_nat i, h_range := 1, h_len := 2\<rparr>,
     k_body := of_nat i # 7 # replicate 1278 0\<rparr>"

definition demo_state :: xstate where
  "demo_state = \<lparr>w_chan = xchannel_create 5 64, w_msgs = (\<lambda>_. None), w_mpos = 0, w_mlen = 0, w_clock = (\<lambda>n. of_nat n),
     w_ticks = 0, w_sendok = (\<lambda>_. True), w_sends = 0, w_malloc = True, w_junk = (\<lambda>_. 0xAA), w_raw = demo_frame,
     w_out = [], w_from = [], w_to = []\<rparr>"

lemma demo_stream_ok: "stream_ok demo_stream"
  by (simp add: stream_ok_def pack_ok_def demo_stream_def zero_pack_def XBODY_SIZE_def)

lemma pow2_64: "pow2 (64 :: u16)"
  unfolding pow2_def by (rule exI[of _ 6]) simp

theorem recv_in_order_witness:
  "\<exists>w'. arrivals demo_stream [1, 0, 0, 2] demo_state = Some w'
     \<and> asm_of w' = fold asm_step (map demo_stream [0..<mex (set [1, 0, 0, 2])]) (None, [])"
proof (rule recv_in_order[OF pow2_64])
  have "mex {1} = 0" "mex {0, 1} = 2" by (rule mex_eqI; auto)+
  then show "schedule (unat (64::u16)) {} [1, 0, 0, 2]" by (simp add: insert_commute)
qed (simp_all add: demo_state_def demo_stream_ok, simp add: demo_stream_def zero_head_def)

text \<open>
  C5. Messages arrive whole: when the stream starts with the fragments of the messages \<open>ms\<close> and all of
  those packets have arrived, in whatever order, the messages delivered to \<open>on_message_from_peer\<close> are
  exactly \<open>ms\<close>: same number, same order, same types and bytes.
\<close>

theorem messages_delivered:
  assumes "pow2 r" and "w_chan w = xchannel_create now r" and "w_malloc w" and "w_from w = []"
    and "stream_ok S" and "\<forall>i. h_ack_type (k_head (S i)) = 0" and "schedule (unat r) {} is"
    and "list_all2 (\<lambda>(t, b) ps. fragments t b ps) ms pss" and "map S [0..<mex (set is)] = concat pss"
  shows "\<exists>w'. arrivals S is w = Some w' \<and> c_msg (w_chan w') = None
     \<and> map (\<lambda>m. (f_type m, frame_bytes m)) (w_from w') = ms"
proof -
  have "unat (b_range (c_recvbuf (w_chan w))) = unat r" using assms(2) by (simp add: xchannel_create_def)
  then obtain w' where "arrivals S is w = Some w'" "asm_of w' = fold asm_step (map S [0..<mex (set is)]) (None, [])"
    using arrivals_run[OF recv_inv_fresh[OF assms(1-4)] assms(5,6)] assms(7) recv_inv_asm by fastforce
  then show ?thesis
    using fold_asm_messages[OF assms(8), of "[]"] assms(9) by (auto simp: asm_of_def asm_abs_def)
qed

lemma demo_fragments: "fragments 2 [of_nat i, 7] [demo_stream i]"
  by (subst fragments_def, subst chunks.simps)
     (simp add: demo_stream_def pack_bytes_def XBODY_SIZE_def XPACK_TYPE_MSG_def)

theorem messages_delivered_witness:
  "\<exists>w'. arrivals demo_stream [1, 0] demo_state = Some w' \<and> c_msg (w_chan w') = None
     \<and> map (\<lambda>m. (f_type m, frame_bytes m)) (w_from w') = [(2, [0, 7]), (2, [1, 7])]"
proof (rule messages_delivered[OF pow2_64, where pss = "[[demo_stream 0], [demo_stream 1]]"])
  have m: "mex {1} = 0" "mex {0, 1} = 2" by (rule mex_eqI; auto)+
  then show "schedule (unat (64::u16)) {} [1, 0]" by (simp add: insert_commute)
  show "map demo_stream [0..<mex (set [1, 0])] = concat [[demo_stream 0], [demo_stream 1]]"
    using m by (simp add: insert_commute upt_rec)
  show "list_all2 (\<lambda>(t, b) ps. fragments t b ps) [(2, [0, 7]), (2, [1, 7])] [[demo_stream 0], [demo_stream 1]]"
    using demo_fragments[of 0] demo_fragments[of 1] by simp
qed (simp_all add: demo_state_def demo_stream_ok, simp add: demo_stream_def zero_head_def)

text \<open>
  C10. Acknowledgements are truthful: the cumulative acknowledgement prepared for the next answer names
  exactly the first packet of the stream that has not arrived, and a packet that arrived ahead of a gap
  is acknowledged by its own number; a duplicate is not kept.
\<close>

theorem recv_ack_truthful:
  assumes "recv_inv S A w" and "stream_ok S" and "acks_return (S i) w" and "in_flight A w i"
  shows "\<exists>w'. xchannel_recv_pack (S i) w = Some (w', i \<notin> A, 0) \<and> recv_inv S (insert i A) w'
     \<and> h_ack_pos (c_ack (w_chan w')) = of_nat (mex (insert i A))
     \<and> h_ack_sn (c_ack (w_chan w')) = of_nat (if i < mex (insert i A) then mex (insert i A) else i)
     \<and> h_ack_type (c_ack (w_chan w')) = h_type (k_head (S i))"
  using recv_pack_arrival[OF assms] by blast

theorem recv_ack_truthful_witness:
  "\<exists>w'. xchannel_recv_pack (demo_stream 3) demo_state = Some (w', (3::nat) \<notin> {}, 0) \<and> recv_inv demo_stream (insert 3 {}) w'
     \<and> h_ack_pos (c_ack (w_chan w')) = of_nat (mex (insert 3 {}))
     \<and> h_ack_sn (c_ack (w_chan w')) = of_nat (if 3 < mex (insert 3 {}) then mex (insert 3 {}) else 3)
     \<and> h_ack_type (c_ack (w_chan w')) = h_type (k_head (demo_stream 3))"
proof (rule recv_ack_truthful)
  show "recv_inv demo_stream {} demo_state" by (rule recv_inv_fresh[OF pow2_64]) (simp_all add: demo_state_def)
  show "acks_return (demo_stream 3) demo_state" by (rule acks_return_none) (simp add: demo_stream_def zero_head_def)
  show "in_flight {} demo_state 3" by (simp add: in_flight_def demo_state_def xchannel_create_def)
qed (rule demo_stream_ok)

text \<open>
  C34. A connection request may carry any window size. With size 0 the ring has one slot but the index
  mask is all ones, so any packet with a non-zero serial number is looked up outside the ring: one
  datagram suffices to make the receiver access memory out of bounds.
\<close>

theorem zero_range_out_of_bounds:
  assumes "w_chan w = xchannel_create now 0" and "0 < h_sn (k_head p)" and "h_sn (k_head p) < 32768"
  shows "xchannel_recv_pack p w = None"
proof -
  let ?sn = "h_sn (k_head p)"
  have "unat (0 - ?sn) = 65536 - unat ?sn"
    using serial_diff_back[of 0 "unat ?sn"] assms(2) unat16_less[of ?sn] by (simp add: word_less_nat_alt)
  then have "0 - ?sn > ?sn - 0" using assms(3) by (simp add: word_less_nat_alt)
  moreover have "\<not> unat ?sn < 1" "?sn \<noteq> 0" using assms(2) by (auto simp: word_less_nat_alt)
  ultimately show ?thesis
    using assms by (simp add: xchannel_recv_pack_def recv_pack_place_def Let_def xchannel_create_def
        serialbuf_index_def rd_def)
qed

theorem zero_range_out_of_bounds_witness:
  "xchannel_recv_pack (demo_stream 9) (demo_state\<lparr>w_chan := xchannel_create 5 0\<rparr>) = None"
  by (rule zero_range_out_of_bounds) (simp_all add: demo_stream_def)




end
