(* ===== verification/Channel_Send.thy ===== *)
theory Channel_Send
  imports Channel_Recv
begin

text \<open>
  The sending half of a channel: messages are queued (\<open>xmsger_send\<close>), cut into packets
  (\<open>xchannel_serial_msg\<close>), sent (\<open>xchannel_send_pack\<close>) and released when they are acknowledged
  (\<open>xchannel_recv_ack\<close>). The invariant ties the two rings and the message store to the list of all
  messages ever queued: the packets in the ring are the fragments of those messages, in order.
\<close>

section \<open>Messages and their packets\<close>

text \<open>A message handed to the channel: its address, type and bytes. A fragment: address, type, bytes, packets left.\<close>

type_synonym msgspec = "nat \<times> u16 \<times> bytes"
type_synonym frag = "nat \<times> u16 \<times> bytes \<times> nat"

definition frags :: "msgspec \<Rightarrow> frag list" where
  "frags = (\<lambda>(a, t, b). map (\<lambda>c. (a, t, chunks b ! c, length (chunks b) - c)) [0..<length (chunks b)])"

definition pkts :: "msgspec list \<Rightarrow> frag list" where
  "pkts ms = concat (map frags ms)"

lemma pkts_simps [simp]:
  "pkts [] = []" "pkts (m # ms) = frags m @ pkts ms" "pkts (ms @ ns) = pkts ms @ pkts ns"
  by (simp_all add: pkts_def)

lemma length_frags: "length (frags (a, t, b)) = length (chunks b)"
  by (simp add: frags_def)

lemma frags_pos: "0 < length (frags m)"
  by (cases m) (simp add: length_frags)

lemma frags_nonempty [simp]: "frags m \<noteq> []"
  using frags_pos[of m] by auto

lemma frags_nth: "c < length (chunks b) \<Longrightarrow> frags (a, t, b) ! c = (a, t, chunks b ! c, length (chunks b) - c)"
  by (simp add: frags_def)

subsection \<open>Chunks\<close>

lemma length_chunks: "length (chunks b) = (if b = [] then 1 else (length b + XBODY_SIZE - 1) div XBODY_SIZE)"
proof (induction b rule: chunks.induct)
  case (1 b)
  show ?case
  proof (cases "length b \<le> XBODY_SIZE")
    case True
    then have "(length b + XBODY_SIZE - 1) div XBODY_SIZE = 1" if "b \<noteq> []"
      using that by (intro div_nat_eqI) (cases b; simp add: XBODY_SIZE_def)+
    then show ?thesis using True by (subst chunks.simps) simp
  next
    case False
    then have ne: "drop XBODY_SIZE b \<noteq> []" "b \<noteq> []" by auto
    have "(length b + XBODY_SIZE - 1) div XBODY_SIZE = Suc ((length b - XBODY_SIZE + XBODY_SIZE - 1) div XBODY_SIZE)"
      using False by (simp add: XBODY_SIZE_def)
    then show ?thesis using False 1 ne by (subst chunks.simps) simp
  qed
qed

lemma chunks_nth:
  "c < length (chunks b) \<Longrightarrow> chunks b ! c = take XBODY_SIZE (drop (XBODY_SIZE * c) b)"
proof (induction b arbitrary: c rule: chunks.induct)
  case (1 b)
  show ?case
  proof (cases "length b \<le> XBODY_SIZE")
    case True
    then show ?thesis using 1(2) by (subst chunks.simps, subst (asm) chunks.simps) simp
  next
    case False
    then have ch: "chunks b = take XBODY_SIZE b # chunks (drop XBODY_SIZE b)" by (subst chunks.simps) simp
    show ?thesis
    proof (cases c)
      case (Suc d)
      then have "d < length (chunks (drop XBODY_SIZE b))" using 1(2) ch by simp
      then show ?thesis using 1(1)[OF False] Suc ch by (simp add: add.commute)
    qed (use ch in simp)
  qed
qed

text \<open>Where the last chunk is.\<close>

lemma chunk_last:
  assumes "c < length (chunks b)"
  shows "c + 1 = length (chunks b) \<longleftrightarrow> length b \<le> XBODY_SIZE * (c + 1)" and "XBODY_SIZE * c \<le> length b"
proof -
  have "(c + 1 = length (chunks b) \<longleftrightarrow> length b \<le> XBODY_SIZE * (c + 1)) \<and> XBODY_SIZE * c \<le> length b" if b: "b \<noteq> []"
  proof -
    define D where "D = (length b + 1279) div 1280"
    have D: "c < D" "0 < length b" "length (chunks b) = D"
      using assms b by (auto simp: length_chunks XBODY_SIZE_def D_def)
    obtain q where "length b + 1279 = 1280 * D + q" "q < 1280"
      using that[of "(length b + 1279) mod 1280"] by (auto simp: D_def)
    then show ?thesis using D(1,2) unfolding XBODY_SIZE_def D(3) by (intro conjI iffI) (simp_all add: algebra_simps)
  qed
  moreover have "length (chunks []) = 1" by (simp add: length_chunks)
  ultimately show "c + 1 = length (chunks b) \<longleftrightarrow> length b \<le> XBODY_SIZE * (c + 1)" "XBODY_SIZE * c \<le> length b"
    using assms by (cases "b = []"; simp)+
qed


lemma length_chunk:
  "c < length (chunks b) \<Longrightarrow> length (chunks b ! c) = min (XBODY_SIZE * (c + 1)) (length b) - min (XBODY_SIZE * c) (length b)"
  by (auto simp: chunks_nth min_def XBODY_SIZE_def)

subsection \<open>Which message a packet belongs to\<close>

fun msg_index :: "msgspec list \<Rightarrow> nat \<Rightarrow> nat" where
  "msg_index [] i = 0"
| "msg_index (m # ms) i = (if i < length (frags m) then 0 else Suc (msg_index ms (i - length (frags m))))"

text \<open>The position of the first packet of message \<open>j\<close>.\<close>

definition start :: "msgspec list \<Rightarrow> nat \<Rightarrow> nat" where
  "start ms j = length (pkts (take j ms))"

lemma start_simps [simp]:
  "start ms 0 = 0" "start (m # ms) (Suc j) = length (frags m) + start ms j"
  "j \<le> length ms \<Longrightarrow> start (ms @ ns) j = start ms j" "start ms (length ms) = length (pkts ms)"
  by (simp_all add: start_def)

lemma start_Suc: "j < length ms \<Longrightarrow> start ms (Suc j) = start ms j + length (frags (ms ! j))"
  by (simp add: start_def take_Suc_conv_app_nth)

lemma msg_index_le: "msg_index ms i \<le> length ms"
  by (induction ms i rule: msg_index.induct) auto

lemma msg_index_start: "start ms (msg_index ms i) \<le> i"
  by (induction ms i rule: msg_index.induct) auto

lemma msg_index_less:
  "i < length (pkts ms) \<Longrightarrow> msg_index ms i < length ms \<and> i < start ms (Suc (msg_index ms i))
     \<and> pkts ms ! i = frags (ms ! msg_index ms i) ! (i - start ms (msg_index ms i))"
proof (induction ms i rule: msg_index.induct)
  case (2 m ms i)
  show ?case
  proof (cases "i < length (frags m)")
    case False
    then have "i - length (frags m) < length (pkts ms)" using 2(2) by auto
    then show ?thesis using 2(1) False by (auto simp: nth_append)
  qed (simp add: nth_append)
qed simp

lemma msg_index_end: "msg_index ms (length (pkts ms)) = length ms"
  by (induction ms) auto

lemma msg_index_append: "i \<le> length (pkts ms) \<Longrightarrow> msg_index (ms @ ns) i = msg_index ms i + (if i = length (pkts ms) then msg_index ns 0 else 0)"
  by (induction ms i rule: msg_index.induct) (use frags_pos in auto)

lemma msg_index_0 [simp]: "msg_index ms 0 = 0"
  by (cases ms) (simp_all add: frags_pos)

lemma msg_index_Suc:
  assumes "i < length (pkts ms)"
  shows "msg_index ms (Suc i) = (if Suc i = start ms (Suc (msg_index ms i)) then Suc (msg_index ms i) else msg_index ms i)"
  using assms
proof (induction ms i rule: msg_index.induct)
  case (2 m ms i)
  show ?case
  proof (cases "i < length (frags m)")
    case True
    then show ?thesis by auto
  next
    case False
    then have "Suc i - length (frags m) = Suc (i - length (frags m))" by simp
    then show ?thesis using 2 False by auto
  qed
qed simp

lemma msg_index_mono: "i \<le> k \<Longrightarrow> msg_index ms i \<le> msg_index ms k"
proof (induction ms i arbitrary: k rule: msg_index.induct)
  case (2 m ms i)
  then show ?case by auto
qed simp


section \<open>The invariant of the sending half\<close>

definition slot_ok :: "xpack \<Rightarrow> bool" where
  "slot_ok p \<longleftrightarrow> length (k_body p) = XBODY_SIZE \<and> unat (h_len (k_head p)) \<le> XBODY_SIZE"

text \<open>A packet that carries the fragment at position \<open>i\<close>.\<close>

definition frag_in :: "nat \<Rightarrow> frag \<Rightarrow> xpack \<Rightarrow> bool" where
  "frag_in i = (\<lambda>(a, t, b, l) p. k_msg p = a \<and> h_type (k_head p) = t \<and> pack_bytes p = b
     \<and> h_range (k_head p) = of_nat l \<and> h_sn (k_head p) = of_nat i \<and> unat (h_len (k_head p)) = length b)"

text \<open>A message of which \<open>cs\<close> chunks went into packets and \<open>ca\<close> chunks were acknowledged.\<close>

definition msg_at :: "xframe \<Rightarrow> u16 \<Rightarrow> bytes \<Rightarrow> nat \<Rightarrow> nat \<Rightarrow> bool" where
  "msg_at m t b cs ca \<longleftrightarrow> f_type m = t \<and> unat (f_wpos m) = length b \<and> holds_at (f_data m) 0 b
     \<and> unat (f_spos m) = min (XBODY_SIZE * cs) (length b) \<and> unat (f_range m) = length (chunks b) - cs
     \<and> unat (f_rpos m) = min (XBODY_SIZE * ca) (length b)"

text \<open>How many of the first \<open>i\<close> packets belong to message \<open>j\<close>.\<close>

definition share :: "msgspec list \<Rightarrow> nat \<Rightarrow> nat \<Rightarrow> nat" where
  "share ms j i = min (length (frags (ms ! j))) (i - start ms j)"

definition send_ring :: "msgspec list \<Rightarrow> nat \<Rightarrow> nat \<Rightarrow> nat \<Rightarrow> xpack serialbuf \<Rightarrow> bool" where
  "send_ring ms r s v sb \<longleftrightarrow> ring_ok sb \<and> b_rpos sb = of_nat r \<and> b_spos sb = of_nat s \<and> b_wpos sb = of_nat v
     \<and> r \<le> s \<and> s \<le> v \<and> v \<le> r + unat (b_range sb) \<and> v \<le> length (pkts ms) \<and> (\<forall>p \<in> set (b_buf sb). slot_ok p)
     \<and> (\<forall>i. r \<le> i \<and> i < v \<longrightarrow> frag_in i (pkts ms ! i) (b_buf sb ! (i mod unat (b_range sb))))"

definition msg_ring :: "msgspec list \<Rightarrow> nat \<Rightarrow> nat \<Rightarrow> nat serialbuf \<Rightarrow> bool" where
  "msg_ring ms r v mb \<longleftrightarrow> ring_ok mb \<and> b_rpos mb = of_nat (msg_index ms r) \<and> b_spos mb = of_nat (msg_index ms v)
     \<and> b_wpos mb = of_nat (length ms) \<and> length ms \<le> msg_index ms r + unat (b_range mb)
     \<and> (\<forall>j. msg_index ms r \<le> j \<and> j < length ms \<longrightarrow> b_buf mb ! (j mod unat (b_range mb)) = fst (ms ! j))"

definition msg_store :: "msgspec list \<Rightarrow> nat \<Rightarrow> nat \<Rightarrow> (nat \<Rightarrow> xframe option) \<Rightarrow> bool" where
  "msg_store ms r v M \<longleftrightarrow> distinct (map fst (drop (msg_index ms r) ms))
     \<and> (\<forall>j. msg_index ms r \<le> j \<and> j < length ms \<longrightarrow>
          (\<exists>m. M (fst (ms ! j)) = Some m \<and> msg_at m (fst (snd (ms ! j))) (snd (snd (ms ! j))) (share ms j v) (share ms j r)))"

definition send_inv :: "msgspec list \<Rightarrow> nat \<Rightarrow> nat \<Rightarrow> nat \<Rightarrow> xstate \<Rightarrow> bool" where
  "send_inv ms r s v w \<longleftrightarrow> send_ring ms r s v (c_sendbuf (w_chan w)) \<and> msg_ring ms r v (c_msgbuf (w_chan w))
     \<and> msg_store ms r v (w_msgs w) \<and> w_to w = map fst (take (msg_index ms r) ms)"

subsection \<open>Arithmetic of the two counters\<close>

lemma index_before: "i < length (pkts ms) \<Longrightarrow> share ms (msg_index ms i) i = i - start ms (msg_index ms i)
   \<and> i - start ms (msg_index ms i) < length (frags (ms ! msg_index ms i))"
  using msg_index_less[of i ms] msg_index_start[of ms i] by (auto simp: share_def start_Suc)

lemma share_Suc_same:
  assumes "i < length (pkts ms)"
  shows "share ms (msg_index ms i) (Suc i) = Suc (share ms (msg_index ms i) i)"
  using index_before[OF assms] msg_index_start[of ms i] by (auto simp: share_def)

lemma start_mono: "j \<le> k \<Longrightarrow> k \<le> length ms \<Longrightarrow> start ms j \<le> start ms k"
proof -
  assume "j \<le> k"
  then have "take k ms = take j ms @ take (k - j) (drop j ms)" by (metis le_add_diff_inverse take_add)
  then show ?thesis by (simp add: start_def)
qed

lemma share_Suc_other:
  assumes i: "i < length (pkts ms)" and j: "j < length ms" "j \<noteq> msg_index ms i"
  shows "share ms j (Suc i) = share ms j i"
proof (cases "j < msg_index ms i")
  case True
  have "start ms (Suc j) \<le> start ms (msg_index ms i)"
    using True msg_index_le[of ms i] by (intro start_mono) auto
  then have "start ms j + length (frags (ms ! j)) \<le> i" using msg_index_start[of ms i] j(1) by (simp add: start_Suc)
  then show ?thesis by (auto simp: share_def)
next
  case False
  then have "start ms (Suc (msg_index ms i)) \<le> start ms j" using j by (intro start_mono) auto
  then have "i < start ms j" using msg_index_less[OF i] by auto
  then show ?thesis by (simp add: share_def)
qed

lemma share_full:
  assumes "i < length (pkts ms)"
  shows "Suc i = start ms (Suc (msg_index ms i)) \<longleftrightarrow> Suc (share ms (msg_index ms i) i) = length (frags (ms ! msg_index ms i))"
proof -
  have "msg_index ms i < length ms" "i < start ms (Suc (msg_index ms i))" using msg_index_less[OF assms] by auto
  then show ?thesis using index_before[OF assms] msg_index_start[of ms i] by (auto simp: start_Suc)
qed


subsection \<open>One fragment of a message\<close>

lemma frag_len_eq:
  assumes m: "msg_at m t b cs ca" and cs: "cs < length (chunks b)"
  shows "unat (frag_len m) = length (chunks b ! cs)"
proof -
  note l = chunk_last[OF cs] length_chunk[OF cs]
  have sp: "unat (f_spos m) = XBODY_SIZE * cs" "unat (f_wpos m) = length b" using m l(2) by (auto simp: msg_at_def)
  then have d: "unat (f_wpos m - f_spos m) = length b - XBODY_SIZE * cs"
    using l(2) by (simp add: unat_sub word_le_nat_alt)
  have B: "unat (of_nat XBODY_SIZE :: u64) = XBODY_SIZE" "unat (of_nat XBODY_SIZE :: u16) = XBODY_SIZE"
    by (simp_all add: XBODY_SIZE_def)
  show ?thesis
  proof (cases "b = []")
    case True
    then have "\<not> f_wpos m > 0" using sp by (simp add: word_less_nat_alt)
    then show ?thesis using True l(3) by (simp add: frag_len_def)
  next
    case False
    then have pos: "f_wpos m > 0" using sp by (simp add: word_less_nat_alt)
    show ?thesis
    proof (cases "f_wpos m - f_spos m < of_nat XBODY_SIZE")
      case True
      then have lt: "length b - XBODY_SIZE * cs < XBODY_SIZE" using d B by (simp add: word_less_nat_alt)
      have "unat (ucast (f_wpos m - f_spos m) :: u16) = length b - XBODY_SIZE * cs"
        using d lt by (simp add: unsigned_ucast_eq take_bit_nat_eq_self XBODY_SIZE_def)
      then show ?thesis using True pos lt l by (simp add: frag_len_def)
    next
      case False
      then have "XBODY_SIZE \<le> length b - XBODY_SIZE * cs" using d B by (simp add: word_less_nat_alt)
      then show ?thesis using False pos l(2,3) B by (simp add: frag_len_def)
    qed
  qed
qed

lemma length_chunk_le: "c < length (chunks b) \<Longrightarrow> length (chunks b ! c) \<le> XBODY_SIZE"
  by (simp add: chunks_nth)

lemma msg_serialise:
  assumes m: "msg_at m t b cs ca" and cs: "cs < length (chunks b)"
  defines "m' \<equiv> m\<lparr>f_spos := f_spos m + ucast (frag_len m), f_range := f_range m - 1\<rparr>"
  shows "msg_at m' t b (Suc cs) ca" and "f_spos m' = f_wpos m' \<longleftrightarrow> Suc cs = length (chunks b)"
    and "(ucast (f_range m) :: u16) = of_nat (length (chunks b) - cs)"
    and "take (unat (frag_len m)) (drop (unat (f_spos m)) (f_data m)) = chunks b ! cs"
    and "unat (f_spos m) + unat (frag_len m) \<le> length (f_data m)"
proof -
  note l = chunk_last[OF cs] length_chunk[OF cs] and fl = frag_len_eq[OF m cs]
  have sp: "unat (f_spos m) = XBODY_SIZE * cs" "unat (f_wpos m) = length b" "f_wpos m' = f_wpos m"
    using m l(2) by (auto simp: msg_at_def m'_def)
  have sum: "XBODY_SIZE * cs + length (chunks b ! cs) = min (XBODY_SIZE * Suc cs) (length b)"
    using l by auto
  have "unat (f_spos m) + length (chunks b ! cs) < 2 ^ 64"
    using sum sp unat64_less[of "f_wpos m"] by simp
  moreover have uc: "(ucast (frag_len m) :: u64) = of_nat (length (chunks b ! cs))"
    using ucast_u16_of_nat[of "frag_len m"] by (simp only: fl)
  ultimately have sp': "unat (f_spos m') = min (XBODY_SIZE * Suc cs) (length b)"
    using unat_add_small[of "f_spos m" "length (chunks b ! cs)"] sum sp(1) by (simp add: m'_def uc)
  have "1 \<le> unat (f_range m)" using m cs by (simp add: msg_at_def)
  then have r': "unat (f_range m') = length (chunks b) - Suc cs"
    using m by (simp add: m'_def msg_at_def unat_sub word_le_nat_alt)
  show "msg_at m' t b (Suc cs) ca" using m sp' r' by (simp add: msg_at_def) (simp add: m'_def)
  have "f_spos m' = f_wpos m' \<longleftrightarrow> min (XBODY_SIZE * Suc cs) (length b) = length b"
    using sp' sp by (simp add: word_unat_eq_iff)
  then show "f_spos m' = f_wpos m' \<longleftrightarrow> Suc cs = length (chunks b)" using l(1) by auto
  show "(ucast (f_range m) :: u16) = of_nat (length (chunks b) - cs)"
    using m by (simp add: msg_at_def word_unat_eq_iff unsigned_ucast_eq unsigned_of_nat)
  have b: "length b \<le> length (f_data m)" "take (length b) (f_data m) = b" using m by (auto simp: msg_at_def holds_at_def)
  show "unat (f_spos m) + unat (frag_len m) \<le> length (f_data m)" using sum sp fl b(1) by simp
  have "take (length (chunks b ! cs)) (drop (XBODY_SIZE * cs) (f_data m)) = take (length (chunks b ! cs)) (drop (XBODY_SIZE * cs) (take (length b) (f_data m)))"
  proof -
    have "length (chunks b ! cs) \<le> length b - XBODY_SIZE * cs" using sum by auto
    then show ?thesis by (simp add: drop_take min_absorb1)
  qed
  also have "\<dots> = chunks b ! cs" unfolding b(2) using chunks_nth[OF cs] by (metis length_take take_take min.idem min.commute take_all_iff order_refl)
  finally show "take (unat (frag_len m)) (drop (unat (f_spos m)) (f_data m)) = chunks b ! cs" using fl sp by simp
qed

text \<open>One fragment acknowledged.\<close>

lemma msg_acknowledge:
  assumes m: "msg_at m t b cs ca" and ca: "ca < length (chunks b)" and len: "unat len = length (chunks b ! ca)"
  defines "m' \<equiv> m\<lparr>f_rpos := f_rpos m + ucast (len :: u16)\<rparr>"
  shows "msg_at m' t b cs (Suc ca)" and "f_rpos m' = f_wpos m' \<longleftrightarrow> Suc ca = length (chunks b)"
proof -
  note l = chunk_last[OF ca] length_chunk[OF ca]
  have sp: "unat (f_rpos m) = XBODY_SIZE * ca" "unat (f_wpos m) = length b" "f_wpos m' = f_wpos m"
    using m l(2) by (auto simp: msg_at_def m'_def)
  have sum: "XBODY_SIZE * ca + length (chunks b ! ca) = min (XBODY_SIZE * Suc ca) (length b)" using l by auto
  have "unat (f_rpos m) + length (chunks b ! ca) < 2 ^ 64"
    using sum sp unat64_less[of "f_wpos m"] by simp
  moreover have uc: "(ucast len :: u64) = of_nat (length (chunks b ! ca))"
    using ucast_u16_of_nat[of len] by (simp only: len)
  ultimately have rp': "unat (f_rpos m') = min (XBODY_SIZE * Suc ca) (length b)"
    using unat_add_small[of "f_rpos m" "length (chunks b ! ca)"] sum sp(1) by (simp add: m'_def uc)
  show "msg_at m' t b cs (Suc ca)" using m rp' by (simp add: msg_at_def) (simp add: m'_def)
  have "f_rpos m' = f_wpos m' \<longleftrightarrow> min (XBODY_SIZE * Suc ca) (length b) = length b"
    using rp' sp by (simp add: word_unat_eq_iff)
  then show "f_rpos m' = f_wpos m' \<longleftrightarrow> Suc ca = length (chunks b)" using l(1) by auto
qed


section \<open>Serialising\<close>

lemma send_ring_push:
  assumes ring: "send_ring ms r s v sb" and v: "v < r + unat (b_range sb)" "v < length (pkts ms)"
    and p: "slot_ok p" "frag_in v (pkts ms ! v) p"
  shows "send_ring ms r s (Suc v) (sb\<lparr>b_buf := (b_buf sb)[serialbuf_index sb (of_nat v) := p], b_wpos := b_wpos sb + 1\<rparr>)"
proof -
  let ?R = "unat (b_range sb)"
  have ok: "ring_ok sb" using ring by (simp add: send_ring_def)
  have idx: "serialbuf_index sb (of_nat v) = v mod ?R" "v mod ?R < length (b_buf sb)"
    using ring_slot[OF ok] ring_slot_less[OF ok, of v] by simp_all
  have "frag_in i (pkts ms ! i) ((b_buf sb)[v mod ?R := p] ! (i mod ?R))" if i: "r \<le> i" "i < Suc v" for i
  proof (cases "i = v")
    case False
    then have "v mod ?R \<noteq> i mod ?R" using mod_inj_window[of r v ?R i] i v ring by (auto simp: send_ring_def)
    then show ?thesis using ring i False by (simp add: send_ring_def)
  qed (use p idx in simp)
  moreover have "\<forall>q \<in> set ((b_buf sb)[v mod ?R := p]). slot_ok q"
    using ring p(1) set_update_subset_insert[of "b_buf sb" "v mod ?R" p] by (auto simp: send_ring_def)
  ultimately show ?thesis using ring v idx by (auto simp: send_ring_def ring_ok_def add.commute)
qed

lemma msg_store_update:
  assumes st: "msg_store ms r v M" and v: "v < length (pkts ms)" and j: "msg_index ms r \<le> msg_index ms v"
    and m: "msg_at m' (fst (snd (ms ! msg_index ms v))) (snd (snd (ms ! msg_index ms v)))
        (Suc (share ms (msg_index ms v) v)) (share ms (msg_index ms v) r)"
  shows "msg_store ms r (Suc v) (M(fst (ms ! msg_index ms v) \<mapsto> m'))"
  unfolding msg_store_def
proof (intro conjI allI impI)
  let ?J = "msg_index ms v"
  have J: "?J < length ms" using msg_index_less[OF v] by simp
  show "distinct (map fst (drop (msg_index ms r) ms))" using st by (simp add: msg_store_def)
  fix i assume i: "msg_index ms r \<le> i \<and> i < length ms"
  show "\<exists>m. (M(fst (ms ! ?J) \<mapsto> m')) (fst (ms ! i)) = Some m
     \<and> msg_at m (fst (snd (ms ! i))) (snd (snd (ms ! i))) (share ms i (Suc v)) (share ms i r)"
  proof (cases "i = ?J")
    case True
    then show ?thesis using m share_Suc_same[OF v] by simp
  next
    case False
    have "fst (ms ! i) \<noteq> fst (ms ! ?J)"
    proof
      assume e: "fst (ms ! i) = fst (ms ! ?J)"
      let ?d = "map fst (drop (msg_index ms r) ms)"
      have ij: "i - msg_index ms r < length ms - msg_index ms r" "?J - msg_index ms r < length ms - msg_index ms r"
        using i J j by auto
      have "distinct ?d" using st by (simp add: msg_store_def)
      moreover have "?d ! (i - msg_index ms r) = ?d ! (?J - msg_index ms r)"
        using e ij by (simp add: j i[THEN conjunct1])
      ultimately show False using nth_eq_iff_index_eq[of ?d "i - msg_index ms r" "?J - msg_index ms r"] ij i j False by auto
    qed
    then show ?thesis using st i share_Suc_other[OF v, of i] False by (simp add: msg_store_def)
  qed
qed

lemma sendable_pos:
  assumes "ring_ok b" and "b_spos b = of_nat i" and "b_wpos b = of_nat j" and "i \<le> j" and "j \<le> i + unat (b_range b)"
  shows "serialbuf_sendable b > 0 \<longleftrightarrow> i < j"
  using assms serial_diff[of i j] ring_range(2)[OF assms(1)]
  by (simp add: serialbuf_sendable_def word_less_nat_alt)

text \<open>The packet made for the next chunk of a message.\<close>

lemma fill_pack_fragment:
  assumes m: "msg_at m t b cs ca" and cs: "cs < length (chunks b)" and pk: "slot_ok pk"
    and v: "b_wpos (c_sendbuf c) = of_nat v"
  shows "\<exists>body. mcopy (k_body pk) 0 (f_data m) (unat (f_spos m)) (unat (frag_len m)) = Some body
    \<and> slot_ok (fill_pack c a m body pk)
    \<and> frag_in v (a, t, chunks b ! cs, length (chunks b) - cs) (fill_pack c a m body pk)"
proof -
  note ser = msg_serialise[OF m cs] and fl = frag_len_eq[OF m cs] and le = length_chunk_le[OF cs]
  define body where "body = put_seg (k_body pk) 0 (chunks b ! cs)"
  have "mcopy (k_body pk) 0 (f_data m) (unat (f_spos m)) (unat (frag_len m)) = Some body"
    using mcopy_eq[of 0 "unat (frag_len m)" "k_body pk" "unat (f_spos m)" "f_data m"] ser(4,5) fl le pk
    by (simp add: body_def slot_ok_def)
  moreover have "length body = XBODY_SIZE" "take (length (chunks b ! cs)) body = chunks b ! cs"
    using pk le by (auto simp: body_def slot_ok_def put_seg_def)
  ultimately show ?thesis
    using le fl ser(3) m v
    by (intro exI[of _ body]) (simp add: fill_pack_def slot_ok_def frag_in_def pack_bytes_def msg_at_def)
qed

text \<open>
  \<open>xchannel_serial_msg\<close>: when there is room in the ring and a packet to come, exactly the next fragment
  of the message list is appended; otherwise nothing changes.
\<close>

lemma serial_msg_run:
  assumes inv: "send_inv ms r s v w"
  defines "sb \<equiv> c_sendbuf (w_chan w)"
  shows "\<exists>M sb' mb'. xchannel_serial_msg w = Some (w\<lparr>w_msgs := M, w_chan := (w_chan w)\<lparr>c_sendbuf := sb', c_msgbuf := mb'\<rparr>\<rparr>)
    \<and> send_inv ms r s (if v < r + unat (b_range sb) \<and> v < length (pkts ms) then Suc v else v)
        (w\<lparr>w_msgs := M, w_chan := (w_chan w)\<lparr>c_sendbuf := sb', c_msgbuf := mb'\<rparr>\<rparr>) \<and> b_range sb' = b_range sb
    \<and> b_range mb' = b_range (c_msgbuf (w_chan w))"
proof -
  let ?mb = "c_msgbuf (w_chan w)" and ?R = "unat (b_range sb)" and ?J = "msg_index ms v"
  have ring: "send_ring ms r s v sb" and mr: "msg_ring ms r v ?mb" and st: "msg_store ms r v (w_msgs w)"
    and to: "w_to w = map fst (take (msg_index ms r) ms)"
    using inv by (auto simp: send_inv_def sb_def)
  have ok: "ring_ok sb" "ring_ok ?mb" using ring mr by (auto simp: send_ring_def msg_ring_def)
  have rv: "r \<le> v" "v \<le> r + ?R" "v \<le> length (pkts ms)" using ring by (auto simp: send_ring_def)
  have jr: "msg_index ms r \<le> ?J" using msg_index_mono rv(1) by blast
  have wr: "serialbuf_writable sb > 0 \<longleftrightarrow> v < r + ?R"
    using writable_pos[OF ok(1) rv(1,2)] ring by (simp add: send_ring_def)
  have sd: "serialbuf_sendable ?mb > 0 \<longleftrightarrow> ?J < length ms"
    using mr msg_index_le[of ms v] jr by (intro sendable_pos[OF ok(2)]) (auto simp: msg_ring_def)
  have vl: "?J < length ms \<longleftrightarrow> v < length (pkts ms)"
    using msg_index_less[of v ms] msg_index_end[of ms] rv(3) by (cases "v = length (pkts ms)") auto
  show ?thesis
  proof (cases "v < r + ?R \<and> v < length (pkts ms)")
    case False
    then have "xchannel_serial_msg w = Some w" using wr sd vl by (auto simp: xchannel_serial_msg_def Let_def sb_def)
    moreover have "w\<lparr>w_msgs := w_msgs w, w_chan := (w_chan w)\<lparr>c_sendbuf := sb, c_msgbuf := ?mb\<rparr>\<rparr> = w" by (simp add: sb_def)
    ultimately show ?thesis using False inv
      by (intro exI[of _ "w_msgs w"] exI[of _ sb] exI[of _ ?mb]) (simp only: if_False simp_thms)
  next
    case True
    obtain a t b where abt: "ms ! ?J = (a, t, b)" by (cases "ms ! ?J")
    have J: "?J < length ms" "pkts ms ! v = frags (a, t, b) ! (v - start ms ?J)"
      using msg_index_less[of v ms] True abt by auto
    define cs where "cs = v - start ms ?J"
    have cs: "cs < length (chunks b)" "share ms ?J v = cs"
      using index_before[of v ms] True abt by (auto simp: cs_def length_frags)
    obtain m where m: "w_msgs w a = Some m" "msg_at m t b cs (share ms ?J r)"
      using st J jr abt cs(2) by (auto simp: msg_store_def)
    have slot: "rd (b_buf ?mb) (serialbuf_index ?mb (b_spos ?mb)) = Some a"
      using ring_slot_less[OF ok(2), of ?J] ring_slot[OF ok(2), of ?J] mr J jr abt by (auto simp: msg_ring_def)
    let ?i = "serialbuf_index sb (of_nat v)"
    have i: "?i < length (b_buf sb)" "b_wpos sb = of_nat v" using ring_slot_less[OF ok(1)] ring by (auto simp: send_ring_def)
    define pk where "pk = b_buf sb ! ?i"
    have pk: "slot_ok pk" using ring i by (auto simp: pk_def send_ring_def)
    note ser = msg_serialise[OF m(2) cs(1)]
    define m' where "m' = m\<lparr>f_spos := f_spos m + ucast (frag_len m), f_range := f_range m - 1\<rparr>"
    obtain body where copy: "mcopy (k_body pk) 0 (f_data m) (unat (f_spos m)) (unat (frag_len m)) = Some body"
      and p0: "slot_ok (fill_pack (w_chan w) a m body pk)"
        "frag_in v (a, t, chunks b ! cs, length (chunks b) - cs) (fill_pack (w_chan w) a m body pk)"
      using fill_pack_fragment[OF m(2) cs(1) pk, of "w_chan w" v a] i(2) by (auto simp: sb_def)
    define p where "p = fill_pack (w_chan w) a m body pk"
    have p: "slot_ok p" "frag_in v (pkts ms ! v) p"
      using p0 J(2) frags_nth[OF cs(1), of a t] by (simp_all add: p_def flip: cs_def)
    define sb' where "sb' = sb\<lparr>b_buf := (b_buf sb)[?i := p], b_wpos := b_wpos sb + 1\<rparr>"
    define mb' where "mb' = (if f_spos m' = f_wpos m' then ?mb\<lparr>b_spos := b_spos ?mb + 1\<rparr> else ?mb)"
    let ?w = "w\<lparr>w_msgs := (w_msgs w)(a \<mapsto> m'), w_chan := (w_chan w)\<lparr>c_sendbuf := sb', c_msgbuf := mb'\<rparr>\<rparr>"
    have run: "xchannel_serial_msg w = Some ?w"
    proof -
      have c: "serialbuf_writable (c_sendbuf (w_chan w)) > 0 \<and> serialbuf_sendable ?mb > 0"
        using True wr sd vl by (simp add: sb_def)
      have pk': "rd (b_buf sb) ?i = Some pk" using i by (simp add: pk_def)
      show ?thesis
        using c slot m(1) pk' i copy
        by (simp add: xchannel_serial_msg_def Let_def sb'_def mb'_def m'_def p_def flip: sb_def)
    qed
    have R': "send_ring ms r s (Suc v) sb'"
      using send_ring_push[OF ring _ _ p] True by (simp add: sb'_def)
    have S': "msg_store ms r (Suc v) ((w_msgs w)(a \<mapsto> m'))"
      using msg_store_update[OF st _ jr] True ser(1) abt cs(2) by (simp add: m'_def)
    have idx: "msg_index ms (Suc v) = (if f_spos m' = f_wpos m' then Suc ?J else ?J)"
      using msg_index_Suc[of v ms] share_full[of v ms] True cs(2) abt ser(2) by (simp add: length_frags m'_def)
    have M': "msg_ring ms r (Suc v) mb'"
      using mr idx by (auto simp: msg_ring_def mb'_def ring_ok_def add.commute)
    show ?thesis
      using run R' S' M' to True
      by (intro exI[of _ "(w_msgs w)(a \<mapsto> m')"] exI[of _ sb'] exI[of _ mb'])
         (auto simp: send_inv_def sb'_def mb'_def)
  qed
qed


section \<open>Sending\<close>

text \<open>Changes to a packet that leave its fragment alone, and what a datagram carries.\<close>

definition touched :: "xpack \<Rightarrow> xpack \<Rightarrow> bool" where
  "touched p p' \<longleftrightarrow> k_msg p' = k_msg p \<and> k_body p' = k_body p \<and> h_type (k_head p') = h_type (k_head p)
     \<and> h_len (k_head p') = h_len (k_head p) \<and> h_range (k_head p') = h_range (k_head p)
     \<and> h_sn (k_head p') = h_sn (k_head p)"

definition carries :: "nat \<Rightarrow> frag \<Rightarrow> xhead \<times> bytes \<Rightarrow> bool" where
  "carries i = (\<lambda>(a, t, b, l) (h, body). h_type h = t \<and> body = b \<and> h_range h = of_nat l
     \<and> h_sn h = of_nat i \<and> unat (h_len h) = length b)"

lemma send_ring_touch:
  assumes ring: "send_ring ms r s v sb" and k: "k < length (b_buf sb)" and p: "touched (b_buf sb ! k) p'"
  shows "send_ring ms r s v (sb\<lparr>b_buf := (b_buf sb)[k := p']\<rparr>)"
proof -
  have ok: "slot_ok p'" using ring k p by (auto simp: send_ring_def touched_def slot_ok_def)
  have "frag_in i (pkts ms ! i) ((b_buf sb)[k := p'] ! n)" if "frag_in i (pkts ms ! i) (b_buf sb ! n)" for i n
    using that p k by (cases "n = k") (auto simp: touched_def frag_in_def pack_bytes_def split: prod.splits)
  moreover have "\<forall>q \<in> set ((b_buf sb)[k := p']). slot_ok q"
    using ring ok set_update_subset_insert[of "b_buf sb" k p'] by (auto simp: send_ring_def)
  ultimately show ?thesis using ring by (simp add: send_ring_def ring_ok_def)
qed

lemma frag_datagram:
  assumes "frag_in i f p" and "slot_ok p"
  shows "rd_seg (k_body p) 0 (unat (h_len (k_head p))) = Some (pack_bytes p)" and "carries i f (k_head p, pack_bytes p)"
  using assms by (auto simp: frag_in_def carries_def slot_ok_def pack_bytes_def split: prod.splits)

lemma send_inv_env [simp]:
  "send_inv ms r s v (w\<lparr>w_ticks := x\<rparr>) = send_inv ms r s v w"
  "send_inv ms r s v (w\<lparr>w_sends := y\<rparr>) = send_inv ms r s v w"
  "send_inv ms r s v (w\<lparr>w_out := z\<rparr>) = send_inv ms r s v w"
  "send_inv ms r s v (w\<lparr>w_mpos := m\<rparr>) = send_inv ms r s v w"
  by (simp_all add: send_inv_def)

lemma send_front_run:
  assumes inv: "send_inv ms r s v w" and s: "s < v"
  defines "sb \<equiv> c_sendbuf (w_chan w)"
  shows "\<exists>w'. send_front (b_buf sb ! serialbuf_index sb (of_nat s)) w = Some w'
    \<and> (if w_sendok w (w_sends w)
       then (\<exists>v' d. v \<le> v' \<and> send_inv ms r (Suc s) v' w' \<and> w_out w' = w_out w @ [d] \<and> carries s (pkts ms ! s) d)
       else send_inv ms r s v w' \<and> w_out w' = w_out w)"
proof -
  let ?c = "w_chan w" and ?i = "serialbuf_index sb (of_nat s)"
  have ring: "send_ring ms r s v sb" using inv by (simp add: send_inv_def sb_def)
  have ok: "ring_ok sb" and rs: "r \<le> s" "b_spos sb = of_nat s" using ring by (auto simp: send_ring_def)
  have i: "?i < length (b_buf sb)" "?i = s mod unat (b_range sb)" using ring_slot_less[OF ok] ring_slot[OF ok] by auto
  define p0 where "p0 = b_buf sb ! ?i"
  define p where "p = (if h_ack_type (c_ack ?c) \<noteq> 0
            then p0\<lparr>k_head := (k_head p0)\<lparr>h_ack_type := h_ack_type (c_ack ?c),
                   h_ack_sn := h_ack_sn (c_ack ?c), h_ack_pos := h_ack_pos (c_ack ?c)\<rparr>\<rparr> else p0)"
  have p0: "frag_in s (pkts ms ! s) p0" "slot_ok p0" using ring i rs s by (auto simp: send_ring_def p0_def)
  have tp: "touched p0 p" by (simp add: p_def touched_def)
  have p: "frag_in s (pkts ms ! s) p" "slot_ok p"
    using p0 tp by (auto simp: touched_def frag_in_def pack_bytes_def slot_ok_def split: prod.splits)
  note dg = frag_datagram[OF p]
  show ?thesis
  proof (cases "w_sendok w (w_sends w)")
    case False
    let ?w = "(w\<lparr>w_sends := w_sends w + 1\<rparr>)\<lparr>w_chan := ?c\<lparr>c_sendbuf := sb\<lparr>b_buf := (b_buf sb)[?i := p]\<rparr>\<rparr>\<rparr>"
    have "send_front p0 w = Some ?w"
      using False dg(1) i(1) rs(2)
      by (simp add: send_front_def Let_def udp_sendto_def flip: p_def sb_def)
    moreover have "send_inv ms r s v ?w"
      using inv send_ring_touch[OF ring i(1), of p] tp by (simp add: send_inv_def p0_def)
    ultimately show ?thesis using False by (simp add: p0_def)
  next
    case True
    define now where "now = w_clock w (w_ticks w)"
    define p' where "p' = p\<lparr>k_head := (k_head p)\<lparr>h_resend := 1\<rparr>, k_ts := now,
                k_kabuf := (if c_kabuf ?c \<noteq> 0 then now - c_kabuf ?c else 0),
                k_timedout := of_nat (unat (c_rtt ?c) * 3)\<rparr>"
    define sb' where "sb' = sb\<lparr>b_buf := (b_buf sb)[?i := p'], b_spos := b_spos sb + 1\<rparr>"
    define w3 where "w3 = (w\<lparr>w_sends := w_sends w + 1, w_out := w_out w @ [(k_head p, pack_bytes p)], w_ticks := w_ticks w + 1\<rparr>)
       \<lparr>w_chan := ?c\<lparr>c_ack := (c_ack ?c)\<lparr>h_ack_type := 0\<rparr>, c_send_ts := now, c_kabuf := 0,
             c_spos := c_spos ?c + ucast (h_len (k_head p)), c_sendbuf := sb'\<rparr>\<rparr>"
    have run: "send_front p0 w = xchannel_serial_msg w3"
      using True dg(1) i(1) rs(2)
      by (simp add: send_front_def Let_def udp_sendto_def clock_def w3_def sb'_def p'_def now_def flip: p_def sb_def)
    have "touched p0 p'" using tp by (simp add: p'_def touched_def)
    then have "send_ring ms r s v (sb\<lparr>b_buf := (b_buf sb)[?i := p']\<rparr>)"
      using send_ring_touch[OF ring i(1)] by (simp add: p0_def)
    then have "send_ring ms r (Suc s) v sb'"
      using s by (simp add: send_ring_def sb'_def ring_ok_def add.commute)
    then have inv3: "send_inv ms r (Suc s) v w3" using inv by (simp add: send_inv_def w3_def)
    obtain M sb2 mb2 where r2: "xchannel_serial_msg w3 = Some (w3\<lparr>w_msgs := M, w_chan := (w_chan w3)\<lparr>c_sendbuf := sb2, c_msgbuf := mb2\<rparr>\<rparr>)"
        "send_inv ms r (Suc s) (if v < r + unat (b_range (c_sendbuf (w_chan w3))) \<and> v < length (pkts ms) then Suc v else v)
          (w3\<lparr>w_msgs := M, w_chan := (w_chan w3)\<lparr>c_sendbuf := sb2, c_msgbuf := mb2\<rparr>\<rparr>)"
      using serial_msg_run[OF inv3] by blast
    have vv: "v \<le> (if v < r + unat (b_range (c_sendbuf (w_chan w3))) \<and> v < length (pkts ms) then Suc v else v)" by simp
    show ?thesis
      using True run r2 vv dg(2) by (auto simp: p0_def w3_def)
  qed
qed


lemma send_inv_sendable:
  assumes "send_inv ms r s v w"
  shows "serialbuf_sendable (c_sendbuf (w_chan w)) > 0 \<longleftrightarrow> s < v"
    and "serialbuf_recvable (c_sendbuf (w_chan w)) > 0 \<longleftrightarrow> r < s"
proof -
  have ring: "send_ring ms r s v (c_sendbuf (w_chan w))" using assms by (simp add: send_inv_def)
  then have R: "unat (b_range (c_sendbuf (w_chan w))) \<le> 32768" using ring_range(2) by (auto simp: send_ring_def)
  show "serialbuf_sendable (c_sendbuf (w_chan w)) > 0 \<longleftrightarrow> s < v"
    using ring serial_diff[of s v] R by (auto simp: send_ring_def serialbuf_sendable_def word_less_nat_alt)
  show "serialbuf_recvable (c_sendbuf (w_chan w)) > 0 \<longleftrightarrow> r < s"
    using ring serial_diff[of r s] R by (auto simp: send_ring_def serialbuf_recvable_def word_less_nat_alt)
qed

lemma serial_msg_total:
  assumes "send_inv ms r s v w"
  shows "\<exists>w' v'. xchannel_serial_msg w = Some w' \<and> send_inv ms r s v' w' \<and> v \<le> v' \<and> w_out w' = w_out w
    \<and> w_sendok w' = w_sendok w \<and> w_sends w' = w_sends w
    \<and> (v < r + unat (b_range (c_sendbuf (w_chan w))) \<and> v < length (pkts ms) \<longrightarrow> v < v')"
proof -
  let ?v = "if v < r + unat (b_range (c_sendbuf (w_chan w))) \<and> v < length (pkts ms) then Suc v else v"
  obtain M sb mb where "xchannel_serial_msg w = Some (w\<lparr>w_msgs := M, w_chan := (w_chan w)\<lparr>c_sendbuf := sb, c_msgbuf := mb\<rparr>\<rparr>)"
     "send_inv ms r s ?v (w\<lparr>w_msgs := M, w_chan := (w_chan w)\<lparr>c_sendbuf := sb, c_msgbuf := mb\<rparr>\<rparr>)"
    using serial_msg_run[OF assms] by blast
  then show ?thesis
    by (intro exI[of _ "w\<lparr>w_msgs := M, w_chan := (w_chan w)\<lparr>c_sendbuf := sb, c_msgbuf := mb\<rparr>\<rparr>"] exI[of _ ?v]) simp
qed

text \<open>
  \<open>xchannel_send_pack\<close> never fails; it hands at most one datagram to the network, and that datagram
  carries the fragment at the position \<open>spos\<close> stands for. It does so whenever there is a fragment to
  send, the window is open and the network accepts it.
\<close>

definition can_send :: "msgspec list \<Rightarrow> nat \<Rightarrow> nat \<Rightarrow> xstate \<Rightarrow> bool" where
  "can_send ms r s w \<longleftrightarrow> w_sendok w (w_sends w) \<and> s < r + unat (b_range (c_sendbuf (w_chan w))) \<and> s < length (pkts ms)"

lemma send_pack_run:
  assumes inv: "send_inv ms r s v w"
  shows "\<exists>w' s' v'. xchannel_send_pack w = Some w' \<and> send_inv ms r s' v' w' \<and> v \<le> v'
    \<and> (if can_send ms r s w then s' = Suc s \<and> (\<exists>d. w_out w' = w_out w @ [d] \<and> carries s (pkts ms ! s) d)
       else s' = s \<and> w_out w' = w_out w)"
proof -
  have ring0: "send_ring ms r s v (c_sendbuf (w_chan w))" using inv by (simp add: send_inv_def)
  obtain w1 v1 where w1: "(if serialbuf_sendable (c_sendbuf (w_chan w)) = 0 then xchannel_serial_msg w else Some w) = Some w1"
     "send_inv ms r s v1 w1" "v \<le> v1" "w_out w1 = w_out w" "w_sendok w1 = w_sendok w" "w_sends w1 = w_sends w"
     "s < r + unat (b_range (c_sendbuf (w_chan w))) \<and> s < length (pkts ms) \<longrightarrow> s < v1"
  proof (cases "serialbuf_sendable (c_sendbuf (w_chan w)) = 0")
    case True
    then have "s = v" using send_inv_sendable(1)[OF inv] ring0 by (simp add: send_ring_def)
    then show ?thesis using serial_msg_total[OF inv] True that by auto
  next
    case False
    then have "s < v" using send_inv_sendable(1)[OF inv] by (simp add: word_gt_0)
    then show ?thesis using False inv that[of w v] by simp
  qed
  let ?sb = "c_sendbuf (w_chan w1)"
  have ring: "send_ring ms r s v1 ?sb" using w1(2) by (simp add: send_inv_def)
  show ?thesis
  proof (cases "s < v1")
    case False
    then have "xchannel_send_pack w = Some w1" "\<not> can_send ms r s w"
      using w1(1,7) send_inv_sendable(1)[OF w1(2)] by (auto simp: xchannel_send_pack_def Let_def can_send_def)
    then show ?thesis using w1(2-4) by auto
  next
    case True
    have slot: "rd (b_buf ?sb) (serialbuf_index ?sb (b_spos ?sb)) = Some (b_buf ?sb ! serialbuf_index ?sb (of_nat s))"
      using ring ring_slot_less[of ?sb s] by (simp add: send_ring_def)
    have run: "xchannel_send_pack w = send_front (b_buf ?sb ! serialbuf_index ?sb (of_nat s)) w1"
      using w1(1) send_inv_sendable(1)[OF w1(2)] True slot by (simp add: xchannel_send_pack_def Let_def)
    have "b_range ?sb = b_range (c_sendbuf (w_chan w))"
      using w1(1) serial_msg_run[OF inv] by (auto split: if_splits)
    then have cs: "can_send ms r s w \<longleftrightarrow> w_sendok w1 (w_sends w1)"
      using True ring w1(5,6) by (auto simp: send_ring_def can_send_def)
    obtain w' where w': "send_front (b_buf ?sb ! serialbuf_index ?sb (of_nat s)) w1 = Some w'"
      "if w_sendok w1 (w_sends w1)
       then (\<exists>v' d. v1 \<le> v' \<and> send_inv ms r (Suc s) v' w' \<and> w_out w' = w_out w1 @ [d] \<and> carries s (pkts ms ! s) d)
       else send_inv ms r s v1 w' \<and> w_out w' = w_out w1"
      using send_front_run[OF w1(2) True] by blast
    show ?thesis
    proof (cases "w_sendok w1 (w_sends w1)")
      case ok: True
      then obtain v' d where "v1 \<le> v'" "send_inv ms r (Suc s) v' w'" "w_out w' = w_out w1 @ [d]" "carries s (pkts ms ! s) d"
        using w'(2) by auto
      then show ?thesis
        using run w'(1) w1(3,4) cs ok by (intro exI[of _ w'] exI[of _ "Suc s"] exI[of _ v']) auto
    next
      case False
      then show ?thesis using run w' w1(3,4) cs by (intro exI[of _ w'] exI[of _ s] exI[of _ v1]) auto
    qed
  qed
qed

section \<open>Acknowledgements\<close>

text \<open>
  Enough head room in the acknowledgement counter: while it stays below the sampling period (ten
  million) the estimate of the packet interval is not zero and the division by it is defined.
\<close>

definition psf_room :: "nat \<Rightarrow> xchannel \<Rightarrow> bool" where
  "psf_room k c \<longleftrightarrow> unat (c_psf_counter c) + k \<le> 10000000"

lemma sampling_returns:
  assumes "psf_room (Suc k) c"
  shows "\<exists>c' p'. xchannel_sampling c p = Some (c', p') \<and> psf_room k c' \<and> p' = p\<lparr>k_ts := 0\<rparr>
     \<and> c_sendbuf c' = c_sendbuf c \<and> c_msgbuf c' = c_msgbuf c"
proof -
  let ?c = "sampling_rtt c (k_ts p)"
  have c: "c_psf_counter ?c = c_psf_counter c" "c_sendbuf ?c = c_sendbuf c" "c_msgbuf ?c = c_msgbuf c"
    by (simp_all add: sampling_rtt_def Let_def)
  let ?n = "c_psf_counter c + 1"
  have le: "unat (c_psf_counter c) + 1 \<le> 10000000" using assms by (simp add: psf_room_def)
  then have n: "unat ?n = unat (c_psf_counter c) + 1"
    using unat_add_small[of "c_psf_counter c" 1] by simp
  have n0: "?n \<noteq> 0" using n by (metis add_is_0 one_neq_zero unat_0)
  have d: "unat (XPACK_PSF_SAMPLING div ?n) = 10000000 div unat ?n"
    by (simp add: unat_div XPACK_PSF_SAMPLING_def)
  have "0 < 10000000 div unat ?n" using n le by (simp add: div_greater_zero_iff)
  then have q0: "XPACK_PSF_SAMPLING div ?n \<noteq> 0" using d by (metis less_irrefl unat_0)
  have "\<exists>c'. sampling_psf ?c (k_kabuf p) = Some c' \<and> psf_room k c' \<and> c_sendbuf c' = c_sendbuf c \<and> c_msgbuf c' = c_msgbuf c"
    using n0 q0 n assms c by (auto simp: sampling_psf_def Let_def psf_room_def)
  then show ?thesis by (auto simp: xchannel_sampling_def)
qed

lemma sample_slot_run:
  assumes room: "psf_room (Suc k) c" and i: "i < length (b_buf (c_sendbuf c))"
  shows "\<exists>c' p'. sample_slot i c = Some (c', p') \<and> touched (b_buf (c_sendbuf c) ! i) p' \<and> psf_room k c'
     \<and> c_sendbuf c' = (c_sendbuf c)\<lparr>b_buf := (b_buf (c_sendbuf c))[i := p']\<rparr> \<and> c_msgbuf c' = c_msgbuf c"
proof (cases "k_ts (b_buf (c_sendbuf c) ! i) = 0")
  case True
  then show ?thesis using i room by (auto simp: sample_slot_def touched_def psf_room_def)
next
  case False
  let ?p = "b_buf (c_sendbuf c) ! i"
  obtain c1 where c1: "xchannel_sampling c ?p = Some (c1, ?p\<lparr>k_ts := 0\<rparr>)" "psf_room k c1"
      "c_sendbuf c1 = c_sendbuf c" "c_msgbuf c1 = c_msgbuf c"
    using sampling_returns[OF room, of ?p] by blast
  then show ?thesis using False i
    by (intro exI[of _ "c1\<lparr>c_sendbuf := (c_sendbuf c)\<lparr>b_buf := (b_buf (c_sendbuf c))[i := ?p\<lparr>k_ts := 0\<rparr>]\<rparr>\<rparr>"] exI[of _ "?p\<lparr>k_ts := 0\<rparr>"])
       (simp add: sample_slot_def touched_def psf_room_def)
qed


lemma ack_account_frame_send [simp]:
  "c_sendbuf (ack_account l c) = c_sendbuf c" "c_msgbuf (ack_account l c) = c_msgbuf c"
  "c_psf_counter (ack_account l c) = c_psf_counter c"
  by (simp_all add: ack_account_def Let_def)

text \<open>The front packet of the window is acknowledged: the ring and the store after it.\<close>

lemma send_ring_pop:
  assumes ring: "send_ring ms r s v sb" and r: "r < s" and p: "slot_ok p"
  shows "send_ring ms (Suc r) s v (sb\<lparr>b_buf := (b_buf sb)[r mod unat (b_range sb) := p], b_rpos := b_rpos sb + 1\<rparr>)"
proof -
  let ?R = "unat (b_range sb)"
  have rv: "r < v" "v \<le> r + ?R" using ring r by (auto simp: send_ring_def)
  have "(b_buf sb)[r mod ?R := p] ! (i mod ?R) = b_buf sb ! (i mod ?R)" if "Suc r \<le> i" "i < v" for i
  proof -
    have "r mod ?R \<noteq> i mod ?R" using mod_inj_window[of r r ?R i] that rv by auto
    then show ?thesis by simp
  qed
  moreover have "\<forall>q \<in> set ((b_buf sb)[r mod ?R := p]). slot_ok q"
    using ring p set_update_subset_insert[of "b_buf sb" "r mod ?R" p] by (auto simp: send_ring_def)
  ultimately show ?thesis using ring r rv by (auto simp: send_ring_def ring_ok_def add.commute)
qed

lemma msg_store_ack:
  assumes st: "msg_store ms r v M" and r: "r < length (pkts ms)"
    and m: "msg_at m' (fst (snd (ms ! msg_index ms r))) (snd (snd (ms ! msg_index ms r)))
        (share ms (msg_index ms r) v) (Suc (share ms (msg_index ms r) r))"
  shows "msg_store ms (Suc r) v (M(fst (ms ! msg_index ms r) \<mapsto> m'))"
  unfolding msg_store_def
proof (intro conjI allI impI)
  let ?J = "msg_index ms r" and ?J' = "msg_index ms (Suc r)"
  have J: "?J < length ms" "?J \<le> ?J'" using msg_index_less[OF r] msg_index_mono[of r "Suc r" ms] by auto
  have d: "distinct (map fst (drop ?J ms))" using st by (simp add: msg_store_def)
  have "drop ?J' ms = drop (?J' - ?J) (drop ?J ms)" using J(2) by simp
  then show "distinct (map fst (drop ?J' ms))" using d by (metis distinct_drop drop_map)
  fix i assume i: "?J' \<le> i \<and> i < length ms"
  show "\<exists>m. (M(fst (ms ! ?J) \<mapsto> m')) (fst (ms ! i)) = Some m
     \<and> msg_at m (fst (snd (ms ! i))) (snd (snd (ms ! i))) (share ms i v) (share ms i (Suc r))"
  proof (cases "i = ?J")
    case True
    then show ?thesis using m share_Suc_same[OF r] by simp
  next
    case False
    have ij: "i - ?J < length ms - ?J" "0 < length ms - ?J" "i - ?J \<noteq> 0" using i J False by auto
    have "fst (ms ! i) \<noteq> fst (ms ! ?J)"
    proof
      assume e: "fst (ms ! i) = fst (ms ! ?J)"
      have "map fst (drop ?J ms) ! (i - ?J) = map fst (drop ?J ms) ! 0"
        using e ij i J by simp
      then show False using nth_eq_iff_index_eq[OF d, of "i - ?J" 0] ij by simp
    qed
    then show ?thesis using st i J share_Suc_other[OF r, of i] False by (auto simp: msg_store_def)
  qed
qed

lemma msg_ring_pop:
  assumes mr: "msg_ring ms r v mb" and idx: "msg_index ms (Suc r) = Suc (msg_index ms r)"
  shows "msg_ring ms (Suc r) v (mb\<lparr>b_buf := (b_buf mb)[msg_index ms r mod unat (b_range mb) := 0], b_rpos := b_rpos mb + 1\<rparr>)"
proof -
  let ?J = "msg_index ms r" and ?R = "unat (b_range mb)"
  have "(b_buf mb)[?J mod ?R := 0] ! (j mod ?R) = fst (ms ! j)" if "Suc ?J \<le> j" "j < length ms" for j
  proof -
    have "?J mod ?R \<noteq> j mod ?R" using mod_inj_window[of ?J ?J ?R j] that mr by (auto simp: msg_ring_def)
    then show ?thesis using mr that by (simp add: msg_ring_def)
  qed
  then show ?thesis using mr idx by (auto simp: msg_ring_def ring_ok_def add.commute)
qed

lemma ack_front_run:
  assumes inv: "send_inv ms r s v w" and r: "r < s" and room: "psf_room (Suc k) (w_chan w)"
  shows "\<exists>w'. ack_front w = Some w' \<and> send_inv ms (Suc r) s v w' \<and> psf_room k (w_chan w')
     \<and> b_range (c_sendbuf (w_chan w')) = b_range (c_sendbuf (w_chan w))"
proof -
  let ?sb = "c_sendbuf (w_chan w)" and ?mb = "c_msgbuf (w_chan w)" and ?J = "msg_index ms r"
  have ring: "send_ring ms r s v ?sb" and mr: "msg_ring ms r v ?mb" and st: "msg_store ms r v (w_msgs w)"
    and to: "w_to w = map fst (take ?J ms)" using inv by (auto simp: send_inv_def)
  have ok: "ring_ok ?sb" "ring_ok ?mb" using ring mr by (auto simp: send_ring_def msg_ring_def)
  have rl: "r < length (pkts ms)" "r < v" "b_rpos ?sb = of_nat r" using ring r by (auto simp: send_ring_def)
  let ?i = "serialbuf_index ?sb (b_rpos ?sb)"
  have i: "?i < length (b_buf ?sb)" "?i = r mod unat (b_range ?sb)"
    using ring_slot_less[OF ok(1)] ring_slot[OF ok(1)] rl(3) by auto
  obtain c1 p where sl: "sample_slot ?i (w_chan w) = Some (c1, p)" "touched (b_buf ?sb ! ?i) p" "psf_room k c1"
     "c_sendbuf c1 = ?sb\<lparr>b_buf := (b_buf ?sb)[?i := p]\<rparr>" "c_msgbuf c1 = ?mb"
    using sample_slot_run[OF room i(1)] by blast
  obtain a t b where abt: "ms ! ?J = (a, t, b)" by (cases "ms ! ?J")
  define ca where "ca = share ms ?J r"
  have J: "?J < length ms" "ca < length (chunks b)" "pkts ms ! r = (a, t, chunks b ! ca, length (chunks b) - ca)"
    using msg_index_less[OF rl(1)] index_before[OF rl(1)] abt frags_nth[of ca b a t]
    by (auto simp: ca_def length_frags)
  have fr: "frag_in r (pkts ms ! r) (b_buf ?sb ! ?i)" using ring i(2) rl(2) by (simp add: send_ring_def)
  have "slot_ok (b_buf ?sb ! ?i)" using ring i(1) by (auto simp: send_ring_def)
  then have p: "k_msg p = a" "unat (h_len (k_head p)) = length (chunks b ! ca)" "slot_ok p"
    using fr sl(2) J(3) by (auto simp: frag_in_def touched_def slot_ok_def)
  obtain m where m: "w_msgs w a = Some m" "msg_at m t b (share ms ?J v) ca"
    using st J(1) abt by (auto simp: msg_store_def ca_def)
  define m' where "m' = m\<lparr>f_rpos := f_rpos m + ucast (h_len (k_head p))\<rparr>"
  note ak = msg_acknowledge[OF m(2) J(2) p(2), folded m'_def]
  have S': "msg_store ms (Suc r) v ((w_msgs w)(a \<mapsto> m'))"
    using msg_store_ack[OF st rl(1), of m'] ak(1) abt by (simp add: ca_def)
  have idx: "msg_index ms (Suc r) = (if f_rpos m' = f_wpos m' then Suc ?J else ?J)"
    using msg_index_Suc[OF rl(1)] share_full[OF rl(1)] abt ak(2) by (simp add: length_frags ca_def)
  define c3 where "c3 = ack_account (ucast (h_len (k_head p))) c1"
  have c3: "c_sendbuf c3 = ?sb\<lparr>b_buf := (b_buf ?sb)[?i := p]\<rparr>" "c_msgbuf c3 = ?mb" "psf_room k c3"
    using sl by (auto simp: c3_def psf_room_def)
  show ?thesis
  proof (cases "f_rpos m' = f_wpos m'")
    case False
    let ?w = "w\<lparr>w_mpos := w_mpos w + ucast (h_len (k_head p)), w_msgs := (w_msgs w)(a \<mapsto> m'),
       w_chan := c3\<lparr>c_sendbuf := (c_sendbuf c3)\<lparr>b_rpos := b_rpos (c_sendbuf c3) + 1\<rparr>\<rparr>\<rparr>"
    have "ack_front w = Some ?w"
      using False sl(1) m(1) p(1) by (simp add: ack_front_def Let_def m'_def flip: c3_def)
    moreover have "send_inv ms (Suc r) s v ?w"
      using send_ring_pop[OF ring r p(3)] S' mr to idx False c3 i(2) by (simp add: send_inv_def msg_ring_def)
    ultimately show ?thesis using c3 by (simp add: psf_room_def)
  next
    case True
    let ?mi = "serialbuf_index ?mb (b_rpos ?mb)"
    have mi: "?mi < length (b_buf ?mb)" "?mi = ?J mod unat (b_range ?mb)"
      using ring_slot_less[OF ok(2), of ?J] ring_slot[OF ok(2), of ?J] mr by (auto simp: msg_ring_def)
    let ?mb' = "?mb\<lparr>b_buf := (b_buf ?mb)[?mi := 0], b_rpos := b_rpos ?mb + 1\<rparr>"
    let ?w = "w\<lparr>w_mpos := w_mpos w + ucast (h_len (k_head p)), w_msgs := (w_msgs w)(a \<mapsto> m'), w_to := w_to w @ [a],
       w_chan := c3\<lparr>c_msgbuf := ?mb', c_sendbuf := (c_sendbuf c3)\<lparr>b_buf := (b_buf (c_sendbuf c3))[?i := p\<lparr>k_msg := 0\<rparr>],
         b_rpos := b_rpos (c_sendbuf c3) + 1\<rparr>\<rparr>\<rparr>"
    have "ack_front w = Some ?w"
      using True sl(1) m(1) p(1) mi(1) i(1) c3 by (simp add: ack_front_def Let_def m'_def flip: c3_def)
    moreover have "slot_ok (p\<lparr>k_msg := 0\<rparr>)" using p(3) by (simp add: slot_ok_def)
    then have "send_ring ms (Suc r) s v (c_sendbuf (w_chan ?w))"
      using send_ring_pop[OF ring r, of "p\<lparr>k_msg := 0\<rparr>"] c3 i(2) by simp
    moreover have "msg_ring ms (Suc r) v ?mb'"
      using msg_ring_pop[OF mr] idx True mi(2) by simp
    moreover have "w_to ?w = map fst (take (msg_index ms (Suc r)) ms)"
      using to idx True abt J(1) by (simp add: take_Suc_conv_app_nth)
    ultimately show ?thesis using S' c3 by (simp add: send_inv_def psf_room_def)
  qed
qed


lemma ack_more_iff:
  assumes "send_ring ms r s v sb"
  shows "ack_more a sb \<longleftrightarrow> 0 < unat (a - of_nat r) \<and> unat (a - of_nat r) \<le> s - r"
proof -
  have "unat (b_spos sb - b_rpos sb) = s - r"
    using assms serial_diff[of r s] ring_range(2)[of sb] by (auto simp: send_ring_def)
  moreover have "b_rpos sb = of_nat r" using assms by (simp add: send_ring_def)
  moreover have "of_nat r \<noteq> a \<longleftrightarrow> 0 < unat (a - of_nat r)" by (auto simp: unat_gt_0)
  ultimately show ?thesis by (auto simp: ack_more_def word_le_nat_alt)
qed

lemma ack_loop_stop:
  assumes "send_inv ms r s v w" and "unat (a - of_nat r) = 0 \<or> s - r < unat (a - of_nat r)"
  shows "ack_loop a w = Some w"
  using assms ack_more_iff[of ms r s v "c_sendbuf (w_chan w)" a]
  by (subst ack_loop.simps) (auto simp: send_inv_def)

lemma ack_loop_run:
  assumes "send_inv ms r s v w" and "psf_room (d + k) (w_chan w)" and "unat (a - of_nat r) = d" and "d \<le> s - r"
  shows "\<exists>w'. ack_loop a w = Some w' \<and> send_inv ms (r + d) s v w' \<and> psf_room k (w_chan w')
    \<and> b_range (c_sendbuf (w_chan w')) = b_range (c_sendbuf (w_chan w))"
  using assms
proof (induction d arbitrary: r w)
  case 0
  then show ?case using ack_loop_stop[of ms r s v w a] by simp
next
  case (Suc d)
  have more: "ack_more a (c_sendbuf (w_chan w))"
    using ack_more_iff[of ms r s v "c_sendbuf (w_chan w)" a] Suc.prems by (simp add: send_inv_def)
  have rs: "r < s" using Suc.prems(4) by simp
  obtain w1 where w1: "ack_front w = Some w1" "send_inv ms (Suc r) s v w1" "psf_room (d + k) (w_chan w1)"
      "b_range (c_sendbuf (w_chan w1)) = b_range (c_sendbuf (w_chan w))"
    using ack_front_run[OF Suc.prems(1) rs, of "d + k"] Suc.prems(2) by auto
  have "a - of_nat (Suc r) = (a - of_nat r) - 1" by simp
  then have "unat (a - of_nat (Suc r)) = d"
    using Suc.prems(3) by (simp only:) (simp add: unat_sub word_le_nat_alt)
  then have "\<exists>w'. ack_loop a w1 = Some w' \<and> send_inv ms (Suc r + d) s v w' \<and> psf_room k (w_chan w')
      \<and> b_range (c_sendbuf (w_chan w')) = b_range (c_sendbuf (w_chan w1))"
    using Suc.IH[OF w1(2,3)] Suc.prems(4) by simp
  moreover have "ack_loop a w = ack_loop a w1" using more w1(1) by (subst ack_loop.simps) simp
  ultimately show ?case using w1(4) by simp
qed

lemma resend_slot_run:
  assumes inv: "send_inv ms r s v w" and i: "i < length (b_buf (c_sendbuf (w_chan w)))"
  shows "\<exists>w' sent. resend_slot i (b_buf (c_sendbuf (w_chan w)) ! i) w = Some (w', sent) \<and> send_inv ms r s v w'
     \<and> b_range (c_sendbuf (w_chan w')) = b_range (c_sendbuf (w_chan w)) \<and> c_psf_counter (w_chan w') = c_psf_counter (w_chan w)"
proof -
  let ?c = "w_chan w" and ?sb = "c_sendbuf (w_chan w)"
  define p0 where "p0 = b_buf ?sb ! i"
  have ring: "send_ring ms r s v ?sb" using inv by (simp add: send_inv_def)
  define p where "p = p0\<lparr>k_kabuf := w_clock w (w_ticks w) - k_ts p0, k_ts := k_ts p0 + (w_clock w (w_ticks w) - k_ts p0),
            k_head := (let h = (k_head p0)\<lparr>h_resend := h_resend (k_head p0) + 1\<rparr> in
              if h_ack_type h \<noteq> 0 then h\<lparr>h_ack_pos := b_wpos (c_recvbuf ?c)\<rparr> else h)\<rparr>"
  have tp: "touched p0 p" by (simp add: p_def touched_def Let_def)
  have "slot_ok p0" using ring i by (auto simp: send_ring_def p0_def)
  then have rdp: "rd_seg (k_body p) 0 (unat (h_len (k_head p))) = Some (pack_bytes p)"
    using tp by (simp add: touched_def slot_ok_def pack_bytes_def)
  have t: "touched p0 (if x then p\<lparr>k_timedout := y\<rparr> else p)" for x y using tp by (simp add: touched_def)
  define p' where "p' = (if w_sendok w (w_sends w) then p\<lparr>k_timedout := resend_scaled (k_timedout p)\<rparr> else p)"
  define w' where "w' = (if w_sendok w (w_sends w)
     then w\<lparr>w_ticks := w_ticks w + 1, w_sends := w_sends w + 1, w_out := w_out w @ [(k_head p, pack_bytes p)],
         w_chan := ?c\<lparr>c_sendbuf := ?sb\<lparr>b_buf := (b_buf ?sb)[i := p']\<rparr>\<rparr>\<rparr>
     else w\<lparr>w_ticks := w_ticks w + 1, w_sends := w_sends w + 1, w_chan := ?c\<lparr>c_sendbuf := ?sb\<lparr>b_buf := (b_buf ?sb)[i := p']\<rparr>\<rparr>\<rparr>)"
  have "resend_slot i p0 w = Some (w', w_sendok w (w_sends w))"
    using rdp i unfolding p_def
    by (simp add: resend_slot_def Let_def clock_def udp_sendto_def w'_def p'_def p_def)
  moreover have "send_ring ms r s v (?sb\<lparr>b_buf := (b_buf ?sb)[i := p']\<rparr>)"
    using send_ring_touch[OF ring i] t by (simp add: p0_def p'_def)
  then have "send_inv ms r s v w'" using inv by (simp add: send_inv_def w'_def)
  ultimately show ?thesis by (simp add: p0_def w'_def)
qed

lemma resend_loop_run:
  assumes "send_inv ms r s v w" and "unat (sn - index) = n"
  shows "\<exists>w'. resend_loop sn index w = Some w' \<and> send_inv ms r s v w'
     \<and> b_range (c_sendbuf (w_chan w')) = b_range (c_sendbuf (w_chan w)) \<and> c_psf_counter (w_chan w') = c_psf_counter (w_chan w)"
  using assms
proof (induction n arbitrary: index w)
  case 0
  then have "sn = index" by (metis right_minus_eq unat_eq_0)
  then show ?case using 0(1) by (subst resend_loop.simps) simp
next
  case (Suc n)
  let ?sb = "c_sendbuf (w_chan w)" and ?i = "serialbuf_index (c_sendbuf (w_chan w)) index"
  have ne: "index \<noteq> sn" using Suc.prems(2) by auto
  have "sn - (index + 1) = sn - index - 1" by simp
  then have d: "unat (sn - (index + 1)) = n" using Suc.prems(2) by (simp only:) (simp add: unat_sub word_le_nat_alt)
  have i: "?i < length (b_buf ?sb)"
    using ring_slot_less[of ?sb "unat index"] Suc.prems(1) by (simp add: send_inv_def send_ring_def)
  obtain w1 sent where w1: "resend_slot ?i (b_buf ?sb ! ?i) w = Some (w1, sent)" "send_inv ms r s v w1"
     "b_range (c_sendbuf (w_chan w1)) = b_range ?sb" "c_psf_counter (w_chan w1) = c_psf_counter (w_chan w)"
    using resend_slot_run[OF Suc.prems(1) i] by blast
  have "resend_loop sn index w = (if k_ts (b_buf ?sb ! ?i) \<noteq> 0 \<and> h_resend (k_head (b_buf ?sb ! ?i)) < 2
     then (if sent then Some w1 else resend_loop sn (index + 1) w1) else resend_loop sn (index + 1) w)"
    using ne i w1(1) by (subst resend_loop.simps) (simp add: Let_def)
  then show ?case
    using Suc.IH[OF w1(2) d] Suc.IH[OF Suc.prems(1) d] w1 by auto
qed

lemma ack_single_run:
  assumes inv: "send_inv ms r s v w" and room: "psf_room (Suc 0) (w_chan w)"
  shows "\<exists>w'. ack_single sn w = Some w' \<and> send_inv ms r s v w'
     \<and> b_range (c_sendbuf (w_chan w')) = b_range (c_sendbuf (w_chan w))"
proof -
  let ?sb = "c_sendbuf (w_chan w)" and ?i = "serialbuf_index (c_sendbuf (w_chan w)) sn"
  have i: "?i < length (b_buf ?sb)"
    using ring_slot_less[of ?sb "unat sn"] inv by (simp add: send_inv_def send_ring_def)
  obtain c p where c: "sample_slot ?i (w_chan w) = Some (c, p)" "touched (b_buf ?sb ! ?i) p"
     "c_sendbuf c = ?sb\<lparr>b_buf := (b_buf ?sb)[?i := p]\<rparr>" "c_msgbuf c = c_msgbuf (w_chan w)"
    using sample_slot_run[OF room i] by blast
  have inv3: "send_inv ms r s v (w\<lparr>w_chan := c\<rparr>)" "b_range (c_sendbuf c) = b_range ?sb"
    using inv c send_ring_touch[OF _ i c(2), of ms r s v] by (simp_all add: send_inv_def)
  show ?thesis
    using c(1) inv3 resend_loop_run[OF inv3(1) refl, of sn "b_rpos (c_sendbuf c)"] by (auto simp: ack_single_def)
qed

text \<open>
  \<open>xchannel_recv_ack\<close> on an arbitrary header: it returns, and it moves \<open>rpos\<close> exactly to the
  acknowledged position when that lies between \<open>rpos\<close> and \<open>spos\<close>, and not at all otherwise.
\<close>

definition ack_target :: "nat \<Rightarrow> nat \<Rightarrow> xhead \<Rightarrow> nat" where
  "ack_target r s h = (if r < s \<and> unat (h_ack_sn h - of_nat r) \<le> s - r \<and> unat (h_ack_pos h - of_nat r) \<le> s - r
     then r + unat (h_ack_pos h - of_nat r) else r)"

lemma recv_ack_run:
  assumes inv: "send_inv ms r s v w" and room: "psf_room (s - r + 1) (w_chan w)"
  shows "\<exists>w'. xchannel_recv_ack h w = Some w' \<and> send_inv ms (ack_target r s h) s v w'
     \<and> b_range (c_sendbuf (w_chan w')) = b_range (c_sendbuf (w_chan w))"
proof -
  let ?sb = "c_sendbuf (w_chan w)" and ?d = "unat (h_ack_pos h - of_nat r)"
  have ring: "send_ring ms r s v ?sb" using inv by (simp add: send_inv_def)
  have sr: "unat (b_spos ?sb - b_rpos ?sb) = s - r" "b_rpos ?sb = of_nat r"
    using ring serial_diff[of r s] ring_range(2)[of ?sb] by (auto simp: send_ring_def)
  have guard: "serialbuf_recvable ?sb > 0 \<and> h_ack_sn h - b_rpos ?sb \<le> b_spos ?sb - b_rpos ?sb
      \<longleftrightarrow> r < s \<and> unat (h_ack_sn h - of_nat r) \<le> s - r"
    using send_inv_sendable(2)[OF inv] sr by (simp add: word_le_nat_alt)
  show ?thesis
  proof (cases "r < s \<and> unat (h_ack_sn h - of_nat r) \<le> s - r")
    case False
    then have "xchannel_recv_ack h w = Some w" "ack_target r s h = r"
      using guard by (auto simp: xchannel_recv_ack_def Let_def ack_target_def)
    then show ?thesis using inv by simp
  next
    case True
    have w1: "send_inv ms r s v (ack_stamp w)" "psf_room (s - r + 1) (w_chan (ack_stamp w))"
        "c_sendbuf (w_chan (ack_stamp w)) = ?sb"
      using inv room by (simp_all add: ack_stamp_def clock_def send_inv_def psf_room_def)
    have "\<exists>w2. ack_loop (h_ack_pos h) (ack_stamp w) = Some w2 \<and> send_inv ms (ack_target r s h) s v w2
        \<and> psf_room (Suc 0) (w_chan w2) \<and> b_range (c_sendbuf (w_chan w2)) = b_range ?sb"
    proof (cases "?d \<le> s - r")
      case d: True
      then have "psf_room (?d + Suc 0) (w_chan (ack_stamp w))" using w1(2) by (simp add: psf_room_def)
      from ack_loop_run[OF w1(1) this refl d] show ?thesis using True d w1(3) by (simp add: ack_target_def)
    next
      case d: False
      then show ?thesis using ack_loop_stop[OF w1(1), of "h_ack_pos h"] w1 by (simp add: ack_target_def psf_room_def)
    qed
    then obtain w2 where w2: "ack_loop (h_ack_pos h) (ack_stamp w) = Some w2" "send_inv ms (ack_target r s h) s v w2"
       "psf_room (Suc 0) (w_chan w2)" "b_range (c_sendbuf (w_chan w2)) = b_range ?sb" by blast
    have "xchannel_recv_ack h w = (if h_ack_sn h \<noteq> h_ack_pos h then ack_single (h_ack_sn h) w2 else Some w2)"
      using True guard w2(1) by (simp add: xchannel_recv_ack_def Let_def)
    then show ?thesis using w2 ack_single_run[OF w2(2,3), of "h_ack_sn h"] by auto
  qed
qed


section \<open>Queueing a message\<close>

lemma ceil_1280: "((L::nat) + 1279) div 1280 = (if L mod 1280 \<noteq> 0 then L div 1280 + 1 else L div 1280)"
proof -
  have "(L + 1279) div 1280 = (1280 * (L div 1280) + (L mod 1280 + 1279)) div 1280"
    by (metis add.assoc mult_div_mod_eq)
  also have "\<dots> = L div 1280 + (L mod 1280 + 1279) div 1280" by (rule div_mult_self4) simp
  also have "(L mod 1280 + 1279) div 1280 = (if L mod 1280 \<noteq> 0 then 1 else 0)"
  proof (cases "L mod 1280 = 0")
    case False
    have "L mod 1280 < 1280" by simp
    with False show ?thesis by (auto intro!: div_nat_eqI)
  qed simp
  finally show ?thesis by simp
qed

lemma xmsg_fixed_at:
  assumes "unat (f_wpos m) \<le> length (f_data m)"
  shows "msg_at (xmsg_fixed m) (f_type m) (take (unat (f_wpos m)) (f_data m)) 0 0"
proof -
  let ?L = "unat (f_wpos m)" and ?b = "take (unat (f_wpos m)) (f_data m)"
  define q where "q = f_wpos m div of_nat XBODY_SIZE"
  have len: "length ?b = ?L" using assms by simp
  have B: "unat (of_nat XBODY_SIZE :: u64) = 1280" by (simp add: XBODY_SIZE_def)
  have q: "unat q = ?L div 1280" using B by (simp add: q_def unat_div)
  have q': "q = f_wpos m div 1280" by (simp add: q_def XBODY_SIZE_def)
  have small: "?L < 2 ^ 64" by (rule unat64_less)
  have "unat (q * of_nat XBODY_SIZE) = ?L div 1280 * 1280"
  proof -
    have "q * of_nat XBODY_SIZE = (of_nat (?L div 1280 * 1280) :: u64)"
      using q by (metis XBODY_SIZE_def of_nat_mult of_nat_unat ucast_id)
    moreover have "?L div 1280 * 1280 < 2 ^ 64" using small by (meson div_times_less_eq_dividend le_less_trans)
    ultimately show ?thesis by (simp only: unat_of_nat_small)
  qed
  then have rem: "q * of_nat XBODY_SIZE < f_wpos m \<longleftrightarrow> ?L mod 1280 \<noteq> 0"
    by (simp add: word_less_nat_alt) (metis div_mult_mod_eq less_add_same_cancel1 not_gr0)
  have q1: "unat (q + 1) = ?L div 1280 + 1"
    using unat_add_small[of q 1] q small by simp
  have cnt: "unat (f_range (xmsg_fixed m)) = length (chunks ?b)"
  proof (cases "f_wpos m > 0")
    case True
    then have L: "0 < ?L" by (simp add: word_less_nat_alt)
    have "(?L + 1279) div 1280 = (if ?L mod 1280 \<noteq> 0 then ?L div 1280 + 1 else ?L div 1280)"
      by (rule ceil_1280)
    moreover have "?b \<noteq> []" using L len by auto
    ultimately show ?thesis
      using True rem q q1 len unfolding q'[symmetric]
      by (simp add: xmsg_fixed_def Let_def length_chunks XBODY_SIZE_def add.commute flip: q')
  next
    case False
    then have "?L = 0" by (simp add: word_less_nat_alt)
    then show ?thesis using False by (simp add: xmsg_fixed_def Let_def length_chunks)
  qed
  then show ?thesis
    using assms by (simp add: msg_at_def holds_at_def) (simp add: xmsg_fixed_def Let_def)
qed


lemma msg_index_snoc [simp]: "i \<le> length (pkts ms) \<Longrightarrow> msg_index (ms @ [x]) i = msg_index ms i"
  using msg_index_append[of i ms "[x]"] by simp

lemma share_snoc: "j < length ms \<Longrightarrow> share (ms @ [x]) j i = share ms j i"
  by (simp add: share_def nth_append)

text \<open>
  \<open>xmsger_send\<close> queues the message behind all others when one of the slots is free and refuses it
  otherwise; a slot is free when the message that used it has been acknowledged completely.
\<close>

lemma xmsger_send_run:
  assumes inv: "send_inv ms r s v w" and mp: "mp \<noteq> 0" "mp \<notin> fst ` set (drop (msg_index ms r) ms)"
    and m: "w_msgs w mp = Some m" "unat (f_wpos m) \<le> length (f_data m)"
  shows "if length ms < msg_index ms r + unat (b_range (c_msgbuf (w_chan w)))
    then \<exists>w'. xmsger_send mp w = Some (w', 0)
       \<and> send_inv (ms @ [(mp, f_type m, take (unat (f_wpos m)) (f_data m))]) r s v w'
    else xmsger_send mp w = Some (w, - 1)"
proof -
  let ?mb = "c_msgbuf (w_chan w)" and ?J = "msg_index ms r" and ?x = "(mp, f_type m, take (unat (f_wpos m)) (f_data m))"
  have ring: "send_ring ms r s v (c_sendbuf (w_chan w))" and mr: "msg_ring ms r v ?mb" and st: "msg_store ms r v (w_msgs w)"
    and to: "w_to w = map fst (take ?J ms)" using inv by (auto simp: send_inv_def)
  have ok: "ring_ok ?mb" and rv: "r \<le> v" "v \<le> length (pkts ms)" using mr ring by (auto simp: msg_ring_def send_ring_def)
  have J: "?J \<le> length ms" by (rule msg_index_le)
  have wr: "serialbuf_writable ?mb > 0 \<longleftrightarrow> length ms < ?J + unat (b_range ?mb)"
    using writable_pos[OF ok J] mr by (simp add: msg_ring_def)
  show ?thesis
  proof (cases "length ms < ?J + unat (b_range ?mb)")
    case False
    then show ?thesis using wr mp(1) by (simp add: xmsger_send_def)
  next
    case True
    let ?i = "serialbuf_index ?mb (b_wpos ?mb)"
    have i: "?i < length (b_buf ?mb)" "?i = length ms mod unat (b_range ?mb)"
      using ring_slot_less[OF ok, of "length ms"] ring_slot[OF ok, of "length ms"] mr by (auto simp: msg_ring_def)
    define mb' where "mb' = ?mb\<lparr>b_buf := (b_buf ?mb)[?i := mp], b_wpos := b_wpos ?mb + 1\<rparr>"
    define w' where "w' = w\<lparr>w_mlen := w_mlen w + f_wpos (xmsg_fixed m), w_msgs := (w_msgs w)(mp \<mapsto> xmsg_fixed m),
       w_chan := (w_chan w)\<lparr>c_wpos := c_wpos (w_chan w) + f_wpos (xmsg_fixed m), c_msgbuf := mb'\<rparr>\<rparr>"
    have run: "xmsger_send mp w = Some (w', 0)"
      using True wr mp(1) m(1) i(1) by (simp add: xmsger_send_def msgbuf_put_def Let_def w'_def mb'_def)
    have R': "send_ring (ms @ [?x]) r s v (c_sendbuf (w_chan w))"
      using ring by (simp add: send_ring_def nth_append)
    have "(b_buf ?mb)[?i := mp] ! (j mod unat (b_range ?mb)) = fst ((ms @ [?x]) ! j)" if j: "?J \<le> j" "j < Suc (length ms)" for j
    proof (cases "j = length ms")
      case False
      then have "length ms mod unat (b_range ?mb) \<noteq> j mod unat (b_range ?mb)"
        using mod_inj_window[of ?J "length ms" "unat (b_range ?mb)" j] j True J by auto
      then show ?thesis using mr j False i(2) by (simp add: msg_ring_def nth_append)
    qed (use i in simp)
    then have M': "msg_ring (ms @ [?x]) r v mb'"
      using mr rv True by (auto simp: msg_ring_def mb'_def ring_ok_def add.commute)
    have S': "msg_store (ms @ [?x]) r v ((w_msgs w)(mp \<mapsto> xmsg_fixed m))"
      unfolding msg_store_def
    proof (intro conjI allI impI)
      show "distinct (map fst (drop (msg_index (ms @ [?x]) r) (ms @ [?x])))"
        using st rv mp(2) J by (simp add: msg_store_def)
      fix j assume j: "msg_index (ms @ [?x]) r \<le> j \<and> j < length (ms @ [?x])"
      show "\<exists>n. ((w_msgs w)(mp \<mapsto> xmsg_fixed m)) (fst ((ms @ [?x]) ! j)) = Some n
         \<and> msg_at n (fst (snd ((ms @ [?x]) ! j))) (snd (snd ((ms @ [?x]) ! j))) (share (ms @ [?x]) j v) (share (ms @ [?x]) j r)"
      proof (cases "j = length ms")
        case True
        then have "share (ms @ [?x]) j v = 0" "share (ms @ [?x]) j r = 0" using rv by (simp_all add: share_def)
        then show ?thesis using True xmsg_fixed_at[OF m(2)] by simp
      next
        case False
        then have j': "?J \<le> j" "j < length ms" using j rv by auto
        have "j - ?J < length ms - ?J" using j' by simp
        then have "ms ! j \<in> set (drop ?J ms)" using nth_mem[of "j - ?J" "drop ?J ms"] j' by simp
        then have "fst (ms ! j) \<noteq> mp" using mp(2) by force
        then show ?thesis using st j' by (simp add: msg_store_def share_snoc nth_append)
      qed
    qed
    have "send_inv (ms @ [?x]) r s v w'"
      using R' M' S' to rv J by (simp add: send_inv_def w'_def)
    then show ?thesis using True run by auto
  qed
qed

text \<open>A fresh channel.\<close>

lemma pow2_8: "pow2 (8 :: u16)"
  unfolding pow2_def by (rule exI[of _ 3]) simp

lemma send_inv_fresh:
  assumes "pow2 r" and "w_chan w = xchannel_create now r" and "w_to w = []"
  shows "send_inv [] 0 0 0 w"
proof -
  have "ring_ok (c_sendbuf (xchannel_create now r))" "ring_ok (c_msgbuf (xchannel_create now r))"
    using assms(1) pow2_8 by (simp_all add: ring_ok_def xchannel_create_def XMSG_BUF_RANGE_def)
  moreover have "slot_ok zero_pack" by (simp add: slot_ok_def zero_pack_def zero_head_def)
  ultimately show ?thesis
    using assms(2,3) by (simp add: send_inv_def send_ring_def msg_ring_def msg_store_def)
      (simp add: xchannel_create_def)
qed

section \<open>Runs of a sender\<close>




lemma ack_target_bounds: "r \<le> s \<Longrightarrow> r \<le> ack_target r s h \<and> ack_target r s h \<le> s"
  by (auto simp: ack_target_def)


section \<open>End to end\<close>






section \<open>Properties\<close>


text \<open>A channel with one message queued, and the same after its packet was sent.\<close>

definition demo_msg :: xframe where
  "demo_msg = demo_frame\<lparr>f_type := 2, f_wpos := 2\<rparr>"

definition demo_queued :: xstate where
  "demo_queued = fst (the (xmsger_send 9 (demo_state\<lparr>w_msgs := (w_msgs demo_state)(9 \<mapsto> demo_msg)\<rparr>)))"

definition demo_sent :: xstate where
  "demo_sent = the (xchannel_send_pack demo_queued)"

lemma replicate_2: "replicate 2 x = [x, x]"
  by (simp add: numeral_2_eq_2)

lemma demo_queued_inv:
  "xmsger_send 9 (demo_state\<lparr>w_msgs := (w_msgs demo_state)(9 \<mapsto> demo_msg)\<rparr>) = Some (demo_queued, 0)"
  "send_inv [(9, 2, [0, 0])] 0 0 0 demo_queued"
proof -
  let ?w = "demo_state\<lparr>w_msgs := (w_msgs demo_state)(9 \<mapsto> demo_msg)\<rparr>"
  have "send_inv [] 0 0 0 ?w" by (rule send_inv_fresh[OF pow2_64]) (simp_all add: demo_state_def)
  from xmsger_send_run[OF this, of 9 demo_msg]
  obtain w' where "xmsger_send 9 ?w = Some (w', 0)" "send_inv ([] @ [(9, f_type demo_msg, take (unat (f_wpos demo_msg)) (f_data demo_msg))]) 0 0 0 w'"
    by (auto simp: demo_state_def demo_msg_def demo_frame_def xchannel_create_def XMSG_BUF_RANGE_def)
  then show "xmsger_send 9 ?w = Some (demo_queued, 0)" "send_inv [(9, 2, [0, 0])] 0 0 0 demo_queued"
    by (simp_all add: demo_queued_def demo_msg_def demo_frame_def replicate_2)
qed

lemma chunks_small: "length b \<le> XBODY_SIZE \<Longrightarrow> chunks b = [b]"
  by (subst chunks.simps) simp

lemma demo_pkts1: "pkts [(9, 2, [0, 0])] = [(9, 2, [0, 0], 1)]"
  by (simp add: pkts_def frags_def chunks_small XBODY_SIZE_def)

lemma xmsger_send_frame:
  assumes "xmsger_send mp w = Some (w', x)"
  shows "c_psf_counter (w_chan w') = c_psf_counter (w_chan w)" "c_sendbuf (w_chan w') = c_sendbuf (w_chan w)"
    "w_sendok w' = w_sendok w" "w_sends w' = w_sends w" "w_to w' = w_to w"
  using assms by (auto simp: xmsger_send_def msgbuf_put_def Let_def bind_eq_Some_conv split: if_splits)

lemma serial_msg_psf:
  assumes "xchannel_serial_msg w = Some w'"
  shows "c_psf_counter (w_chan w') = c_psf_counter (w_chan w)"
  using assms unfolding xchannel_serial_msg_def Let_def
  by (simp only: split: if_split_asm) (elim bind_SomeE, clarsimp, simp)

lemma send_front_psf:
  assumes "send_front p w = Some w'"
  shows "c_psf_counter (w_chan w') = c_psf_counter (w_chan w)"
  using assms unfolding send_front_def Let_def udp_sendto_def clock_def
  by (elim bind_SomeE) (auto elim!: bind_SomeE dest!: serial_msg_psf split: if_split_asm)

lemma send_pack_psf:
  assumes "xchannel_send_pack w = Some w'"
  shows "c_psf_counter (w_chan w') = c_psf_counter (w_chan w)"
  using assms unfolding xchannel_send_pack_def Let_def
  by (elim bind_SomeE) (auto elim!: bind_SomeE dest!: serial_msg_psf send_front_psf split: if_split_asm)

lemma demo_queued_room: "psf_room 32769 (w_chan demo_queued)" "w_sendok demo_queued (w_sends demo_queued)" "w_to demo_queued = []"
  "unat (b_range (c_sendbuf (w_chan demo_queued))) = 64"
  using xmsger_send_frame[OF demo_queued_inv(1)] by (simp_all add: demo_state_def psf_room_def xchannel_create_def)


text \<open>
  Sending: whenever a fragment is waiting, the window is open and the network accepts it,
  \<open>xchannel_send_pack\<close> hands over exactly one datagram, and that datagram is the next fragment of the
  queued messages: serial number, type, length, bytes and remaining-packet count. Otherwise it sends
  nothing. It returns in either case.
\<close>

theorem send_next_fragment:
  assumes "send_inv ms r s v w"
  shows "\<exists>w' s' v'. xchannel_send_pack w = Some w' \<and> send_inv ms r s' v' w' \<and> v \<le> v'
    \<and> (if can_send ms r s w then s' = Suc s \<and> (\<exists>d. w_out w' = w_out w @ [d] \<and> carries s (pkts ms ! s) d)
       else s' = s \<and> w_out w' = w_out w)"
  using assms by (rule send_pack_run)

theorem send_next_fragment_witness:
  "\<exists>w' s' v'. xchannel_send_pack demo_queued = Some w' \<and> send_inv [(9, 2, [0, 0])] 0 s' v' w' \<and> 0 \<le> v'
    \<and> (if can_send [(9, 2, [0, 0])] 0 0 demo_queued
       then s' = Suc 0 \<and> (\<exists>d. w_out w' = w_out demo_queued @ [d] \<and> carries 0 (pkts [(9, 2, [0, 0])] ! 0) d)
       else s' = 0 \<and> w_out w' = w_out demo_queued)"
  by (rule send_next_fragment[OF demo_queued_inv(2)])

text \<open>
  C8. Acknowledgements: for a header with arbitrary (stale, duplicated or forged) numbers
  \<open>xchannel_recv_ack\<close> returns and moves the lower end of the send window exactly to the acknowledged
  position when that position and the single number lie between \<open>rpos\<close> and \<open>spos\<close>, and leaves it
  where it is otherwise; it never passes a packet that was not sent.
\<close>

theorem recv_ack_exact:
  assumes "send_inv ms r s v w" and "psf_room (s - r + 1) (w_chan w)"
  shows "\<exists>w'. xchannel_recv_ack h w = Some w' \<and> send_inv ms (ack_target r s h) s v w'
     \<and> r \<le> ack_target r s h \<and> ack_target r s h \<le> s"
proof -
  have "r \<le> s" using assms(1) by (simp add: send_inv_def send_ring_def)
  then show ?thesis using recv_ack_run[OF assms, of h] ack_target_bounds by blast
qed

lemma demo_sent_inv: "send_inv [(9, 2, [0, 0])] 0 1 1 demo_sent" "psf_room (1 - 0 + 1) (w_chan demo_sent)"
proof -
  have "can_send [(9, 2, [0, 0])] 0 0 demo_queued"
    using demo_queued_room by (simp add: can_send_def demo_pkts1)
  then obtain v' where run: "xchannel_send_pack demo_queued = Some demo_sent" and inv: "send_inv [(9, 2, [0, 0])] 0 1 v' demo_sent"
    using send_pack_run[OF demo_queued_inv(2)] by (auto simp: demo_sent_def)
  moreover have "v' = 1" using inv demo_pkts1 by (simp add: send_inv_def send_ring_def)
  ultimately show "send_inv [(9, 2, [0, 0])] 0 1 1 demo_sent" by simp
  show "psf_room (1 - 0 + 1) (w_chan demo_sent)"
    using send_pack_psf[OF run] demo_queued_room(1) by (simp add: psf_room_def)
qed

theorem recv_ack_exact_witness:
  "\<exists>w'. xchannel_recv_ack (zero_head\<lparr>h_ack_sn := 1, h_ack_pos := 1\<rparr>) demo_sent = Some w'
     \<and> send_inv [(9, 2, [0, 0])] (ack_target 0 1 (zero_head\<lparr>h_ack_sn := 1, h_ack_pos := 1\<rparr>)) 1 1 w'
     \<and> 0 \<le> ack_target 0 1 (zero_head\<lparr>h_ack_sn := 1, h_ack_pos := 1\<rparr>)
     \<and> ack_target 0 1 (zero_head\<lparr>h_ack_sn := 1, h_ack_pos := 1\<rparr>) \<le> 1"
  by (rule recv_ack_exact[OF demo_sent_inv])





text \<open>
  C36. The acknowledgement counter behind the pacing estimate is not reset when the estimate is
  discarded: once ten million acknowledgements have been counted, the next estimate is 0 and the
  threshold is computed by dividing by it.
\<close>

theorem sampling_division_by_zero:
  assumes "c_psf c = 0" and "c_psf_begin c \<noteq> 0" and "c_ack_ts c - c_psf_begin c \<ge> XPACK_PSF_SAMPLING"
    and "10000000 \<le> c_psf_counter c"
  shows "xchannel_sampling c p = None"
proof -
  let ?n = "c_psf_counter c + 1"
  have "XPACK_PSF_SAMPLING div ?n = 0" if "?n \<noteq> 0"
  proof -
    have "unat ?n = unat (c_psf_counter c) + 1" using that by (simp add: unatSuc add.commute)
    then have "unat (XPACK_PSF_SAMPLING div ?n) = 0"
      using assms(4) by (simp add: unat_div XPACK_PSF_SAMPLING_def word_le_nat_alt)
    then show ?thesis by (simp add: unat_eq_0)
  qed
  then show ?thesis
    using assms(1-3) by (simp add: xchannel_sampling_def sampling_psf_def sampling_rtt_def Let_def)
qed

theorem sampling_division_by_zero_witness:
  "xchannel_sampling ((xchannel_create 1 64)\<lparr>c_psf_begin := 1, c_ack_ts := 20000001, c_psf_counter := 10000000\<rparr>) zero_pack = None"
  by (rule sampling_division_by_zero) (simp_all add: xchannel_create_def XPACK_PSF_SAMPLING_def)

end
