(* ===== verification/Avl.thy ===== *)
theory Avl
  imports Prelude
begin

text \<open>
  The intrusive AVL tree of \<open>src/src/xlib/avlmini.c\<close>. Nodes live in a heap and are linked by
  \<open>left\<close>, \<open>right\<close> and \<open>parent\<close> pointers; address 0 is NULL. Every operation is the pointer program of
  the source; \<^term>\<open>None\<close> is the dereference of NULL or of memory that is not a node. The node is
  embedded in the user's structure at \<open>offset\<close>; the comparison functions get the addresses of the
  structures. Heights are \<open>int\<close>; the height of a tree is far below \<open>2^31\<close>.

  The theory \<open>Avl_Shape\<close> proves that these programs implement operations on trees with a zipper, the
  theory \<open>Avl_Tree\<close> that those keep the tree ordered and balanced.
\<close>

section \<open>Nodes and trees\<close>

record avl_node =
  n_left :: nat
  n_right :: nat
  n_parent :: nat
  n_height :: int

record avl_root =
  v_heap :: "nat \<Rightarrow> avl_node option"
  v_root :: nat

record avl_tree =
  t_root :: avl_root
  t_offset :: nat
  t_count :: u64

definition node_at :: "nat \<Rightarrow> avl_root \<Rightarrow> avl_node option" where
  "node_at p s = (if p = 0 then None else v_heap s p)"

definition upd_node :: "nat \<Rightarrow> (avl_node \<Rightarrow> avl_node) \<Rightarrow> avl_root \<Rightarrow> avl_root option" where
  "upd_node p f s = do {
     n \<leftarrow> node_at p s;
     Some (s\<lparr>v_heap := (v_heap s)(p \<mapsto> f n)\<rparr>) }"

section \<open>Walking\<close>

partial_function (option) go_left :: "nat \<Rightarrow> avl_root \<Rightarrow> nat option" where
  "go_left p s = do {
     n \<leftarrow> node_at p s;
     if n_left n \<noteq> 0 then go_left (n_left n) s else Some p }"

partial_function (option) go_right :: "nat \<Rightarrow> avl_root \<Rightarrow> nat option" where
  "go_right p s = do {
     n \<leftarrow> node_at p s;
     if n_right n \<noteq> 0 then go_right (n_right n) s else Some p }"

definition avl_node_first :: "avl_root \<Rightarrow> nat option" where
  "avl_node_first s = (if v_root s = 0 then Some 0 else go_left (v_root s) s)"

definition avl_node_last :: "avl_root \<Rightarrow> nat option" where
  "avl_node_last s = (if v_root s = 0 then Some 0 else go_right (v_root s) s)"

partial_function (option) climb_left :: "nat \<Rightarrow> avl_root \<Rightarrow> nat option" where
  "climb_left child s = do {
     n \<leftarrow> node_at child s;
     if n_parent n = 0 then Some 0 else do {
       m \<leftarrow> node_at (n_parent n) s;
       if n_left m = child then Some (n_parent n) else climb_left (n_parent n) s } }"

partial_function (option) climb_right :: "nat \<Rightarrow> avl_root \<Rightarrow> nat option" where
  "climb_right child s = do {
     n \<leftarrow> node_at child s;
     if n_parent n = 0 then Some 0 else do {
       m \<leftarrow> node_at (n_parent n) s;
       if n_right m = child then Some (n_parent n) else climb_right (n_parent n) s } }"

definition avl_node_next :: "nat \<Rightarrow> avl_root \<Rightarrow> nat option" where
  "avl_node_next p s =
     (if p = 0 then Some 0 else do {
        n \<leftarrow> node_at p s;
        if n_right n \<noteq> 0 then go_left (n_right n) s else climb_left p s })"

definition avl_node_prev :: "nat \<Rightarrow> avl_root \<Rightarrow> nat option" where
  "avl_node_prev p s =
     (if p = 0 then Some 0 else do {
        n \<leftarrow> node_at p s;
        if n_left n \<noteq> 0 then go_right (n_left n) s else climb_right p s })"

section \<open>Rotations\<close>

definition child_replace :: "nat \<Rightarrow> nat \<Rightarrow> nat \<Rightarrow> avl_root \<Rightarrow> avl_root option" where
  "child_replace oldnode newnode parent s =
     (if parent \<noteq> 0 then do {
        m \<leftarrow> node_at parent s;
        if n_left m = oldnode then upd_node parent (n_left_update (\<lambda>_. newnode)) s
        else upd_node parent (n_right_update (\<lambda>_. newnode)) s }
      else Some (s\<lparr>v_root := newnode\<rparr>))"

definition set_parent :: "nat \<Rightarrow> nat \<Rightarrow> avl_root \<Rightarrow> avl_root option" where
  "set_parent p q s = (if p \<noteq> 0 then upd_node p (n_parent_update (\<lambda>_. q)) s else Some s)"

definition rotate_left :: "nat \<Rightarrow> avl_root \<Rightarrow> (nat \<times> avl_root) option" where
  "rotate_left node s0 = do {
     n \<leftarrow> node_at node s0;
     let right = n_right n;
     let parent = n_parent n;
     r0 \<leftarrow> node_at right s0;
     s1 \<leftarrow> upd_node node (n_right_update (\<lambda>_. n_left r0)) s0;
     r1 \<leftarrow> node_at right s1;
     s2 \<leftarrow> set_parent (n_left r1) node s1;
     s3 \<leftarrow> upd_node right (\<lambda>m. m\<lparr>n_left := node, n_parent := parent\<rparr>) s2;
     s4 \<leftarrow> child_replace node right parent s3;
     s5 \<leftarrow> upd_node node (n_parent_update (\<lambda>_. right)) s4;
     Some (right, s5) }"

definition rotate_right :: "nat \<Rightarrow> avl_root \<Rightarrow> (nat \<times> avl_root) option" where
  "rotate_right node s0 = do {
     n \<leftarrow> node_at node s0;
     let left = n_left n;
     let parent = n_parent n;
     l0 \<leftarrow> node_at left s0;
     s1 \<leftarrow> upd_node node (n_left_update (\<lambda>_. n_right l0)) s0;
     l1 \<leftarrow> node_at left s1;
     s2 \<leftarrow> set_parent (n_right l1) node s1;
     s3 \<leftarrow> upd_node left (\<lambda>m. m\<lparr>n_right := node, n_parent := parent\<rparr>) s2;
     s4 \<leftarrow> child_replace node left parent s3;
     s5 \<leftarrow> upd_node node (n_parent_update (\<lambda>_. left)) s4;
     Some (left, s5) }"

definition avl_node_replace :: "nat \<Rightarrow> nat \<Rightarrow> avl_root \<Rightarrow> avl_root option" where
  "avl_node_replace victim newnode s0 = do {
     v0 \<leftarrow> node_at victim s0;
     s1 \<leftarrow> child_replace victim newnode (n_parent v0) s0;
     v1 \<leftarrow> node_at victim s1;
     s2 \<leftarrow> set_parent (n_left v1) newnode s1;
     s3 \<leftarrow> set_parent (n_right v1) newnode s2;
     v2 \<leftarrow> node_at victim s3;
     upd_node newnode (\<lambda>_. v2) s3 }"

section \<open>Rebalancing\<close>

definition height_at :: "nat \<Rightarrow> avl_root \<Rightarrow> int option" where
  "height_at p s = (if p \<noteq> 0 then map_option n_height (node_at p s) else Some 0)"

definition child_heights :: "nat \<Rightarrow> avl_root \<Rightarrow> (int \<times> int) option" where
  "child_heights p s = do {
     n \<leftarrow> node_at p s;
     h0 \<leftarrow> height_at (n_left n) s;
     h1 \<leftarrow> height_at (n_right n) s;
     Some (h0, h1) }"

definition AVL_MAX :: "int \<Rightarrow> int \<Rightarrow> int" where
  "AVL_MAX x y = (if x < y then y else x)"

definition height_update :: "nat \<Rightarrow> avl_root \<Rightarrow> avl_root option" where
  "height_update p s = do {
     (h0, h1) \<leftarrow> child_heights p s;
     upd_node p (n_height_update (\<lambda>_. AVL_MAX h0 h1 + 1)) s }"

definition fix_l :: "nat \<Rightarrow> avl_root \<Rightarrow> (nat \<times> avl_root) option" where
  "fix_l node s0 = do {
     n \<leftarrow> node_at node s0;
     (rh0, rh1) \<leftarrow> child_heights (n_right n) s0;
     s3 \<leftarrow> (if rh0 > rh1 then do {
       (right, s1) \<leftarrow> rotate_right (n_right n) s0;
       r \<leftarrow> node_at right s1;
       s2 \<leftarrow> height_update (n_right r) s1;
       height_update right s2 } else Some s0);
     (top, s4) \<leftarrow> rotate_left node s3;
     t \<leftarrow> node_at top s4;
     s5 \<leftarrow> height_update (n_left t) s4;
     s6 \<leftarrow> height_update top s5;
     Some (top, s6) }"

definition fix_r :: "nat \<Rightarrow> avl_root \<Rightarrow> (nat \<times> avl_root) option" where
  "fix_r node s0 = do {
     n \<leftarrow> node_at node s0;
     (lh0, lh1) \<leftarrow> child_heights (n_left n) s0;
     s3 \<leftarrow> (if lh0 < lh1 then do {
       (left, s1) \<leftarrow> rotate_left (n_left n) s0;
       l \<leftarrow> node_at left s1;
       s2 \<leftarrow> height_update (n_left l) s1;
       height_update left s2 } else Some s0);
     (top, s4) \<leftarrow> rotate_right node s3;
     t \<leftarrow> node_at top s4;
     s5 \<leftarrow> height_update (n_right t) s4;
     s6 \<leftarrow> height_update top s5;
     Some (top, s6) }"

text \<open>The branches \<open>diff <= -2\<close> and \<open>diff >= 2\<close> of both loops.\<close>

definition fix_node :: "int \<Rightarrow> nat \<Rightarrow> avl_root \<Rightarrow> (nat \<times> avl_root) option" where
  "fix_node diff p s =
     (if diff \<le> - 2 then fix_l p s else if diff \<ge> 2 then fix_r p s else Some (p, s))"

partial_function (option) rebalance :: "nat \<Rightarrow> avl_root \<Rightarrow> avl_root option" where
  "rebalance p s =
     (if p = 0 then Some s
      else Option.bind (node_at p s) (\<lambda>n. Option.bind (child_heights p s) (\<lambda>(h0, h1).
        let diff = h0 - h1; height = AVL_MAX h0 h1 + 1 in
        if n_height n = height \<and> diff \<ge> - 1 \<and> diff \<le> 1 then Some s
        else Option.bind (upd_node p (n_height_update (\<lambda>_. height)) s) (\<lambda>s1.
          Option.bind (fix_node diff p s1) (\<lambda>(q, s2).
            Option.bind (node_at q s2) (\<lambda>m. rebalance (n_parent m) s2))))))"

partial_function (option) post_insert_loop :: "nat \<Rightarrow> avl_root \<Rightarrow> avl_root option" where
  "post_insert_loop p s =
     (if p = 0 then Some s
      else Option.bind (node_at p s) (\<lambda>n. Option.bind (child_heights p s) (\<lambda>(h0, h1).
        let diff = h0 - h1; height = AVL_MAX h0 h1 + 1 in
        if n_height n = height then Some s
        else Option.bind (upd_node p (n_height_update (\<lambda>_. height)) s) (\<lambda>s1.
          Option.bind (fix_node diff p s1) (\<lambda>(q, s2).
            Option.bind (node_at q s2) (\<lambda>m. post_insert_loop (n_parent m) s2))))))"

definition avl_node_post_insert :: "nat \<Rightarrow> avl_root \<Rightarrow> avl_root option" where
  "avl_node_post_insert node s = do {
     s1 \<leftarrow> upd_node node (n_height_update (\<lambda>_. 1)) s;
     n \<leftarrow> node_at node s1;
     post_insert_loop (n_parent n) s1 }"

text \<open>The case of a node with two children: its successor takes its place.\<close>

definition erase_two :: "nat \<Rightarrow> avl_root \<Rightarrow> (nat \<times> avl_root) option" where
  "erase_two old s0 = do {
     o0 \<leftarrow> node_at old s0;
     node \<leftarrow> go_left (n_right o0) s0;
     n0 \<leftarrow> node_at node s0;
     let child = n_right n0;
     s1 \<leftarrow> set_parent child (n_parent n0) s0;
     s2 \<leftarrow> child_replace node child (n_parent n0) s1;
     n2 \<leftarrow> node_at node s2;
     let parent = (if n_parent n2 = old then node else n_parent n0);
     o2 \<leftarrow> node_at old s2;
     s3 \<leftarrow> upd_node node (\<lambda>_. o2) s2;
     s4 \<leftarrow> child_replace old node (n_parent o2) s3;
     o4 \<leftarrow> node_at old s4;
     s5 \<leftarrow> upd_node (n_left o4) (n_parent_update (\<lambda>_. node)) s4;
     s6 \<leftarrow> set_parent (n_right o4) node s5;
     Some (parent, s6) }"

definition erase_one :: "nat \<Rightarrow> avl_root \<Rightarrow> (nat \<times> avl_root) option" where
  "erase_one node s0 = do {
     n \<leftarrow> node_at node s0;
     let child = (if n_left n = 0 then n_right n else n_left n);
     s1 \<leftarrow> child_replace node child (n_parent n) s0;
     s2 \<leftarrow> set_parent child (n_parent n) s1;
     Some (n_parent n, s2) }"

definition avl_node_erase :: "nat \<Rightarrow> avl_root \<Rightarrow> avl_root option" where
  "avl_node_erase node s = do {
     n \<leftarrow> node_at node s;
     (parent, s1) \<leftarrow> (if n_left n \<noteq> 0 \<and> n_right n \<noteq> 0 then erase_two node s else erase_one node s);
     if parent \<noteq> 0 then rebalance parent s1 else Some s1 }"

section \<open>Tearing down\<close>

partial_function (option) sink_leaf :: "nat \<Rightarrow> avl_root \<Rightarrow> nat option" where
  "sink_leaf p s = do {
     n \<leftarrow> node_at p s;
     if n_left n \<noteq> 0 then sink_leaf (n_left n) s
     else if n_right n \<noteq> 0 then sink_leaf (n_right n) s
     else Some p }"

text \<open>\<open>avl_node_tear\<close>: the leaf taken out, the next starting point and the tree.\<close>

definition avl_node_tear :: "nat \<Rightarrow> avl_root \<Rightarrow> (nat \<times> nat \<times> avl_root) option" where
  "avl_node_tear nxt s =
     (if nxt = 0 \<and> v_root s = 0 then Some (0, nxt, s)
      else do {
        node \<leftarrow> sink_leaf (if nxt = 0 then v_root s else nxt) s;
        n \<leftarrow> node_at node s;
        if n_parent n = 0 then Some (node, 0, s\<lparr>v_root := 0\<rparr>)
        else do {
          m \<leftarrow> node_at (n_parent n) s;
          s1 \<leftarrow> (if n_left m = node then upd_node (n_parent n) (n_left_update (\<lambda>_. 0)) s
                 else upd_node (n_parent n) (n_right_update (\<lambda>_. 0)) s);
          s2 \<leftarrow> upd_node node (n_height_update (\<lambda>_. 0)) s1;
          Some (node, n_parent n, s2) } })"

section \<open>The tree interface\<close>

definition avl_tree_init :: "(nat \<Rightarrow> avl_node option) \<Rightarrow> nat \<Rightarrow> avl_tree" where
  "avl_tree_init heap off = \<lparr>t_root = \<lparr>v_heap = heap, v_root = 0\<rparr>, t_offset = off, t_count = 0\<rparr>"

definition node2data :: "avl_tree \<Rightarrow> nat \<Rightarrow> nat" where
  "node2data t n = n - t_offset t"

definition data2node :: "avl_tree \<Rightarrow> nat \<Rightarrow> nat" where
  "data2node t d = d + t_offset t"

definition or_null :: "avl_tree \<Rightarrow> nat \<Rightarrow> nat" where
  "or_null t n = (if n = 0 then 0 else node2data t n)"

definition avl_tree_first :: "avl_tree \<Rightarrow> nat option" where
  "avl_tree_first t = map_option (or_null t) (avl_node_first (t_root t))"

definition avl_tree_last :: "avl_tree \<Rightarrow> nat option" where
  "avl_tree_last t = map_option (or_null t) (avl_node_last (t_root t))"

definition avl_tree_next :: "avl_tree \<Rightarrow> nat \<Rightarrow> nat option" where
  "avl_tree_next t d =
     (if d = 0 then Some 0 else map_option (or_null t) (avl_node_next (data2node t d) (t_root t)))"

definition avl_tree_prev :: "avl_tree \<Rightarrow> nat \<Rightarrow> nat option" where
  "avl_tree_prev t d =
     (if d = 0 then Some 0 else map_option (or_null t) (avl_node_prev (data2node t d) (t_root t)))"

text \<open>\<open>cmp nd\<close> is \<open>compare(data, nd)\<close> for the structure or key \<open>data\<close> that is looked for.\<close>

partial_function (option) find_loop :: "(nat \<Rightarrow> int) \<Rightarrow> avl_tree \<Rightarrow> nat \<Rightarrow> nat option" where
  "find_loop cmp t n =
     (if n = 0 then Some 0 else do {
        m \<leftarrow> node_at n (t_root t);
        let nd = node2data t n;
        let hr = cmp nd;
        if hr = 0 then Some nd
        else if hr < 0 then find_loop cmp t (n_left m)
        else find_loop cmp t (n_right m) })"

definition avl_tree_find :: "(nat \<Rightarrow> int) \<Rightarrow> avl_tree \<Rightarrow> nat option" where
  "avl_tree_find cmp t = find_loop cmp t (v_root (t_root t))"

partial_function (option) nearest_loop :: "(nat \<Rightarrow> int) \<Rightarrow> avl_tree \<Rightarrow> nat \<Rightarrow> nat \<Rightarrow> nat option" where
  "nearest_loop cmp t n p =
     (if n = 0 then Some (or_null t p) else do {
        m \<leftarrow> node_at n (t_root t);
        let nd = node2data t n;
        let hr = cmp nd;
        if hr = 0 then Some nd
        else if hr < 0 then nearest_loop cmp t (n_left m) n
        else nearest_loop cmp t (n_right m) n })"

definition avl_tree_nearest :: "(nat \<Rightarrow> int) \<Rightarrow> avl_tree \<Rightarrow> nat option" where
  "avl_tree_nearest cmp t = nearest_loop cmp t (v_root (t_root t)) 0"

text \<open>
  The descent of \<open>avl_tree_add\<close>: either the structure with an equal key, or the parent and which of its
  links is to be set (for the empty tree the parent is NULL and the link is the root).
\<close>

datatype link_end = Found nat | Link_left nat | Link_right nat | Link_root

partial_function (option) add_descend :: "(nat \<Rightarrow> int) \<Rightarrow> avl_tree \<Rightarrow> nat \<Rightarrow> link_end \<Rightarrow> link_end option" where
  "add_descend cmp t n link =
     (if n = 0 then Some link else do {
        m \<leftarrow> node_at n (t_root t);
        let pd = node2data t n;
        let hr = cmp pd;
        if hr = 0 then Some (Found pd)
        else if hr < 0 then add_descend cmp t (n_left m) (Link_left n)
        else add_descend cmp t (n_right m) (Link_right n) })"

definition set_link :: "link_end \<Rightarrow> nat \<Rightarrow> avl_root \<Rightarrow> avl_root option" where
  "set_link link node s = (case link of
     Link_left p \<Rightarrow> upd_node p (n_left_update (\<lambda>_. node)) s
   | Link_right p \<Rightarrow> upd_node p (n_right_update (\<lambda>_. node)) s
   | _ \<Rightarrow> Some (s\<lparr>v_root := node\<rparr>))"

definition link_parent :: "link_end \<Rightarrow> nat" where
  "link_parent link = (case link of Link_left p \<Rightarrow> p | Link_right p \<Rightarrow> p | _ \<Rightarrow> 0)"

definition avl_tree_add :: "(nat \<Rightarrow> int) \<Rightarrow> nat \<Rightarrow> avl_tree \<Rightarrow> (avl_tree \<times> nat) option" where
  "avl_tree_add cmp d t = do {
     link \<leftarrow> add_descend cmp t (v_root (t_root t)) Link_root;
     case link of Found pd \<Rightarrow> Some (t, pd)
     | _ \<Rightarrow> do {
         let node = data2node t d;
         s1 \<leftarrow> upd_node node (\<lambda>_. \<lparr>n_left = 0, n_right = 0, n_parent = link_parent link, n_height = 0\<rparr>) (t_root t);
         s2 \<leftarrow> set_link link node s1;
         s3 \<leftarrow> avl_node_post_insert node s2;
         Some (t\<lparr>t_root := s3, t_count := t_count t + 1\<rparr>, 0) } }"

definition avl_tree_remove :: "nat \<Rightarrow> avl_tree \<Rightarrow> avl_tree option" where
  "avl_tree_remove d t = do {
     let node = data2node t d;
     n \<leftarrow> node_at node (t_root t);
     if n_parent n \<noteq> node then do {
       s1 \<leftarrow> avl_node_erase node (t_root t);
       s2 \<leftarrow> upd_node node (n_parent_update (\<lambda>_. node)) s1;
       Some (t\<lparr>t_root := s2, t_count := t_count t - 1\<rparr>) }
     else Some t }"

definition avl_tree_replace :: "nat \<Rightarrow> nat \<Rightarrow> avl_tree \<Rightarrow> avl_tree option" where
  "avl_tree_replace victim newdata t = do {
     s1 \<leftarrow> avl_node_replace (data2node t victim) (data2node t newdata) (t_root t);
     s2 \<leftarrow> upd_node (data2node t victim) (n_parent_update (\<lambda>_. data2node t victim)) s1;
     Some (t\<lparr>t_root := s2\<rparr>) }"

text \<open>\<open>avl_tree_clear\<close>; the second result is the list of structures given to \<open>destroy\<close>.\<close>

partial_function (option) clear_loop :: "nat \<Rightarrow> nat list \<Rightarrow> avl_tree \<Rightarrow> (avl_tree \<times> nat list) option" where
  "clear_loop nxt out t =
     Option.bind (avl_node_tear nxt (t_root t)) (\<lambda>(node, nxt', s).
       if node = 0 then Some (t\<lparr>t_root := s\<rparr>, out)
       else Option.bind (upd_node node (n_parent_update (\<lambda>_. node)) s) (\<lambda>s1.
         clear_loop nxt' (out @ [node2data t node]) (t\<lparr>t_root := s1, t_count := t_count t - 1\<rparr>)))"

definition avl_tree_clear :: "avl_tree \<Rightarrow> (avl_tree \<times> nat list) option" where
  "avl_tree_clear t = clear_loop 0 [] t"

end
