(* ===== verification/Avl_Shape.thy ===== *)
theory Avl_Shape
  imports Avl
begin

text \<open>
  What the pointer programs of \<open>Avl\<close> do to the tree in memory. A tree carries the address and the stored
  height of every node; the place where the program works is a subtree together with the path to the
  root (a zipper). \<open>rep F s t c\<close> says that the heap of \<open>s\<close> holds the subtree \<open>t\<close> below the path \<open>c\<close>, all
  nodes distinct, with every parent pointer right, and is \<open>F\<close> everywhere else.
\<close>

section \<open>Trees and paths\<close>

datatype ptree = Tip | Bin ptree nat int ptree

fun addr :: "ptree \<Rightarrow> nat" where
  "addr Tip = 0"
| "addr (Bin l a k r) = a"

fun ht :: "ptree \<Rightarrow> int" where
  "ht Tip = 0"
| "ht (Bin l a k r) = k"

fun inorder :: "ptree \<Rightarrow> nat list" where
  "inorder Tip = []"
| "inorder (Bin l a k r) = inorder l @ a # inorder r"

type_synonym path = "(bool \<times> nat \<times> int \<times> ptree) list"

text \<open>A step of a path: whether the hole is the left child, the node above, its height, the sibling.\<close>

fun plug :: "ptree \<Rightarrow> path \<Rightarrow> ptree" where
  "plug t [] = t"
| "plug t ((d, a, k, s) # c) = plug (if d then Bin t a k s else Bin s a k t) c"

fun before :: "path \<Rightarrow> nat list" where
  "before [] = []"
| "before ((d, a, k, s) # c) = before c @ (if d then [] else inorder s @ [a])"

fun behind :: "path \<Rightarrow> nat list" where
  "behind [] = []"
| "behind ((d, a, k, s) # c) = (if d then a # inorder s else []) @ behind c"

lemma inorder_plug: "inorder (plug t c) = before c @ inorder t @ behind c"
  by (induction t c rule: plug.induct) auto

fun up_addr :: "path \<Rightarrow> nat" where
  "up_addr [] = 0"
| "up_addr ((d, a, k, s) # c) = a"

fun shape :: "(nat \<Rightarrow> avl_node option) \<Rightarrow> nat \<Rightarrow> ptree \<Rightarrow> bool" where
  "shape h q Tip \<longleftrightarrow> True"
| "shape h q (Bin l a k r) \<longleftrightarrow> a \<noteq> 0 \<and> h a = Some \<lparr>n_left = addr l, n_right = addr r, n_parent = q, n_height = k\<rparr>
     \<and> shape h a l \<and> shape h a r"

fun path_shape :: "(nat \<Rightarrow> avl_node option) \<Rightarrow> nat \<Rightarrow> nat \<Rightarrow> path \<Rightarrow> bool" where
  "path_shape h root q [] \<longleftrightarrow> root = q"
| "path_shape h root q ((d, a, k, s) # c) \<longleftrightarrow> a \<noteq> 0
     \<and> h a = Some \<lparr>n_left = (if d then q else addr s), n_right = (if d then addr s else q), n_parent = up_addr c, n_height = k\<rparr>
     \<and> shape h a s \<and> path_shape h root a c"

definition rep :: "(nat \<Rightarrow> avl_node option) \<Rightarrow> avl_root \<Rightarrow> ptree \<Rightarrow> path \<Rightarrow> bool" where
  "rep F s t c \<longleftrightarrow> shape (v_heap s) (up_addr c) t \<and> path_shape (v_heap s) (v_root s) (addr t) c
     \<and> distinct (before c @ inorder t @ behind c)
     \<and> (\<forall>z. z \<notin> set (before c @ inorder t @ behind c) \<longrightarrow> v_heap s z = F z)"

lemma shape_upd [simp]: "z \<notin> set (inorder t) \<Longrightarrow> shape (h(z := v)) q t = shape h q t"
  by (induction t arbitrary: q) auto

lemma path_upd [simp]:
  "z \<notin> set (before c) \<Longrightarrow> z \<notin> set (behind c) \<Longrightarrow> path_shape (h(z := v)) root q c = path_shape h root q c"
  by (induction c arbitrary: q rule: before.induct) (auto split: if_splits)

lemma shape_addr: "shape h q t \<Longrightarrow> addr t = 0 \<longleftrightarrow> t = Tip"
  by (cases t) auto

lemma addr_inorder: "addr t = 0 \<or> addr t \<in> set (inorder t)"
  by (cases t) auto

lemma shape_not_null: "shape h q t \<Longrightarrow> 0 \<notin> set (inorder t)"
  by (induction t arbitrary: q) auto

lemma path_not_null: "path_shape h root q c \<Longrightarrow> 0 \<notin> set (before c) \<and> 0 \<notin> set (behind c)"
  by (induction c arbitrary: q rule: before.induct) (auto dest: shape_not_null split: if_splits)

text \<open>Moving the place of work up and down.\<close>

lemma rep_left: "rep F s (Bin l a k r) c \<longleftrightarrow> rep F s l ((True, a, k, r) # c)"
  by (auto simp: rep_def)

lemma rep_right: "rep F s (Bin l a k r) c \<longleftrightarrow> rep F s r ((False, a, k, l) # c)"
  by (auto simp: rep_def)

lemma rep_plug: "rep F s t c \<longleftrightarrow> rep F s (plug t c) []"
proof (induction t c rule: plug.induct)
  case (2 t d a k s' c)
  then show ?case by (cases d) (simp_all add: rep_left[symmetric] rep_right[symmetric])
qed simp

lemma rep_node:
  assumes "rep F s (Bin l a k r) c"
  shows "node_at a s = Some \<lparr>n_left = addr l, n_right = addr r, n_parent = up_addr c, n_height = k\<rparr>" and "a \<noteq> 0"
  using assms by (auto simp: rep_def node_at_def)

section \<open>Rotations\<close>

lemma child_replace_rep:
  assumes "path_shape (v_heap s) (v_root s) a c" and "a \<notin> set (before c @ behind c)" and "a \<noteq> 0"
    and "distinct (before c @ behind c)"
  shows "\<exists>s'. child_replace a b (up_addr c) s = Some s' \<and> path_shape (v_heap s') (v_root s') b c
     \<and> (\<forall>z. z \<notin> set (before c @ behind c) \<longrightarrow> v_heap s' z = v_heap s z)"
proof (cases c rule: before.cases)
  case 1
  then show ?thesis using assms by (simp add: child_replace_def)
next
  case (2 d p k t c')
  have "addr t \<noteq> a" using addr_inorder[of t] assms(2,3) 2 by (auto split: if_splits)
  moreover have "p \<notin> set (inorder t)" "p \<notin> set (before c')" "p \<notin> set (behind c')"
    using assms(4) 2 by (auto split: if_splits)
  ultimately show ?thesis
    using assms(1,3) 2 by (auto simp: child_replace_def upd_node_def node_at_def)
qed

lemma shape_cong: "(\<And>z. z \<in> set (inorder t) \<Longrightarrow> h z = h' z) \<Longrightarrow> shape h q t = shape h' q t"
  by (induction t arbitrary: q) auto

lemma path_cong:
  "(\<And>z. z \<in> set (before c @ behind c) \<Longrightarrow> h z = h' z) \<Longrightarrow> path_shape h root q c = path_shape h' root q c"
proof (induction c arbitrary: q rule: before.induct)
  case (2 d a k s c)
  then show ?case using shape_cong[of s h h' a] by (auto split: if_splits)
qed simp

text \<open>\<open>set_parent\<close> on the root of a subtree.\<close>

lemma set_parent_rep:
  assumes "shape (v_heap s) q t" and "distinct (inorder t)"
  shows "\<exists>s'. set_parent (addr t) p s = Some s' \<and> v_root s' = v_root s \<and> shape (v_heap s') p t
     \<and> (\<forall>z. z \<notin> set (inorder t) \<longrightarrow> v_heap s' z = v_heap s z)"
  using assms by (cases t) (auto simp: set_parent_def upd_node_def node_at_def)

lemma upd_node_run:
  "p \<noteq> 0 \<Longrightarrow> v_heap s p = Some n \<Longrightarrow> upd_node p f s = Some (s\<lparr>v_heap := (v_heap s)(p \<mapsto> f n)\<rparr>)"
  by (simp add: upd_node_def node_at_def)

lemma node_at_run: "p \<noteq> 0 \<Longrightarrow> node_at p s = v_heap s p"
  by (simp add: node_at_def)

text \<open>
  The common part of both rotations: \<open>b\<close> takes the place of \<open>a\<close> below the path, the tree \<open>x\<close> between
  them moves from \<open>b\<close> to \<open>a\<close>.
\<close>

lemma relink:
  assumes "path_shape (v_heap s) (v_root s) a c" and ab: "a \<noteq> 0" "b \<noteq> 0" "v_heap s a = Some na" "v_heap s b = Some nb"
    and "shape (v_heap s) b x" and "distinct (before c @ a # inorder x @ b # behind c)"
  shows "\<exists>s1 s2 s3 s4 s5. upd_node a fa s = Some s1 \<and> node_at b s1 = Some nb \<and> set_parent (addr x) a s1 = Some s2
     \<and> upd_node b fb s2 = Some s3 \<and> child_replace a b (up_addr c) s3 = Some s4 \<and> upd_node a ga s4 = Some s5
     \<and> v_heap s5 a = Some (ga (fa na)) \<and> v_heap s5 b = Some (fb nb) \<and> shape (v_heap s5) a x
     \<and> path_shape (v_heap s5) (v_root s5) b c
     \<and> (\<forall>z. z \<notin> set (before c @ a # inorder x @ b # behind c) \<longrightarrow> v_heap s5 z = v_heap s z)"
proof -
  let ?h = "v_heap s" and ?C = "before c @ behind c"
  have dC: "z \<noteq> a" "z \<notin> set (inorder x)" "z \<noteq> b" if "z \<in> set ?C" for z using assms(7) that by auto
  have dx: "a \<notin> set (inorder x)" "b \<notin> set (inorder x)" "a \<noteq> b" "distinct (inorder x)" "distinct ?C" "a \<notin> set ?C" "b \<notin> set ?C"
    using assms(7) by auto
  have dd: "z \<notin> set ?C" "z \<noteq> a" "z \<noteq> b" if "z \<in> set (inorder x)" for z using assms(7) that by auto
  define s1 where "s1 = s\<lparr>v_heap := ?h(a \<mapsto> fa na)\<rparr>"
  have "shape (v_heap s1) b x" using assms(6) dx by (simp add: s1_def)
  from set_parent_rep[OF this dx(4), of a] obtain s2 where
    s2: "set_parent (addr x) a s1 = Some s2" "v_root s2 = v_root s" "shape (v_heap s2) a x"
      "\<And>z. z \<notin> set (inorder x) \<Longrightarrow> v_heap s2 z = v_heap s1 z" by (auto simp: s1_def)
  define s3 where "s3 = s2\<lparr>v_heap := (v_heap s2)(b \<mapsto> fb nb)\<rparr>"
  have b2: "v_heap s2 b = Some nb" using s2(4)[of b] ab dx by (simp add: s1_def)
  have "v_heap s3 z = ?h z" if "z \<in> set ?C" for z
    using dC[OF that] s2(4)[of z] by (simp add: s3_def s1_def)
  then have "path_shape (v_heap s3) (v_root s3) a c"
    using path_cong[of c "v_heap s3" ?h] assms(1) s2(2) by (simp add: s3_def)
  then obtain s4 where s4: "child_replace a b (up_addr c) s3 = Some s4" "path_shape (v_heap s4) (v_root s4) b c"
      "\<And>z. z \<notin> set ?C \<Longrightarrow> v_heap s4 z = v_heap s3 z"
    using child_replace_rep[of s3 a c b] ab(1) dx(5,6) by blast
  have a4: "v_heap s4 a = Some (fa na)" using s4(3)[of a] s2(4)[of a] dx by (simp add: s3_def s1_def)
  define s5 where "s5 = s4\<lparr>v_heap := (v_heap s4)(a \<mapsto> ga (fa na))\<rparr>"
  have "v_heap s5 b = Some (fb nb)" using s4(3)[of b] dx by (simp add: s3_def s5_def)
  moreover have "shape (v_heap s5) a x"
    using shape_cong[of x "v_heap s5" "v_heap s2"] s2(3) s4(3) dd by (simp add: s5_def s3_def)
  moreover have "path_shape (v_heap s5) (v_root s5) b c" using s4(2) dx by (simp add: s5_def)
  moreover have "v_heap s5 z = ?h z" if "z \<notin> set (before c @ a # inorder x @ b # behind c)" for z
    using that s4(3)[of z] s2(4)[of z] by (simp add: s5_def s3_def s1_def)
  ultimately show ?thesis using ab a4 b2 dx s2(1) s4(1)
    by (intro exI[of _ s1] exI[of _ s2] exI[of _ s3] exI[of _ s4] exI[of _ s5])
       (simp add: upd_node_run node_at_run s1_def s3_def s5_def)
qed

lemma rotate_left_rep:
  assumes "rep F s (Bin l a k (Bin x b j y)) c"
  shows "\<exists>s'. rotate_left a s = Some (b, s') \<and> rep F s' (Bin (Bin l a k x) b j y) c"
proof -
  let ?h = "v_heap s"
  have sh: "a \<noteq> 0" "b \<noteq> 0" "path_shape ?h (v_root s) a c"
      "?h a = Some \<lparr>n_left = addr l, n_right = b, n_parent = up_addr c, n_height = k\<rparr>"
      "?h b = Some \<lparr>n_left = addr x, n_right = addr y, n_parent = a, n_height = j\<rparr>"
      "shape ?h a l" "shape ?h b x" "shape ?h b y"
    using assms by (auto simp: rep_def)
  have ds: "distinct (before c @ (inorder l @ a # inorder x @ b # inorder y) @ behind c)"
    using assms by (simp add: rep_def)
  then have "distinct (before c @ a # inorder x @ b # behind c)" by auto
  from relink[OF sh(3,1,2,4,5,7) this, of "n_right_update (\<lambda>_. addr x)"
      "\<lambda>m. m\<lparr>n_left := a, n_parent := up_addr c\<rparr>" "n_parent_update (\<lambda>_. b)"]
  obtain s5 where run: "rotate_left a s = Some (b, s5)"
    and r: "v_heap s5 a = Some \<lparr>n_left = addr l, n_right = addr x, n_parent = b, n_height = k\<rparr>"
      "v_heap s5 b = Some \<lparr>n_left = a, n_right = addr y, n_parent = up_addr c, n_height = j\<rparr>"
      "shape (v_heap s5) a x" "path_shape (v_heap s5) (v_root s5) b c"
    and far: "\<And>z. z \<notin> set (before c @ a # inorder x @ b # behind c) \<Longrightarrow> v_heap s5 z = ?h z"
    using sh by (auto simp: rotate_left_def node_at_run)
  have "z \<notin> set (before c @ a # inorder x @ b # behind c)" if "z \<in> set (inorder l) \<union> set (inorder y)" for z
    using ds that by auto
  then have "shape (v_heap s5) a l" "shape (v_heap s5) b y"
    using shape_cong[of l "v_heap s5" ?h] shape_cong[of y "v_heap s5" ?h] sh far by auto
  then have "rep F s5 (Bin (Bin l a k x) b j y) c"
    using assms far r sh(1,2) ds by (simp add: rep_def)
  then show ?thesis using run by blast
qed

lemma rotate_right_rep:
  assumes "rep F s (Bin (Bin y b j x) a k r) c"
  shows "\<exists>s'. rotate_right a s = Some (b, s') \<and> rep F s' (Bin y b j (Bin x a k r)) c"
proof -
  let ?h = "v_heap s"
  have sh: "a \<noteq> 0" "b \<noteq> 0" "path_shape ?h (v_root s) a c"
      "?h a = Some \<lparr>n_left = b, n_right = addr r, n_parent = up_addr c, n_height = k\<rparr>"
      "?h b = Some \<lparr>n_left = addr y, n_right = addr x, n_parent = a, n_height = j\<rparr>"
      "shape ?h a r" "shape ?h b x" "shape ?h b y"
    using assms by (auto simp: rep_def)
  have ds: "distinct (before c @ (inorder y @ b # inorder x @ a # inorder r) @ behind c)"
    using assms by (simp add: rep_def)
  then have "distinct (before c @ a # inorder x @ b # behind c)" by auto
  from relink[OF sh(3,1,2,4,5,7) this, of "n_left_update (\<lambda>_. addr x)"
      "\<lambda>m. m\<lparr>n_right := a, n_parent := up_addr c\<rparr>" "n_parent_update (\<lambda>_. b)"]
  obtain s5 where run: "rotate_right a s = Some (b, s5)"
    and e: "v_heap s5 a = Some \<lparr>n_left = addr x, n_right = addr r, n_parent = b, n_height = k\<rparr>"
      "v_heap s5 b = Some \<lparr>n_left = addr y, n_right = a, n_parent = up_addr c, n_height = j\<rparr>"
      "shape (v_heap s5) a x" "path_shape (v_heap s5) (v_root s5) b c"
    and far: "\<And>z. z \<notin> set (before c @ a # inorder x @ b # behind c) \<Longrightarrow> v_heap s5 z = ?h z"
    using sh by (auto simp: rotate_right_def node_at_run)
  have "z \<notin> set (before c @ a # inorder x @ b # behind c)" if "z \<in> set (inorder r) \<union> set (inorder y)" for z
    using ds that by auto
  then have "shape (v_heap s5) a r" "shape (v_heap s5) b y"
    using shape_cong[of r "v_heap s5" ?h] shape_cong[of y "v_heap s5" ?h] sh far by auto
  then have "rep F s5 (Bin y b j (Bin x a k r)) c"
    using assms far e sh(1,2) ds by (simp add: rep_def)
  then show ?thesis using run by blast
qed

section \<open>Rebalancing\<close>

text \<open>The node with its height computed, and the two fixes, on trees.\<close>

definition bin :: "ptree \<Rightarrow> nat \<Rightarrow> ptree \<Rightarrow> ptree" where
  "bin l a r = Bin l a (max (ht l) (ht r) + 1) r"

fun t_fix_l :: "ptree \<Rightarrow> ptree" where
  "t_fix_l (Bin l a k (Bin (Bin x b j y) d i z)) =
     (if j > ht z then bin (bin l a x) b (bin y d z) else bin (bin l a (Bin x b j y)) d z)"
| "t_fix_l (Bin l a k (Bin Tip d i z)) = bin (bin l a Tip) d z"
| "t_fix_l t = t"

fun t_fix_r :: "ptree \<Rightarrow> ptree" where
  "t_fix_r (Bin (Bin z d i (Bin y b j x)) a k r) =
     (if ht z < j then bin (bin z d y) b (bin x a r) else bin z d (bin (Bin y b j x) a r))"
| "t_fix_r (Bin (Bin z d i Tip) a k r) = bin z d (bin Tip a r)"
| "t_fix_r t = t"

lemma height_at_rep: "shape (v_heap s) q t \<Longrightarrow> height_at (addr t) s = Some (ht t)"
  by (cases t) (auto simp: height_at_def node_at_def)

lemma child_heights_rep: "rep F s (Bin l a k r) c \<Longrightarrow> child_heights a s = Some (ht l, ht r)"
  using height_at_rep[of s a l] height_at_rep[of s a r] by (simp add: child_heights_def rep_def node_at_def)

lemma set_height_rep:
  assumes "rep F s (Bin l a k r) c"
  shows "\<exists>s'. upd_node a (n_height_update (\<lambda>_. k')) s = Some s' \<and> rep F s' (Bin l a k' r) c"
  using assms by (auto simp: rep_def upd_node_def node_at_def)

lemma AVL_MAX_max: "AVL_MAX x y = max x y"
  by (simp add: AVL_MAX_def)

lemma height_update_rep:
  assumes "rep F s (Bin l a k r) c"
  shows "\<exists>s'. height_update a s = Some s' \<and> rep F s' (bin l a r) c"
  using set_height_rep[OF assms] child_heights_rep[OF assms] by (simp add: height_update_def AVL_MAX_max bin_def)

text \<open>Rotating and then computing the heights of the two nodes that moved.\<close>

lemma rotate_left_heights:
  assumes "rep F s (Bin l a k (Bin x b j y)) c"
  shows "\<exists>s1 n s2 s3. rotate_left a s = Some (b, s1) \<and> node_at b s1 = Some n \<and> height_update (n_left n) s1 = Some s2
     \<and> height_update b s2 = Some s3 \<and> rep F s3 (bin (bin l a x) b y) c"
proof -
  obtain s1 where s1: "rotate_left a s = Some (b, s1)" "rep F s1 (Bin (Bin l a k x) b j y) c"
    using rotate_left_rep[OF assms] by blast
  obtain s2 where s2: "height_update a s1 = Some s2" "rep F s2 (bin l a x) ((True, b, j, y) # c)"
    using height_update_rep s1(2) unfolding rep_left[of _ _ "Bin l a k x"] by blast
  obtain s3 where s3: "height_update b s2 = Some s3" "rep F s3 (bin (bin l a x) b y) c"
    using height_update_rep s2(2) unfolding rep_left[symmetric] by blast
  show ?thesis using s1(1) rep_node(1)[OF s1(2)] s2(1) s3 by simp
qed

lemma rotate_right_heights:
  assumes "rep F s (Bin (Bin y b j x) a k r) c"
  shows "\<exists>s1 n s2 s3. rotate_right a s = Some (b, s1) \<and> node_at b s1 = Some n \<and> height_update (n_right n) s1 = Some s2
     \<and> height_update b s2 = Some s3 \<and> rep F s3 (bin y b (bin x a r)) c"
proof -
  obtain s1 where s1: "rotate_right a s = Some (b, s1)" "rep F s1 (Bin y b j (Bin x a k r)) c"
    using rotate_right_rep[OF assms] by blast
  obtain s2 where s2: "height_update a s1 = Some s2" "rep F s2 (bin x a r) ((False, b, j, y) # c)"
    using height_update_rep s1(2) unfolding rep_right[of _ _ y] by blast
  obtain s3 where s3: "height_update b s2 = Some s3" "rep F s3 (bin y b (bin x a r)) c"
    using height_update_rep s2(2) unfolding rep_right[symmetric] by blast
  show ?thesis using s1(1) rep_node(1)[OF s1(2)] s2(1) s3 by simp
qed

lemma fix_l_rep:
  assumes "rep F s (Bin l a k (Bin rl d i z)) c" and "0 \<le> ht z"
  shows "\<exists>s'. fix_l a s = Some (addr (t_fix_l (Bin l a k (Bin rl d i z))), s')
     \<and> rep F s' (t_fix_l (Bin l a k (Bin rl d i z))) c"
proof (cases "ht rl > ht z")
  case True
  then obtain x b j y where rl: "rl = Bin x b j y" using assms(2) by (cases rl) auto
  have "rep F s (Bin (Bin x b j y) d i z) ((False, a, k, l) # c)" using assms(1) rl by (simp add: rep_right[symmetric])
  then obtain s1 n s2 s3 where r: "rotate_right d s = Some (b, s1)" "node_at b s1 = Some n"
      "height_update (n_right n) s1 = Some s2" "height_update b s2 = Some s3"
      "rep F s3 (bin x b (bin y d z)) ((False, a, k, l) # c)"
    using rotate_right_heights by blast
  then have "rep F s3 (Bin l a k (Bin x b (ht (bin x b (bin y d z))) (bin y d z))) c"
    by (simp add: rep_right[symmetric] bin_def)
  from rotate_left_heights[OF this] show ?thesis
    using True rl r(1-4) rep_node[OF assms(1)] child_heights_rep[OF iffD1[OF rep_right assms(1)]]
    by (auto simp: fix_l_def bin_def)
next
  case False
  then have t: "t_fix_l (Bin l a k (Bin rl d i z)) = bin (bin l a rl) d z" by (cases rl) auto
  then show ?thesis
    using False rotate_left_heights[OF assms(1)] rep_node[OF assms(1)] child_heights_rep[OF iffD1[OF rep_right assms(1)]]
    by (auto simp: fix_l_def bin_def)
qed

lemma fix_r_rep:
  assumes "rep F s (Bin (Bin z d i lr) a k r) c" and "0 \<le> ht z"
  shows "\<exists>s'. fix_r a s = Some (addr (t_fix_r (Bin (Bin z d i lr) a k r)), s')
     \<and> rep F s' (t_fix_r (Bin (Bin z d i lr) a k r)) c"
proof (cases "ht z < ht lr")
  case True
  then obtain x b j y where lr: "lr = Bin y b j x" using assms(2) by (cases lr) auto
  have "rep F s (Bin z d i (Bin y b j x)) ((True, a, k, r) # c)" using assms(1) lr by (simp add: rep_left[symmetric])
  then obtain s1 n s2 s3 where e: "rotate_left d s = Some (b, s1)" "node_at b s1 = Some n"
      "height_update (n_left n) s1 = Some s2" "height_update b s2 = Some s3"
      "rep F s3 (bin (bin z d y) b x) ((True, a, k, r) # c)"
    using rotate_left_heights by blast
  then have "rep F s3 (Bin (Bin (bin z d y) b (ht (bin (bin z d y) b x)) x) a k r) c"
    by (simp add: rep_left[symmetric] bin_def)
  from rotate_right_heights[OF this] show ?thesis
    using True lr e(1-4) rep_node[OF assms(1)] child_heights_rep[OF iffD1[OF rep_left assms(1)]]
    by (auto simp: fix_r_def bin_def)
next
  case False
  then have t: "t_fix_r (Bin (Bin z d i lr) a k r) = bin z d (bin lr a r)" by (cases lr) auto
  then show ?thesis
    using False rotate_right_heights[OF assms(1)] rep_node[OF assms(1)] child_heights_rep[OF iffD1[OF rep_left assms(1)]]
    by (auto simp: fix_r_def bin_def)
qed

fun heights_ok :: "ptree \<Rightarrow> bool" where
  "heights_ok Tip \<longleftrightarrow> True"
| "heights_ok (Bin l a k r) \<longleftrightarrow> k = max (ht l) (ht r) + 1 \<and> heights_ok l \<and> heights_ok r"

lemma heights_ok_nonneg: "heights_ok t \<Longrightarrow> 0 \<le> ht t \<and> (ht t = 0 \<longleftrightarrow> t = Tip)"
  by (induction t) auto

definition t_fix :: "ptree \<Rightarrow> ptree" where
  "t_fix t = (case t of Tip \<Rightarrow> Tip | Bin l a k r \<Rightarrow>
     if ht l - ht r \<le> - 2 then t_fix_l t else if ht l - ht r \<ge> 2 then t_fix_r t else t)"

lemma fix_node_rep:
  assumes "rep F s (Bin l a k r) c" and "heights_ok l" and "heights_ok r"
  shows "\<exists>s'. fix_node (ht l - ht r) a s = Some (addr (t_fix (Bin l a k r)), s') \<and> rep F s' (t_fix (Bin l a k r)) c"
proof -
  note nn = heights_ok_nonneg[OF assms(2)] heights_ok_nonneg[OF assms(3)]
  consider "ht l - ht r \<le> - 2" | "ht l - ht r \<ge> 2" | "- 2 < ht l - ht r" "ht l - ht r < 2" by linarith
  then show ?thesis
  proof cases
    case 1
    then obtain x d i z where r: "r = Bin x d i z" using nn by (cases r) auto
    have "0 \<le> ht z" using assms(3) heights_ok_nonneg[of z] r by simp
    then show ?thesis using 1 fix_l_rep[of F s l a k x d i z c] assms(1) r by (simp add: fix_node_def t_fix_def)
  next
    case 2
    then obtain x d i z where l: "l = Bin z d i x" using nn by (cases l) auto
    have "0 \<le> ht z" using assms(2) heights_ok_nonneg[of z] l by simp
    then show ?thesis using 2 fix_r_rep[of F s z d i x a k r c] assms(1) l by (simp add: fix_node_def t_fix_def)
  next
    case 3
    then show ?thesis using assms(1) by (simp add: fix_node_def t_fix_def)
  qed
qed

section \<open>Balance\<close>

fun avl :: "ptree \<Rightarrow> bool" where
  "avl Tip \<longleftrightarrow> True"
| "avl (Bin l a k r) \<longleftrightarrow> k = max (ht l) (ht r) + 1 \<and> \<bar>ht l - ht r\<bar> \<le> 1 \<and> avl l \<and> avl r"

text \<open>The path is balanced around a hole of height \<open>k0\<close>.\<close>

fun path_avl :: "int \<Rightarrow> path \<Rightarrow> bool" where
  "path_avl k0 [] \<longleftrightarrow> True"
| "path_avl k0 ((d, a, k, s) # c) \<longleftrightarrow> k = max k0 (ht s) + 1 \<and> \<bar>k0 - ht s\<bar> \<le> 1 \<and> avl s \<and> path_avl k c"

lemma avl_heights: "avl t \<Longrightarrow> heights_ok t"
  by (induction t) auto

lemma avl_nonneg: "avl t \<Longrightarrow> 0 \<le> ht t"
  using heights_ok_nonneg avl_heights by blast

lemma avl_plug: "avl (plug t c) \<longleftrightarrow> avl t \<and> path_avl (ht t) c"
proof (induction t c rule: plug.induct)
  case (2 t d a k s c)
  then show ?case by (cases d) auto
qed simp

lemma t_fix_avl:
  assumes "avl l" and "avl r" and "\<bar>ht l - ht r\<bar> \<le> 2"
  shows "avl (t_fix (bin l a r))" and "inorder (t_fix (bin l a r)) = inorder l @ a # inorder r"
    and "ht (t_fix (bin l a r)) = max (ht l) (ht r) \<or> ht (t_fix (bin l a r)) = max (ht l) (ht r) + 1"
    and "\<bar>ht l - ht r\<bar> \<le> 1 \<Longrightarrow> ht (t_fix (bin l a r)) = max (ht l) (ht r) + 1"
proof -
  note nn = avl_nonneg[OF assms(1)] avl_nonneg[OF assms(2)]
  consider "ht r = ht l + 2" | "ht l = ht r + 2" | "\<bar>ht l - ht r\<bar> \<le> 1" using assms(3) by linarith
  then have "avl (t_fix (bin l a r)) \<and> inorder (t_fix (bin l a r)) = inorder l @ a # inorder r
    \<and> (ht (t_fix (bin l a r)) = max (ht l) (ht r) \<or> ht (t_fix (bin l a r)) = max (ht l) (ht r) + 1)
    \<and> (\<bar>ht l - ht r\<bar> \<le> 1 \<longrightarrow> ht (t_fix (bin l a r)) = max (ht l) (ht r) + 1)"
  proof cases
    case 1
    then obtain x d i z where r: "r = Bin x d i z" using nn by (cases r) auto
    have "t_fix (bin l a r) = t_fix_l (bin l a r)" using 1 by (simp add: t_fix_def bin_def)
    then show ?thesis using 1 r assms avl_nonneg by (cases x) (auto simp: bin_def)
  next
    case 2
    then obtain x d i z where l: "l = Bin x d i z" using nn by (cases l) auto
    have "t_fix (bin l a r) = t_fix_r (bin l a r)" using 2 by (simp add: t_fix_def bin_def)
    then show ?thesis using 2 l assms avl_nonneg by (cases z) (auto simp: bin_def)
  next
    case 3
    then have "t_fix (bin l a r) = bin l a r" by (auto simp: t_fix_def bin_def)
    then show ?thesis using 3 assms by (simp add: bin_def)
  qed
  then show "avl (t_fix (bin l a r))" "inorder (t_fix (bin l a r)) = inorder l @ a # inorder r"
    "ht (t_fix (bin l a r)) = max (ht l) (ht r) \<or> ht (t_fix (bin l a r)) = max (ht l) (ht r) + 1"
    "\<bar>ht l - ht r\<bar> \<le> 1 \<Longrightarrow> ht (t_fix (bin l a r)) = max (ht l) (ht r) + 1" by blast+
qed

text \<open>One round of either loop: the height is stored, the node is fixed, the place of work moves up.\<close>

lemma fix_round:
  assumes "rep F s (Bin l a k r) c" and "avl l" and "avl r"
  shows "\<exists>s1 s2 m. upd_node a (n_height_update (\<lambda>_. max (ht l) (ht r) + 1)) s = Some s1
     \<and> fix_node (ht l - ht r) a s1 = Some (addr (t_fix (bin l a r)), s2)
     \<and> rep F s2 (t_fix (bin l a r)) c \<and> node_at (addr (t_fix (bin l a r))) s2 = Some m \<and> n_parent m = up_addr c"
proof -
  obtain s1 where s1: "upd_node a (n_height_update (\<lambda>_. max (ht l) (ht r) + 1)) s = Some s1" "rep F s1 (bin l a r) c"
    using set_height_rep[OF assms(1)] by (auto simp: bin_def)
  obtain s2 where s2: "fix_node (ht l - ht r) a s1 = Some (addr (t_fix (bin l a r)), s2)" "rep F s2 (t_fix (bin l a r)) c"
    using fix_node_rep[of F s1 l a _ r c] s1(2) avl_heights assms(2,3) by (auto simp: bin_def)
  have "t_fix (bin l a r) \<noteq> Tip"
    by (auto simp: t_fix_def bin_def split: if_splits elim!: t_fix_l.elims t_fix_r.elims)
  then obtain l' a' k' r' where "t_fix (bin l a r) = Bin l' a' k' r'" by (cases "t_fix (bin l a r)") auto
  then show ?thesis using s1(1) s2 rep_node[of F s2 l' a' k' r' c] by simp
qed

lemma frame_cases:
  assumes "rep F s t ((d, a, k, u) # c)" and "avl t" and "path_avl k0 ((d, a, k, u) # c)"
  obtains l r where "rep F s (Bin l a k r) c" "avl l" "avl r" "plug t ((d, a, k, u) # c) = plug (Bin l a k r) c"
    "(ht l, ht r) = (if d then (ht t, ht u) else (ht u, ht t))"
proof (cases d)
  case True
  then show ?thesis using that[of t u] assms by (simp add: rep_left[symmetric])
next
  case False
  then show ?thesis using that[of u t] assms by (simp add: rep_right[symmetric])
qed

lemma post_insert_loop_rep:
  assumes "rep F s t c" and "avl t" and "path_avl k0 c" and "ht t = k0 \<or> ht t = k0 + 1"
  shows "\<exists>s' T. post_insert_loop (up_addr c) s = Some s' \<and> rep F s' T [] \<and> avl T \<and> inorder T = inorder (plug t c)"
  using assms
proof (induction c arbitrary: s t k0)
  case Nil
  then show ?case by (auto simp: post_insert_loop.simps)
next
  case (Cons f c)
  obtain d a k u where f: "f = (d, a, k, u)" by (cases f)
  from Cons.prems(1,2,3)[unfolded f] obtain l r where
    lr: "rep F s (Bin l a k r) c" "avl l" "avl r" "plug t ((d, a, k, u) # c) = plug (Bin l a k r) c"
      "(ht l, ht r) = (if d then (ht t, ht u) else (ht u, ht t))" by (rule frame_cases)
  have k: "k = max k0 (ht u) + 1" "\<bar>k0 - ht u\<bar> \<le> 1" "path_avl k c" using Cons.prems(3) f by auto
  note run = rep_node[OF lr(1)] child_heights_rep[OF lr(1)] AVL_MAX_max
  show ?case
  proof (cases "k = max (ht l) (ht r) + 1")
    case True
    then have "\<bar>ht l - ht r\<bar> \<le> 1" using k Cons.prems(4) lr(5) by (auto split: if_splits)
    then have "avl (plug (Bin l a k r) c)" using True lr(2,3) k(3) by (simp add: avl_plug)
    then show ?thesis
      using True lr(1,4) run f rep_plug[of F s "Bin l a k r" c] by (auto simp: post_insert_loop.simps)
  next
    case False
    let ?t = "t_fix (bin l a r)"
    have "\<bar>ht l - ht r\<bar> \<le> 2" using k Cons.prems(4) lr(5) by (auto split: if_splits)
    note fx = t_fix_avl[OF lr(2,3) this, of a]
    have "ht ?t = k \<or> ht ?t = k + 1" using fx(3,4) k False Cons.prems(4) lr(5) by (auto simp: max_def split: if_splits)
    moreover obtain s1 s2 m where rnd: "upd_node a (n_height_update (\<lambda>_. max (ht l) (ht r) + 1)) s = Some s1"
        "fix_node (ht l - ht r) a s1 = Some (addr ?t, s2)" "rep F s2 ?t c" "node_at (addr ?t) s2 = Some m"
        "n_parent m = up_addr c"
      using fix_round[OF lr(1-3)] by blast
    ultimately obtain s' T where "post_insert_loop (up_addr c) s2 = Some s'" "rep F s' T []" "avl T"
        "inorder T = inorder (plug ?t c)"
      using Cons.IH[OF _ fx(1) k(3)] by blast
    then show ?thesis using False rnd run f lr(4) fx(2)
      by (auto simp: post_insert_loop.simps[of a] inorder_plug)
  qed
qed

lemma rebalance_rep:
  assumes "rep F s t c" and "avl t" and "path_avl k0 c" and "ht t = k0 \<or> ht t = k0 - 1"
  shows "\<exists>s' T. rebalance (up_addr c) s = Some s' \<and> rep F s' T [] \<and> avl T \<and> inorder T = inorder (plug t c)"
  using assms
proof (induction c arbitrary: s t k0)
  case Nil
  then show ?case by (auto simp: rebalance.simps)
next
  case (Cons f c)
  obtain d a k u where f: "f = (d, a, k, u)" by (cases f)
  from Cons.prems(1,2,3)[unfolded f] obtain l r where
    lr: "rep F s (Bin l a k r) c" "avl l" "avl r" "plug t ((d, a, k, u) # c) = plug (Bin l a k r) c"
      "(ht l, ht r) = (if d then (ht t, ht u) else (ht u, ht t))" by (rule frame_cases)
  have k: "k = max k0 (ht u) + 1" "\<bar>k0 - ht u\<bar> \<le> 1" "path_avl k c" using Cons.prems(3) f by auto
  note run = rep_node[OF lr(1)] child_heights_rep[OF lr(1)] AVL_MAX_max
  show ?case
  proof (cases "k = max (ht l) (ht r) + 1 \<and> ht l - ht r \<ge> - 1 \<and> ht l - ht r \<le> 1")
    case True
    then have "\<bar>ht l - ht r\<bar> \<le> 1" by linarith
    then have "avl (plug (Bin l a k r) c)" using True lr(2,3) k(3) by (simp add: avl_plug)
    then show ?thesis
      using True lr(1,4) run f rep_plug[of F s "Bin l a k r" c] by (auto simp: rebalance.simps)
  next
    case False
    let ?t = "t_fix (bin l a r)"
    have "\<bar>ht l - ht r\<bar> \<le> 2" using k Cons.prems(4) lr(5) by (auto split: if_splits)
    note fx = t_fix_avl[OF lr(2,3) this, of a]
    have "ht ?t = k \<or> ht ?t = k - 1" using fx(3,4) k False Cons.prems(4) lr(5) by (auto simp: max_def split: if_splits)
    moreover obtain s1 s2 m where rnd: "upd_node a (n_height_update (\<lambda>_. max (ht l) (ht r) + 1)) s = Some s1"
        "fix_node (ht l - ht r) a s1 = Some (addr ?t, s2)" "rep F s2 ?t c" "node_at (addr ?t) s2 = Some m"
        "n_parent m = up_addr c"
      using fix_round[OF lr(1-3)] by blast
    ultimately obtain s' T where "rebalance (up_addr c) s2 = Some s'" "rep F s' T []" "avl T"
        "inorder T = inorder (plug ?t c)"
      using Cons.IH[OF _ fx(1) k(3)] by blast
    then show ?thesis using False rnd run f lr(4) fx(2)
      by (auto simp: rebalance.simps[of a] inorder_plug)
  qed
qed

section \<open>Taking a node out of its place\<close>

lemma rep_append: "rep F s (plug t p) c \<longleftrightarrow> rep F s t (p @ c)"
proof (induction t p rule: plug.induct)
  case (2 t d a k s' p)
  then show ?case by (cases d) (simp_all add: rep_left[symmetric] rep_right[symmetric])
qed simp

lemma rep_frame: "rep F s t c \<Longrightarrow> (\<And>z. z \<notin> set (before c @ inorder t @ behind c) \<Longrightarrow> F z = F' z) \<Longrightarrow> rep F' s t c"
  by (auto simp: rep_def)

text \<open>A node with at most one child is taken out: the child takes its place.\<close>

lemma unlink_path:
  assumes "rep F s (Bin l a k r) c" and "x = (if l = Tip then r else l)" and "l = Tip \<or> r = Tip"
    and "shape (v_heap s') (up_addr c) x" and "path_shape (v_heap s') (v_root s') (addr x) c"
    and "\<And>z. z \<notin> set (before c @ inorder x @ behind c) \<Longrightarrow> v_heap s' z = v_heap s z"
  shows "rep (F(a := v_heap s a)) s' x c"
  using assms by (auto simp: rep_def split: if_splits)

lemma unlink1_rep:
  assumes "rep F s (Bin l a k r) c" and "x = (if l = Tip then r else l)" and "l = Tip \<or> r = Tip"
  shows "\<exists>s1 s2. child_replace a (addr x) (up_addr c) s = Some s1 \<and> set_parent (addr x) (up_addr c) s1 = Some s2
     \<and> rep (F(a := v_heap s a)) s2 x c"
proof -
  let ?C = "before c @ behind c"
  have sh: "a \<noteq> 0" "path_shape (v_heap s) (v_root s) a c" "shape (v_heap s) a x"
    and d: "a \<notin> set ?C" "distinct ?C" "distinct (inorder x)" and dj: "set (inorder x) \<inter> set ?C = {}"
    using assms by (auto simp: rep_def split: if_splits)
  obtain s1 where s1: "child_replace a (addr x) (up_addr c) s = Some s1" "path_shape (v_heap s1) (v_root s1) (addr x) c"
      "\<And>z. z \<notin> set ?C \<Longrightarrow> v_heap s1 z = v_heap s z"
    using child_replace_rep[OF sh(2) d(1) sh(1) d(2), of "addr x"] by blast
  have "shape (v_heap s1) a x" using shape_cong[of x "v_heap s1" "v_heap s" a] s1(3) dj sh(3) by blast
  from set_parent_rep[OF this d(3), of "up_addr c"] obtain s2 where
    s2: "set_parent (addr x) (up_addr c) s1 = Some s2" "v_root s2 = v_root s1" "shape (v_heap s2) (up_addr c) x"
      "\<And>z. z \<notin> set (inorder x) \<Longrightarrow> v_heap s2 z = v_heap s1 z" by blast
  have "path_shape (v_heap s2) (v_root s2) (addr x) c"
    using path_cong[of c "v_heap s2" "v_heap s1"] s2(2,4) s1(2) dj by auto
  then show ?thesis using unlink_path[OF assms s2(3)] s1 s2 by auto
qed

lemma unlink2_rep:
  assumes "rep F s (Bin l a k r) c" and "x = (if l = Tip then r else l)" and "l = Tip \<or> r = Tip"
  shows "\<exists>s1 s2. set_parent (addr x) (up_addr c) s = Some s1 \<and> child_replace a (addr x) (up_addr c) s1 = Some s2
     \<and> v_heap s2 a = v_heap s a \<and> rep (F(a := v_heap s a)) s2 x c"
proof -
  let ?C = "before c @ behind c"
  have sh: "a \<noteq> 0" "path_shape (v_heap s) (v_root s) a c" "shape (v_heap s) a x"
    and d: "a \<notin> set ?C" "distinct ?C" "distinct (inorder x)" "a \<notin> set (inorder x)" and dj: "set (inorder x) \<inter> set ?C = {}"
    using assms by (auto simp: rep_def split: if_splits)
  from set_parent_rep[OF sh(3) d(3), of "up_addr c"] obtain s1 where
    s1: "set_parent (addr x) (up_addr c) s = Some s1" "v_root s1 = v_root s" "shape (v_heap s1) (up_addr c) x"
      "\<And>z. z \<notin> set (inorder x) \<Longrightarrow> v_heap s1 z = v_heap s z" by blast
  have "path_shape (v_heap s1) (v_root s1) a c"
    using path_cong[of c "v_heap s1" "v_heap s"] s1(2,4) sh(2) dj by auto
  from child_replace_rep[OF this d(1) sh(1) d(2), of "addr x"] obtain s2 where
    s2: "child_replace a (addr x) (up_addr c) s1 = Some s2" "path_shape (v_heap s2) (v_root s2) (addr x) c"
      "\<And>z. z \<notin> set ?C \<Longrightarrow> v_heap s2 z = v_heap s1 z" by blast
  have "shape (v_heap s2) (up_addr c) x"
    using shape_cong[of x "v_heap s2" "v_heap s1"] s2(3) dj s1(3) by blast
  then show ?thesis using unlink_path[OF assms _ s2(2)] s1 s2 d by auto
qed

text \<open>Another node takes the place of \<open>a\<close>, with the links and the height of \<open>a\<close>.\<close>

lemma subst_path:
  assumes "rep F s (Bin l a k r) c" and "m \<notin> set (before c @ inorder (Bin l a k r) @ behind c)" and "m \<noteq> 0"
    and "v_heap s' m = v_heap s a" and "path_shape (v_heap s') (v_root s') m c" and "shape (v_heap s') m l" and "shape (v_heap s') m r"
    and "\<And>z. z \<notin> set (before c @ m # inorder l @ inorder r @ behind c) \<Longrightarrow> v_heap s' z = v_heap s z"
  shows "rep (F(a := v_heap s a)) s' (Bin l m k r) c"
  using assms by (auto simp: rep_def)

lemma subst_children:
  assumes "shape (v_heap s) a l" and "shape (v_heap s) a r" and "distinct (inorder l @ inorder r)"
  shows "\<exists>s1 s2. set_parent (addr l) m s = Some s1 \<and> set_parent (addr r) m s1 = Some s2 \<and> v_root s2 = v_root s
     \<and> shape (v_heap s2) m l \<and> shape (v_heap s2) m r
     \<and> (\<forall>z. z \<notin> set (inorder l @ inorder r) \<longrightarrow> v_heap s2 z = v_heap s z)"
proof -
  obtain s1 where s1: "set_parent (addr l) m s = Some s1" "v_root s1 = v_root s" "shape (v_heap s1) m l"
      "\<And>z. z \<notin> set (inorder l) \<Longrightarrow> v_heap s1 z = v_heap s z"
    using set_parent_rep[OF assms(1), of m] assms(3) by auto
  have "shape (v_heap s1) a r" using shape_cong[of r "v_heap s1" "v_heap s"] s1(4) assms(2,3) by auto
  then obtain s2 where s2: "set_parent (addr r) m s1 = Some s2" "v_root s2 = v_root s1" "shape (v_heap s2) m r"
      "\<And>z. z \<notin> set (inorder r) \<Longrightarrow> v_heap s2 z = v_heap s1 z"
    using set_parent_rep[of s1 a r m] assms(3) by auto
  have "shape (v_heap s2) m l" using shape_cong[of l "v_heap s2" "v_heap s1"] s2(4) s1(3) assms(3) by auto
  then show ?thesis using s1 s2 by auto
qed

text \<open>Steps of \<open>avl_node_erase\<close> and \<open>avl_node_replace\<close> that put \<open>m\<close> in the place of \<open>a\<close>.\<close>

lemma substitute_rep:
  assumes "rep F s (Bin l a k r) c" and "m \<notin> set (before c @ inorder (Bin l a k r) @ behind c)" and "m \<noteq> 0"
    and "v_heap s m = Some m0"
  shows "\<exists>n s1 s2 s3 s4. node_at a s = Some n \<and> n_parent n = up_addr c \<and> upd_node m (\<lambda>_. n) s = Some s1
     \<and> child_replace a m (up_addr c) s1 = Some s2 \<and> node_at a s2 = Some n \<and> n_left n = addr l \<and> n_right n = addr r
     \<and> set_parent (addr l) m s2 = Some s3 \<and> set_parent (addr r) m s3 = Some s4
     \<and> rep (F(a := v_heap s a)) s4 (Bin l m k r) c"
proof -
  let ?C = "before c @ behind c" and ?n = "\<lparr>n_left = addr l, n_right = addr r, n_parent = up_addr c, n_height = k\<rparr>"
  have sh: "a \<noteq> 0" "v_heap s a = Some ?n" "path_shape (v_heap s) (v_root s) a c" "shape (v_heap s) a l" "shape (v_heap s) a r"
    using assms(1) by (auto simp: rep_def)
  have ds: "distinct (before c @ inorder l @ a # inorder r @ behind c)" using assms(1) by (simp add: rep_def)
  have d: "distinct ?C" "a \<notin> set ?C" "distinct (inorder l @ inorder r)" "a \<noteq> m" "m \<notin> set ?C" "m \<notin> set (inorder l @ inorder r)"
    using ds assms(2) by auto
  have dj: "z \<notin> set (inorder l @ inorder r)" "z \<noteq> m" if "z \<in> set ?C" for z using ds assms(2) that by auto
  have dj2: "z \<notin> set ?C" "z \<noteq> m" if "z \<in> set (inorder l) \<union> set (inorder r)" for z using ds assms(2) that by auto
  define s1 where "s1 = s\<lparr>v_heap := (v_heap s)(m \<mapsto> ?n)\<rparr>"
  have u1: "upd_node m (\<lambda>_. ?n) s = Some s1" using assms(3,4) by (simp add: upd_node_run s1_def)
  have "path_shape (v_heap s1) (v_root s1) a c" using sh(3) d(5) by (simp add: s1_def)
  from child_replace_rep[OF this d(2) sh(1) d(1), of m] obtain s2 where
    s2: "child_replace a m (up_addr c) s1 = Some s2" "path_shape (v_heap s2) (v_root s2) m c"
      "\<And>z. z \<notin> set ?C \<Longrightarrow> v_heap s2 z = v_heap s1 z" by blast
  have lr: "shape (v_heap s2) a l" "shape (v_heap s2) a r"
    using shape_cong[of l "v_heap s2" "v_heap s"] shape_cong[of r "v_heap s2" "v_heap s"] sh s2(3) dj2 by (auto simp: s1_def)
  obtain s3 s4 where s4: "set_parent (addr l) m s2 = Some s3" "set_parent (addr r) m s3 = Some s4" "v_root s4 = v_root s2"
      "shape (v_heap s4) m l" "shape (v_heap s4) m r"
      "\<And>z. z \<notin> set (inorder l @ inorder r) \<Longrightarrow> v_heap s4 z = v_heap s2 z"
    using subst_children[OF lr d(3), of m] by blast
  have "path_shape (v_heap s4) (v_root s4) m c"
    using path_cong[of c "v_heap s4" "v_heap s2"] s2(2) s4(3,6) dj(1) by simp
  moreover have "v_heap s4 m = v_heap s a" using s4(6)[OF d(6)] s2(3)[OF d(5)] sh(2) by (simp add: s1_def)
  moreover have "v_heap s4 z = v_heap s z" if "z \<notin> set (before c @ m # inorder l @ inorder r @ behind c)" for z
    using that s4(6)[of z] s2(3)[of z] by (simp add: s1_def)
  ultimately have "rep (F(a := v_heap s a)) s4 (Bin l m k r) c"
    using subst_path[OF assms(1-3), of s4] s4(4,5) by blast
  moreover have "node_at a s2 = Some ?n" using s2(3)[OF d(2)] d(4) sh by (simp add: s1_def node_at_run)
  ultimately show ?thesis using u1 s2(1) s4(1,2) sh(1,2) by (auto simp: node_at_run)
qed

lemma erase_one_rep:
  assumes "rep F s (Bin l a k r) c" and "x = (if l = Tip then r else l)" and "l = Tip \<or> r = Tip"
  shows "\<exists>s'. erase_one a s = Some (up_addr c, s') \<and> rep (F(a := v_heap s a)) s' x c"
proof -
  have "addr l = 0 \<longleftrightarrow> l = Tip" using assms(1) shape_addr by (auto simp: rep_def)
  then have "(if addr l = 0 then addr r else addr l) = addr x" using assms(2) by simp
  then show ?thesis
    using unlink1_rep[OF assms] rep_node(1)[OF assms(1)] by (auto simp: erase_one_def)
qed

lemma plug_append: "plug t (p @ c) = plug (plug t p) c"
  by (induction t p rule: plug.induct) auto

lemma before_append: "before (p @ c) = before c @ before p" "behind (p @ c) = behind p @ behind c"
  by (induction p rule: before.induct) auto

lemma up_addr_append: "up_addr (p @ c) = (if p = [] then up_addr c else up_addr p)"
  by (cases p rule: before.cases) auto

text \<open>The leftmost node of a subtree, with the path to it.\<close>

lemma go_left_rep:
  assumes "rep F s t c" and "t \<noteq> Tip"
  shows "\<exists>m j r p. go_left (addr t) s = Some m \<and> t = plug (Bin Tip m j r) p \<and> before p = []"
  using assms
proof (induction t arbitrary: c)
  case (Bin l a k r)
  note run = rep_node[OF Bin.prems(1)]
  show ?case
  proof (cases "l = Tip")
    case True
    then show ?thesis
      using run by (intro exI[of _ a] exI[of _ k] exI[of _ r] exI[of _ "[]"]) (simp add: go_left.simps)
  next
    case False
    have sub: "rep F s l ((True, a, k, r) # c)" using Bin.prems(1) by (simp add: rep_left)
    from Bin.IH(1)[OF this False] obtain m i z p where
      m: "go_left (addr l) s = Some m" "l = plug (Bin Tip m i z) p" "before p = []" by blast
    have "addr l \<noteq> 0" using sub False shape_addr by (auto simp: rep_def)
    then have "go_left a s = Some m" using m(1) run by (simp add: go_left.simps[of a])
    moreover have "Bin l a k r = plug (Bin Tip m i z) (p @ [(True, a, k, r)])" using m(2) by (simp add: plug_append)
    moreover have "before (p @ [(True, a, k, r)]) = []" using m(3) by (simp add: before_append)
    ultimately show ?thesis by (metis addr.simps(2))
  qed
qed simp

text \<open>
  A node with two children: its successor \<open>m\<close> is taken out below and put in its place. The place of
  work is then the successor's right subtree, below a path on which \<open>m\<close> stands for \<open>a\<close>.
\<close>

lemma erase_two_rep:
  assumes "rep F s (Bin l a k r) c" and "l \<noteq> Tip" and "r \<noteq> Tip"
  shows "\<exists>s' n m j y p. erase_two a s = Some (up_addr (p @ (False, m, k, l) # c), s') \<and> r = plug (Bin Tip m j y) p \<and> before p = []
     \<and> rep (F(a \<mapsto> n)) s' y (p @ (False, m, k, l) # c)"
proof -
  have rr: "rep F s r ((False, a, k, l) # c)" using assms(1) by (simp add: rep_right)
  obtain m j y p where m: "go_left (addr r) s = Some m" "r = plug (Bin Tip m j y) p" "before p = []"
    using go_left_rep[OF rr assms(3)] by blast
  let ?P = "p @ (False, a, k, l) # c"
  have rm: "rep F s (Bin Tip m j y) ?P" using rr m(2) by (simp add: rep_append)
  note nm = rep_node[OF rm]
  obtain s1 s2 where s2: "set_parent (addr y) (up_addr ?P) s = Some s1" "child_replace m (addr y) (up_addr ?P) s1 = Some s2"
      "v_heap s2 m = v_heap s m" "rep (F(m := v_heap s m)) s2 y ?P"
    using unlink2_rep[OF rm, of y] by auto
  have ra: "rep (F(m := v_heap s m)) s2 (Bin l a k (plug y p)) c"
    using s2(4) by (simp add: rep_append[symmetric] rep_right)
  have ds: "distinct (before ?P @ inorder (Bin Tip m j y) @ behind ?P)" using rm by (simp only: rep_def)
  have mout: "m \<notin> set (before c @ inorder (Bin l a k (plug y p)) @ behind c)"
    using ds by (auto simp: before_append inorder_plug)
  have "v_heap s m = Some \<lparr>n_left = 0, n_right = addr y, n_parent = up_addr ?P, n_height = j\<rparr>"
    using nm by (simp add: node_at_run)
  then have "\<exists>m0. v_heap s2 m = Some m0" using s2(3) by simp
  then obtain n s3 s4 s5 s6 where sub: "node_at a s2 = Some n" "n_parent n = up_addr c" "upd_node m (\<lambda>_. n) s2 = Some s3"
      "child_replace a m (up_addr c) s3 = Some s4" "node_at a s4 = Some n" "n_left n = addr l" "n_right n = addr (plug y p)"
      "set_parent (addr l) m s4 = Some s5" "set_parent (addr (plug y p)) m s5 = Some s6"
      "rep ((F(m := v_heap s m))(a := v_heap s2 a)) s6 (Bin l m k (plug y p)) c"
    using substitute_rep[OF ra mout nm(2)] by blast
  have "a \<noteq> up_addr p" if "p \<noteq> []"
    using ds that by (cases p rule: before.cases) (auto simp: before_append)
  then have par: "(if up_addr ?P = a then m else up_addr ?P) = up_addr (p @ (False, m, k, l) # c)"
    by (auto simp: up_addr_append)
  have "addr l \<noteq> 0" using assms(1,2) shape_addr by (auto simp: rep_def)
  then have l: "upd_node (addr l) (n_parent_update (\<lambda>_. m)) s4 = Some s5" using sub(8) by (simp add: set_parent_def)
  have nm2: "node_at m s2 = node_at m s" using s2(3) by (simp add: node_at_def)
  have "erase_two a s = Some (up_addr (p @ (False, m, k, l) # c), s6)"
    using rep_node[OF assms(1)] m(1) nm nm2 s2(1,2) sub l par by (simp add: erase_two_def split: if_split_asm)
  moreover have "rep (F(a \<mapsto> n)) s6 y (p @ (False, m, k, l) # c)"
  proof -
    have "rep (F(a \<mapsto> n)) s6 (Bin l m k (plug y p)) c"
      by (rule rep_frame[OF sub(10)]) (use sub(1) in \<open>auto simp: node_at_def split: if_splits\<close>)
    then show ?thesis by (simp add: rep_append[symmetric] rep_right)
  qed
  ultimately show ?thesis using m(2,3) by blast
qed

end
