(* ===== verification/Avl_Tree.thy ===== *)
theory Avl_Tree
  imports Avl_Shape "HOL-Library.Multiset"
begin

text \<open>
  The tree interface of \<open>avlmini.c\<close> as an ordered set. \<open>tree_inv key F t T\<close>: the heap holds the tree
  \<open>T\<close>, which is balanced, strictly ordered by the keys of the user's structures and has the counted
  number of nodes. The lemmas say what search, insertion, removal, traversal and tearing down do to the
  list of structures in key order; the properties at the end state it of the operations themselves.
\<close>

section \<open>The tree as an ordered set\<close>

text \<open>
  \<open>order_by cmp key x\<close>: the comparison function places the searched key \<open>x\<close> among the structures as
  their keys are ordered. \<open>key_of key t a\<close> is the key of the structure around the node \<open>a\<close>.
\<close>

definition order_by :: "(nat \<Rightarrow> int) \<Rightarrow> (nat \<Rightarrow> 'k :: linorder) \<Rightarrow> 'k \<Rightarrow> bool" where
  "order_by cmp key x \<longleftrightarrow> (\<forall>d. (cmp d = 0 \<longleftrightarrow> x = key d) \<and> (cmp d < 0 \<longleftrightarrow> x < key d))"

definition key_of :: "(nat \<Rightarrow> 'k) \<Rightarrow> avl_tree \<Rightarrow> nat \<Rightarrow> 'k" where
  "key_of key t a = key (node2data t a)"

definition entries :: "avl_tree \<Rightarrow> ptree \<Rightarrow> nat list" where
  "entries t T = map (node2data t) (inorder T)"

definition tree_inv :: "(nat \<Rightarrow> 'k :: linorder) \<Rightarrow> (nat \<Rightarrow> avl_node option) \<Rightarrow> avl_tree \<Rightarrow> ptree \<Rightarrow> bool" where
  "tree_inv key F t T \<longleftrightarrow> rep F (t_root t) T [] \<and> avl T \<and> sorted_wrt (\<lambda>a b. key_of key t a < key_of key t b) (inorder T)
     \<and> t_count t = of_nat (length (inorder T)) \<and> (\<forall>a \<in> set (inorder T). t_offset t < a)"

lemma tree_inv_init: "tree_inv key F (avl_tree_init F off) Tip"
  by (simp add: tree_inv_def avl_tree_init_def rep_def)

text \<open>The descent: in a subtree whose neighbours enclose the key, only that subtree can hold it.\<close>

lemma find_loop_rep:
  assumes "rep F (t_root t) T c" and "sorted_wrt (\<lambda>a b. key_of key t a < key_of key t b) (inorder T)" and "order_by cmp key x"
  shows "find_loop cmp t (addr T) = Some (case List.find (\<lambda>a. key_of key t a = x) (inorder T) of None \<Rightarrow> 0 | Some a \<Rightarrow> node2data t a)"
  using assms
proof (induction T arbitrary: c)
  case Tip
  then show ?case by (simp add: find_loop.simps)
next
  case (Bin l a k r)
  note run = rep_node[OF Bin.prems(1)]
  have ord: "sorted_wrt (\<lambda>a b. key_of key t a < key_of key t b) (inorder l)"
      "sorted_wrt (\<lambda>a b. key_of key t a < key_of key t b) (inorder r)"
      "\<forall>b \<in> set (inorder l). key_of key t b < key_of key t a" "\<forall>b \<in> set (inorder r). key_of key t a < key_of key t b"
    using Bin.prems(2) by (auto simp: sorted_wrt_append)
  have L: "find_loop cmp t (addr l) = Some (case List.find (\<lambda>a. key_of key t a = x) (inorder l) of None \<Rightarrow> 0 | Some a \<Rightarrow> node2data t a)"
    using Bin.IH(1)[OF _ ord(1) Bin.prems(3)] Bin.prems(1) unfolding rep_left by blast
  have R: "find_loop cmp t (addr r) = Some (case List.find (\<lambda>a. key_of key t a = x) (inorder r) of None \<Rightarrow> 0 | Some a \<Rightarrow> node2data t a)"
    using Bin.IH(2)[OF _ ord(2) Bin.prems(3)] Bin.prems(1) unfolding rep_right by blast
  have cmp: "cmp (node2data t a) = 0 \<longleftrightarrow> x = key_of key t a" "cmp (node2data t a) < 0 \<longleftrightarrow> x < key_of key t a"
    using Bin.prems(3) by (auto simp: order_by_def key_of_def)
  have none: "List.find P xs = None \<longleftrightarrow> (\<forall>y \<in> set xs. \<not> P y)" for P and xs :: "nat list" by (auto simp: find_None_iff)
  have app: "List.find P (xs @ ys) = (case List.find P xs of None \<Rightarrow> List.find P ys | Some y \<Rightarrow> Some y)" for P and xs ys :: "nat list"
    by (induction xs) auto
  consider "x = key_of key t a" | "x < key_of key t a" | "key_of key t a < x" by (rule linorder_cases)
  then show ?case
  proof cases
    case 1
    have "List.find (\<lambda>a. key_of key t a = x) (inorder l) = None" using 1 ord(3) by (auto simp: find_None_iff)
    then show ?thesis using 1 run cmp by (simp add: find_loop.simps[of _ _ a] app)
  next
    case 2
    have "List.find (\<lambda>a. key_of key t a = x) (inorder r) = None" using 2 ord(4) by (auto simp: find_None_iff)
    then show ?thesis using 2 run cmp L by (simp add: find_loop.simps[of _ _ a] app split: option.splits)
  next
    case 3
    have "List.find (\<lambda>a. key_of key t a = x) (inorder l) = None" using 3 ord(3) by (auto simp: find_None_iff)
    then show ?thesis using 3 run cmp R by (auto simp: find_loop.simps[of _ _ a] app)
  qed
qed

fun link_of :: "path \<Rightarrow> link_end" where
  "link_of [] = Link_root"
| "link_of ((d, a, k, s) # c) = (if d then Link_left a else Link_right a)"

lemma add_descend_rep:
  assumes "rep F (t_root t) T c" and "sorted_wrt (\<lambda>a b. key_of key t a < key_of key t b) (before c @ inorder T @ behind c)"
    and "order_by cmp key x" and "\<forall>a \<in> set (before c). key_of key t a < x" and "\<forall>a \<in> set (behind c). x < key_of key t a"
  shows "if \<exists>a \<in> set (inorder T). key_of key t a = x
    then \<exists>a \<in> set (inorder T). key_of key t a = x \<and> add_descend cmp t (addr T) (link_of c) = Some (Found (node2data t a))
    else \<exists>c'. add_descend cmp t (addr T) (link_of c) = Some (link_of c') \<and> plug Tip c' = plug T c
       \<and> (\<forall>a \<in> set (before c'). key_of key t a < x) \<and> (\<forall>a \<in> set (behind c'). x < key_of key t a)"
  using assms
proof (induction T arbitrary: c)
  case Tip
  then show ?case by (auto simp: add_descend.simps)
next
  case (Bin l a k r)
  note run = rep_node[OF Bin.prems(1)]
  have cmp: "cmp (node2data t a) = 0 \<longleftrightarrow> x = key_of key t a" "cmp (node2data t a) < 0 \<longleftrightarrow> x < key_of key t a"
    using Bin.prems(3) by (auto simp: order_by_def key_of_def)
  have ord: "\<forall>b \<in> set (inorder l). key_of key t b < key_of key t a" "\<forall>b \<in> set (inorder r). key_of key t a < key_of key t b"
    using Bin.prems(2) by (auto simp: sorted_wrt_append)
  consider "x = key_of key t a" | "x < key_of key t a" | "key_of key t a < x" by (rule linorder_cases)
  then show ?case
  proof cases
    case 1
    then show ?thesis using run cmp by (auto simp: add_descend.simps[of _ _ a])
  next
    case 2
    let ?c = "(True, a, k, r) # c"
    have "\<forall>a \<in> set (behind ?c). x < key_of key t a" using Bin.prems(5) 2 ord(2) by auto
    then have "if \<exists>a \<in> set (inorder l). key_of key t a = x
      then \<exists>a \<in> set (inorder l). key_of key t a = x \<and> add_descend cmp t (addr l) (link_of ?c) = Some (Found (node2data t a))
      else \<exists>c'. add_descend cmp t (addr l) (link_of ?c) = Some (link_of c') \<and> plug Tip c' = plug l ?c
         \<and> (\<forall>a \<in> set (before c'). key_of key t a < x) \<and> (\<forall>a \<in> set (behind c'). x < key_of key t a)"
      using Bin.prems by (intro Bin.IH(1)) (simp_all add: rep_left)
    moreover have "add_descend cmp t a (link_of c) = add_descend cmp t (addr l) (link_of ?c)"
      using 2 run cmp by (simp add: add_descend.simps[of _ _ a])
    ultimately show ?thesis using 2 ord(2) by (auto split: if_splits)
  next
    case 3
    let ?c = "(False, a, k, l) # c"
    have "\<forall>a \<in> set (before ?c). key_of key t a < x" using Bin.prems(4) 3 ord(1) by auto
    then have "if \<exists>a \<in> set (inorder r). key_of key t a = x
      then \<exists>a \<in> set (inorder r). key_of key t a = x \<and> add_descend cmp t (addr r) (link_of ?c) = Some (Found (node2data t a))
      else \<exists>c'. add_descend cmp t (addr r) (link_of ?c) = Some (link_of c') \<and> plug Tip c' = plug r ?c
         \<and> (\<forall>a \<in> set (before c'). key_of key t a < x) \<and> (\<forall>a \<in> set (behind c'). x < key_of key t a)"
      using Bin.prems by (intro Bin.IH(2)) (simp_all add: rep_right)
    moreover have "add_descend cmp t a (link_of c) = add_descend cmp t (addr r) (link_of ?c)"
      using 3 run cmp by (auto simp: add_descend.simps[of _ _ a])
    ultimately show ?thesis using 3 ord(1) by (auto split: if_splits)
  qed
qed

section \<open>Insertion\<close>

lemma set_link_rep:
  assumes "path_shape (v_heap s) (v_root s) 0 c" and "distinct (before c @ behind c)"
  shows "\<exists>s'. set_link (link_of c) b s = Some s' \<and> link_parent (link_of c) = up_addr c
     \<and> path_shape (v_heap s') (v_root s') b c \<and> (\<forall>z. z \<notin> set (before c @ behind c) \<longrightarrow> v_heap s' z = v_heap s z)"
proof (cases c rule: before.cases)
  case 1
  then show ?thesis by (simp add: set_link_def link_parent_def)
next
  case (2 d a k u c')
  then have "a \<notin> set (inorder u)" "a \<notin> set (before c')" "a \<notin> set (behind c')" using assms(2) by (auto split: if_splits)
  then show ?thesis
    using assms(1) 2 by (auto simp: set_link_def link_parent_def upd_node_def node_at_def)
qed

lemma insert_rep:
  assumes "rep F s Tip c" and "b \<noteq> 0" and "F b = Some n0" and "b \<notin> set (before c @ behind c)" and "path_avl 0 c"
  shows "\<exists>s1 s2 s3 T. upd_node b (\<lambda>_. \<lparr>n_left = 0, n_right = 0, n_parent = link_parent (link_of c), n_height = 0\<rparr>) s = Some s1
     \<and> set_link (link_of c) b s1 = Some s2 \<and> avl_node_post_insert b s2 = Some s3
     \<and> rep F s3 T [] \<and> avl T \<and> inorder T = before c @ b # behind c"
proof -
  let ?n = "\<lambda>h. \<lparr>n_left = 0, n_right = 0, n_parent = up_addr c, n_height = h\<rparr>"
  have hb: "v_heap s b = Some n0" and ds: "distinct (before c @ behind c)" and ps: "path_shape (v_heap s) (v_root s) 0 c"
    and far: "\<And>z. z \<notin> set (before c @ behind c) \<Longrightarrow> v_heap s z = F z" using assms(1,3,4) by (auto simp: rep_def)
  have lp: "link_parent (link_of c) = up_addr c" using set_link_rep[OF ps ds] by blast
  define s1 where "s1 = s\<lparr>v_heap := (v_heap s)(b \<mapsto> ?n 0)\<rparr>"
  have u1: "upd_node b (\<lambda>_. ?n 0) s = Some s1" using assms(2) hb by (simp add: upd_node_run s1_def)
  have "path_shape (v_heap s1) (v_root s1) 0 c" using ps assms(4) by (simp add: s1_def)
  from set_link_rep[OF this ds, of b] obtain s2 where s2: "set_link (link_of c) b s1 = Some s2"
      "path_shape (v_heap s2) (v_root s2) b c" "\<And>z. z \<notin> set (before c @ behind c) \<Longrightarrow> v_heap s2 z = v_heap s1 z" by blast
  have rb: "rep F s2 (Bin Tip b 0 Tip) c" using s2(2,3) assms(2,4) ds far by (auto simp: rep_def s1_def)
  obtain s3 where s3: "upd_node b (n_height_update (\<lambda>_. 1)) s2 = Some s3" "rep F s3 (Bin Tip b 1 Tip) c"
    using set_height_rep[OF rb] by blast
  from post_insert_loop_rep[OF s3(2) _ assms(5)] obtain s4 T where "post_insert_loop (up_addr c) s3 = Some s4"
      "rep F s4 T []" "avl T" "inorder T = inorder (plug (Bin Tip b 1 Tip) c)" by auto
  then show ?thesis
    using u1 lp s2(1) s3(1) rep_node[OF s3(2)] by (auto simp: avl_node_post_insert_def inorder_plug)
qed

lemma avl_tree_add_rep:
  assumes "tree_inv key F t T" and "order_by cmp key (key d)" and "0 < d" and "F (data2node t d) \<noteq> None"
    and "data2node t d \<notin> set (inorder T)"
  shows "if \<exists>e \<in> set (entries t T). key e = key d
    then \<exists>e \<in> set (entries t T). key e = key d \<and> avl_tree_add cmp d t = Some (t, e)
    else \<exists>t' T'. avl_tree_add cmp d t = Some (t', 0) \<and> tree_inv key F t' T' \<and> t_offset t' = t_offset t
       \<and> (\<exists>xs ys. entries t T = xs @ ys \<and> entries t' T' = xs @ d # ys)"
proof -
  let ?b = "data2node t d" and ?K = "key_of key t"
  have I: "rep F (t_root t) T []" "avl T" "sorted_wrt (\<lambda>a b. ?K a < ?K b) (inorder T)"
      "t_count t = of_nat (length (inorder T))" "\<forall>a \<in> set (inorder T). t_offset t < a"
    using assms(1) by (auto simp: tree_inv_def)
  have root: "v_root (t_root t) = addr T" using I(1) by (simp add: rep_def)
  have Kb: "?K ?b = key d" by (simp add: key_of_def node2data_def data2node_def)
  have ent: "(\<exists>e \<in> set (entries t T). key e = key d) \<longleftrightarrow> (\<exists>a \<in> set (inorder T). ?K a = key d)"
    by (auto simp: entries_def key_of_def)
  note D = add_descend_rep[OF I(1) _ assms(2), simplified, OF I(3), folded root]
  show ?thesis
  proof (cases "\<exists>a \<in> set (inorder T). ?K a = key d")
    case True
    then have "\<exists>a \<in> set (inorder T). ?K a = key d \<and> avl_tree_add cmp d t = Some (t, node2data t a)"
      using D by (auto simp: avl_tree_add_def)
    then show ?thesis using True ent by (auto simp: entries_def key_of_def)
  next
    case False
    then obtain c where c: "add_descend cmp t (v_root (t_root t)) Link_root = Some (link_of c)" "plug Tip c = T"
        "\<forall>a \<in> set (before c). ?K a < key d" "\<forall>a \<in> set (behind c). key d < ?K a"
      using D by auto
    have io: "inorder T = before c @ behind c" using inorder_plug[of Tip c] c(2) by simp
    have "rep F (t_root t) Tip c" using I(1) c(2) rep_plug by blast
    moreover have "path_avl 0 c" using I(2) c(2) avl_plug[of Tip c] by auto
    ultimately obtain s1 s2 s3 T' where ins:
        "upd_node ?b (\<lambda>_. \<lparr>n_left = 0, n_right = 0, n_parent = link_parent (link_of c), n_height = 0\<rparr>) (t_root t) = Some s1"
        "set_link (link_of c) ?b s1 = Some s2" "avl_node_post_insert ?b s2 = Some s3"
        "rep F s3 T' []" "avl T'" "inorder T' = before c @ ?b # behind c"
      using insert_rep[of F "t_root t" c ?b] assms(3-5) io by (auto simp: data2node_def)
    let ?t = "t\<lparr>t_root := s3, t_count := t_count t + 1\<rparr>"
    have "avl_tree_add cmp d t = Some (?t, 0)"
      using c(1) ins(1-3) by (cases c rule: before.cases) (auto simp: avl_tree_add_def)
    moreover have "tree_inv key F ?t T'"
      using ins(4-6) I(3-5) io c(3,4) Kb assms(3)
      by (auto simp: tree_inv_def sorted_wrt_append key_of_def node2data_def data2node_def)
    moreover have "entries ?t T' = map (node2data t) (before c) @ d # map (node2data t) (behind c)"
      using ins(6) by (simp add: entries_def node2data_def data2node_def)
    moreover have "entries t T = map (node2data t) (before c) @ map (node2data t) (behind c)" using io by (simp add: entries_def)
    ultimately show ?thesis using False ent by fastforce
  qed
qed

section \<open>Removal\<close>

lemma zip_at: "a \<in> set (inorder T) \<Longrightarrow> \<exists>l k r c. T = plug (Bin l a k r) c"
proof (induction T)
  case (Bin x b j y)
  then consider "a = b" | "a \<in> set (inorder x)" | "a \<in> set (inorder y)" by auto
  then show ?case
  proof cases
    case 1
    then show ?thesis by (metis plug.simps(1))
  next
    case 2
    then obtain l k r c where "x = plug (Bin l a k r) c" using Bin.IH(1) by blast
    then have "Bin x b j y = plug (Bin l a k r) (c @ [(True, b, j, y)])" by (simp add: plug_append)
    then show ?thesis by blast
  next
    case 3
    then obtain l k r c where "y = plug (Bin l a k r) c" using Bin.IH(2) by blast
    then have "Bin x b j y = plug (Bin l a k r) (c @ [(False, b, j, x)])" by (simp add: plug_append)
    then show ?thesis by blast
  qed
qed simp

lemma path_avl_append: "path_avl k0 (p @ (d, a, k, s) # c) = path_avl k0 (p @ (d, b, k, s) # c)"
  by (induction k0 p rule: path_avl.induct) auto

lemma erase_rep:
  assumes "rep F s (Bin l a k r) c" and "avl (plug (Bin l a k r) c)"
  shows "\<exists>s' n T. avl_node_erase a s = Some s' \<and> rep (F(a \<mapsto> n)) s' T [] \<and> avl T
     \<and> inorder T = before c @ inorder l @ inorder r @ behind c"
proof -
  note run = rep_node[OF assms(1)]
  have A: "avl l" "avl r" "k = max (ht l) (ht r) + 1" "path_avl k c" "\<bar>ht l - ht r\<bar> \<le> 1" using assms(2) by (auto simp: avl_plug)
  have null: "addr l = 0 \<longleftrightarrow> l = Tip" "addr r = 0 \<longleftrightarrow> r = Tip" using assms(1) shape_addr by (auto simp: rep_def)
  have "\<exists>s1 n x c' k0. (if l \<noteq> Tip \<and> r \<noteq> Tip then erase_two a s else erase_one a s) = Some (up_addr c', s1)
     \<and> rep (F(a \<mapsto> n)) s1 x c' \<and> avl x \<and> path_avl k0 c' \<and> (ht x = k0 \<or> ht x = k0 - 1)
     \<and> before c' @ inorder x @ behind c' = before c @ inorder l @ inorder r @ behind c"
  proof (cases "l \<noteq> Tip \<and> r \<noteq> Tip")
    case True
    then obtain s1 n m j y p where e: "erase_two a s = Some (up_addr (p @ (False, m, k, l) # c), s1)" "r = plug (Bin Tip m j y) p"
        "before p = []" "rep (F(a \<mapsto> n)) s1 y (p @ (False, m, k, l) # c)"
      using erase_two_rep[OF assms(1)] by blast
    have "avl (plug (Bin Tip m j y) (p @ (False, a, k, l) # c))" using assms(2) e(2) by (simp add: plug_append)
    then have y: "avl y" "path_avl j (p @ (False, m, k, l) # c)" "j = max 0 (ht y) + 1"
      using path_avl_append[of j p False a k l c m] by (auto simp: avl_plug)
    have "ht y = j - 1" using y(3) avl_nonneg[OF y(1)] by simp
    then show ?thesis using True e y
      by (intro exI[of _ s1] exI[of _ n] exI[of _ y] exI[of _ "p @ (False, m, k, l) # c"] exI[of _ j])
         (simp add: before_append inorder_plug)
  next
    case False
    define x where "x = (if l = Tip then r else l)"
    obtain s1 where e: "erase_one a s = Some (up_addr c, s1)" "rep (F(a := v_heap s a)) s1 x c"
      using erase_one_rep[OF assms(1) x_def] False by blast
    have "v_heap s a = Some \<lparr>n_left = addr l, n_right = addr r, n_parent = up_addr c, n_height = k\<rparr>"
      using run by (simp add: node_at_run)
    moreover have "avl x" "ht x = k - 1" using A False avl_nonneg by (auto simp: x_def)
    moreover have "inorder x = inorder l @ inorder r" using False by (auto simp: x_def)
    ultimately show ?thesis using False e A(4)
      by (intro exI[of _ s1] exI[of _ "\<lparr>n_left = addr l, n_right = addr r, n_parent = up_addr c, n_height = k\<rparr>"] exI[of _ x] exI[of _ c] exI[of _ k]) auto
  qed
  then obtain s1 n x c' k0 where e: "(if l \<noteq> Tip \<and> r \<noteq> Tip then erase_two a s else erase_one a s) = Some (up_addr c', s1)"
     "rep (F(a \<mapsto> n)) s1 x c'" "avl x" "path_avl k0 c'" "ht x = k0 \<or> ht x = k0 - 1"
     "before c' @ inorder x @ behind c' = before c @ inorder l @ inorder r @ behind c" by blast
  then show ?thesis
    using rebalance_rep[OF e(2-5)] run null
    by (fastforce simp: avl_node_erase_def inorder_plug rebalance.simps[of 0])
qed

lemma rep_linked:
  assumes "rep F s (Bin l a k r) c"
  shows "up_addr c \<noteq> a"
  using assms by (cases c rule: before.cases) (auto simp: rep_def split: if_splits)

lemma avl_tree_remove_rep:
  assumes "tree_inv key F t T" and "d \<in> set (entries t T)"
  shows "\<exists>t' T' n. avl_tree_remove d t = Some t' \<and> tree_inv key (F(data2node t d \<mapsto> n)) t' T'
     \<and> t_offset t' = t_offset t \<and> n_parent n = data2node t d
     \<and> (\<exists>xs ys. entries t T = xs @ d # ys \<and> entries t' T' = xs @ ys)"
proof -
  let ?b = "data2node t d" and ?K = "key_of key t"
  have I: "rep F (t_root t) T []" "avl T" "sorted_wrt (\<lambda>a b. ?K a < ?K b) (inorder T)"
      "t_count t = of_nat (length (inorder T))" "\<forall>a \<in> set (inorder T). t_offset t < a"
    using assms(1) by (auto simp: tree_inv_def)
  have b: "?b \<in> set (inorder T)" "node2data t ?b = d"
    using assms(2) I(5) by (auto simp: entries_def data2node_def node2data_def)
  obtain l k r c where T: "T = plug (Bin l ?b k r) c" using zip_at[OF b(1)] by blast
  have rb: "rep F (t_root t) (Bin l ?b k r) c" using I(1) T rep_plug by blast
  obtain s1 n T' where e: "avl_node_erase ?b (t_root t) = Some s1" "rep (F(?b \<mapsto> n)) s1 T' []" "avl T'"
      "inorder T' = before c @ inorder l @ inorder r @ behind c"
    using erase_rep[OF rb] I(2) T by blast
  have io: "inorder T = before c @ inorder l @ ?b # inorder r @ behind c" by (simp add: T inorder_plug)
  have out: "?b \<notin> set (inorder T')" using I(1) io e(4) by (auto simp: rep_def)
  then have hb: "v_heap s1 ?b = Some n" using e(2) by (simp add: rep_def)
  let ?n = "n\<lparr>n_parent := ?b\<rparr>"
  let ?s = "s1\<lparr>v_heap := (v_heap s1)(?b \<mapsto> ?n)\<rparr>"
  let ?t = "t\<lparr>t_root := ?s, t_count := t_count t - 1\<rparr>"
  have bn: "?b \<noteq> 0" using rep_node(2)[OF rb] .
  have "avl_tree_remove d t = Some ?t"
    using rep_node(1)[OF rb] rep_linked[OF rb] e(1) upd_node_run[OF bn hb] by (simp add: avl_tree_remove_def Let_def)
  moreover have "rep (F(?b \<mapsto> ?n)) ?s T' []" using e(2) out by (auto simp: rep_def)
  then have "tree_inv key (F(?b \<mapsto> ?n)) ?t T'"
    using e(3,4) I(3-5) io by (simp add: tree_inv_def sorted_wrt_append key_of_def node2data_def ball_Un)
  moreover have "entries t T = map (node2data t) (before c @ inorder l) @ d # map (node2data t) (inorder r @ behind c)"
    using io b(2) by (simp add: entries_def)
  moreover have "entries ?t T' = map (node2data t) (before c @ inorder l) @ map (node2data t) (inorder r @ behind c)"
    using e(4) by (simp add: entries_def node2data_def)
  ultimately show ?thesis
    by (intro exI[of _ ?t] exI[of _ T'] exI[of _ ?n] conjI exI[of _ "map (node2data t) (before c @ inorder l)"]
      exI[of _ "map (node2data t) (inorder r @ behind c)"]) simp_all
qed

section \<open>Traversal\<close>

definition head_or_null :: "nat list \<Rightarrow> nat" where
  "head_or_null xs = (case xs of [] \<Rightarrow> 0 | x # _ \<Rightarrow> x)"

lemma head_or_null_append: "head_or_null (xs @ ys) = (if xs = [] then head_or_null ys else head_or_null xs)"
  by (cases xs) (auto simp: head_or_null_def)

lemma inorder_nil: "inorder t = [] \<longleftrightarrow> t = Tip"
  by (cases t) auto

lemma go_left_hd:
  assumes "rep F s t c" and "t \<noteq> Tip"
  shows "go_left (addr t) s = Some (head_or_null (inorder t))"
proof -
  obtain m j r p where "go_left (addr t) s = Some m" "t = plug (Bin Tip m j r) p" "before p = []"
    using go_left_rep[OF assms] by blast
  then show ?thesis by (simp add: inorder_plug head_or_null_def)
qed

lemma go_right_last:
  assumes "rep F s t c" and "t \<noteq> Tip"
  shows "go_right (addr t) s = Some (head_or_null (rev (inorder t)))"
  using assms
proof (induction t arbitrary: c)
  case (Bin l a k r)
  note run = rep_node[OF Bin.prems(1)]
  have sub: "rep F s r ((False, a, k, l) # c)" using Bin.prems(1) by (simp add: rep_right)
  have null: "addr r = 0 \<longleftrightarrow> r = Tip" using sub shape_addr by (auto simp: rep_def)
  show ?case
  proof (cases "r = Tip")
    case True
    then show ?thesis using run by (simp add: go_right.simps head_or_null_def)
  next
    case False
    then show ?thesis using run Bin.IH(2)[OF sub False] null
      by (simp add: go_right.simps[of a] head_or_null_append inorder_nil)
  qed
qed simp

lemma rep_up:
  assumes "rep F s t ((d, b, j, u) # c)"
  obtains l r where "rep F s (Bin l b j r) c" and "addr (if d then l else r) = addr t"
  using assms by (cases d) (auto simp: rep_left[symmetric] rep_right[symmetric])

text \<open>From the root of a subtree upwards, to the first ancestor of which it is on the left.\<close>

lemma climb_left_rep:
  assumes "rep F s (Bin l a k r) c"
  shows "climb_left a s = Some (head_or_null (behind c))"
  using assms
proof (induction c arbitrary: l a k r)
  case Nil
  then show ?case using rep_node[OF Nil] by (simp add: climb_left.simps head_or_null_def)
next
  case (Cons f c)
  obtain d b j u where f: "f = (d, b, j, u)" by (cases f)
  note run = rep_node[OF Cons.prems]
  obtain l' r' where up: "rep F s (Bin l' b j r') c" "addr (if d then l' else r') = a"
    using rep_up[OF Cons.prems[unfolded f]] by auto
  note runb = rep_node[OF up(1)]
  show ?case
  proof (cases d)
    case True
    then show ?thesis using run runb up f by (simp add: climb_left.simps[of a] head_or_null_def)
  next
    case False
    have "addr l' \<noteq> a"
      using addr_inorder[of l'] addr_inorder[of r'] up(1,2) False run(2) unfolding rep_def by auto
    then show ?thesis using False run runb up f Cons.IH[OF up(1)] by (simp add: climb_left.simps[of a])
  qed
qed

lemma climb_right_rep:
  assumes "rep F s (Bin l a k r) c"
  shows "climb_right a s = Some (head_or_null (rev (before c)))"
  using assms
proof (induction c arbitrary: l a k r)
  case Nil
  then show ?case using rep_node[OF Nil] by (simp add: climb_right.simps head_or_null_def)
next
  case (Cons f c)
  obtain d b j u where f: "f = (d, b, j, u)" by (cases f)
  note run = rep_node[OF Cons.prems]
  obtain l' r' where up: "rep F s (Bin l' b j r') c" "addr (if d then l' else r') = a"
    using rep_up[OF Cons.prems[unfolded f]] by auto
  note runb = rep_node[OF up(1)]
  show ?case
  proof (cases d)
    case False
    then show ?thesis using run runb up f by (simp add: climb_right.simps[of a] head_or_null_def)
  next
    case True
    have "addr r' \<noteq> a"
      using addr_inorder[of l'] addr_inorder[of r'] up(1,2) True run(2) unfolding rep_def by auto
    then show ?thesis using True run runb up f Cons.IH[OF up(1)] by (simp add: climb_right.simps[of a])
  qed
qed

lemma avl_node_next_rep:
  assumes "rep F s (Bin l a k r) c"
  shows "avl_node_next a s = Some (head_or_null (inorder r @ behind c))"
proof -
  have sub: "rep F s r ((False, a, k, l) # c)" using assms by (simp add: rep_right)
  have "addr r = 0 \<longleftrightarrow> r = Tip" using sub shape_addr by (auto simp: rep_def)
  then show ?thesis
    using rep_node[OF assms] climb_left_rep[OF assms] go_left_hd[OF sub]
    by (simp add: avl_node_next_def head_or_null_append inorder_nil)
qed

lemma avl_node_prev_rep:
  assumes "rep F s (Bin l a k r) c"
  shows "avl_node_prev a s = Some (head_or_null (rev (inorder l) @ rev (before c)))"
proof -
  have sub: "rep F s l ((True, a, k, r) # c)" using assms by (simp add: rep_left)
  have "addr l = 0 \<longleftrightarrow> l = Tip" using sub shape_addr by (auto simp: rep_def)
  then show ?thesis
    using rep_node[OF assms] climb_right_rep[OF assms] go_right_last[OF sub]
    by (simp add: avl_node_prev_def head_or_null_append inorder_nil)
qed

section \<open>Tearing down\<close>

lemma sink_leaf_rep:
  assumes "rep F s t c" and "t \<noteq> Tip"
  shows "\<exists>b k p. sink_leaf (addr t) s = Some b \<and> rep F s (Bin Tip b k Tip) p \<and> plug t c = plug (Bin Tip b k Tip) p"
  using assms
proof (induction t arbitrary: c)
  case (Bin l a k r)
  note run = rep_node[OF Bin.prems(1)]
  have subs: "rep F s l ((True, a, k, r) # c)" "rep F s r ((False, a, k, l) # c)"
    using Bin.prems(1) rep_left rep_right by blast+
  have null: "addr l = 0 \<longleftrightarrow> l = Tip" "addr r = 0 \<longleftrightarrow> r = Tip" using subs shape_addr by (auto simp: rep_def)
  consider "l \<noteq> Tip" | "l = Tip" "r \<noteq> Tip" | "l = Tip" "r = Tip" by blast
  then show ?case
  proof cases
    case 1
    then show ?thesis using Bin.IH(1)[OF subs(1) 1] run null by (simp add: sink_leaf.simps[of a])
  next
    case 2
    then show ?thesis using Bin.IH(2)[OF subs(2) 2(2)] run null by (simp add: sink_leaf.simps[of a])
  next
    case 3
    then have "sink_leaf a s = Some a" using run by (simp add: sink_leaf.simps[of a])
    then show ?thesis using 3 Bin.prems(1) by auto
  qed
qed simp

text \<open>One call of \<open>avl_node_tear\<close>: a leaf leaves the tree and the walk goes on at its parent.\<close>

lemma avl_node_tear_rep:
  assumes "rep F s t c" and "t \<noteq> Tip"
  shows "\<exists>b n s' c' t'. avl_node_tear (addr t) s = Some (b, addr t', s') \<and> b \<noteq> 0 \<and> v_heap s' b = Some n \<and> rep (F(b \<mapsto> n)) s' t' c'
     \<and> (t' = Tip \<longrightarrow> c' = []) \<and> b \<in> set (inorder (plug t c)) \<and> b \<notin> set (inorder (plug t' c'))
     \<and> mset (inorder (plug t c)) = add_mset b (mset (inorder (plug t' c')))"
proof -
  obtain b k p where leaf: "sink_leaf (addr t) s = Some b" "rep F s (Bin Tip b k Tip) p" "plug t c = plug (Bin Tip b k Tip) p"
    using sink_leaf_rep[OF assms] by blast
  note run = rep_node[OF leaf(2)]
  have ds: "distinct (before p @ b # behind p)" and io: "inorder (plug t c) = before p @ b # behind p"
    using leaf(2,3) by (simp_all add: rep_def inorder_plug)
  have nt: "addr t \<noteq> 0" using assms shape_addr by (auto simp: rep_def)
  let ?n = "\<lambda>h. \<lparr>n_left = 0, n_right = 0, n_parent = up_addr p, n_height = h\<rparr>"
  have hb: "v_heap s b = Some (?n k)" using run by (simp add: node_at_run)
  show ?thesis
  proof (cases p rule: before.cases)
    case 1
    then have "avl_node_tear (addr t) s = Some (b, addr Tip, s\<lparr>v_root := 0\<rparr>)"
      using leaf(1) run nt by (simp add: avl_node_tear_def)
    moreover have "rep (F(b \<mapsto> ?n k)) (s\<lparr>v_root := 0\<rparr>) Tip []" using leaf(2) hb 1 by (auto simp: rep_def)
    ultimately show ?thesis using hb run(2) io 1
      by (intro exI[of _ b] exI[of _ "?n k"] exI[of _ "s\<lparr>v_root := 0\<rparr>"] exI[of _ "[]"] exI[of _ Tip]) simp
  next
    case (2 d a j u c')
    define t' where "t' = (if d then Bin Tip a j u else Bin u a j Tip)"
    have ha: "a \<noteq> 0" "v_heap s a = Some \<lparr>n_left = (if d then b else addr u), n_right = (if d then addr u else b), n_parent = up_addr c', n_height = j\<rparr>"
      using leaf(2) 2 by (auto simp: rep_def)
    have "addr u \<noteq> b" using addr_inorder[of u] ds 2 run(2) by (auto split: if_splits)
    define m where "m = \<lparr>n_left = (if d then 0 else addr u), n_right = (if d then addr u else 0), n_parent = up_addr c', n_height = j\<rparr>"
    define s' where "s' = s\<lparr>v_heap := (v_heap s)(a \<mapsto> m, b \<mapsto> ?n 0)\<rparr>"
    have ab: "a \<noteq> b" using ds 2 by (auto split: if_splits)
    have "avl_node_tear (addr t) s = Some (b, a, s')"
      using leaf(1) run nt ha hb \<open>addr u \<noteq> b\<close> ab 2
      by (cases d) (simp_all add: avl_node_tear_def node_at_run upd_node_run s'_def m_def)
    moreover have "rep (F(b \<mapsto> ?n 0)) s' Tip p"
      using leaf(2) ds ab 2 unfolding rep_def s'_def m_def by (cases d) auto
    then have "rep (F(b \<mapsto> ?n 0)) s' t' c'" using 2 by (cases d) (simp_all add: t'_def rep_left[symmetric] rep_right[symmetric])
    moreover have "inorder (plug t' c') = before p @ behind p" using 2 by (cases d) (simp_all add: t'_def inorder_plug)
    ultimately show ?thesis using run(2) io ds
      by (intro exI[of _ b] exI[of _ "?n 0"] exI[of _ s'] exI[of _ c'] exI[of _ t']) (auto simp: t'_def s'_def)
  qed
qed

lemma clear_loop_rep:
  assumes "rep F (t_root t) T c" and "T = Tip \<longrightarrow> c = []"
  shows "\<exists>t' ds. clear_loop (addr T) out t = Some (t', out @ ds) \<and> v_root (t_root t') = 0 \<and> t_offset t' = t_offset t
     \<and> t_count t' = t_count t - of_nat (length (inorder (plug T c)))
     \<and> mset ds = mset (map (node2data t) (inorder (plug T c)))"
  using assms
proof (induction "length (inorder (plug T c))" arbitrary: F T c t out)
  case 0
  then have "T = Tip" "c = []" by (auto simp: inorder_plug inorder_nil)
  then show ?case using 0 by (simp add: clear_loop.simps avl_node_tear_def rep_def)
next
  case (Suc n)
  then have "T \<noteq> Tip" by auto
  from avl_node_tear_rep[OF Suc.prems(1) this] obtain b m s' c' T' where
    tear: "avl_node_tear (addr T) (t_root t) = Some (b, addr T', s')" "b \<noteq> 0" "v_heap s' b = Some m" "rep (F(b \<mapsto> m)) s' T' c'"
      "T' = Tip \<longrightarrow> c' = []" "b \<notin> set (inorder (plug T' c'))"
      "mset (inorder (plug T c)) = add_mset b (mset (inorder (plug T' c')))" by blast
  have len: "length (inorder (plug T c)) = Suc (length (inorder (plug T' c')))"
    using arg_cong[OF tear(7), of size] by simp
  let ?s = "s'\<lparr>v_heap := (v_heap s')(b \<mapsto> m\<lparr>n_parent := b\<rparr>)\<rparr>"
  let ?t = "t\<lparr>t_root := ?s, t_count := t_count t - 1\<rparr>"
  have "rep (F(b \<mapsto> m\<lparr>n_parent := b\<rparr>)) (t_root ?t) T' c'"
    using tear(4,6) by (auto simp: rep_def inorder_plug)
  from Suc.hyps(1)[OF _ this tear(5), of "out @ [node2data t b]"] Suc.hyps(2) len obtain t' ds where
    IH: "clear_loop (addr T') (out @ [node2data t b]) ?t = Some (t', out @ node2data t b # ds)" "v_root (t_root t') = 0"
      "t_offset t' = t_offset t" "t_count t' = t_count t - 1 - of_nat (length (inorder (plug T' c')))"
      "mset ds = mset (map (node2data ?t) (inorder (plug T' c')))" by auto
  have "clear_loop (addr T) out t = Some (t', out @ node2data t b # ds)"
    using tear(1,2,3) IH(1) upd_node_run[OF tear(2,3)] by (simp add: clear_loop.simps[of "addr T"])
  moreover have "node2data ?t = node2data t" by (auto simp: node2data_def)
  then have "mset (node2data t b # ds) = mset (map (node2data t) (inorder (plug T c)))"
    using IH(5) tear(7) by (simp flip: image_mset_add_mset)
  ultimately show ?case using IH(2-4) len by (intro exI[of _ t'] exI[of _ "node2data t b # ds"]) simp
qed

text \<open>The first call starts from NULL, which stands for the root.\<close>

lemma clear_loop_start: "v_root (t_root t) \<noteq> 0 \<Longrightarrow> clear_loop 0 out t = clear_loop (v_root (t_root t)) out t"
  by (subst (1 2) clear_loop.simps) (simp add: avl_node_tear_def)

section \<open>Replacing a node\<close>

lemma avl_node_replace_rep:
  assumes "rep F s (Bin l a k r) c" and "m \<notin> set (before c @ inorder (Bin l a k r) @ behind c)" and "m \<noteq> 0" and "F m = Some m0"
  shows "\<exists>s'. avl_node_replace a m s = Some s' \<and> v_heap s' a = v_heap s a \<and> rep (F(a := v_heap s a)) s' (Bin l m k r) c"
proof -
  let ?C = "before c @ behind c" and ?n = "\<lparr>n_left = addr l, n_right = addr r, n_parent = up_addr c, n_height = k\<rparr>"
  have sh: "a \<noteq> 0" "v_heap s a = Some ?n" "path_shape (v_heap s) (v_root s) a c" "shape (v_heap s) a l" "shape (v_heap s) a r"
    and hm: "v_heap s m = Some m0" using assms by (auto simp: rep_def)
  have ds: "distinct (before c @ inorder l @ a # inorder r @ behind c)" using assms(1) by (simp add: rep_def)
  have d: "distinct ?C" "a \<notin> set ?C" "distinct (inorder l @ inorder r)" "a \<noteq> m" "m \<notin> set ?C" "m \<notin> set (inorder l @ inorder r)"
      "a \<notin> set (inorder l @ inorder r)"
    using ds assms(2) by auto
  have dj: "z \<notin> set (inorder l @ inorder r)" "z \<noteq> m" if "z \<in> set ?C" for z using ds assms(2) that by auto
  have dj2: "z \<notin> set ?C" if "z \<in> set (inorder l) \<union> set (inorder r)" for z using ds that by auto
  obtain s2 where s2: "child_replace a m (up_addr c) s = Some s2" "path_shape (v_heap s2) (v_root s2) m c"
      "\<And>z. z \<notin> set ?C \<Longrightarrow> v_heap s2 z = v_heap s z"
    using child_replace_rep[OF sh(3) d(2) sh(1) d(1), of m] by blast
  have lr: "shape (v_heap s2) a l" "shape (v_heap s2) a r"
    using shape_cong[of l "v_heap s2" "v_heap s"] shape_cong[of r "v_heap s2" "v_heap s"] sh s2(3) dj2 by auto
  obtain s3 s4 where s4: "set_parent (addr l) m s2 = Some s3" "set_parent (addr r) m s3 = Some s4" "v_root s4 = v_root s2"
      "shape (v_heap s4) m l" "shape (v_heap s4) m r"
      "\<And>z. z \<notin> set (inorder l @ inorder r) \<Longrightarrow> v_heap s4 z = v_heap s2 z"
    using subst_children[OF lr d(3), of m] by blast
  define s5 where "s5 = s4\<lparr>v_heap := (v_heap s4)(m \<mapsto> ?n)\<rparr>"
  have keep: "v_heap s4 a = Some ?n" "v_heap s2 a = Some ?n" "v_heap s4 m = Some m0"
    using s4(6)[OF d(7)] s4(6)[OF d(6)] s2(3)[OF d(2)] s2(3)[OF d(5)] sh(2) hm by auto
  have "avl_node_replace a m s = Some s5"
    using sh(1,2) s2(1) s4(1,2) keep upd_node_run[OF assms(3) keep(3)] by (simp add: avl_node_replace_def node_at_run s5_def)
  moreover have "path_shape (v_heap s4) (v_root s4) m c"
    using path_cong[of c "v_heap s4" "v_heap s2"] s2(2) s4(3,6) dj(1) by simp
  then have "path_shape (v_heap s5) (v_root s5) m c" using d(5) by (simp add: s5_def)
  moreover have "shape (v_heap s5) m l" "shape (v_heap s5) m r" using s4(4,5) d(6) by (simp_all add: s5_def)
  moreover have "v_heap s5 z = v_heap s z" if "z \<notin> set (before c @ m # inorder l @ inorder r @ behind c)" for z
    using that s4(6)[of z] s2(3)[of z] by (simp add: s5_def)
  ultimately show ?thesis
    using subst_path[OF assms(1-3), of s5] sh(2) keep(1) d(4) by (auto simp: s5_def)
qed

lemma avl_tree_replace_rep:
  assumes "tree_inv key F t T" and "d \<in> set (entries t T)" and "key e = key d" and "0 < e" and "e \<notin> set (entries t T)"
    and "F (data2node t e) \<noteq> None"
  shows "\<exists>t' T' n. avl_tree_replace d e t = Some t' \<and> tree_inv key (F(data2node t d \<mapsto> n)) t' T' \<and> n_parent n = data2node t d
     \<and> t_offset t' = t_offset t \<and> (\<exists>xs ys. entries t T = xs @ d # ys \<and> entries t' T' = xs @ e # ys)"
proof -
  let ?b = "data2node t d" and ?m = "data2node t e" and ?K = "key_of key t"
  have I: "rep F (t_root t) T []" "avl T" "sorted_wrt (\<lambda>a b. ?K a < ?K b) (inorder T)"
      "t_count t = of_nat (length (inorder T))" "\<forall>a \<in> set (inorder T). t_offset t < a"
    using assms(1) by (auto simp: tree_inv_def)
  have inv: "node2data t (data2node t x) = x" for x by (simp add: data2node_def node2data_def)
  have b: "?b \<in> set (inorder T)" using assms(2) I(5) by (auto simp: entries_def data2node_def node2data_def)
  obtain l k r c where T: "T = plug (Bin l ?b k r) c" using zip_at[OF b] by blast
  have rb: "rep F (t_root t) (Bin l ?b k r) c" using I(1) T rep_plug by blast
  have io: "inorder T = before c @ inorder l @ ?b # inorder r @ behind c" by (simp add: T inorder_plug)
  have "?m \<notin> set (inorder T)" using assms(5) imageI[of ?m "set (inorder T)" "node2data t"] inv by (auto simp: entries_def)
  then have mo: "?m \<notin> set (before c @ inorder (Bin l ?b k r) @ behind c)" by (simp add: io)
  obtain s1 where s1: "avl_node_replace ?b ?m (t_root t) = Some s1" "v_heap s1 ?b = v_heap (t_root t) ?b"
      "rep (F(?b := v_heap (t_root t) ?b)) s1 (Bin l ?m k r) c"
    using avl_node_replace_rep[OF rb mo] assms(4,6) by (auto simp: data2node_def)
  obtain n where n: "v_heap s1 ?b = Some n" using s1(2) rep_node[OF rb] by (auto simp: node_at_run)
  let ?n = "n\<lparr>n_parent := ?b\<rparr>"
  let ?s = "s1\<lparr>v_heap := (v_heap s1)(?b \<mapsto> ?n)\<rparr>"
  let ?t = "t\<lparr>t_root := ?s\<rparr>" and ?T = "plug (Bin l ?m k r) c"
  have run: "avl_tree_replace d e t = Some ?t"
    using s1(1) upd_node_run[OF rep_node(2)[OF rb] n] by (simp add: avl_tree_replace_def)
  have "?b \<notin> set (before c @ inorder (Bin l ?m k r) @ behind c)"
    using rb mo by (auto simp: rep_def)
  then have "rep (F(?b \<mapsto> ?n)) ?s (Bin l ?m k r) c" using s1(3) by (auto simp: rep_def)
  then have "rep (F(?b \<mapsto> ?n)) ?s ?T []" using rep_plug by blast
  moreover have "avl ?T" using I(2) by (auto simp: T avl_plug)
  moreover have io': "inorder ?T = before c @ inorder l @ ?m # inorder r @ behind c" by (simp add: inorder_plug)
  moreover have "?K ?m = ?K ?b" using assms(3) inv by (simp add: key_of_def)
  ultimately have "tree_inv key (F(?b \<mapsto> ?n)) ?t ?T"
    using I(3-5) io assms(4) by (auto simp: tree_inv_def sorted_wrt_append key_of_def node2data_def data2node_def)
  moreover have "entries t T = map (node2data t) (before c @ inorder l) @ d # map (node2data t) (inorder r @ behind c)"
    using io inv by (simp add: entries_def)
  moreover have "entries ?t ?T = map (node2data t) (before c @ inorder l) @ e # map (node2data t) (inorder r @ behind c)"
    using io' inv by (simp add: entries_def node2data_def)
  ultimately show ?thesis using run
    by (intro exI[of _ ?t] exI[of _ ?T] exI[of _ ?n] conjI exI[of _ "map (node2data t) (before c @ inorder l)"]
      exI[of _ "map (node2data t) (inorder r @ behind c)"]) simp_all
qed

section \<open>Height\<close>

lemma avl_size: "avl T \<Longrightarrow> 2 ^ (nat (ht T) div 2) \<le> length (inorder T) + 1"
proof (induction T)
  case (Bin l a k r)
  let ?m = "nat k div 2"
  have nn: "0 \<le> ht l" "0 \<le> ht r" using Bin.prems avl_nonneg by auto
  have k: "k = max (ht l) (ht r) + 1" "\<bar>ht l - ht r\<bar> \<le> 1" using Bin.prems by auto
  then have h: "nat k \<le> nat (ht l) + 2" "nat k \<le> nat (ht r) + 2" "0 < nat k" using nn by auto
  have "(2::nat) ^ (?m - 1) \<le> 2 ^ (nat (ht l) div 2)" "(2::nat) ^ (?m - 1) \<le> 2 ^ (nat (ht r) div 2)"
    using h by (auto intro!: power_increasing)
  moreover have "2 ^ (nat (ht l) div 2) \<le> length (inorder l) + 1" "2 ^ (nat (ht r) div 2) \<le> length (inorder r) + 1"
    using Bin.IH Bin.prems by simp_all
  ultimately have "2 * 2 ^ (?m - 1) \<le> length (inorder l) + 1 + (length (inorder r) + 1)" by linarith
  moreover have "(2::nat) ^ ?m \<le> 2 * 2 ^ (?m - 1)" by (cases ?m) auto
  ultimately show ?case by simp
qed simp

lemma avl_tree_find_rep:
  assumes "tree_inv key F t T" and "order_by cmp key x"
  shows "avl_tree_find cmp t = Some (case List.find (\<lambda>d. key d = x) (entries t T) of None \<Rightarrow> 0 | Some d \<Rightarrow> d)"
proof -
  have root: "v_root (t_root t) = addr T" using assms(1) by (simp add: tree_inv_def rep_def)
  have "List.find (\<lambda>d. key d = x) (map f xs) = map_option f (List.find (\<lambda>a. key (f a) = x) xs)" for f and xs :: "nat list"
    by (induction xs) auto
  then show ?thesis
    using find_loop_rep[of F t T "[]" key cmp x] assms root
    by (simp add: avl_tree_find_def tree_inv_def entries_def key_of_def option.case_eq_if option.map_sel)
qed

section \<open>Properties\<close>

text \<open>
  C27. Search: on a well-formed tree \<open>avl_tree_find\<close> terminates and returns the structure with the key
  looked for when there is one, and NULL otherwise.
\<close>

theorem avl_find_exact:
  assumes "tree_inv key F t T" and "order_by cmp key x"
  shows "avl_tree_find cmp t = Some (case List.find (\<lambda>d. key d = x) (entries t T) of None \<Rightarrow> 0 | Some d \<Rightarrow> d)"
  using assms by (rule avl_tree_find_rep)

text \<open>A tree with two structures, at the addresses 50 and 100, whose keys are their addresses.\<close>

definition demo_avl_heap :: "nat \<Rightarrow> avl_node option" where
  "demo_avl_heap = [58 \<mapsto> \<lparr>n_left = 0, n_right = 0, n_parent = 108, n_height = 1\<rparr>,
     108 \<mapsto> \<lparr>n_left = 58, n_right = 0, n_parent = 0, n_height = 2\<rparr>,
     208 \<mapsto> \<lparr>n_left = 0, n_right = 0, n_parent = 208, n_height = 0\<rparr>]"

definition demo_avl :: avl_tree where
  "demo_avl = \<lparr>t_root = \<lparr>v_heap = demo_avl_heap, v_root = 108\<rparr>, t_offset = 8, t_count = 2\<rparr>"

definition demo_ptree :: ptree where
  "demo_ptree = Bin (Bin Tip 58 1 Tip) 108 2 Tip"

definition cmp_nat :: "nat \<Rightarrow> nat \<Rightarrow> int" where
  "cmp_nat x y = int x - int y"

lemma demo_avl_inv: "tree_inv (\<lambda>d. d) demo_avl_heap demo_avl demo_ptree"
  by (simp add: tree_inv_def demo_avl_def demo_ptree_def demo_avl_heap_def rep_def key_of_def node2data_def)

lemma demo_entries: "entries demo_avl demo_ptree = [50, 100]"
  by (simp add: entries_def demo_avl_def demo_ptree_def node2data_def)

lemma cmp_nat_order: "order_by (cmp_nat x) (\<lambda>d. d) x"
  by (auto simp: order_by_def cmp_nat_def)

theorem avl_find_exact_witness:
  "avl_tree_find (cmp_nat 50) demo_avl
    = Some (case List.find (\<lambda>d. d = 50) (entries demo_avl demo_ptree) of None \<Rightarrow> 0 | Some d \<Rightarrow> d)"
  by (rule avl_find_exact[OF demo_avl_inv cmp_nat_order])

text \<open>
  C11. Insertion: \<open>avl_tree_add\<close> of a structure that is not in the tree terminates. If a structure with the
  same key is there, it is returned and the tree is unchanged; otherwise NULL is returned and the tree is
  again balanced, ordered, correctly linked and counted, with the structure at its place in key order and
  all others as before.
\<close>

theorem avl_add_inserts:
  assumes "tree_inv key F t T" and "order_by cmp key (key d)" and "0 < d" and "F (data2node t d) \<noteq> None"
    and "data2node t d \<notin> set (inorder T)"
  shows "if \<exists>e \<in> set (entries t T). key e = key d
    then \<exists>e \<in> set (entries t T). key e = key d \<and> avl_tree_add cmp d t = Some (t, e)
    else \<exists>t' T'. avl_tree_add cmp d t = Some (t', 0) \<and> tree_inv key F t' T' \<and> t_offset t' = t_offset t
       \<and> (\<exists>xs ys. entries t T = xs @ ys \<and> entries t' T' = xs @ d # ys)"
  using assms by (rule avl_tree_add_rep)

theorem avl_add_inserts_witness:
  "if \<exists>e \<in> set (entries demo_avl demo_ptree). e = 200
    then \<exists>e \<in> set (entries demo_avl demo_ptree). e = 200 \<and> avl_tree_add (cmp_nat 200) 200 demo_avl = Some (demo_avl, e)
    else \<exists>t' T'. avl_tree_add (cmp_nat 200) 200 demo_avl = Some (t', 0) \<and> tree_inv (\<lambda>d. d) demo_avl_heap t' T'
       \<and> t_offset t' = t_offset demo_avl
       \<and> (\<exists>xs ys. entries demo_avl demo_ptree = xs @ ys \<and> entries t' T' = xs @ 200 # ys)"
  by (rule avl_add_inserts[OF demo_avl_inv cmp_nat_order])
     (simp_all add: demo_avl_def demo_avl_heap_def demo_ptree_def data2node_def)

text \<open>
  C12. Removal: \<open>avl_tree_remove\<close> of a structure of the tree terminates and leaves a well-formed tree with
  exactly that structure taken out; its node is marked as unlinked (its parent is itself).
\<close>

theorem avl_remove_deletes:
  assumes "tree_inv key F t T" and "d \<in> set (entries t T)"
  shows "\<exists>t' T' n. avl_tree_remove d t = Some t' \<and> tree_inv key (F(data2node t d \<mapsto> n)) t' T'
     \<and> t_offset t' = t_offset t \<and> n_parent n = data2node t d
     \<and> (\<exists>xs ys. entries t T = xs @ d # ys \<and> entries t' T' = xs @ ys)"
  using assms by (rule avl_tree_remove_rep)

theorem avl_remove_deletes_witness:
  "\<exists>t' T' n. avl_tree_remove 100 demo_avl = Some t' \<and> tree_inv (\<lambda>d. d) (demo_avl_heap(data2node demo_avl 100 \<mapsto> n)) t' T'
     \<and> t_offset t' = t_offset demo_avl \<and> n_parent n = data2node demo_avl 100
     \<and> (\<exists>xs ys. entries demo_avl demo_ptree = xs @ 100 # ys \<and> entries t' T' = xs @ ys)"
  by (rule avl_remove_deletes[OF demo_avl_inv]) (simp add: demo_entries)

text \<open>
  Traversal: \<open>avl_tree_next\<close> and \<open>avl_tree_prev\<close> step to the neighbour in key order and to NULL at the
  ends, so that a loop from \<open>avl_tree_first\<close> visits every structure once, in order.
\<close>

theorem avl_next_prev:
  assumes "tree_inv key F t T" and "entries t T = xs @ d # ys"
  shows "avl_tree_next t d = Some (head_or_null ys) \<and> avl_tree_prev t d = Some (head_or_null (rev xs))"
proof -
  have I: "rep F (t_root t) T []" "\<forall>a \<in> set (inorder T). t_offset t < a" using assms(1) by (auto simp: tree_inv_def)
  have inv: "data2node t (node2data t a) = a" "0 < node2data t a" if "a \<in> set (inorder T)" for a
    using I(2) that by (auto simp: data2node_def node2data_def)
  obtain l a r where lar: "inorder T = l @ a # r" "map (node2data t) l = xs" "node2data t a = d" "map (node2data t) r = ys"
    using assms(2) by (auto simp: entries_def map_eq_append_conv map_eq_Cons_conv)
  then have a: "a \<in> set (inorder T)" by simp
  obtain x k y c where T: "T = plug (Bin x a k y) c" using zip_at[OF a] by blast
  have ra: "rep F (t_root t) (Bin x a k y) c" using I(1) T rep_plug by blast
  have "distinct (inorder T)" using I(1) by (simp add: rep_def)
  then have "a \<notin> set l" "a \<notin> set r" using lar(1) by simp_all
  moreover have "inorder T = (before c @ inorder x) @ a # (inorder y @ behind c)" by (simp add: T inorder_plug)
  ultimately have lr: "l = before c @ inorder x" "r = inorder y @ behind c"
    using lar(1) append_Cons_eq_iff[of a l r "before c @ inorder x" "inorder y @ behind c"] by simp_all
  have hd: "or_null t (head_or_null zs) = head_or_null (map (node2data t) zs)" if "set zs \<subseteq> set (inorder T)" for zs
    using that I(2) by (cases zs) (auto simp: head_or_null_def or_null_def)
  have "avl_tree_next t d = Some (head_or_null ys)"
    using avl_node_next_rep[OF ra] inv[OF a] lar lr hd[of r] by (auto simp: avl_tree_next_def)
  moreover have "set (rev l) \<subseteq> set (inorder T)" using lar(1) by auto
  then have "avl_tree_prev t d = Some (head_or_null (rev xs))"
    using avl_node_prev_rep[OF ra] inv[OF a] lar lr hd[of "rev l"] by (auto simp: avl_tree_prev_def rev_map)
  ultimately show ?thesis ..
qed

theorem avl_next_prev_witness:
  "avl_tree_next demo_avl 50 = Some (head_or_null [100]) \<and> avl_tree_prev demo_avl 50 = Some (head_or_null (rev []))"
  using avl_next_prev[OF demo_avl_inv, of "[]" 50 "[100]"] demo_entries by simp

text \<open>
  C28. Tearing down: \<open>avl_tree_clear\<close> terminates, gives every structure of the tree to \<open>destroy\<close> exactly
  once and leaves an empty tree with the count 0.
\<close>

theorem avl_clear_all:
  assumes "tree_inv key F t T"
  shows "\<exists>t' ds. avl_tree_clear t = Some (t', ds) \<and> v_root (t_root t') = 0 \<and> t_count t' = 0 \<and> mset ds = mset (entries t T)"
proof -
  have I: "rep F (t_root t) T []" "t_count t = of_nat (length (inorder T))" "v_root (t_root t) = addr T"
    using assms by (auto simp: tree_inv_def rep_def)
  have "avl_tree_clear t = clear_loop (addr T) [] t"
    using clear_loop_start[of t "[]"] I(3) by (cases "addr T = 0") (simp_all add: avl_tree_clear_def)
  then show ?thesis using clear_loop_rep[OF I(1), of "[]"] I(2) by (auto simp: entries_def)
qed

theorem avl_clear_all_witness:
  "\<exists>t' ds. avl_tree_clear demo_avl = Some (t', ds) \<and> v_root (t_root t') = 0 \<and> t_count t' = 0
     \<and> mset ds = mset (entries demo_avl demo_ptree)"
  by (rule avl_clear_all[OF demo_avl_inv])

end
