(* ===== verification/Index.thy ===== *)
theory Index
  imports Avl_Tree
begin

text \<open>
  The interface the messenger needs of its tree of channels: an index of structures by key. The locale
  states the laws of search, insertion and removal over the set of members; the lemmas inside are what a
  client derives from them. The AVL tree of \<open>avlmini.c\<close> with the node at offset 0 of the structure
  provides the interface.
\<close>

section \<open>Interface\<close>

text \<open>
  \<open>holds key s D\<close>: the index \<open>s\<close> has the members \<open>D\<close>, with pairwise different keys. \<open>node s d\<close>: what is
  stored for linking \<open>d\<close>.
\<close>

locale keyed_index =
  fixes holds :: "(nat \<Rightarrow> 'k :: linorder) \<Rightarrow> 's \<Rightarrow> nat set \<Rightarrow> bool"
    and node :: "'s \<Rightarrow> nat \<Rightarrow> 'n option"
    and find :: "(nat \<Rightarrow> int) \<Rightarrow> 's \<Rightarrow> nat option"
    and add :: "(nat \<Rightarrow> int) \<Rightarrow> nat \<Rightarrow> 's \<Rightarrow> ('s \<times> nat) option"
    and remove :: "nat \<Rightarrow> 's \<Rightarrow> 's option"
  assumes members: "holds key s D \<Longrightarrow> finite D \<and> 0 \<notin> D \<and> inj_on key D"
    and keys_only: "holds key s D \<Longrightarrow> \<forall>d \<in> D. key' d = key d \<Longrightarrow> holds key' s D"
    and find_hit: "holds key s D \<Longrightarrow> order_by cmp key (key d) \<Longrightarrow> d \<in> D \<Longrightarrow> find cmp s = Some d"
    and find_miss: "holds key s D \<Longrightarrow> order_by cmp key x \<Longrightarrow> x \<notin> key ` D \<Longrightarrow> find cmp s = Some 0"
    and add_old: "holds key s D \<Longrightarrow> order_by cmp key (key d) \<Longrightarrow> 0 < d \<Longrightarrow> d \<notin> D \<Longrightarrow> node s d \<noteq> None \<Longrightarrow> e \<in> D \<Longrightarrow> key e = key d
      \<Longrightarrow> add cmp d s = Some (s, e)"
    and add_new: "holds key s D \<Longrightarrow> order_by cmp key (key d) \<Longrightarrow> 0 < d \<Longrightarrow> d \<notin> D \<Longrightarrow> node s d \<noteq> None \<Longrightarrow> key d \<notin> key ` D
      \<Longrightarrow> \<exists>s'. add cmp d s = Some (s', 0) \<and> holds key s' (insert d D) \<and> (\<forall>e. e \<notin> insert d D \<longrightarrow> node s' e = node s e)"
    and remove_old: "holds key s D \<Longrightarrow> d \<in> D \<Longrightarrow> \<exists>s'. remove d s = Some s' \<and> holds key s' (D - {d})
      \<and> (\<forall>e. e \<notin> D \<longrightarrow> node s' e = node s e)"
begin

lemma find_none_iff:
  assumes "holds key s D" and "order_by cmp key x"
  shows "find cmp s = Some 0 \<longleftrightarrow> x \<notin> key ` D"
  using find_hit[OF assms(1)] find_miss[OF assms] members[OF assms(1)] assms(2) by fastforce

text \<open>Lookup after insertion and after removal.\<close>

lemma find_add:
  assumes "holds key s D" and "order_by cmp key (key d)" and "0 < d" and "d \<notin> D" and "node s d \<noteq> None" and "key d \<notin> key ` D"
  shows "\<exists>s'. add cmp d s = Some (s', 0) \<and> find cmp s' = Some d \<and> (\<forall>e \<in> D. \<forall>cmp'. order_by cmp' key (key e) \<longrightarrow> find cmp' s' = Some e)"
proof -
  obtain s' where "add cmp d s = Some (s', 0)" "holds key s' (insert d D)" using add_new[OF assms] by blast
  then show ?thesis using find_hit[of key s' "insert d D"] assms(2) by blast
qed

lemma find_remove:
  assumes "holds key s D" and "order_by cmp key (key d)" and "d \<in> D"
  shows "\<exists>s'. remove d s = Some s' \<and> find cmp s' = Some 0"
proof -
  obtain s' where s': "remove d s = Some s'" "holds key s' (D - {d})" using remove_old[OF assms(1,3)] by blast
  moreover have "key d \<notin> key ` (D - {d})" using members[OF assms(1)] assms(3) by (auto dest: inj_onD)
  ultimately show ?thesis using find_miss[OF s'(2) assms(2)] by blast
qed

text \<open>Among more candidate keys than members one is free; the first free one is found after keys in use.\<close>

lemma first_free:
  assumes "holds key s D" and "inj_on f {..<N}" and "card D < N"
  shows "\<exists>i < N. f i \<notin> key ` D \<and> (\<forall>j < i. f j \<in> key ` D)"
proof -
  have "\<exists>i < N. f i \<notin> key ` D"
  proof (rule ccontr)
    assume "\<not> ?thesis"
    then have "f ` {..<N} \<subseteq> key ` D" by auto
    then have "card (f ` {..<N}) \<le> card (key ` D)" using members[OF assms(1)] by (intro card_mono) auto
    also have "\<dots> \<le> card D" using members[OF assms(1)] by (intro card_image_le) simp
    finally have "card (f ` {..<N}) \<le> card D" .
    then show False using assms(2,3) by (simp add: card_image)
  qed
  then obtain i where i: "i < N" "f i \<notin> key ` D" by blast
  then obtain k where "k \<le> i" "\<forall>j < k. \<not> f j \<notin> key ` D" "f k \<notin> key ` D"
    using ex_least_nat_le[of "\<lambda>i. f i \<notin> key ` D" i] by blast
  then show ?thesis using i(1) by (intro exI[of _ k]) simp
qed

end

section \<open>The AVL tree provides it\<close>

definition tree_holds :: "(nat \<Rightarrow> 'k :: linorder) \<Rightarrow> avl_tree \<Rightarrow> nat set \<Rightarrow> bool" where
  "tree_holds key t D \<longleftrightarrow> t_offset t = 0 \<and> (\<exists>T. tree_inv key (v_heap (t_root t)) t T \<and> set (inorder T) = D)"

definition tree_node :: "avl_tree \<Rightarrow> nat \<Rightarrow> avl_node option" where
  "tree_node t d = v_heap (t_root t) d"

lemma offset_0: "t_offset t = 0 \<Longrightarrow> entries t T = inorder T \<and> data2node t d = d \<and> key_of key t = key"
  by (auto simp: entries_def node2data_def data2node_def key_of_def fun_eq_iff intro: map_idI)

lemma tree_inv_own_heap: "tree_inv key F t T \<Longrightarrow> tree_inv key (v_heap (t_root t)) t T"
  by (simp add: tree_inv_def rep_def)

lemma tree_inv_frame: "tree_inv key F t T \<Longrightarrow> z \<notin> set (inorder T) \<Longrightarrow> v_heap (t_root t) z = F z"
  by (simp add: tree_inv_def rep_def)

lemma tree_holdsE:
  assumes "tree_holds key t D"
  obtains T where "t_offset t = 0" "tree_inv key (v_heap (t_root t)) t T" "entries t T = inorder T" "set (inorder T) = D"
  using assms by (auto simp: tree_holds_def offset_0)

lemma tree_holds_members: "tree_holds key t D \<Longrightarrow> finite D \<and> 0 \<notin> D \<and> inj_on key D"
proof (elim tree_holdsE)
  fix T assume T: "t_offset t = 0" "tree_inv key (v_heap (t_root t)) t T" "set (inorder T) = D"
  then have s: "sorted_wrt (\<lambda>a b. key a < key b) (inorder T)" "\<forall>a \<in> D. 0 < a" by (auto simp: tree_inv_def offset_0)
  then have "sorted_wrt (<) (map key (inorder T))" by (simp add: sorted_wrt_map)
  then have "distinct (map key (inorder T))" by (simp add: strict_sorted_iff)
  then have "inj_on key D" using T(3) by (simp add: distinct_map)
  then show ?thesis using s(2) T(3) by auto
qed

lemma tree_holds_keys: "tree_holds key t D \<Longrightarrow> \<forall>d \<in> D. key' d = key d \<Longrightarrow> tree_holds key' t D"
proof (elim tree_holdsE)
  fix T assume T: "\<forall>d \<in> D. key' d = key d" "t_offset t = 0" "tree_inv key (v_heap (t_root t)) t T" "set (inorder T) = D"
  then have "sorted_wrt (\<lambda>a b. key a < key b) (inorder T)" by (simp add: tree_inv_def offset_0)
  then have "sorted_wrt (\<lambda>a b. key' a < key' b) (inorder T)" by (rule sorted_wrt_mono_rel[rotated]) (use T in simp)
  then show ?thesis using T by (auto simp: tree_holds_def tree_inv_def offset_0)
qed

lemma tree_holds_find_hit:
  assumes "tree_holds key t D" and "order_by cmp key (key d)" and "d \<in> D"
  shows "avl_tree_find cmp t = Some d"
proof (rule tree_holdsE[OF assms(1)])
  fix T assume T: "tree_inv key (v_heap (t_root t)) t T" "entries t T = inorder T" "set (inorder T) = D"
  have "List.find (\<lambda>e. key e = key d) (inorder T) \<noteq> None" using assms(3) T(3) by (auto simp: find_None_iff)
  then obtain e where e: "List.find (\<lambda>e. key e = key d) (inorder T) = Some e" by blast
  then have "e \<in> D" "key e = key d" using T(3) by (auto simp: find_Some_iff)
  then have "e = d" using tree_holds_members[OF assms(1)] assms(3) by (auto dest: inj_onD)
  then show ?thesis using avl_tree_find_rep[OF T(1) assms(2)] e T(2) by simp
qed

lemma tree_holds_find_miss:
  assumes "tree_holds key t D" and "order_by cmp key x" and "x \<notin> key ` D"
  shows "avl_tree_find cmp t = Some 0"
proof (rule tree_holdsE[OF assms(1)])
  fix T assume T: "tree_inv key (v_heap (t_root t)) t T" "entries t T = inorder T" "set (inorder T) = D"
  then have "List.find (\<lambda>e. key e = x) (inorder T) = None" using assms(3) by (auto simp: find_None_iff)
  then show ?thesis using avl_tree_find_rep[OF T(1) assms(2)] T(2) by simp
qed

lemma tree_holds_add_old:
  assumes "tree_holds key t D" and "order_by cmp key (key d)" and "0 < d" and "d \<notin> D" and "tree_node t d \<noteq> None"
    and "e \<in> D" and "key e = key d"
  shows "avl_tree_add cmp d t = Some (t, e)"
proof (rule tree_holdsE[OF assms(1)])
  fix T assume T: "t_offset t = 0" "tree_inv key (v_heap (t_root t)) t T" "entries t T = inorder T" "set (inorder T) = D"
  then have "\<exists>e' \<in> D. key e' = key d \<and> avl_tree_add cmp d t = Some (t, e')"
    using avl_tree_add_rep[OF T(2) assms(2,3)] assms(4-7) by (auto simp: offset_0 tree_node_def T(3) split: if_splits)
  then show ?thesis using tree_holds_members[OF assms(1)] assms(6,7) by (metis inj_onD)
qed

lemma tree_holds_add_new:
  assumes "tree_holds key t D" and "order_by cmp key (key d)" and "0 < d" and "d \<notin> D" and "tree_node t d \<noteq> None"
    and "key d \<notin> key ` D"
  shows "\<exists>t'. avl_tree_add cmp d t = Some (t', 0) \<and> tree_holds key t' (insert d D)
    \<and> (\<forall>e. e \<notin> insert d D \<longrightarrow> tree_node t' e = tree_node t e)"
proof (rule tree_holdsE[OF assms(1)])
  fix T assume T: "t_offset t = 0" "tree_inv key (v_heap (t_root t)) t T" "entries t T = inorder T" "set (inorder T) = D"
  have "\<not> (\<exists>e \<in> set (entries t T). key e = key d)" using assms(6) T by (metis imageI)
  then have "\<exists>t' T'. avl_tree_add cmp d t = Some (t', 0) \<and> tree_inv key (v_heap (t_root t)) t' T' \<and> t_offset t' = t_offset t
     \<and> (\<exists>xs ys. entries t T = xs @ ys \<and> entries t' T' = xs @ d # ys)"
    using avl_tree_add_rep[OF T(2) assms(2,3)] assms(4,5) T(1,4) by (simp add: offset_0 tree_node_def)
  then obtain t' T' where t': "avl_tree_add cmp d t = Some (t', 0)" "tree_inv key (v_heap (t_root t)) t' T'" "t_offset t' = t_offset t"
      "\<exists>xs ys. entries t T = xs @ ys \<and> entries t' T' = xs @ d # ys" by blast
  then have "set (inorder T') = insert d D" using T by (auto simp: offset_0)
  then show ?thesis using t' T tree_inv_own_heap[OF t'(2)] tree_inv_frame[OF t'(2)] by (auto simp: tree_holds_def tree_node_def)
qed

lemma tree_holds_remove:
  assumes "tree_holds key t D" and "d \<in> D"
  shows "\<exists>t'. avl_tree_remove d t = Some t' \<and> tree_holds key t' (D - {d}) \<and> (\<forall>e. e \<notin> D \<longrightarrow> tree_node t' e = tree_node t e)"
proof (rule tree_holdsE[OF assms(1)])
  fix T assume T: "t_offset t = 0" "tree_inv key (v_heap (t_root t)) t T" "entries t T = inorder T" "set (inorder T) = D"
  then obtain t' T' n where t': "avl_tree_remove d t = Some t'" "tree_inv key ((v_heap (t_root t))(d \<mapsto> n)) t' T'" "t_offset t' = 0"
      "\<exists>xs ys. inorder T = xs @ d # ys \<and> inorder T' = xs @ ys"
    using avl_tree_remove_rep[OF T(2), of d] assms(2) offset_0 by metis
  moreover have "distinct (inorder T)" using T(2) by (simp add: tree_inv_def rep_def)
  ultimately have "set (inorder T') = D - {d}" using T(4) by auto
  then show ?thesis using t' tree_inv_own_heap[OF t'(2)] tree_inv_frame[OF t'(2)] assms(2)
    by (auto simp: tree_holds_def tree_node_def)
qed

interpretation avl_index: keyed_index tree_holds tree_node avl_tree_find avl_tree_add avl_tree_remove
  by unfold_locales (fact tree_holds_members tree_holds_keys tree_holds_find_hit tree_holds_find_miss tree_holds_add_old
      tree_holds_add_new tree_holds_remove)+

text \<open>Memory of structures outside the tree may come and go.\<close>

lemma tree_holds_other:
  assumes "tree_holds key t D" and "d \<notin> D"
  shows "tree_holds key (t\<lparr>t_root := (t_root t)\<lparr>v_heap := (v_heap (t_root t))(d := n)\<rparr>\<rparr>) D"
proof (rule tree_holdsE[OF assms(1)])
  fix T assume T: "t_offset t = 0" "tree_inv key (v_heap (t_root t)) t T" "set (inorder T) = D"
  then have "d \<notin> set (inorder T)" using assms(2) by simp
  then show ?thesis using T by (auto simp: tree_holds_def tree_inv_def rep_def key_of_def node2data_def intro!: exI[of _ T])
qed

text \<open>A member is linked: its node is there and its parent is not itself.\<close>

lemma tree_holds_linked:
  assumes "tree_holds key t D" and "d \<in> D"
  shows "\<exists>n. node_at d (t_root t) = Some n \<and> n_parent n \<noteq> d"
proof (rule tree_holdsE[OF assms(1)])
  fix T assume T: "tree_inv key (v_heap (t_root t)) t T" "set (inorder T) = D"
  then obtain l k r c where "T = plug (Bin l d k r) c" using zip_at[of d T] assms(2) by auto
  then have "rep (v_heap (t_root t)) (t_root t) (Bin l d k r) c" using T(1) rep_plug by (auto simp: tree_inv_def)
  then show ?thesis using rep_node rep_linked by fastforce
qed

end
