(* ===== verification/Ring.thy ===== *)
theory Ring
  imports Prelude
begin

text \<open>
  The doubly linked ring lists of \<open>src/src/xnet/xmsger.c\<close> (the macros \<open>__ring_list_*\<close>), which keep the
  channels of a messenger: nodes with \<open>prev\<close> and \<open>next\<close> pointers around a head node that is not an
  element. The macros are modelled assignment by assignment; the lemmas say what they do to the list of
  elements.
\<close>

section \<open>The macros\<close>

record ring =
  r_head :: nat
  r_next :: "nat \<Rightarrow> nat"
  r_prev :: "nat \<Rightarrow> nat"
  r_len :: u64

definition set_next :: "nat \<Rightarrow> nat \<Rightarrow> ring \<Rightarrow> ring" where
  "set_next n v r = r\<lparr>r_next := (r_next r)(n := v)\<rparr>"

definition set_prev :: "nat \<Rightarrow> nat \<Rightarrow> ring \<Rightarrow> ring" where
  "set_prev n v r = r\<lparr>r_prev := (r_prev r)(n := v)\<rparr>"

text \<open>The two pairs of assignments the macros are made of: bridging a node over, and setting it between two.\<close>

definition ring_unlink :: "nat \<Rightarrow> ring \<Rightarrow> ring" where
  "ring_unlink n r =
     (let r1 = set_next (r_prev r n) (r_next r n) r in set_prev (r_next r1 n) (r_prev r1 n) r1)"

definition ring_link_end :: "nat \<Rightarrow> ring \<Rightarrow> ring" where
  "ring_link_end n r =
     (let r1 = set_next n (r_head r) r; r2 = set_prev n (r_prev r1 (r_head r1)) r1;
          r3 = set_next (r_prev r2 n) n r2 in set_prev (r_next r3 n) n r3)"

definition ring_link_head :: "nat \<Rightarrow> ring \<Rightarrow> ring" where
  "ring_link_head n r =
     (let r1 = set_next n (r_next r (r_head r)) r; r2 = set_prev n (r_head r1) r1;
          r3 = set_next (r_prev r2 n) n r2 in set_prev (r_next r3 n) n r3)"

definition ring_list_take_out :: "nat \<Rightarrow> ring \<Rightarrow> ring" where
  "ring_list_take_out n r = (let r1 = ring_unlink n r in r1\<lparr>r_len := r_len r1 - 1\<rparr>)"

definition ring_list_put_into_end :: "nat \<Rightarrow> ring \<Rightarrow> ring" where
  "ring_list_put_into_end n r = (let r1 = ring_link_end n r in r1\<lparr>r_len := r_len r1 + 1\<rparr>)"

definition ring_list_put_into_head :: "nat \<Rightarrow> ring \<Rightarrow> ring" where
  "ring_list_put_into_head n r = (let r1 = ring_link_head n r in r1\<lparr>r_len := r_len r1 + 1\<rparr>)"

definition ring_list_move_to_end :: "nat \<Rightarrow> ring \<Rightarrow> ring" where
  "ring_list_move_to_end n r = ring_link_end n (ring_unlink n r)"

definition ring_list_move_to_head :: "nat \<Rightarrow> ring \<Rightarrow> ring" where
  "ring_list_move_to_head n r = ring_link_head n (ring_unlink n r)"

lemmas ring_defs = ring_unlink_def ring_link_end_def ring_link_head_def ring_list_take_out_def
  ring_list_put_into_end_def ring_list_put_into_head_def ring_list_move_to_end_def ring_list_move_to_head_def
  set_next_def set_prev_def Let_def

section \<open>Rings as lists\<close>

fun chain :: "(nat \<Rightarrow> nat) \<Rightarrow> (nat \<Rightarrow> nat) \<Rightarrow> nat list \<Rightarrow> bool" where
  "chain nx pv (x # y # zs) \<longleftrightarrow> nx x = y \<and> pv y = x \<and> chain nx pv (y # zs)"
| "chain nx pv _ \<longleftrightarrow> True"

definition ring_links :: "ring \<Rightarrow> nat list \<Rightarrow> bool" where
  "ring_links r xs \<longleftrightarrow> chain (r_next r) (r_prev r) (r_head r # xs @ [r_head r]) \<and> distinct (r_head r # xs)"

definition ring_rep :: "ring \<Rightarrow> nat list \<Rightarrow> bool" where
  "ring_rep r xs \<longleftrightarrow> ring_links r xs \<and> r_len r = of_nat (length xs)"

lemma chain_append: "chain nx pv (xs @ y # ys) \<longleftrightarrow> chain nx pv (xs @ [y]) \<and> chain nx pv (y # ys)"
proof (induction xs)
  case (Cons x xs)
  then show ?case by (cases xs) auto
qed simp

lemma chain_next_upd: "z \<notin> set xs \<Longrightarrow> chain (nx(z := v)) pv (xs @ [y]) = chain nx pv (xs @ [y])"
proof (induction xs)
  case (Cons x xs)
  then show ?case by (cases xs) auto
qed simp

lemma chain_prev_upd: "z \<notin> set xs \<Longrightarrow> chain nx (pv(z := v)) (y # xs) = chain nx pv (y # xs)"
proof (induction xs arbitrary: y)
  case (Cons x xs)
  then show ?case by auto
qed simp

text \<open>A chain from \<open>a\<close> to \<open>b\<close> through \<open>zs\<close>: only links out of \<open>a # zs\<close> and back from \<open>zs @ [b]\<close> matter.\<close>

lemma chain_upd:
  assumes "u \<notin> set (a # zs)" and "v \<notin> set (zs @ [b])"
  shows "chain (nx(u := s)) (pv(v := t)) (a # zs @ [b]) = chain nx pv (a # zs @ [b])"
  using chain_prev_upd[of v "zs @ [b]" "nx(u := s)" pv t a] chain_next_upd[of u "a # zs" nx s pv b] assms by simp

lemma ring_split: "ring_links r (xs @ n # ys) \<longleftrightarrow> chain (r_next r) (r_prev r) (r_head r # xs @ [n])
    \<and> chain (r_next r) (r_prev r) (n # ys @ [r_head r]) \<and> distinct (r_head r # xs @ n # ys)"
  using chain_append[of "r_next r" "r_prev r" "r_head r # xs" n "ys @ [r_head r]"] by (simp add: ring_links_def)

lemma chain_ends:
  "chain nx pv (a # zs @ [b]) \<Longrightarrow> nx a = hd (zs @ [b]) \<and> pv b = last (a # zs)"
proof (induction zs arbitrary: a)
  case (Cons z zs)
  then show ?case by (cases zs) auto
qed simp

text \<open>The two halves of a ring that a change in one place leaves alone.\<close>

lemma front_upd:
  assumes "distinct (us @ [p])" and "set A \<inter> set us = {}" and "set B \<inter> set (tl (us @ [p])) = {}"
    and "\<And>z. z \<notin> set A \<Longrightarrow> nx' z = nx z" and "\<And>z. z \<notin> set B \<Longrightarrow> pv' z = pv z" and "chain nx pv (us @ [p])"
  shows "chain nx' pv' (us @ [p])"
  using assms
proof (induction us)
  case (Cons u us)
  have "chain nx' pv' (us @ [p])" using Cons by (intro Cons.IH) (cases us; auto)+
  moreover have "nx' u = nx u" "pv' (hd (us @ [p])) = pv (hd (us @ [p]))"
    using Cons.prems by (cases us; auto)+
  ultimately show ?case using Cons.prems(6) by (cases us) auto
qed simp

lemma ring_unlink_links:
  assumes "ring_links r (xs @ n # ys)"
  shows "ring_links (ring_unlink n r) (xs @ ys)"
proof -
  let ?h = "r_head r" and ?nx = "r_next r" and ?pv = "r_prev r"
  obtain us p where up: "?h # xs = us @ [p]" by (metis append_butlast_last_id list.distinct(1))
  obtain q vs where qv: "ys @ [?h] = q # vs" by (cases ys) auto
  have S: "chain ?nx ?pv (?h # xs @ [n])" "chain ?nx ?pv (n # ys @ [?h])" "distinct (?h # xs @ n # ys)"
    using assms by (auto simp: ring_split)
  then have pn: "?pv n = p" "?nx n = q" using chain_ends up qv by (metis last_snoc list.sel(1))+
  have pm: "p \<in> set (?h # xs)" "q \<in> set (ys @ [?h])" unfolding up qv by simp_all
  then have ne: "p \<noteq> n" "q \<noteq> n" using S(3) by auto
  let ?nx' = "?nx(p := q)" and ?pv' = "?pv(q := p)"
  have r: "ring_unlink n r = r\<lparr>r_next := ?nx', r_prev := ?pv'\<rparr>" using pn ne by (simp add: ring_defs)
  have cu: "chain ?nx ?pv (us @ [p])" using S(1) up chain_append[of ?nx ?pv us p "[n]"] by (metis append_Cons append_assoc append_Nil)
  have cq: "chain ?nx ?pv (ys @ [?h])" using S(2) qv by (cases ys) auto
  have d1: "distinct (us @ [p])" using S(3) by (simp flip: up)
  have pu: "p \<notin> set us" "tl (us @ [p]) = xs" "q \<notin> set xs" using d1 S(3) pm(2) by (simp, simp flip: up, auto)
  have "chain ?nx' ?pv' (us @ [p])"
    by (rule front_upd[where A = "[p]" and B = "[q]", OF d1 _ _ _ _ cu]) (simp_all add: pu)
  moreover have dq: "distinct (ys @ [?h])" and py: "p \<notin> set ys" using S(3) pm(1) by auto
  moreover have "q \<notin> set (tl (ys @ [?h]))" using dq unfolding qv by simp
  then have "chain ?nx' ?pv' (ys @ [?h])"
    by (intro front_upd[where A = "[p]" and B = "[q]", OF dq _ _ _ _ cq]) (use py in simp_all)
  ultimately have "chain ?nx' ?pv' (us @ p # q # vs)" using chain_append[of ?nx' ?pv' us p "q # vs"] qv by simp
  moreover have "?h # xs @ ys @ [?h] = us @ p # q # vs" using up qv by (metis append_Cons append_assoc append_Nil)
  ultimately have "chain ?nx' ?pv' (?h # xs @ ys @ [?h])" by (simp only:)
  then show ?thesis using S(3) by (auto simp: ring_links_def r)
qed

lemma ring_link_end_links:
  assumes "ring_links r xs" and "n \<notin> set (r_head r # xs)"
  shows "ring_links (ring_link_end n r) (xs @ [n])"
proof -
  let ?h = "r_head r" and ?nx = "r_next r" and ?pv = "r_prev r"
  obtain us p where up: "?h # xs = us @ [p]" by (metis append_butlast_last_id list.distinct(1))
  have S: "chain ?nx ?pv (?h # xs @ [?h])" "distinct (?h # xs)" using assms(1) by (auto simp: ring_links_def)
  then have pv: "?pv ?h = p" using chain_ends up by (metis last_snoc)
  have "p \<in> set (?h # xs)" unfolding up by simp
  then have ne: "p \<noteq> n" using assms(2) by auto
  let ?nx' = "?nx(n := ?h, p := n)" and ?pv' = "?pv(n := p, ?h := n)"
  have r: "ring_link_end n r = r\<lparr>r_next := ?nx', r_prev := ?pv'\<rparr>" using pv ne assms(2) by (simp add: ring_defs)
  have d1: "distinct (us @ [p])" using S(2) by (simp flip: up)
  have pu: "p \<notin> set us" "tl (us @ [p]) = xs" "n \<notin> set us" using d1 assms(2) by (simp, simp flip: up, metis up Un_iff set_append)
  have cu: "chain ?nx ?pv (us @ [p])" using S(1) up chain_append[of ?nx ?pv us p "[?h]"] by (metis append_Cons append_assoc append_Nil)
  have "chain ?nx' ?pv' (us @ [p])"
    by (rule front_upd[where A = "[n, p]" and B = "[n, ?h]", OF d1 _ _ _ _ cu]) (use pu assms(2) S(2) in simp_all)
  then have "chain ?nx' ?pv' (us @ p # [n, ?h])"
    using chain_append[of ?nx' ?pv' us p "[n, ?h]"] ne assms(2) by auto
  moreover have "?h # xs @ [n] @ [?h] = us @ p # [n, ?h]" using up by simp
  ultimately have "chain ?nx' ?pv' (?h # xs @ [n] @ [?h])" by (simp only:)
  then show ?thesis using S(2) assms(2) by (auto simp: ring_links_def r)
qed

lemma ring_link_head_links:
  assumes "ring_links r xs" and "n \<notin> set (r_head r # xs)"
  shows "ring_links (ring_link_head n r) (n # xs)"
proof -
  let ?h = "r_head r" and ?nx = "r_next r" and ?pv = "r_prev r"
  obtain q vs where qv: "xs @ [?h] = q # vs" by (cases xs) auto
  have S: "chain ?nx ?pv (?h # xs @ [?h])" "distinct (?h # xs)" using assms(1) by (auto simp: ring_links_def)
  then have nx: "?nx ?h = q" using chain_ends[of ?nx ?pv ?h xs ?h] qv by simp
  have "q \<in> set (xs @ [?h])" unfolding qv by simp
  then have ne: "q \<noteq> n" using assms(2) by auto
  let ?nx' = "?nx(n := q, ?h := n)" and ?pv' = "?pv(n := ?h, q := n)"
  have r: "ring_link_head n r = r\<lparr>r_next := ?nx', r_prev := ?pv'\<rparr>" using nx ne assms(2) by (simp add: ring_defs)
  have cq: "chain ?nx ?pv (xs @ [?h])" using S(1) qv by (cases xs) auto
  have dq: "distinct (xs @ [?h])" using S(2) by auto
  then have "q \<notin> set (tl (xs @ [?h]))" unfolding qv by simp
  moreover have "n \<notin> set (tl (xs @ [?h]))" using assms(2) by (cases xs) auto
  ultimately have "chain ?nx' ?pv' (xs @ [?h])"
    by (intro front_upd[where A = "[n, ?h]" and B = "[n, q]", OF dq _ _ _ _ cq]) (use S(2) assms(2) in simp_all)
  then have "chain ?nx' ?pv' (?h # n # xs @ [?h])" using qv ne assms(2) by simp
  then show ?thesis using S(2) assms(2) by (auto simp: ring_links_def r)
qed

section \<open>Properties\<close>

lemma ring_keeps [simp]:
  "r_head (ring_unlink n r) = r_head r" "r_head (ring_link_end n r) = r_head r" "r_head (ring_link_head n r) = r_head r"
  "r_len (ring_unlink n r) = r_len r" "r_len (ring_link_end n r) = r_len r" "r_len (ring_link_head n r) = r_len r"
  by (simp_all add: ring_defs)

lemma ring_rep_take_out: "ring_rep r (xs @ n # ys) \<Longrightarrow> ring_rep (ring_list_take_out n r) (xs @ ys)"
  using ring_unlink_links[of r xs n ys] by (simp add: ring_rep_def ring_list_take_out_def Let_def ring_links_def)

lemma ring_rep_put_head: "ring_rep r xs \<Longrightarrow> n \<notin> set (r_head r # xs) \<Longrightarrow> ring_rep (ring_list_put_into_head n r) (n # xs)"
  using ring_link_head_links[of r xs n] by (simp add: ring_rep_def ring_list_put_into_head_def Let_def ring_links_def)

lemma ring_rep_put_end: "ring_rep r xs \<Longrightarrow> n \<notin> set (r_head r # xs) \<Longrightarrow> ring_rep (ring_list_put_into_end n r) (xs @ [n])"
  using ring_link_end_links[of r xs n] by (simp add: ring_rep_def ring_list_put_into_end_def Let_def ring_links_def)

lemma ring_rep_not_head: "ring_rep r xs \<Longrightarrow> n \<in> set xs \<Longrightarrow> n \<noteq> r_head r"
  by (auto simp: ring_rep_def ring_links_def)

lemma ring_rep_move:
  assumes "ring_rep r (xs @ n # ys)"
  shows "ring_rep (ring_list_move_to_end n r) (xs @ ys @ [n])" and "ring_rep (ring_list_move_to_head n r) (n # xs @ ys)"
proof -
  have "ring_links (ring_unlink n r) (xs @ ys)" "n \<notin> set (r_head r # xs @ ys)"
    using assms ring_unlink_links[of r xs n ys] by (auto simp: ring_rep_def ring_links_def)
  then show "ring_rep (ring_list_move_to_end n r) (xs @ ys @ [n])" "ring_rep (ring_list_move_to_head n r) (n # xs @ ys)"
    using assms ring_link_end_links[of "ring_unlink n r" "xs @ ys" n] ring_link_head_links[of "ring_unlink n r" "xs @ ys" n]
    by (simp_all add: ring_rep_def ring_list_move_to_end_def ring_list_move_to_head_def)
qed

text \<open>Walking: \<open>next\<close> leads through the elements in order and back to the head.\<close>

lemma ring_next:
  assumes "ring_rep r (xs @ n # ys)"
  shows "r_next r n = (if ys = [] then r_head r else hd ys)"
proof -
  have "chain (r_next r) (r_prev r) (n # ys @ [r_head r])" using assms unfolding ring_rep_def ring_split by blast
  from chain_ends[OF this] show ?thesis by (cases ys) simp_all
qed

lemma ring_first:
  assumes "ring_rep r xs"
  shows "r_next r (r_head r) = (if xs = [] then r_head r else hd xs)"
proof -
  have "chain (r_next r) (r_prev r) (r_head r # xs @ [r_head r])" using assms unfolding ring_rep_def ring_links_def by blast
  from chain_ends[OF this] show ?thesis by (cases xs) simp_all
qed

text \<open>C30. The ring list macros are list operations: on a ring whose elements are \<open>xs @ n # ys\<close>, taking \<open>n\<close> out
  leaves \<open>xs @ ys\<close>, moving it makes it the last or the first, putting a new node in makes it the first or the
  last; every time all links and the counted length are right again.\<close>

theorem ring_list_ops:
  assumes "ring_rep r (xs @ n # ys)" and "m \<notin> set (r_head r # xs @ n # ys)"
  shows "ring_rep (ring_list_take_out n r) (xs @ ys) \<and> ring_rep (ring_list_move_to_end n r) (xs @ ys @ [n])
    \<and> ring_rep (ring_list_move_to_head n r) (n # xs @ ys) \<and> ring_rep (ring_list_put_into_head m r) (m # xs @ n # ys)
    \<and> ring_rep (ring_list_put_into_end m r) (xs @ n # ys @ [m])"
  using assms ring_rep_put_end[OF assms] by (simp add: ring_rep_take_out ring_rep_move ring_rep_put_head)

text \<open>A ring with the head 1 and the elements 10, 20, 30.\<close>

definition demo_ring :: ring where
  "demo_ring = ring_list_put_into_end 30 (ring_list_put_into_end 20 (ring_list_put_into_end 10
     \<lparr>r_head = 1, r_next = (\<lambda>_. 1), r_prev = (\<lambda>_. 1), r_len = 0\<rparr>))"

theorem ring_list_ops_witness:
  "ring_rep (ring_list_take_out 20 demo_ring) [10, 30] \<and> ring_rep (ring_list_move_to_end 20 demo_ring) [10, 30, 20]
    \<and> ring_rep (ring_list_move_to_head 20 demo_ring) [20, 10, 30] \<and> ring_rep (ring_list_put_into_head 40 demo_ring) [40, 10, 20, 30]
    \<and> ring_rep (ring_list_put_into_end 40 demo_ring) [10, 20, 30, 40]"
proof -
  have "ring_rep demo_ring ([10] @ 20 # [30])" by (simp add: ring_rep_def ring_links_def demo_ring_def ring_defs)
  then show ?thesis using ring_list_ops[of demo_ring "[10]" 20 "[30]" 40] by (simp add: demo_ring_def ring_defs)
qed

end
