(* ===== verification/Xtree.thy ===== *)
theory Xtree
  imports Prelude "HOL-Library.Sublist" "HOL-Library.Multiset"
begin

text \<open>
  The radix tree of \<open>src/src/xnet/xtree.h\<close>. A key of \<open>keylen\<close> bytes is a path of twice as many
  nibbles; every node has sixteen child pointers and, behind them, a \<open>struct xnode\<close> with the mapped
  pointer, the parent, the index in the parent and three counters. Address 0 is NULL and
  \<^term>\<open>None\<close> is an access to memory that is not a node. Addresses of new nodes come from the sequence
  \<open>h_alloc\<close>, where 0 is a failed \<open>calloc\<close>.

  The theory \<open>Xtree_Map\<close> proves that the tree implements a finite map from keys to pointers.
\<close>

section \<open>Nodes\<close>

record xnode =
  x_kids :: "nat list"
  x_mapping :: nat
  x_parent :: nat
  x_route :: u64
  x_branch :: u16
  x_leaves :: u16
  x_index :: u8
  x_x :: u8

record xtrees =
  h_nodes :: "nat \<Rightarrow> xnode option"
  h_alloc :: "nat \<Rightarrow> nat"
  h_allocs :: nat

definition TREE_DIMENSION :: nat where
  "TREE_DIMENSION = 16"

definition TREE_MAX_INDEX :: nat where
  "TREE_MAX_INDEX = TREE_DIMENSION - 1"

definition zero_xnode :: xnode where
  "zero_xnode = \<lparr>x_kids = replicate TREE_DIMENSION 0, x_mapping = 0, x_parent = 0, x_route = 0,
     x_branch = 0, x_leaves = 0, x_index = 0, x_x = 0\<rparr>"

definition xnode_at :: "nat \<Rightarrow> xtrees \<Rightarrow> xnode option" where
  "xnode_at a h = (if a = 0 then None else h_nodes h a)"

definition upd_xnode :: "nat \<Rightarrow> (xnode \<Rightarrow> xnode) \<Rightarrow> xtrees \<Rightarrow> xtrees option" where
  "upd_xnode a f h = do {
     n \<leftarrow> xnode_at a h;
     Some (h\<lparr>h_nodes := (h_nodes h)(a \<mapsto> f n)\<rparr>) }"

definition get_kid :: "nat \<Rightarrow> nat \<Rightarrow> xtrees \<Rightarrow> nat option" where
  "get_kid a i h = do { n \<leftarrow> xnode_at a h; rd (x_kids n) i }"

definition set_kid :: "nat \<Rightarrow> nat \<Rightarrow> nat \<Rightarrow> xtrees \<Rightarrow> xtrees option" where
  "set_kid a i c h = do {
     n \<leftarrow> xnode_at a h;
     ks \<leftarrow> wr (x_kids n) i c;
     upd_xnode a (x_kids_update (\<lambda>_. ks)) h }"

definition calloc_xnode :: "xtrees \<Rightarrow> nat \<times> xtrees" where
  "calloc_xnode h =
     (let a = h_alloc h (h_allocs h); h1 = h\<lparr>h_allocs := h_allocs h + 1\<rparr>
      in if a = 0 then (0, h1) else (a, h1\<lparr>h_nodes := (h_nodes h1)(a \<mapsto> zero_xnode)\<rparr>))"

definition free_xnode :: "nat \<Rightarrow> xtrees \<Rightarrow> xtrees option" where
  "free_xnode a h = do {
     _ \<leftarrow> xnode_at a h;
     Some (h\<lparr>h_nodes := (h_nodes h)(a := None)\<rparr>) }"

definition hi :: "u8 \<Rightarrow> u8" where
  "hi b = drop_bit 4 b"

definition lo :: "u8 \<Rightarrow> u8" where
  "lo b = b AND 0x0F"

section \<open>Create, free, add, find\<close>

definition xtree_create :: "xtrees \<Rightarrow> nat \<times> xtrees" where
  "xtree_create h = calloc_xnode h"

text \<open>\<open>xtree_free\<close> with \<open>*pptr\<close>; only the root itself is freed.\<close>

definition xtree_free :: "nat \<Rightarrow> xtrees \<Rightarrow> (nat \<times> xtrees) option" where
  "xtree_free root h = (if root \<noteq> 0 then do { h1 \<leftarrow> free_xnode root h; Some (0, h1) } else Some (root, h))"

text \<open>
  One half of the loop body of \<open>xtree_add\<close>: make the child \<open>i\<close> when it is missing, and count the new
  route in it. The result is the child, or 0 when \<open>calloc\<close> failed.
\<close>

definition add_nibble :: "nat \<Rightarrow> u8 \<Rightarrow> xtrees \<Rightarrow> (nat \<times> xtrees) option" where
  "add_nibble tree i h = do {
     c \<leftarrow> get_kid tree (unat i) h;
     (c', h') \<leftarrow>
       (if c = 0 then
          let (a, h1) = calloc_xnode h in do {
            h2 \<leftarrow> set_kid tree (unat i) a h1;
            if a = 0 then Some (0, h2)
            else do {
              h3 \<leftarrow> upd_xnode tree (\<lambda>n. n\<lparr>x_branch := x_branch n + 1\<rparr>) h2;
              Some (a, h3) } }
        else Some (c, h));
     if c' = 0 then Some (0, h')
     else do {
       h4 \<leftarrow> upd_xnode c' (\<lambda>n. n\<lparr>x_route := x_route n + 1, x_index := i, x_parent := tree\<rparr>) h';
       Some (c', h4) } }"

text \<open>
  The loop of \<open>xtree_add\<close> over the bytes at \<open>p\<close>, with \<open>n\<close> bytes still to go. It returns the last
  parent and the last node; node 0 is the early \<open>return NULL\<close>.
\<close>

fun add_path :: "bytes \<Rightarrow> nat \<Rightarrow> nat \<Rightarrow> nat \<Rightarrow> xtrees \<Rightarrow> (nat \<times> nat \<times> xtrees) option" where
  "add_path p 0 parent tree h = Some (parent, tree, h)"
| "add_path [] (Suc n) parent tree h = None"
| "add_path (b # p) (Suc n) parent tree h = do {
     (t1, h1) \<leftarrow> add_nibble tree (hi b) h;
     if t1 = 0 then Some (0, 0, h1)
     else do {
       (t2, h2) \<leftarrow> add_nibble t1 (lo b) h1;
       if t2 = 0 then Some (0, 0, h2)
       else add_path p n t1 t2 h2 } }"

text \<open>
  \<open>xtree_add(root, key, keylen, mapping)\<close> returns \<open>&node->mapping\<close>, given here as the address of the
  node. With \<open>keylen\<close> 0 the variables \<open>node\<close> and \<open>parent\<close> are used uninitialised.
\<close>

definition xtree_add :: "nat \<Rightarrow> bytes \<Rightarrow> u8 \<Rightarrow> nat \<Rightarrow> xtrees \<Rightarrow> (nat \<times> xtrees) option" where
  "xtree_add root key keylen mapping h = do {
     h1 \<leftarrow> upd_xnode root (\<lambda>n. n\<lparr>x_route := x_route n + 1\<rparr>) h;
     if keylen = 0 then None
     else do {
       (parent, tree, h2) \<leftarrow> add_path key (unat keylen) 0 root h1;
       if tree = 0 then Some (0, h2)
       else do {
         h3 \<leftarrow> upd_xnode tree (\<lambda>n. n\<lparr>x_mapping := mapping\<rparr>) h2;
         h4 \<leftarrow> upd_xnode parent (\<lambda>n. n\<lparr>x_leaves := x_leaves n + 1\<rparr>) h3;
         Some (tree, h4) } } }"

text \<open>The loop of \<open>xtree_find\<close>, also the first loop of \<open>xtree_del\<close>, \<open>tree_rise\<close> and \<open>tree_drop\<close>.\<close>

fun find_path :: "bytes \<Rightarrow> nat \<Rightarrow> nat \<Rightarrow> xtrees \<Rightarrow> nat option" where
  "find_path p 0 root h = Some root"
| "find_path p (Suc n) root h =
     (if root = 0 then Some 0
      else do {
        b \<leftarrow> rd p 0;
        t1 \<leftarrow> get_kid root (unat (hi b)) h;
        if t1 = 0 then Some 0
        else do {
          t2 \<leftarrow> get_kid t1 (unat (lo b)) h;
          find_path (tl p) n t2 h } })"

definition xtree_find :: "nat \<Rightarrow> bytes \<Rightarrow> u8 \<Rightarrow> xtrees \<Rightarrow> nat option" where
  "xtree_find root key keylen h = do {
     t \<leftarrow> find_path key (unat keylen) root h;
     if t \<noteq> 0 then map_option x_mapping (xnode_at t h) else Some 0 }"

section \<open>Delete\<close>

text \<open>One half of the second loop of \<open>xtree_del\<close>: one route less through \<open>tree\<close>, which is freed when
  it was the last one.\<close>

definition del_nibble :: "nat \<Rightarrow> u8 \<Rightarrow> xtrees \<Rightarrow> (nat \<times> xtrees) option" where
  "del_nibble tree i h = do {
     n \<leftarrow> xnode_at tree h;
     let parent = x_parent n;
     h1 \<leftarrow> upd_xnode tree (\<lambda>n. n\<lparr>x_route := x_route n - 1\<rparr>) h;
     if x_route n - 1 = 0 then do {
       h2 \<leftarrow> free_xnode tree h1;
       h3 \<leftarrow> set_kid parent (unat i) 0 h2;
       h4 \<leftarrow> upd_xnode parent (\<lambda>n. n\<lparr>x_branch := x_branch n - 1\<rparr>) h3;
       Some (parent, h4) }
     else Some (parent, h1) }"

fun del_path :: "bytes \<Rightarrow> nat \<Rightarrow> nat \<Rightarrow> xtrees \<Rightarrow> xtrees option" where
  "del_path key 0 tree h = Some h"
| "del_path key (Suc p) tree h = do {
     b \<leftarrow> rd key p;
     (t1, h1) \<leftarrow> del_nibble tree (lo b) h;
     (t2, h2) \<leftarrow> del_nibble t1 (hi b) h1;
     del_path key p t2 h2 }"

definition xtree_del :: "nat \<Rightarrow> bytes \<Rightarrow> u8 \<Rightarrow> xtrees \<Rightarrow> (nat \<times> xtrees) option" where
  "xtree_del root key keylen h = do {
     tree \<leftarrow> find_path key (unat keylen) root h;
     if tree = 0 then Some (0, h)
     else do {
       h1 \<leftarrow> upd_xnode root (\<lambda>n. n\<lparr>x_route := x_route n - 1\<rparr>) h;
       n \<leftarrow> xnode_at tree h1;
       h2 \<leftarrow> upd_xnode tree (\<lambda>n. n\<lparr>x_mapping := 0\<rparr>) h1;
       h3 \<leftarrow> upd_xnode (x_parent n) (\<lambda>n. n\<lparr>x_leaves := x_leaves n - 1\<rparr>) h2;
       h4 \<leftarrow> del_path key (unat keylen) tree h3;
       Some (x_mapping n, h4) } }"

section \<open>Clear\<close>

text \<open>
  The inner loop of \<open>xtree_clear\<close>: from child \<open>i\<close> of \<open>tree\<close> down to a node without branches, or to the
  end of the children of a node.
\<close>

partial_function (option) wipe_down :: "nat \<Rightarrow> nat \<Rightarrow> xtrees \<Rightarrow> nat option" where
  "wipe_down tree i h =
     (if i < TREE_DIMENSION then do {
        c \<leftarrow> get_kid tree i h;
        if c = 0 then wipe_down tree (i + 1) h
        else do {
          n \<leftarrow> xnode_at c h;
          if x_branch n = 0 then Some c else wipe_down c 0 h } }
      else Some tree)"

text \<open>
  The outer loop. The result lists the pointers that were handed to the callback \<open>clear\<close> (when it is
  not NULL), which is code of the caller.
\<close>

partial_function (option) wipe_loop :: "nat \<Rightarrow> nat \<Rightarrow> nat \<Rightarrow> nat list \<Rightarrow> xtrees \<Rightarrow> (nat list \<times> xtrees) option"
  where
  "wipe_loop root tree i out h =
     (if tree = 0 then Some (out, h)
      else do {
        rn \<leftarrow> xnode_at root h;
        if x_branch rn > 0 then do {
          temp \<leftarrow> wipe_down tree i h;
          tn \<leftarrow> xnode_at temp h;
          let i' = unat (x_index tn + 1);
          let up = x_parent tn;
          if x_branch tn = 0 then do {
            h1 \<leftarrow> upd_xnode up (\<lambda>n. n\<lparr>x_branch := x_branch n - 1\<rparr>) h;
            h2 \<leftarrow> (if x_mapping tn \<noteq> 0 then upd_xnode root (\<lambda>n. n\<lparr>x_route := x_route n - 1\<rparr>) h1
                   else Some h1);
            h3 \<leftarrow> free_xnode temp h2;
            h4 \<leftarrow> set_kid up (i' - 1) 0 h3;
            wipe_loop root up i' (if x_mapping tn \<noteq> 0 then out @ [x_mapping tn] else out) h4 }
          else wipe_loop root up i' out h }
        else Some (out, h) })"

definition xtree_clear :: "nat \<Rightarrow> xtrees \<Rightarrow> (nat list \<times> xtrees) option" where
  "xtree_clear root h = wipe_loop root root 0 [] h"

section \<open>Least and greatest\<close>

partial_function (option) skip_up :: "nat \<Rightarrow> nat \<Rightarrow> xtrees \<Rightarrow> nat option" where
  "skip_up tree i h = do {
     c \<leftarrow> get_kid tree i h;
     if c = 0 then skip_up tree (i + 1) h else Some c }"

partial_function (option) min_loop :: "nat \<Rightarrow> xtrees \<Rightarrow> nat option" where
  "min_loop tree h =
     (if tree \<noteq> 0 then do {
        c \<leftarrow> skip_up tree 0 h;
        n \<leftarrow> xnode_at c h;
        if x_mapping n \<noteq> 0 then Some (x_mapping n) else min_loop c h }
      else Some 0)"

definition tree_min :: "nat \<Rightarrow> xtrees \<Rightarrow> nat option" where
  "tree_min root h = do {
     n \<leftarrow> xnode_at root h;
     if x_route n > 0 then min_loop root h else Some 0 }"

text \<open>Counting down below 0 wraps \<open>i\<close> to 255, which is outside the node.\<close>

fun skip_down :: "nat \<Rightarrow> nat \<Rightarrow> xtrees \<Rightarrow> nat option" where
  "skip_down tree i h = do {
     c \<leftarrow> get_kid tree i h;
     if c = 0 then (case i of 0 \<Rightarrow> None | Suc j \<Rightarrow> skip_down tree j h) else Some c }"

partial_function (option) max_loop :: "nat \<Rightarrow> xtrees \<Rightarrow> nat option" where
  "max_loop tree h =
     (if tree \<noteq> 0 then do {
        c \<leftarrow> skip_down tree TREE_MAX_INDEX h;
        n \<leftarrow> xnode_at c h;
        if x_branch n = 0 then Some (x_mapping n) else max_loop c h }
      else Some 0)"

definition tree_max :: "nat \<Rightarrow> xtrees \<Rightarrow> nat option" where
  "tree_max root h = do {
     n \<leftarrow> xnode_at root h;
     if x_route n > 0 then max_loop root h else Some 0 }"

section \<open>Ascending and descending enumeration\<close>

text \<open>
  The inner loop of \<open>tree_rise\<close>. The list holds the nodes in the order they were appended; \<open>count\<close>
  is decremented without a test, so it may pass 0 and wrap.
\<close>

partial_function (option) rise_down :: "nat \<Rightarrow> nat \<Rightarrow> u64 \<Rightarrow> nat list \<Rightarrow> xtrees \<Rightarrow> (nat \<times> u64 \<times> nat list) option"
  where
  "rise_down tree i cnt out h =
     (if i < TREE_DIMENSION then do {
        c \<leftarrow> get_kid tree i h;
        if c = 0 then
          (if i = TREE_MAX_INDEX then Some (tree, cnt, out) else rise_down tree (i + 1) cnt out h)
        else do {
          n \<leftarrow> xnode_at c h;
          if x_mapping n \<noteq> 0 then
            (if x_route n = 1 then Some (c, cnt - 1, out @ [c])
             else rise_down c 0 (cnt - 1) (out @ [c]) h)
          else rise_down c 0 cnt out h } }
      else Some (tree, cnt, out))"

text \<open>Climbing to the next uncle; \<open>i\<close> is an unsigned 8-bit index.\<close>

partial_function (option) climb :: "u8 \<Rightarrow> nat \<Rightarrow> u8 \<Rightarrow> xtrees \<Rightarrow> (nat \<times> u8) option" where
  "climb d tree i h =
     (if tree \<noteq> 0 \<and> unat i > TREE_MAX_INDEX then do {
        n \<leftarrow> xnode_at tree h;
        climb d (x_parent n) (x_index n + d) h }
      else Some (tree, i))"

partial_function (option) rise_loop :: "nat \<Rightarrow> u8 \<Rightarrow> u64 \<Rightarrow> nat list \<Rightarrow> xtrees \<Rightarrow> nat list option" where
  "rise_loop tree i cnt out h =
     (if tree \<noteq> 0 \<and> cnt \<noteq> 0 then do {
        (t, cnt1, out1) \<leftarrow> rise_down tree (unat i) cnt out h;
        n \<leftarrow> xnode_at t h;
        (t', i') \<leftarrow> climb 1 (x_parent n) (x_index n + 1) h;
        rise_loop t' i' cnt1 out1 h }
      else Some out)"

definition tree_rise :: "nat \<Rightarrow> bytes option \<Rightarrow> u8 \<Rightarrow> u64 \<Rightarrow> xtrees \<Rightarrow> nat list option" where
  "tree_rise root key keylen cnt h =
     (case key of
        None \<Rightarrow> rise_loop root 0 cnt [] h
      | Some k \<Rightarrow> do {
          t \<leftarrow> find_path k (unat keylen) root h;
          if t = 0 then Some [] else rise_loop t 0 (cnt - 1) [t] h })"

text \<open>
  The inner loop of \<open>tree_drop\<close>; the flag tells whether a leaf was appended. Its test
  \<open>i >= 0\<close> is always true for an unsigned \<open>i\<close>.
\<close>

partial_function (option) drop_down :: "nat \<Rightarrow> nat \<Rightarrow> u64 \<Rightarrow> nat list \<Rightarrow> xtrees \<Rightarrow> (nat \<times> u64 \<times> nat list) option"
  where
  "drop_down tree i cnt out h = do {
     c \<leftarrow> get_kid tree i h;
     if c = 0 then
       (if i = 0 then Some (tree, cnt, out) else drop_down tree (i - 1) cnt out h)
     else do {
       n \<leftarrow> xnode_at c h;
       if x_branch n = 0 then Some (c, cnt - 1, out @ [c])
       else drop_down c TREE_MAX_INDEX cnt out h } }"

text \<open>The visit of a parent after one of its branches: the mark \<open>x\<close> counts the branches done.\<close>

definition drop_mark :: "nat \<Rightarrow> u64 \<Rightarrow> nat list \<Rightarrow> xtrees \<Rightarrow> (u64 \<times> nat list \<times> xtrees) option" where
  "drop_mark tree cnt out h =
     (if tree \<noteq> 0 then do {
        n \<leftarrow> xnode_at tree h;
        let x = x_x n + 1;
        if (ucast x :: u16) = x_branch n then do {
          h1 \<leftarrow> upd_xnode tree (\<lambda>n. n\<lparr>x_x := 0\<rparr>) h;
          if x_mapping n \<noteq> 0 then Some (cnt - 1, out @ [tree], h1) else Some (cnt, out, h1) }
        else do {
          h1 \<leftarrow> upd_xnode tree (\<lambda>n. n\<lparr>x_x := x\<rparr>) h;
          Some (cnt, out, h1) } }
      else Some (cnt, out, h))"

partial_function (option) drop_loop :: "nat \<Rightarrow> u8 \<Rightarrow> u64 \<Rightarrow> nat list \<Rightarrow> xtrees \<Rightarrow> (nat list \<times> xtrees) option"
  where
  "drop_loop tree i cnt out h =
     (if tree \<noteq> 0 \<and> cnt \<noteq> 0 then do {
        (t, cnt1, out1) \<leftarrow> drop_down tree (unat i) cnt out h;
        n \<leftarrow> xnode_at t h;
        (cnt2, out2, h2) \<leftarrow> drop_mark (x_parent n) cnt1 out1 h;
        (t', i') \<leftarrow> climb (-1) (x_parent n) (x_index n - 1) h2;
        drop_loop t' i' cnt2 out2 h2 }
      else Some (out, h))"

definition tree_drop :: "nat \<Rightarrow> bytes option \<Rightarrow> u8 \<Rightarrow> u64 \<Rightarrow> xtrees \<Rightarrow> (nat list \<times> xtrees) option" where
  "tree_drop root key keylen cnt h =
     (case key of
        None \<Rightarrow> drop_loop root 15 cnt [] h
      | Some k \<Rightarrow> do {
          t \<leftarrow> find_path k (unat keylen) root h;
          if t = 0 then Some ([], h)
          else do {
            n \<leftarrow> xnode_at t h;
            (t', i') \<leftarrow> climb (-1) (x_parent n) (x_index n - 1) h;
            drop_loop t' i' (cnt - 1) [t] h } })"

declare wipe_down.simps [code] wipe_loop.simps [code] skip_up.simps [code] min_loop.simps [code]
  max_loop.simps [code] rise_down.simps [code] climb.simps [code] rise_loop.simps [code]
  drop_down.simps [code] drop_loop.simps [code]

end
