(* ===== verification/Xtree_Map.thy ===== *)
theory Xtree_Map
  imports Xtree
begin

text \<open>
  The radix tree as a finite map. \<open>trie_shape\<close> says that the nodes reachable from the root are a tree
  of paths with correct parents, indices, branch counts and mapped pointers; \<open>trie_counts\<close> that routes
  and leaves count the stored keys. Adding and deleting a key graft and prune one node at a time.
\<close>

section \<open>Reachable nodes\<close>

text \<open>The child function of the store, 0 where there is none, and the node at a path.\<close>

definition kid :: "xtrees \<Rightarrow> nat \<Rightarrow> u8 \<Rightarrow> nat" where
  "kid h a i = (case xnode_at a h of None \<Rightarrow> 0
     | Some n \<Rightarrow> if unat i < length (x_kids n) then x_kids n ! unat i else 0)"

definition at_path :: "xtrees \<Rightarrow> nat \<Rightarrow> u8 list \<Rightarrow> nat" where
  "at_path h r q = foldl (kid h) r q"

definition xnode_of :: "xtrees \<Rightarrow> nat \<Rightarrow> u8 list \<Rightarrow> xnode" where
  "xnode_of h r q = the (h_nodes h (at_path h r q))"

lemma kid_0 [simp]: "kid h 0 i = 0"
  by (simp add: kid_def xnode_at_def)

lemma at_path_Nil [simp]: "at_path h r [] = r"
  by (simp add: at_path_def)

lemma at_path_snoc [simp]: "at_path h r (q @ [i]) = kid h (at_path h r q) i"
  by (simp add: at_path_def)

lemma at_path_append: "at_path h r (q @ q') = at_path h (at_path h r q) q'"
  by (simp add: at_path_def)

lemma at_path_0 [simp]: "at_path h 0 q = 0"
  by (induction q rule: rev_induct) auto

definition trie_shape :: "xtrees \<Rightarrow> nat \<Rightarrow> u8 list set \<Rightarrow> (u8 list \<Rightarrow> nat) \<Rightarrow> bool" where
  "trie_shape h r E M \<longleftrightarrow> [] \<in> E \<and>
     (\<forall>q. at_path h r q \<noteq> 0 \<longleftrightarrow> q \<in> E) \<and>
     inj_on (at_path h r) E \<and>
     (\<forall>q. M q \<noteq> 0 \<longrightarrow> q \<in> E) \<and>
     (\<forall>q\<in>E. h_nodes h (at_path h r q) \<noteq> None \<and>
        length (x_kids (xnode_of h r q)) = 16 \<and>
        x_mapping (xnode_of h r q) = M q \<and>
        x_branch (xnode_of h r q) = of_nat (card {i. kid h (at_path h r q) i \<noteq> 0}) \<and>
        x_parent (xnode_of h r q) = (if q = [] then 0 else at_path h r (butlast q)) \<and>
        (q \<noteq> [] \<longrightarrow> x_index (xnode_of h r q) = last q))"

text \<open>\<open>K\<close> are the stored paths, \<open>p\<close> the part of a path that is being added or deleted, \<open>n\<close> the counter
  of the root.\<close>

definition trie_counts :: "xtrees \<Rightarrow> nat \<Rightarrow> u8 list multiset \<Rightarrow> u8 list \<Rightarrow> u64 \<Rightarrow> bool" where
  "trie_counts h r K p n \<longleftrightarrow>
     x_route (xnode_of h r []) = n \<and>
     (\<forall>q. at_path h r q \<noteq> 0 \<longrightarrow>
        x_leaves (xnode_of h r q) = of_nat (size {#k \<in># K. k \<noteq> [] \<and> butlast k = q#}) \<and>
        (q \<noteq> [] \<longrightarrow> x_route (xnode_of h r q) = of_nat (size {#k \<in># add_mset p K. prefix q k#})))"

definition paths :: "u8 list multiset \<Rightarrow> u8 list set" where
  "paths K = insert [] {q. \<exists>k \<in># K. prefix q k}"

lemma trie_shapeD:
  assumes "trie_shape h r E M"
  shows "[] \<in> E" and "at_path h r q \<noteq> 0 \<longleftrightarrow> q \<in> E" and "inj_on (at_path h r) E"
    and "M q \<noteq> 0 \<Longrightarrow> q \<in> E"
  using assms by (auto simp: trie_shape_def)

lemma trie_shape_nodeD:
  assumes "trie_shape h r E M" and "q \<in> E"
  shows "xnode_at (at_path h r q) h = Some (xnode_of h r q)"
    and "length (x_kids (xnode_of h r q)) = 16"
    and "x_mapping (xnode_of h r q) = M q"
    and "x_branch (xnode_of h r q) = of_nat (card {i. kid h (at_path h r q) i \<noteq> 0})"
    and "x_parent (xnode_of h r q) = (if q = [] then 0 else at_path h r (butlast q))"
    and "q \<noteq> [] \<Longrightarrow> x_index (xnode_of h r q) = last q"
proof -
  have "at_path h r q \<noteq> 0" and *: "h_nodes h (at_path h r q) \<noteq> None"
    using assms by (auto simp: trie_shape_def)
  then show "xnode_at (at_path h r q) h = Some (xnode_of h r q)"
    by (auto simp: xnode_at_def xnode_of_def)
qed (use assms in \<open>auto simp: trie_shape_def\<close>)

lemma trie_root:
  assumes "trie_shape h r E M"
  shows "r \<noteq> 0"
  using trie_shapeD(1) [OF assms] trie_shapeD(2) [OF assms, of "[]"] by simp

lemma trie_prefix_closed:
  assumes "trie_shape h r E M" and "q @ q' \<in> E"
  shows "q \<in> E"
  using assms(2) trie_shapeD(2) [OF assms(1), of q] trie_shapeD(2) [OF assms(1), of "q @ q'"]
  by (auto simp: at_path_append)

lemma kid_node:
  assumes "trie_shape h r E M" and "q \<in> E"
  shows "kid h (at_path h r q) i = (if unat i < 16 then x_kids (xnode_of h r q) ! unat i else 0)"
  using trie_shape_nodeD [OF assms] by (simp add: kid_def)

lemma kid_small:
  assumes "trie_shape h r E M" and "q @ [i] \<in> E"
  shows "unat i < 16"
  using kid_node [OF assms(1) trie_prefix_closed [OF assms], of i] trie_shapeD(2) [OF assms(1), of "q @ [i]"]
    assms(2) by (auto split: if_splits)

lemma get_kid_run:
  assumes "trie_shape h r E M" and "q \<in> E" and "unat i < 16"
  shows "get_kid (at_path h r q) (unat i) h = Some (at_path h r (q @ [i]))"
  using trie_shape_nodeD [OF assms(1,2)] assms(3) kid_node [OF assms(1,2), of i]
  by (simp add: get_kid_def)

lemma unat_hi: "unat (hi b) < 16"
proof -
  have "unat b < 256" using unsigned_less [of b, where ?'a = nat] by simp
  then have "unat b div 16 < 16" by linarith
  then show ?thesis by (simp add: hi_def drop_bit_eq_div unat_div)
qed

lemma unat_lo: "unat (lo b) < 16"
proof -
  have "lo b = take_bit 4 b" by (simp add: lo_def take_bit_eq_mask mask_numeral)
  then show ?thesis by (simp add: take_bit_eq_mod unat_mod)
qed

definition nibs :: "bytes \<Rightarrow> u8 list" where
  "nibs bs = concat (map (\<lambda>b. [hi b, lo b]) bs)"

lemma nibs_simps [simp]: "nibs [] = []" "nibs (b # bs) = hi b # lo b # nibs bs"
  "nibs (xs @ ys) = nibs xs @ nibs ys"
  by (auto simp: nibs_def)

lemma length_nibs [simp]: "length (nibs bs) = 2 * length bs"
  by (induction bs) auto

lemma hi_lo_inj: "hi a = hi b \<Longrightarrow> lo a = lo b \<Longrightarrow> a = b"
proof -
  assume "hi a = hi b" and "lo a = lo b"
  then have "drop_bit 4 a = drop_bit 4 b" and "take_bit 4 a = take_bit 4 b"
    by (simp_all add: hi_def lo_def take_bit_eq_mask mask_numeral)
  then show "a = b" by (metis bits_ident)
qed

lemma nibs_inj [simp]: "nibs xs = nibs ys \<longleftrightarrow> xs = ys"
proof (induction xs arbitrary: ys)
  case Nil
  then show ?case by (cases ys) auto
next
  case (Cons x xs)
  then show ?case by (cases ys) (auto dest: hi_lo_inj)
qed

section \<open>Find\<close>

lemma find_path_run:
  assumes "trie_shape h r E M" and "q \<in> E \<or> a = 0" and "a = at_path h r q" and "n \<le> length p"
  shows "find_path p n a h = Some (at_path h r (q @ nibs (take n p)))"
  using assms(2-4)
proof (induction n arbitrary: p q a)
  case 0
  then show ?case by simp
next
  case (Suc n)
  then obtain b p' where p: "p = b # p'" by (cases p) auto
  show ?case
  proof (cases "a = 0")
    case True
    then show ?thesis using Suc.prems(2) by (simp add: at_path_append)
  next
    case False
    then have q: "q \<in> E" using Suc.prems by auto
    note k1 = get_kid_run [OF assms(1) q unat_hi [of b]]
    show ?thesis
    proof (cases "q @ [hi b] \<in> E")
      case True
      note k2 = get_kid_run [OF assms(1) True unat_lo [of b]]
      have "at_path h r (q @ [hi b]) \<noteq> 0" using True trie_shapeD(2) [OF assms(1)] by blast
      moreover have "(q @ [hi b]) @ [lo b] \<in> E \<or> at_path h r ((q @ [hi b]) @ [lo b]) = 0"
        using trie_shapeD(2) [OF assms(1)] by blast
      from Suc.IH [OF this refl, of p']
      have "find_path p' n (at_path h r ((q @ [hi b]) @ [lo b])) h
              = Some (at_path h r (((q @ [hi b]) @ [lo b]) @ nibs (take n p')))"
        using Suc.prems(3) p by simp
      ultimately show ?thesis using False k1 k2 Suc.prems(2) p by simp
    next
      case no: False
      then have z: "at_path h r (q @ [hi b]) = 0" using trie_shapeD(2) [OF assms(1)] by blast
      have "at_path h r ((q @ [hi b]) @ (lo b # nibs (take n p'))) = 0"
        by (subst at_path_append) (simp only: z at_path_0)
      then show ?thesis using False k1 z Suc.prems(2) p by simp
    qed
  qed
qed

lemma xtree_find_shape:
  assumes "trie_shape h r E M" and "unat keylen \<le> length key"
  shows "xtree_find r key keylen h = Some (M (nibs (take (unat keylen) key)))"
proof -
  let ?q = "nibs (take (unat keylen) key)"
  have f: "find_path key (unat keylen) r h = Some (at_path h r ?q)"
    using find_path_run [OF assms(1), of "[]" r] trie_shapeD(1) [OF assms(1)] assms(2) by simp
  show ?thesis
  proof (cases "?q \<in> E")
    case True
    then have "at_path h r ?q \<noteq> 0" using trie_shapeD(2) [OF assms(1)] by blast
    then show ?thesis using f trie_shape_nodeD(1,3) [OF assms(1) True] by (simp add: xtree_find_def)
  next
    case False
    then have "at_path h r ?q = 0" and "M ?q = 0" using trie_shapeD(2,4) [OF assms(1)] by blast+
    then show ?thesis using f by (simp add: xtree_find_def)
  qed
qed


section \<open>Changing a node, grafting and pruning a leaf\<close>

definition touch :: "xtrees \<Rightarrow> nat \<Rightarrow> u8 list \<Rightarrow> (xnode \<Rightarrow> xnode) \<Rightarrow> xtrees" where
  "touch h r q f = h\<lparr>h_nodes := (h_nodes h)(at_path h r q \<mapsto> f (xnode_of h r q))\<rparr>"

definition graft :: "xtrees \<Rightarrow> nat \<Rightarrow> u8 list \<Rightarrow> u8 \<Rightarrow> nat \<Rightarrow> xtrees" where
  "graft h r p i c = h\<lparr>h_allocs := h_allocs h + 1, h_nodes := (h_nodes h)
     (at_path h r p \<mapsto> (xnode_of h r p)
        \<lparr>x_kids := (x_kids (xnode_of h r p))[unat i := c], x_branch := x_branch (xnode_of h r p) + 1\<rparr>,
      c \<mapsto> zero_xnode\<lparr>x_route := 1, x_index := i, x_parent := at_path h r p\<rparr>)\<rparr>"

definition prune :: "xtrees \<Rightarrow> nat \<Rightarrow> u8 list \<Rightarrow> u8 \<Rightarrow> xtrees" where
  "prune h r p i = h\<lparr>h_nodes := (h_nodes h)
     (at_path h r (p @ [i]) := None, at_path h r p \<mapsto> (xnode_of h r p)
        \<lparr>x_kids := (x_kids (xnode_of h r p))[unat i := 0], x_branch := x_branch (xnode_of h r p) - 1\<rparr>)\<rparr>"

lemma upd_xnode_run:
  assumes "trie_shape h r E M" and "q \<in> E"
  shows "upd_xnode (at_path h r q) f h = Some (touch h r q f)"
  using trie_shape_nodeD(1) [OF assms] by (simp add: upd_xnode_def touch_def)

lemma kid_touch:
  assumes "trie_shape h r E M" and "q \<in> E" and "x_kids (f (xnode_of h r q)) = x_kids (xnode_of h r q)"
  shows "kid (touch h r q f) = kid h"
  using trie_shape_nodeD(1) [OF assms(1,2)] assms(3)
  by (auto simp: fun_eq_iff kid_def touch_def xnode_at_def)

lemma at_path_touch:
  assumes "trie_shape h r E M" and "q \<in> E" and "x_kids (f (xnode_of h r q)) = x_kids (xnode_of h r q)"
  shows "at_path (touch h r q f) r = at_path h r"
  using kid_touch [of h r E M q f, OF assms] by (simp add: fun_eq_iff [where f = "at_path h' r" for h'] at_path_def)

lemma xnode_of_touch:
  assumes "trie_shape h r E M" and "q \<in> E" and "x_kids (f (xnode_of h r q)) = x_kids (xnode_of h r q)"
    and "q' \<in> E"
  shows "xnode_of (touch h r q f) r q' = (if q' = q then f (xnode_of h r q) else xnode_of h r q')"
proof -
  have "at_path h r q' = at_path h r q \<longleftrightarrow> q' = q"
    using trie_shapeD(3) [OF assms(1)] assms(2,4) by (auto simp: inj_on_eq_iff)
  then show ?thesis
    using at_path_touch [of h r E M q f, OF assms(1-3)] by (auto simp: xnode_of_def touch_def)
qed

lemma shape_touch:
  assumes "trie_shape h r E M" and "q \<in> E"
    and "x_kids (f (xnode_of h r q)) = x_kids (xnode_of h r q)"
    and "x_branch (f (xnode_of h r q)) = x_branch (xnode_of h r q)"
    and "x_parent (f (xnode_of h r q)) = x_parent (xnode_of h r q)"
    and "q \<noteq> [] \<Longrightarrow> x_index (f (xnode_of h r q)) = x_index (xnode_of h r q)"
  shows "trie_shape (touch h r q f) r E (M(q := x_mapping (f (xnode_of h r q))))"
proof -
  note at = at_path_touch [of h r E M q f, OF assms(1-3)]
    and kd = kid_touch [of h r E M q f, OF assms(1-3)]
    and nd = xnode_of_touch [of h r E M q f, OF assms(1-3)]
  have "h_nodes (touch h r q f) (at_path h r q') \<noteq> None" if "q' \<in> E" for q'
    using assms(1) that by (auto simp: touch_def trie_shape_def)
  then show ?thesis
    using assms trie_shapeD [OF assms(1)] trie_shape_nodeD [OF assms(1)]
    unfolding trie_shape_def at kd by (auto simp: nd)
qed

lemma shape_touch_same:
  assumes "trie_shape h r E M" and "q \<in> E"
    and "\<And>n. x_kids (f n) = x_kids n" and "\<And>n. x_branch (f n) = x_branch n"
    and "\<And>n. x_parent (f n) = x_parent n" and "\<And>n. x_index (f n) = x_index n"
    and "\<And>n. x_mapping (f n) = x_mapping n"
  shows "trie_shape (touch h r q f) r E M"
  using shape_touch [of h r E M q f] assms trie_shape_nodeD(3) [OF assms(1,2)] by simp

lemma foldl_change_leaf:
  assumes W: "\<And>q. W q = foldl f r q" and zero: "\<And>j. f' 0 j = 0" "\<And>j. f 0 j = 0"
    and inj: "\<And>q q'. W q = W q' \<Longrightarrow> W q \<noteq> 0 \<Longrightarrow> q = q'"
    and p: "W p \<noteq> 0" "f' (W p) i = c" and leaf: "\<And>j. W (p @ [i, j]) = 0" "\<And>j. f' c j = 0"
    and same: "\<And>q j. W q \<noteq> 0 \<Longrightarrow> q \<noteq> p @ [i] \<Longrightarrow> (q, j) \<noteq> (p, i) \<Longrightarrow> f' (W q) j = f (W q) j"
  shows "foldl f' r q = (if q = p @ [i] then c else W q)"
proof (induction q rule: rev_induct)
  case Nil
  then show ?case by (simp add: W)
next
  case (snoc j q)
  show ?case
  proof (cases "q = p @ [i]")
    case True
    then show ?thesis using snoc leaf by simp
  next
    case False
    have "f' (W q) j = (if q = p \<and> j = i then c else W (q @ [j]))"
      using False p zero same [of q j] by (cases "W q = 0") (auto simp: W)
    then show ?thesis using False snoc by auto
  qed
qed

lemma trie_path_eq:
  assumes "trie_shape h r E M" and "at_path h r q = at_path h r q'" and "at_path h r q \<noteq> 0"
  shows "q = q'"
  using assms trie_shapeD(2,3) [OF assms(1)] by (metis inj_onD)

lemma at_path_graft:
  assumes sh: "trie_shape h r E M" and p: "p \<in> E" and new: "p @ [i] \<notin> E" and i: "unat i < 16"
    and c: "c \<noteq> 0" "h_nodes h c = None"
  shows "at_path (graft h r p i c) r q = (if q = p @ [i] then c else at_path h r q)"
    and "kid (graft h r p i c) c j = 0"
    and "q \<in> E \<Longrightarrow> kid (graft h r p i c) (at_path h r q) j
           = (if q = p \<and> j = i then c else kid h (at_path h r q) j)"
proof -
  have live: "h_nodes h (at_path h r q) \<noteq> None" if "q \<in> E" for q
    using sh that by (simp add: trie_shape_def)
  have ac: "at_path h r q \<noteq> c" if "q \<in> E" for q using live [OF that] c by auto
  note nz = trie_shapeD(2) [OF sh]
  have leaf: "kid (graft h r p i c) c j = 0" for j
    using c i by (simp add: kid_def graft_def xnode_at_def zero_xnode_def TREE_DIMENSION_def)
  show "kid (graft h r p i c) c j = 0" by (rule leaf)
  have same: "kid (graft h r p i c) (at_path h r q) j
           = (if q = p \<and> j = i then c else kid h (at_path h r q) j)" if q: "q \<in> E" for q j
  proof (cases "q = p")
    case True
    then show ?thesis
      using ac [OF p] i kid_node [OF sh p] nz [of p] p trie_shape_nodeD(2) [OF sh p]
      by (auto simp: kid_def graft_def xnode_at_def nth_list_update simp flip: word_unat_eq_iff)
  next
    case False
    then have "at_path h r q \<noteq> at_path h r p" using trie_path_eq [OF sh] nz q by metis
    then show ?thesis using False ac [OF q] by (auto simp: kid_def graft_def xnode_at_def)
  qed
  then show "q \<in> E \<Longrightarrow> kid (graft h r p i c) (at_path h r q) j
           = (if q = p \<and> j = i then c else kid h (at_path h r q) j)" .
  have z: "at_path h r (p @ [i, j]) = 0" for j
  proof -
    have "at_path h r ((p @ [i]) @ [j]) = 0"
      by (subst at_path_append) (use new nz [of "p @ [i]"] in simp)
    then show ?thesis by simp
  qed
  show "at_path (graft h r p i c) r q = (if q = p @ [i] then c else at_path h r q)"
    unfolding at_path_def [of "graft h r p i c"]
    by (rule foldl_change_leaf [of "at_path h r" "kid h"])
      (use nz p same z leaf trie_path_eq [OF sh] in \<open>auto simp: at_path_def\<close>)
qed

lemma xnode_of_graft:
  assumes "trie_shape h r E M" and "p \<in> E" and "p @ [i] \<notin> E" and "unat i < 16"
    and "c \<noteq> 0" and "h_nodes h c = None"
  shows "xnode_of (graft h r p i c) r (p @ [i]) = zero_xnode\<lparr>x_route := 1, x_index := i, x_parent := at_path h r p\<rparr>"
    and "q \<in> E \<Longrightarrow> xnode_of (graft h r p i c) r q = (if q = p then (xnode_of h r p)
          \<lparr>x_kids := (x_kids (xnode_of h r p))[unat i := c], x_branch := x_branch (xnode_of h r p) + 1\<rparr>
          else xnode_of h r q)"
proof -
  note at = at_path_graft(1) [OF assms]
  show "xnode_of (graft h r p i c) r (p @ [i]) = zero_xnode\<lparr>x_route := 1, x_index := i, x_parent := at_path h r p\<rparr>"
    unfolding xnode_of_def at by (simp add: graft_def)
  assume q: "q \<in> E"
  then have "at_path h r q \<noteq> c" "q \<noteq> p @ [i]"
    using assms by (auto simp: trie_shape_def)
  moreover have "at_path h r q = at_path h r p \<longleftrightarrow> q = p"
    using trie_shapeD(3) [OF assms(1)] q assms(2) by (auto simp: inj_on_eq_iff)
  ultimately show "xnode_of (graft h r p i c) r q = (if q = p then (xnode_of h r p)
          \<lparr>x_kids := (x_kids (xnode_of h r p))[unat i := c], x_branch := x_branch (xnode_of h r p) + 1\<rparr>
          else xnode_of h r q)"
    unfolding xnode_of_def [of "graft h r p i c"] at by (auto simp: graft_def xnode_of_def)
qed

lemma shape_graft:
  assumes sh: "trie_shape h r E M" and p: "p \<in> E" and new: "p @ [i] \<notin> E" and i: "unat i < 16"
    and c: "c \<noteq> 0" "h_nodes h c = None"
  shows "trie_shape (graft h r p i c) r (insert (p @ [i]) E) M"
proof -
  note at = at_path_graft(1) [OF assms] and kd = at_path_graft(2,3) [OF assms]
    and nd = xnode_of_graft [OF assms] and nz = trie_shapeD(2) [OF sh]
  have live: "h_nodes h (at_path h r q) \<noteq> None" if "q \<in> E" for q
    using sh that by (simp add: trie_shape_def)
  have ac: "at_path h r q \<noteq> c" if "q \<in> E" for q using live [OF that] c by auto
  have ne: "q \<noteq> p @ [i]" if "q \<in> E" for q using that new by auto
  have bl: "butlast q \<noteq> p @ [i]" if "q \<in> E" for q
    using trie_prefix_closed [OF sh, of "butlast q" "[last q]"] that new
    by (cases "q = []") auto
  have br: "card {j. kid (graft h r p i c) (at_path h r q) j \<noteq> 0}
      = card {j. kid h (at_path h r q) j \<noteq> 0} + (if q = p then 1 else 0)" if q: "q \<in> E" for q
  proof (cases "q = p")
    case True
    have "{j. kid (graft h r p i c) (at_path h r p) j \<noteq> 0} = insert i {j. kid h (at_path h r p) j \<noteq> 0}"
      using kd(2) [OF p] c by auto
    moreover have "kid h (at_path h r p) i = 0" using nz [of "p @ [i]"] new by simp
    ultimately show ?thesis using True by simp
  qed (use kd(2) [OF q] in simp)
  have "inj_on (at_path (graft h r p i c) r) (insert (p @ [i]) E)"
    using ac ne trie_shapeD(3) [OF sh] unfolding inj_on_def at by (metis insertE)
  moreover have "M (p @ [i]) = 0" using trie_shapeD(4) [OF sh] new by blast
  moreover have "h_nodes (graft h r p i c) (at_path (graft h r p i c) r q) \<noteq> None"
    if "q \<in> insert (p @ [i]) E" for q
    using that live unfolding at by (auto simp: graft_def)
  moreover have "x_branch (xnode_of (graft h r p i c) r q)
      = of_nat (card {j. kid (graft h r p i c) (at_path (graft h r p i c) r q) j \<noteq> 0})"
    if "q \<in> insert (p @ [i]) E" for q
    using that
  proof
    assume "q \<in> E"
    then show ?thesis using br [of q] ne [of q] trie_shape_nodeD(4) [OF sh, of q] by (auto simp: at nd)
  qed (simp add: at nd kd zero_xnode_def del: at_path_snoc)
  moreover have "x_parent (xnode_of (graft h r p i c) r q)
      = (if q = [] then 0 else at_path (graft h r p i c) r (butlast q))"
    if "q \<in> insert (p @ [i]) E" for q
    using that
  proof
    assume "q \<in> E"
    then show ?thesis using bl [of q] trie_shape_nodeD(5) [OF sh, of q] by (auto simp: at nd)
  qed (simp add: at nd del: at_path_snoc)
  ultimately show ?thesis
    using trie_shapeD [OF sh] trie_shape_nodeD [OF sh] c
    unfolding trie_shape_def by (auto simp: at nd zero_xnode_def TREE_DIMENSION_def)
qed

lemma at_path_prune:
  assumes sh: "trie_shape h r E M" and d: "p @ [i] \<in> E" and leaf: "\<And>j. p @ [i, j] \<notin> E"
  shows "at_path (prune h r p i) r q = (if q = p @ [i] then 0 else at_path h r q)"
    and "q \<in> E \<Longrightarrow> q \<noteq> p @ [i] \<Longrightarrow> kid (prune h r p i) (at_path h r q) j
           = (if q = p \<and> j = i then 0 else kid h (at_path h r q) j)"
proof -
  note nz = trie_shapeD(2) [OF sh]
  have p: "p \<in> E" using trie_prefix_closed [OF sh d] .
  have pd: "at_path h r p \<noteq> at_path h r (p @ [i])" 
    using trie_path_eq [OF sh, of p "p @ [i]"] nz [of p] p by auto
  have same: "kid (prune h r p i) (at_path h r q) j
           = (if q = p \<and> j = i then 0 else kid h (at_path h r q) j)"
    if q: "q \<in> E" "q \<noteq> p @ [i]" for q j
  proof (cases "q = p")
    case True
    then show ?thesis
      using pd kid_small [OF sh d] kid_node [OF sh p] nz [of p] p trie_shape_nodeD(2) [OF sh p]
      by (auto simp: kid_def prune_def xnode_at_def nth_list_update simp flip: word_unat_eq_iff)
  next
    case False
    then have "at_path h r q \<noteq> at_path h r p" "at_path h r q \<noteq> at_path h r (p @ [i])"
      using trie_path_eq [OF sh] nz q by metis+
    then show ?thesis using False by (auto simp: kid_def prune_def xnode_at_def)
  qed
  then show "q \<in> E \<Longrightarrow> q \<noteq> p @ [i] \<Longrightarrow> kid (prune h r p i) (at_path h r q) j
           = (if q = p \<and> j = i then 0 else kid h (at_path h r q) j)" .
  have pp: "kid (prune h r p i) (at_path h r p) i = 0" using same [OF p] by simp
  have z: "at_path h r (p @ [i, j]) = 0" for j using nz leaf by blast
  show "at_path (prune h r p i) r q = (if q = p @ [i] then 0 else at_path h r q)"
    unfolding at_path_def [of "prune h r p i"]
    by (rule foldl_change_leaf [of "at_path h r" "kid h"])
      (use nz p same z pp trie_path_eq [OF sh] in \<open>auto simp: at_path_def\<close>)
qed

lemma xnode_of_prune:
  assumes "trie_shape h r E M" and "p @ [i] \<in> E" and "\<And>j. p @ [i, j] \<notin> E"
    and "q \<in> E" and "q \<noteq> p @ [i]"
  shows "xnode_of (prune h r p i) r q = (if q = p then (xnode_of h r p)
          \<lparr>x_kids := (x_kids (xnode_of h r p))[unat i := 0], x_branch := x_branch (xnode_of h r p) - 1\<rparr>
          else xnode_of h r q)"
proof -
  have "p \<in> E" using trie_prefix_closed [OF assms(1,2)] .
  then have "at_path h r q = at_path h r p \<longleftrightarrow> q = p" "at_path h r q \<noteq> at_path h r (p @ [i])"
    using trie_shapeD(3) [OF assms(1)] assms(2,4,5) by (metis inj_onD)+
  then show ?thesis
    using assms(5) unfolding xnode_of_def [of "prune h r p i"] at_path_prune(1) [OF assms(1-3)]
    by (auto simp: prune_def xnode_of_def)
qed

lemma shape_prune:
  assumes sh: "trie_shape h r E M" and d: "p @ [i] \<in> E" and leaf: "\<And>j. p @ [i, j] \<notin> E"
  shows "trie_shape (prune h r p i) r (E - {p @ [i]}) (M(p @ [i] := 0))"
proof -
  note at = at_path_prune(1) [OF assms] and kd = at_path_prune(2) [OF assms]
    and nd = xnode_of_prune [OF assms] and nz = trie_shapeD(2) [OF sh]
  have p: "p \<in> E" using trie_prefix_closed [OF sh d] .
  have live: "h_nodes (prune h r p i) (at_path h r q) \<noteq> None" if "q \<in> E" "q \<noteq> p @ [i]" for q
  proof -
    have "at_path h r q \<noteq> at_path h r (p @ [i])" 
      using trie_shapeD(3) [OF sh] that d by (metis inj_onD)
    then show ?thesis using sh that by (auto simp: trie_shape_def prune_def)
  qed
  have bl: "butlast q \<noteq> p @ [i]" if "q \<in> E" for q
  proof
    assume "butlast q = p @ [i]"
    then have "q = p @ [i, last q]" by (metis append.assoc append_Cons append_Nil append_butlast_last_id butlast.simps(1) snoc_eq_iff_butlast)
    then show False using that leaf by metis
  qed
  have br: "card {j. kid h (at_path h r q) j \<noteq> 0}
      = card {j. kid (prune h r p i) (at_path h r q) j \<noteq> 0} + (if q = p then 1 else 0)"
    if q: "q \<in> E" "q \<noteq> p @ [i]" for q
  proof (cases "q = p")
    case True
    have "{j. kid (prune h r p i) (at_path h r p) j \<noteq> 0} = {j. kid h (at_path h r p) j \<noteq> 0} - {i}"
      using kd [OF p] by auto
    moreover have "kid h (at_path h r p) i \<noteq> 0" using nz [of "p @ [i]"] d by simp
    ultimately show ?thesis using True card_Suc_Diff1 [of "{j. kid h (at_path h r p) j \<noteq> 0}" i] by simp
  qed (use kd [OF q] in simp)
  have "inj_on (at_path (prune h r p i) r) (E - {p @ [i]})"
    using trie_shapeD(3) [OF sh] unfolding inj_on_def at by simp
  moreover have "[] \<in> E" using trie_shapeD(1) [OF sh] .
  moreover have "x_branch (xnode_of (prune h r p i) r q)
      = of_nat (card {j. kid (prune h r p i) (at_path h r q) j \<noteq> 0})"
    if "q \<in> E" "q \<noteq> p @ [i]" for q
    using br [of q] trie_shape_nodeD(4) [OF sh, of q] that by (auto simp: nd)
  moreover have "x_parent (xnode_of (prune h r p i) r q)
      = (if q = [] then 0 else at_path (prune h r p i) r (butlast q))"
    if "q \<in> E" "q \<noteq> p @ [i]" for q
    using bl [of q] trie_shape_nodeD(5) [OF sh, of q] that by (auto simp: at nd)
  ultimately show ?thesis
    using trie_shapeD [OF sh] trie_shape_nodeD [OF sh] live
    unfolding trie_shape_def by (auto simp: at nd)
qed

section \<open>Adding a key\<close>

definition alloc_ok :: "nat \<Rightarrow> xtrees \<Rightarrow> bool" where
  "alloc_ok m h \<longleftrightarrow> (\<forall>k<m. h_alloc h (h_allocs h + k) \<noteq> 0 \<and> h_nodes h (h_alloc h (h_allocs h + k)) = None \<and>
     (\<forall>j<k. h_alloc h (h_allocs h + j) \<noteq> h_alloc h (h_allocs h + k)))"

lemma alloc_ok_mono: "alloc_ok m h \<Longrightarrow> k \<le> m \<Longrightarrow> alloc_ok k h"
  by (auto simp: alloc_ok_def)

lemma alloc_ok_graft:
  assumes "alloc_ok (Suc m) h" and "h_nodes h (at_path h r p) \<noteq> None"
  shows "alloc_ok m (graft h r p i (h_alloc h (h_allocs h)))"
proof -
  have "h_alloc h (h_allocs h) \<noteq> h_alloc h (h_allocs h + Suc k) \<and>
    (\<forall>j<k. h_alloc h (h_allocs h + Suc j) \<noteq> h_alloc h (h_allocs h + Suc k)) \<and>
    h_alloc h (h_allocs h + Suc k) \<noteq> 0 \<and> h_nodes h (h_alloc h (h_allocs h + Suc k)) = None" if "k < m" for k
    using assms(1) that unfolding alloc_ok_def
    by (metis Suc_mono add.right_neutral zero_less_Suc)
  then show ?thesis using assms(2) by (fastforce simp: alloc_ok_def graft_def)
qed

lemma alloc_ok_touch [simp]:
  assumes "trie_shape h r E M" and "q \<in> E"
  shows "alloc_ok m (touch h r q f) = alloc_ok m h"
proof -
  have "h_nodes h (at_path h r q) \<noteq> None" using assms by (simp add: trie_shape_def)
  then show ?thesis by (auto simp: alloc_ok_def touch_def)
qed

lemma alloc_ok_prune:
  assumes "trie_shape h r E M" and "p @ [i] \<in> E"
  shows "alloc_ok m h \<longrightarrow> alloc_ok m (prune h r p i)"
proof -
  have "h_nodes h (at_path h r p) \<noteq> None"
    using assms(1) trie_prefix_closed [OF assms] by (simp add: trie_shape_def)
  then show ?thesis by (auto simp: alloc_ok_def prune_def)
qed

lemma paths_snoc [simp]: "paths (add_mset (p @ [i]) K) = insert (p @ [i]) (paths (add_mset p K))"
  by (auto simp: paths_def)

lemma paths_Nil [simp]: "paths (add_mset [] K) = paths K"
  by (auto simp: paths_def)

lemma paths_self [simp]: "p \<in> paths (add_mset p K)"
  by (auto simp: paths_def)

lemma routes_snoc:
  "size {#k \<in># add_mset (p @ [i]) K. prefix q k#}
     = size {#k \<in># add_mset p K. prefix q k#} + (if q = p @ [i] then 1 else 0)"
  by auto

lemma no_routes:
  assumes "p \<notin> paths K"
  shows "{#k \<in># K. prefix p k#} = {#}" and "{#k \<in># K. k \<noteq> [] \<and> butlast k = p#} = {#}"
proof -
  have "\<not> prefix p k" if "k \<in># K" for k using assms that by (auto simp: paths_def)
  moreover have "prefix (butlast k) k" for k :: "u8 list" by (simp add: prefixeq_butlast)
  ultimately show "{#k \<in># K. prefix p k#} = {#}" "{#k \<in># K. k \<noteq> [] \<and> butlast k = p#} = {#}"
    by (auto simp: multiset_eq_iff count_eq_zero_iff)
qed

lemma trie_counts_touch:
  assumes sh: "trie_shape h r E M" and q: "q \<in> E" and cn: "trie_counts h r K p n"
    and ks: "x_kids (f (xnode_of h r q)) = x_kids (xnode_of h r q)"
    and lv: "x_leaves (f (xnode_of h r q)) = x_leaves (xnode_of h r q) + dl"
    and rt: "x_route (f (xnode_of h r q)) = x_route (xnode_of h r q) + dr"
    and K': "\<And>q'. q' \<in> E \<Longrightarrow> of_nat (size {#k \<in># K'. k \<noteq> [] \<and> butlast k = q'#})
               = of_nat (size {#k \<in># K. k \<noteq> [] \<and> butlast k = q'#}) + (if q' = q then dl else 0)"
    and p': "\<And>q'. q' \<in> E \<Longrightarrow> q' \<noteq> [] \<Longrightarrow> of_nat (size {#k \<in># add_mset p' K'. prefix q' k#})
               = of_nat (size {#k \<in># add_mset p K. prefix q' k#}) + (if q' = q then dr else 0)"
    and n': "n' = n + (if q = [] then dr else 0)"
  shows "trie_counts (touch h r q f) r K' p' n'"
proof -
  note at = at_path_touch [of h r E M q f, OF sh q ks]
    and nd = xnode_of_touch [of h r E M q f, OF sh q ks]
  have E: "at_path h r q' \<noteq> 0 \<longleftrightarrow> q' \<in> E" for q' using trie_shapeD(2) [OF sh] .
  show ?thesis
    unfolding trie_counts_def at E
  proof (intro conjI allI impI)
    show "x_route (xnode_of (touch h r q f) r []) = n'"
      using nd [OF trie_shapeD(1) [OF sh]] cn n' rt by (auto simp: trie_counts_def)
    fix q' assume q': "q' \<in> E"
    note c = cn [unfolded trie_counts_def E, THEN conjunct2, rule_format, OF q']
    show "x_leaves (xnode_of (touch h r q f) r q') = of_nat (size {#k \<in># K'. k \<noteq> [] \<and> butlast k = q'#})"
      using c nd [OF q'] K' [OF q'] lv by auto
    assume "q' \<noteq> []"
    then show "x_route (xnode_of (touch h r q f) r q') = of_nat (size {#k \<in># add_mset p' K'. prefix q' k#})"
      using c nd [OF q'] p' [OF q'] rt by auto
  qed
qed

lemma add_nibble_old:
  assumes sh: "trie_shape h r E M" and e: "p @ [i] \<in> E" and a: "a = at_path h r p"
  shows "add_nibble a i h = Some (at_path h r (p @ [i]),
           touch h r (p @ [i]) (\<lambda>n. n\<lparr>x_route := x_route n + 1, x_index := i, x_parent := a\<rparr>))"
proof -
  have "p \<in> E" using trie_prefix_closed [OF sh e] .
  moreover have "at_path h r (p @ [i]) \<noteq> 0" using trie_shapeD(2) [OF sh] e by blast
  ultimately show ?thesis
    unfolding a
    using upd_xnode_run [OF sh e] get_kid_run [OF sh _ kid_small [OF sh e]]
    by (simp add: add_nibble_def)
qed

lemma add_nibble_new:
  assumes sh: "trie_shape h r E M" and p: "p \<in> E" and new: "p @ [i] \<notin> E" and i: "unat i < 16"
    and c: "c = h_alloc h (h_allocs h)" "c \<noteq> 0" "h_nodes h c = None" and a: "a = at_path h r p"
  shows "add_nibble a i h = Some (c, graft h r p i c)"
proof -
  have k: "get_kid a (unat i) h = Some 0"
    using get_kid_run [OF sh p i] trie_shapeD(2) [OF sh, of "p @ [i]"] new a by simp
  have n: "h_nodes h a = Some (xnode_of h r p)" and a0: "a \<noteq> 0"
    using trie_shape_nodeD(1) [OF sh p] a by (auto simp: xnode_at_def split: if_splits)
  moreover from n c have "a \<noteq> c" by auto
  ultimately show ?thesis
    using k c i trie_shape_nodeD(2) [OF sh p]
    by (simp add: add_nibble_def calloc_xnode_def set_kid_def upd_xnode_def xnode_at_def graft_def
        fun_upd_twist zero_xnode_def Let_def flip: a)
qed

lemma trie_counts_graft:
  assumes sh: "trie_shape h r (paths (add_mset p K)) M" and cn: "trie_counts h r K p n"
    and new: "p @ [i] \<notin> paths (add_mset p K)" and i: "unat i < 16" and c: "c \<noteq> 0" "h_nodes h c = None"
  shows "trie_counts (graft h r p i c) r K (p @ [i]) n"
proof -
  note nd = xnode_of_graft [OF sh paths_self new i c]
    and at = at_path_graft(1) [OF sh paths_self new i c]
  note E = trie_shapeD(2) [OF sh]
  have none: "{#k \<in># add_mset p K. prefix (p @ [i]) k#} = {#}" using no_routes(1) [OF new] .
  have "p @ [i] \<notin> paths K" using new by (auto simp: paths_def)
  then have leaves: "{#k \<in># K. k \<noteq> [] \<and> butlast k = p @ [i]#} = {#}" by (rule no_routes(2))
  show ?thesis
    unfolding trie_counts_def
  proof (intro conjI allI impI)
    show "x_route (xnode_of (graft h r p i c) r []) = n"
      using nd(2) [OF trie_shapeD(1) [OF sh]] cn by (auto simp: trie_counts_def)
    fix q assume "at_path (graft h r p i c) r q \<noteq> 0"
    then have q: "q = p @ [i] \<or> q \<in> paths (add_mset p K) \<and> q \<noteq> p @ [i]"
      using E [of q] new by (auto simp: at split: if_splits)
    show "x_leaves (xnode_of (graft h r p i c) r q) = of_nat (size {#k \<in># K. k \<noteq> [] \<and> butlast k = q#})"
      using q cn nd(2) [of q] E [of q]
      by (elim disjE) (simp_all only: nd(1) leaves, auto simp: zero_xnode_def trie_counts_def)
    assume ne: "q \<noteq> []"
    show "x_route (xnode_of (graft h r p i c) r q) = of_nat (size {#k \<in># add_mset (p @ [i]) K. prefix q k#})"
      using q
    proof
      assume q: "q = p @ [i]"
      show ?thesis unfolding q routes_snoc none nd(1) by simp
    next
      assume "q \<in> paths (add_mset p K) \<and> q \<noteq> p @ [i]"
      then show ?thesis unfolding routes_snoc using cn ne nd(2) [of q] E [of q] by (auto simp: trie_counts_def)
    qed
  qed
qed

lemma add_nibble_run:
  assumes sh: "trie_shape h r (paths (add_mset p K)) M" and cn: "trie_counts h r K p n"
    and i: "unat i < 16" and al: "alloc_ok (Suc m) h"
  shows "\<exists>h'. add_nibble (at_path h r p) i h = Some (at_path h' r (p @ [i]), h') \<and>
     trie_shape h' r (paths (add_mset (p @ [i]) K)) M \<and> trie_counts h' r K (p @ [i]) n \<and> alloc_ok m h' \<and>
     at_path h' r p = at_path h r p"
proof (cases "p @ [i] \<in> paths (add_mset p K)")
  case True
  let ?f = "\<lambda>n. n\<lparr>x_route := x_route n + 1, x_index := i, x_parent := at_path h r p\<rparr>"
  have at: "at_path (touch h r (p @ [i]) ?f) r = at_path h r" by (rule at_path_touch [OF sh True]) simp
  have "trie_shape (touch h r (p @ [i]) ?f) r (paths (add_mset p K))
      (M(p @ [i] := x_mapping (?f (xnode_of h r (p @ [i])))))"
    by (rule shape_touch [OF sh True]) (use trie_shape_nodeD(5,6) [OF sh True] in simp_all)
  then have "trie_shape (touch h r (p @ [i]) ?f) r (paths (add_mset (p @ [i]) K)) M"
    using trie_shape_nodeD(3) [OF sh True] True by (simp add: insert_absorb)
  moreover have "trie_counts (touch h r (p @ [i]) ?f) r K (p @ [i]) n"
    by (rule trie_counts_touch [OF sh True cn, where dl = 0 and dr = 1]) (simp_all add: routes_snoc del: filter_mset_add_mset)
  moreover have "alloc_ok m (touch h r (p @ [i]) ?f)"
    using alloc_ok_touch [OF sh True] alloc_ok_mono [OF al] by simp
  ultimately show ?thesis using add_nibble_old [OF sh True refl] by (auto simp: at simp del: at_path_snoc)
next
  case False
  define c where "c = h_alloc h (h_allocs h)"
  have c: "c \<noteq> 0" "h_nodes h c = None"
    using al unfolding alloc_ok_def c_def by (metis add.right_neutral zero_less_Suc)+
  have "h_nodes h (at_path h r p) \<noteq> None" using sh by (simp add: trie_shape_def)
  then have "alloc_ok m (graft h r p i c)" using alloc_ok_graft [OF al] by (simp add: c_def)
  then show ?thesis
    using add_nibble_new [OF sh paths_self False i c_def c refl] shape_graft [OF sh paths_self False i c]
      trie_counts_graft [OF sh cn False i c] at_path_graft(1) [OF sh paths_self False i c, of "p @ [i]"]
      at_path_graft(1) [OF sh paths_self False i c, of p] by auto
qed

lemma add_path_run:
  assumes "trie_shape h r (paths (add_mset q K)) M" and "trie_counts h r K q n" and "m \<le> length p"
    and "alloc_ok (2 * m + x) h" and "q \<noteq> [] \<Longrightarrow> parent = at_path h r (butlast q)" and "q \<noteq> [] \<or> m > 0"
  shows "\<exists>h'. add_path p m parent (at_path h r q) h
       = Some (at_path h' r (butlast (q @ nibs (take m p))), at_path h' r (q @ nibs (take m p)), h') \<and>
     trie_shape h' r (paths (add_mset (q @ nibs (take m p)) K)) M \<and> trie_counts h' r K (q @ nibs (take m p)) n \<and> alloc_ok x h'"
  using assms
proof (induction m arbitrary: h p q parent)
  case 0
  then show ?case by auto
next
  case (Suc m)
  then obtain b p' where p: "p = b # p'" by (cases p) auto
  have "alloc_ok (Suc (Suc (2 * m + x))) h" using Suc.prems(4) by simp
  from add_nibble_run [OF Suc.prems(1,2) unat_hi [of b] this] obtain h1 where
    1: "add_nibble (at_path h r q) (hi b) h = Some (at_path h1 r (q @ [hi b]), h1)"
      "trie_shape h1 r (paths (add_mset (q @ [hi b]) K)) M" "trie_counts h1 r K (q @ [hi b]) n"
      "alloc_ok (Suc (2 * m + x)) h1" by blast
  from add_nibble_run [OF 1(2,3) unat_lo [of b] 1(4)] obtain h2 where
    2: "add_nibble (at_path h1 r (q @ [hi b])) (lo b) h1 = Some (at_path h2 r ((q @ [hi b]) @ [lo b]), h2)"
      "trie_shape h2 r (paths (add_mset ((q @ [hi b]) @ [lo b]) K)) M"
      "trie_counts h2 r K ((q @ [hi b]) @ [lo b]) n" "alloc_ok (2 * m + x) h2"
      "at_path h2 r (q @ [hi b]) = at_path h1 r (q @ [hi b])" by blast
  have nz: "at_path h1 r (q @ [hi b]) \<noteq> 0" "at_path h2 r ((q @ [hi b]) @ [lo b]) \<noteq> 0"
    using trie_shapeD(2) [OF 1(2)] trie_shapeD(2) [OF 2(2)] paths_self by blast+
  have "butlast ((q @ [hi b]) @ [lo b]) = q @ [hi b]" by (rule butlast_snoc)
  from Suc.IH [OF 2(2,3) _ 2(4), of p' "at_path h1 r (q @ [hi b])"] Suc.prems(3) 2(5) this
  obtain h3 where
    3: "add_path p' m (at_path h1 r (q @ [hi b])) (at_path h2 r ((q @ [hi b]) @ [lo b])) h2
          = Some (at_path h3 r (butlast (((q @ [hi b]) @ [lo b]) @ nibs (take m p'))),
              at_path h3 r (((q @ [hi b]) @ [lo b]) @ nibs (take m p')), h3)"
      "trie_shape h3 r (paths (add_mset (((q @ [hi b]) @ [lo b]) @ nibs (take m p')) K)) M"
      "trie_counts h3 r K (((q @ [hi b]) @ [lo b]) @ nibs (take m p')) n" "alloc_ok x h3"
    unfolding p by auto
  have eq: "((q @ [hi b]) @ [lo b]) @ nibs (take m p') = q @ nibs (take (Suc m) p)" using p by simp
  have "add_path p (Suc m) parent (at_path h r q) h
      = add_path p' m (at_path h1 r (q @ [hi b])) (at_path h2 r ((q @ [hi b]) @ [lo b])) h2"
    unfolding p add_path.simps 1(1) by (simp only: bind.simps prod.case nz if_False 2(1))
  then show ?case using 3 unfolding eq by auto
qed

definition trie_rep :: "xtrees \<Rightarrow> nat \<Rightarrow> u8 list multiset \<Rightarrow> (u8 list \<Rightarrow> nat) \<Rightarrow> bool" where
  "trie_rep h r K M \<longleftrightarrow> trie_shape h r (paths K) M \<and> trie_counts h r K [] (of_nat (size K)) \<and>
     (\<forall>q. M q \<noteq> 0 \<longrightarrow> q \<in># K)"

lemma xtree_add_run:
  assumes rep: "trie_rep h r K M" and len: "0 < unat keylen" "unat keylen \<le> length key"
    and al: "alloc_ok (2 * unat keylen + x) h" and k: "k = nibs (take (unat keylen) key)"
  shows "\<exists>h' a. xtree_add r key keylen m h = Some (a, h') \<and> a \<noteq> 0 \<and> a = at_path h' r k \<and>
     trie_rep h' r (add_mset k K) (M(k := m)) \<and> alloc_ok x h'"
proof -
  have sh: "trie_shape h r (paths (add_mset [] K)) M" and cn: "trie_counts h r K [] (of_nat (size K))"
    using rep by (simp_all add: trie_rep_def)
  let ?f = "\<lambda>n. n\<lparr>x_route := x_route n + 1\<rparr>"
  let ?h1 = "touch h r [] ?f"
  have N: "[] \<in> paths (add_mset [] K)" by (rule paths_self)
  have s1: "trie_shape ?h1 r (paths (add_mset [] K)) M"
    by (rule shape_touch_same [OF sh N]) simp_all
  have c1: "trie_counts ?h1 r K [] (of_nat (size (add_mset k K)))"
    by (rule trie_counts_touch [OF sh N cn, where dl = 0 and dr = 1]) simp_all
  have al1: "alloc_ok (2 * unat keylen + x) ?h1" using al alloc_ok_touch [OF sh N] by simp
  from add_path_run [OF s1 c1 len(2) al1, of 0] len(1) obtain h2 where
    2: "add_path key (unat keylen) 0 r ?h1 = Some (at_path h2 r (butlast k), at_path h2 r k, h2)"
      "trie_shape h2 r (paths (add_mset k K)) M" "trie_counts h2 r K k (of_nat (size (add_mset k K)))"
      "alloc_ok x h2"
    by (auto simp: k)
  have kne: "k \<noteq> []" using len k by (cases key) (auto simp: take_Cons split: nat.splits)
  note kE = paths_self [of k K]
  have bE: "butlast k \<in> paths (add_mset k K)" by (auto simp: paths_def prefixeq_butlast)
  let ?g = "\<lambda>n. n\<lparr>x_mapping := m\<rparr>" and ?l = "\<lambda>n. n\<lparr>x_leaves := x_leaves n + 1\<rparr>"
  let ?h3 = "touch h2 r k ?g"
  have s3: "trie_shape ?h3 r (paths (add_mset k K)) (M(k := m))"
    using shape_touch [OF 2(2) kE, of ?g] by simp
  have c3: "trie_counts ?h3 r K k (of_nat (size (add_mset k K)))"
    by (rule trie_counts_touch [OF 2(2) kE 2(3), where dl = 0 and dr = 0]) simp_all
  have at3: "at_path ?h3 r = at_path h2 r" by (rule at_path_touch [OF 2(2) kE]) simp
  let ?h4 = "touch ?h3 r (butlast k) ?l"
  have s4: "trie_shape ?h4 r (paths (add_mset k K)) (M(k := m))"
    by (rule shape_touch_same [OF s3 bE]) simp_all
  have c4: "trie_counts ?h4 r (add_mset k K) [] (of_nat (size (add_mset k K)))"
    by (rule trie_counts_touch [OF s3 bE c3, where dl = 1 and dr = 0]) (auto simp: kne)
  have at4: "at_path ?h4 r = at_path ?h3 r" by (rule at_path_touch [OF s3 bE]) simp
  have nz: "at_path h2 r k \<noteq> 0" using trie_shapeD(2) [OF 2(2)] kE by blast
  have "xtree_add r key keylen m h = Some (at_path h2 r k, ?h4)"
    using upd_xnode_run [OF sh N, of ?f] upd_xnode_run [OF 2(2) kE, of ?g] upd_xnode_run [OF s3 bE, of ?l]
      2(1) nz len(1) by (simp add: xtree_add_def at3 unat_gt_0)
  moreover have "trie_rep ?h4 r (add_mset k K) (M(k := m))"
    using s4 c4 rep by (auto simp: trie_rep_def)
  moreover have "alloc_ok x ?h4" using 2(4) alloc_ok_touch [OF 2(2) kE] alloc_ok_touch [OF s3 bE] by simp
  ultimately show ?thesis using nz at3 at4 by auto
qed

section \<open>Deleting a key\<close>

lemma filter_noneD: "{#k \<in># K. P k#} = {#} \<Longrightarrow> k \<in># K \<Longrightarrow> \<not> P k"
  by auto

lemma in_paths_snoc:
  "p @ [i] \<in> paths (add_mset p K) \<longleftrightarrow> {#k \<in># K. prefix (p @ [i]) k#} \<noteq> {#}"
proof -
  have "p @ [i] \<in> paths (add_mset p K) \<longleftrightarrow> (\<exists>k. k \<in># K \<and> prefix (p @ [i]) k)" by (auto simp: paths_def)
  also have "\<dots> \<longleftrightarrow> set_mset {#k \<in># K. prefix (p @ [i]) k#} \<noteq> {}" by auto
  finally show ?thesis by (simp only: set_mset_eq_empty_iff)
qed

lemma trie_counts_prune:
  assumes sh: "trie_shape h r (paths (add_mset (p @ [i]) K)) M" and cn: "trie_counts h r K (p @ [i]) n"
    and leaf: "\<And>j. p @ [i, j] \<notin> paths (add_mset (p @ [i]) K)"
  shows "trie_counts (prune h r p i) r K p n"
proof -
  note d = paths_self [of "p @ [i]" K]
  note nd = xnode_of_prune [OF sh d leaf] and at = at_path_prune(1) [OF sh d leaf]
  note E = trie_shapeD(2) [OF sh]
  show ?thesis
    unfolding trie_counts_def
  proof (intro conjI allI impI)
    show "x_route (xnode_of (prune h r p i) r []) = n"
      using nd [OF trie_shapeD(1) [OF sh]] cn by (auto simp: trie_counts_def)
    fix q assume "at_path (prune h r p i) r q \<noteq> 0"
    then have q: "at_path h r q \<noteq> 0" "q \<in> paths (add_mset (p @ [i]) K)" "q \<noteq> p @ [i]"
      using E [of q] by (auto simp: at split: if_splits)
    then show "x_leaves (xnode_of (prune h r p i) r q) = of_nat (size {#k \<in># K. k \<noteq> [] \<and> butlast k = q#})"
      using cn nd [of q] by (auto simp: trie_counts_def)
    assume "q \<noteq> []"
    then have "x_route (xnode_of h r q) = of_nat (size {#k \<in># add_mset (p @ [i]) K. prefix q k#})"
      using cn q(1) by (simp add: trie_counts_def)
    then show "x_route (xnode_of (prune h r p i) r q) = of_nat (size {#k \<in># add_mset p K. prefix q k#})"
      unfolding routes_snoc using nd [of q] q by auto
  qed
qed

lemma del_nibble_free:
  assumes sh: "trie_shape h r E M" and d: "p @ [i] \<in> E" and z: "x_route (xnode_of h r (p @ [i])) - 1 = 0"
  shows "del_nibble (at_path h r (p @ [i])) i h = Some (at_path h r p, prune h r p i)"
proof -
  have p: "p \<in> E" using trie_prefix_closed [OF sh d] .
  have "at_path h r p \<noteq> at_path h r (p @ [i])"
    using trie_path_eq [OF sh, of p "p @ [i]"] trie_shapeD(2) [OF sh, of p] p by blast
  moreover have "h_nodes h (at_path h r p) = Some (xnode_of h r p)" "at_path h r p \<noteq> 0"
    "h_nodes h (at_path h r (p @ [i])) = Some (xnode_of h r (p @ [i]))" "at_path h r (p @ [i]) \<noteq> 0"
    using trie_shape_nodeD(1) [OF sh p] trie_shape_nodeD(1) [OF sh d] by (auto simp: xnode_at_def split: if_splits)
  ultimately show ?thesis
    using z trie_shape_nodeD(5) [OF sh d] trie_shape_nodeD(2) [OF sh p] kid_small [OF sh d]
    by (simp add: del_nibble_def Let_def upd_xnode_def free_xnode_def set_kid_def xnode_at_def prune_def
        del: at_path_snoc)
qed

lemma del_nibble_keep:
  assumes sh: "trie_shape h r E M" and d: "p @ [i] \<in> E" and z: "x_route (xnode_of h r (p @ [i])) - 1 \<noteq> 0"
  shows "del_nibble (at_path h r (p @ [i])) i h
    = Some (at_path h r p, touch h r (p @ [i]) (\<lambda>n. n\<lparr>x_route := x_route n - 1\<rparr>))"
  using z trie_shape_nodeD(1,5) [OF sh d] upd_xnode_run [OF sh d]
  by (simp add: del_nibble_def Let_def del: at_path_snoc)

lemma del_nibble_run:
  assumes sh: "trie_shape h r (paths (add_mset (p @ [i]) K)) M" and cn: "trie_counts h r K (p @ [i]) n"
    and sz: "size K < 2 ^ 64" and M: "\<forall>q. M q \<noteq> 0 \<longrightarrow> q \<in># K"
  shows "\<exists>h'. del_nibble (at_path h r (p @ [i])) i h = Some (at_path h' r p, h') \<and>
     trie_shape h' r (paths (add_mset p K)) M \<and> trie_counts h' r K p n \<and> (alloc_ok x h \<longrightarrow> alloc_ok x h')"
proof -
  define N where "N = size {#k \<in># K. prefix (p @ [i]) k#}"
  note d = paths_self [of "p @ [i]" K]
  have "at_path h r (p @ [i]) \<noteq> 0" using trie_shapeD(2) [OF sh] d by blast
  then have "x_route (xnode_of h r (p @ [i])) = of_nat (N + 1)"
    using cn unfolding N_def by (auto simp: trie_counts_def)
  then have rt: "x_route (xnode_of h r (p @ [i])) - 1 = of_nat N" by simp
  have "N \<le> size K" unfolding N_def by (rule size_filter_mset_lesseq)
  then have "unat (of_nat N :: u64) = N" by (intro unat_of_nat_small le_less_trans [OF _ sz])
  then have z: "(of_nat N :: u64) = 0 \<longleftrightarrow> N = 0" by (simp only: flip: unat_eq_zero)
  have N0: "N = 0 \<longleftrightarrow> p @ [i] \<notin> paths (add_mset p K)"
    unfolding N_def in_paths_snoc by (simp only: size_eq_0_iff_empty) simp
  show ?thesis
  proof (cases "N = 0")
    case True
    then have new: "p @ [i] \<notin> paths (add_mset p K)" using N0 by simp
    then have no: "\<not> prefix (p @ [i]) k" if "k \<in># K" for k using that by (auto simp: paths_def)
    have "\<not> prefix (p @ [i, j]) k" if "k \<in># K" for j k
      using no [OF that] append_prefixD [of "p @ [i]" "[j]" k] by auto
    then have leaf: "p @ [i, j] \<notin> paths (add_mset (p @ [i]) K)" for j by (auto simp: paths_def)
    have "M (p @ [i]) = 0" using M no [of "p @ [i]"] by auto
    then have "trie_shape (prune h r p i) r (paths (add_mset p K)) M"
      using shape_prune [OF sh d leaf] new by (simp add: fun_upd_idem)
    moreover have "at_path (prune h r p i) r p = at_path h r p"
      using at_path_prune(1) [OF sh d leaf, of p] by simp
    moreover have "del_nibble (at_path h r (p @ [i])) i h = Some (at_path h r p, prune h r p i)"
      by (rule del_nibble_free [OF sh d]) (simp add: rt True)
    ultimately show ?thesis using trie_counts_prune [OF sh cn leaf] alloc_ok_prune [OF sh d, of x]
      by (intro exI [of _ "prune h r p i"] conjI) (simp_all only: simp_thms)
  next
    case False
    let ?f = "\<lambda>n. n\<lparr>x_route := x_route n - 1\<rparr>"
    have eq: "paths (add_mset (p @ [i]) K) = paths (add_mset p K)" using False N0 by (simp add: insert_absorb)
    have "trie_shape (touch h r (p @ [i]) ?f) r (paths (add_mset (p @ [i]) K)) M"
      by (rule shape_touch_same [OF sh d]) simp_all
    moreover have "trie_counts (touch h r (p @ [i]) ?f) r K p n"
      by (rule trie_counts_touch [OF sh d cn, where dl = 0 and dr = "- 1"])
        (simp_all add: routes_snoc del: filter_mset_add_mset)
    moreover have "at_path (touch h r (p @ [i]) ?f) r = at_path h r" by (rule at_path_touch [OF sh d]) simp
    moreover have "del_nibble (at_path h r (p @ [i])) i h = Some (at_path h r p, touch h r (p @ [i]) ?f)"
      by (rule del_nibble_keep [OF sh d]) (simp only: rt z False not_False_eq_True)
    ultimately show ?thesis using alloc_ok_touch [OF sh d, of x ?f] unfolding eq
      by (intro exI [of _ "touch h r (p @ [i]) ?f"] conjI) (simp_all only: simp_thms)
  qed
qed

lemma del_path_run:
  assumes "trie_shape h r (paths (add_mset (nibs (take m key)) K)) M"
    and "trie_counts h r K (nibs (take m key)) n" and "m \<le> length key"
    and sz: "size K < 2 ^ 64" and M: "\<forall>q. M q \<noteq> 0 \<longrightarrow> q \<in># K"
  shows "\<exists>h'. del_path key m (at_path h r (nibs (take m key))) h = Some h' \<and>
     trie_shape h' r (paths K) M \<and> trie_counts h' r K [] n \<and> (alloc_ok x h \<longrightarrow> alloc_ok x h')"
  using assms(1-3)
proof (induction m arbitrary: h)
  case 0
  then show ?case by simp
next
  case (Suc m)
  let ?q = "nibs (take m key)" and ?b = "key ! m"
  have q: "nibs (take (Suc m) key) = (?q @ [hi ?b]) @ [lo ?b]"
    using Suc.prems(3) by (simp add: take_Suc_conv_app_nth)
  note prems = Suc.prems(1,2) [unfolded q]
  from del_nibble_run [OF prems sz M, of x] obtain h1 where
    1: "del_nibble (at_path h r ((?q @ [hi ?b]) @ [lo ?b])) (lo ?b) h = Some (at_path h1 r (?q @ [hi ?b]), h1)"
      "trie_shape h1 r (paths (add_mset (?q @ [hi ?b]) K)) M" "trie_counts h1 r K (?q @ [hi ?b]) n"
      "alloc_ok x h \<longrightarrow> alloc_ok x h1" by blast
  from del_nibble_run [OF 1(2,3) sz M, of x] obtain h2 where
    2: "del_nibble (at_path h1 r (?q @ [hi ?b])) (hi ?b) h1 = Some (at_path h2 r ?q, h2)"
      "trie_shape h2 r (paths (add_mset ?q K)) M" "trie_counts h2 r K ?q n"
      "alloc_ok x h1 \<longrightarrow> alloc_ok x h2" by blast
  from Suc.IH [OF 2(2,3)] Suc.prems(3) obtain h3 where
    3: "del_path key m (at_path h2 r ?q) h2 = Some h3" "trie_shape h3 r (paths K) M" "trie_counts h3 r K [] n"
      "alloc_ok x h2 \<longrightarrow> alloc_ok x h3" by auto
  have "rd key m = Some ?b" using Suc.prems(3) by simp
  then have "del_path key (Suc m) (at_path h r (nibs (take (Suc m) key))) h = Some h3"
    unfolding q del_path.simps by (simp only: bind.simps 1(1) 2(1) 3(1) prod.case)
  then show ?case using 3 1(4) 2(4) by blast
qed

lemma xtree_del_run:
  assumes rep: "trie_rep h r K M" and len: "0 < unat keylen" "unat keylen \<le> length key"
    and k: "k = nibs (take (unat keylen) key)" and kK: "k \<in># K" and sz: "size K < 2 ^ 64"
  shows "\<exists>h'. xtree_del r key keylen h = Some (M k, h') \<and> trie_rep h' r (K - {#k#}) (M(k := 0)) \<and>
     (alloc_ok x h \<longrightarrow> alloc_ok x h')"
proof -
  define K' where "K' = K - {#k#}"
  have K: "K = add_mset k K'" using kK by (simp add: K'_def)
  have sh: "trie_shape h r (paths (add_mset k K')) M"
    and cn: "trie_counts h r (add_mset k K') [] (of_nat (size K))"
    using rep by (simp_all add: trie_rep_def K)
  have N: "[] \<in> paths (add_mset k K')" by (simp add: paths_def)
  note kE = paths_self [of k K']
  have bE: "butlast k \<in> paths (add_mset k K')" by (auto simp: paths_def prefixeq_butlast)
  have kne: "k \<noteq> []" using len k by (cases key) (auto simp: take_Cons split: nat.splits)
  let ?f = "\<lambda>n. n\<lparr>x_route := x_route n - 1\<rparr>" and ?g = "\<lambda>n. n\<lparr>x_mapping := 0\<rparr>"
    and ?l = "\<lambda>n. n\<lparr>x_leaves := x_leaves n - 1\<rparr>"
  let ?h1 = "touch h r [] ?f"
  have s1: "trie_shape ?h1 r (paths (add_mset k K')) M" by (rule shape_touch_same [OF sh N]) simp_all
  have c1: "trie_counts ?h1 r (add_mset k K') [] (of_nat (size K'))"
    by (rule trie_counts_touch [OF sh N cn, where dl = 0 and dr = "- 1"]) (simp_all add: K)
  have at1: "at_path ?h1 r = at_path h r" by (rule at_path_touch [OF sh N]) simp
  let ?h2 = "touch ?h1 r k ?g"
  have s2: "trie_shape ?h2 r (paths (add_mset k K')) (M(k := 0))" using shape_touch [OF s1 kE, of ?g] by simp
  have c2: "trie_counts ?h2 r (add_mset k K') [] (of_nat (size K'))"
    by (rule trie_counts_touch [OF s1 kE c1, where dl = 0 and dr = 0]) simp_all
  have at2: "at_path ?h2 r = at_path ?h1 r" by (rule at_path_touch [OF s1 kE]) simp
  let ?h3 = "touch ?h2 r (butlast k) ?l"
  have s3: "trie_shape ?h3 r (paths (add_mset k K')) (M(k := 0))" by (rule shape_touch_same [OF s2 bE]) simp_all
  have c3: "trie_counts ?h3 r K' k (of_nat (size K'))"
    by (rule trie_counts_touch [OF s2 bE c2, where dl = "- 1" and dr = 0]) (auto simp: kne)
  have at3: "at_path ?h3 r = at_path ?h2 r" by (rule at_path_touch [OF s2 bE]) simp
  have M': "\<forall>q. (M(k := 0)) q \<noteq> 0 \<longrightarrow> q \<in># K'" using rep by (auto simp: trie_rep_def K)
  have "size K' < 2 ^ 64" using sz by (simp add: K)
  from del_path_run [OF s3 [unfolded k] c3 [unfolded k] len(2) this M' [unfolded k], of x] obtain h4 where
    4: "del_path key (unat keylen) (at_path ?h3 r k) ?h3 = Some h4"
      "trie_shape h4 r (paths K') (M(k := 0))" "trie_counts h4 r K' [] (of_nat (size K'))"
      "alloc_ok x ?h3 \<longrightarrow> alloc_ok x h4"
    unfolding k by blast
  have f: "find_path key (unat keylen) r h = Some (at_path h r k)"
    using find_path_run [OF sh, of "[]" r] N len(2) by (simp add: k)
  have nz: "at_path h r k \<noteq> 0" using trie_shapeD(2) [OF sh] kE by blast
  have "xtree_del r key keylen h = Some (M k, h4)"
    using upd_xnode_run [OF sh N, of ?f] upd_xnode_run [OF s1 kE, of ?g] upd_xnode_run [OF s2 bE, of ?l]
      trie_shape_nodeD(1,3,5) [OF s1 kE] f nz kne 4(1) by (simp add: xtree_del_def at1 at2 at3)
  moreover have "alloc_ok x ?h3 = alloc_ok x h"
    using alloc_ok_touch [OF s2 bE] alloc_ok_touch [OF s1 kE] alloc_ok_touch [OF sh N] by simp
  ultimately show ?thesis using 4(2-4) M' unfolding trie_rep_def K'_def by auto
qed

section \<open>The map interface\<close>

text \<open>
  What a user of the tree relies on: \<open>ok b s M\<close> says that the store \<open>s\<close> holds the map \<open>M\<close> and has room
  for \<open>b\<close> more operations. The client lemma is that a sequence of operations computes the sequence of
  map updates.
\<close>

datatype 'k map_op = Put 'k nat | Del 'k

primrec map_step :: "'k map_op \<Rightarrow> ('k \<Rightarrow> nat) \<Rightarrow> ('k \<Rightarrow> nat)" where
  "map_step (Put k m) M = M(k := m)"
| "map_step (Del k) M = M(k := 0)"

fun ops_ok :: "('k \<Rightarrow> bool) \<Rightarrow> 'k map_op list \<Rightarrow> ('k \<Rightarrow> nat) \<Rightarrow> bool" where
  "ops_ok valid [] M \<longleftrightarrow> True"
| "ops_ok valid (Put k m # ops) M \<longleftrightarrow> valid k \<and> ops_ok valid ops (M(k := m))"
| "ops_ok valid (Del k # ops) M \<longleftrightarrow> M k \<noteq> 0 \<and> ops_ok valid ops (M(k := 0))"

fun run_ops :: "('k \<Rightarrow> nat \<Rightarrow> 's \<Rightarrow> 's option) \<Rightarrow> ('k \<Rightarrow> 's \<Rightarrow> (nat \<times> 's) option) \<Rightarrow>
  'k map_op list \<Rightarrow> 's \<Rightarrow> 's option" where
  "run_ops put del [] s = Some s"
| "run_ops put del (Put k m # ops) s = Option.bind (put k m s) (run_ops put del ops)"
| "run_ops put del (Del k # ops) s = Option.bind (del k s) (\<lambda>(_, s'). run_ops put del ops s')"

locale key_map =
  fixes valid :: "'k \<Rightarrow> bool"
    and ok :: "nat \<Rightarrow> 's \<Rightarrow> ('k \<Rightarrow> nat) \<Rightarrow> bool"
    and put :: "'k \<Rightarrow> nat \<Rightarrow> 's \<Rightarrow> 's option"
    and del :: "'k \<Rightarrow> 's \<Rightarrow> (nat \<times> 's) option"
    and get :: "'k \<Rightarrow> 's \<Rightarrow> nat option"
  assumes put_law: "\<lbrakk>ok (Suc b) s M; valid k\<rbrakk> \<Longrightarrow> \<exists>s'. put k m s = Some s' \<and> ok b s' (M(k := m))"
    and del_law: "\<lbrakk>ok (Suc b) s M; M k \<noteq> 0\<rbrakk> \<Longrightarrow> \<exists>s'. del k s = Some (M k, s') \<and> ok b s' (M(k := 0))"
    and get_law: "\<lbrakk>ok b s M; valid k\<rbrakk> \<Longrightarrow> get k s = Some (M k)"
begin

lemma run_map:
  assumes "ok (length ops + b) s M" and "ops_ok valid ops M"
  shows "\<exists>s'. run_ops put del ops s = Some s' \<and> ok b s' (fold map_step ops M)"
  using assms
proof (induction ops arbitrary: s M)
  case Nil
  then show ?case by simp
next
  case (Cons op ops)
  show ?case
  proof (cases op)
    case (Put k m)
    with Cons.prems put_law [of "length ops + b" s M k m] obtain s'
      where s': "put k m s = Some s'" "ok (length ops + b) s' (M(k := m))" by auto
    have "ops_ok valid ops (M(k := m))" using Cons.prems(2) Put by simp
    from Cons.IH [OF s'(2) this] show ?thesis using s'(1) Put by (simp add: fun_upd_def)
  next
    case (Del k)
    with Cons.prems del_law [of "length ops + b" s M k] obtain s'
      where s': "del k s = Some (M k, s')" "ok (length ops + b) s' (M(k := 0))" by auto
    have "ops_ok valid ops (M(k := 0))" using Cons.prems(2) Del by simp
    from Cons.IH [OF s'(2) this] show ?thesis using s'(1) Del by (simp add: fun_upd_def)
  qed
qed

lemma run_get:
  assumes "ok (length ops) s M" and "ops_ok valid ops M"
  shows "\<exists>s'. run_ops put del ops s = Some s' \<and> (\<forall>k. valid k \<longrightarrow> get k s' = Some (fold map_step ops M k))"
  using run_map [of ops 0 s M] assms get_law by fastforce

end

definition key_valid :: "bytes \<Rightarrow> bool" where
  "key_valid k \<longleftrightarrow> k \<noteq> [] \<and> length k < 256"

definition tree_put :: "nat \<Rightarrow> bytes \<Rightarrow> nat \<Rightarrow> xtrees \<Rightarrow> xtrees option" where
  "tree_put r k m h = map_option snd (xtree_add r k (of_nat (length k)) m h)"

definition tree_del :: "nat \<Rightarrow> bytes \<Rightarrow> xtrees \<Rightarrow> (nat \<times> xtrees) option" where
  "tree_del r k h = xtree_del r k (of_nat (length k)) h"

definition tree_get :: "nat \<Rightarrow> bytes \<Rightarrow> xtrees \<Rightarrow> nat option" where
  "tree_get r k h = xtree_find r k (of_nat (length k)) h"

definition tree_ok :: "nat \<Rightarrow> nat \<Rightarrow> xtrees \<Rightarrow> (bytes \<Rightarrow> nat) \<Rightarrow> bool" where
  "tree_ok r b h M \<longleftrightarrow> (\<exists>K M'. trie_rep h r K M' \<and> M = M' \<circ> nibs \<and> size K + b < 2 ^ 64) \<and>
     (\<forall>m. alloc_ok m h) \<and> (\<forall>k. M k \<noteq> 0 \<longrightarrow> key_valid k)"

lemma key_valid_len:
  assumes "key_valid k"
  shows "unat (of_nat (length k) :: u8) = length k" and "0 < length k"
  using assms by (auto simp: key_valid_def unat_of_nat)

lemma tree_put_law:
  assumes "tree_ok r (Suc b) h M" and "key_valid k"
  shows "\<exists>h'. tree_put r k m h = Some h' \<and> tree_ok r b h' (M(k := m))"
proof -
  from assms(1) obtain K M' where rep: "trie_rep h r K M'" and M: "M = M' \<circ> nibs"
    and sz: "size K + Suc b < 2 ^ 64" and al: "\<And>m. alloc_ok m h" and v: "\<forall>k. M k \<noteq> 0 \<longrightarrow> key_valid k"
    by (auto simp: tree_ok_def)
  note len = key_valid_len [OF assms(2)]
  have run: "\<exists>h' a. xtree_add r k (of_nat (length k)) m h = Some (a, h') \<and>
      trie_rep h' r (add_mset (nibs k) K) (M'(nibs k := m)) \<and> alloc_ok x h'" for x
    using xtree_add_run [OF rep, of "of_nat (length k)" k x "nibs k" m] len al by auto
  from run [of 0] obtain h' a where h': "xtree_add r k (of_nat (length k)) m h = Some (a, h')"
    "trie_rep h' r (add_mset (nibs k) K) (M'(nibs k := m))" by blast
  have "alloc_ok x h'" for x using run [of x] h'(1) by auto
  moreover have "M(k := m) = (M'(nibs k := m)) \<circ> nibs" unfolding M by (auto simp: fun_eq_iff)
  ultimately show ?thesis
    using h' sz v [unfolded M] assms(2) unfolding tree_ok_def tree_put_def by (auto intro!: exI)
qed

lemma tree_del_law:
  assumes "tree_ok r (Suc b) h M" and "M k \<noteq> 0"
  shows "\<exists>h'. tree_del r k h = Some (M k, h') \<and> tree_ok r b h' (M(k := 0))"
proof -
  from assms(1) obtain K M' where rep: "trie_rep h r K M'" and M: "M = M' \<circ> nibs"
    and sz: "size K + Suc b < 2 ^ 64" and al: "\<And>m. alloc_ok m h" and v: "\<forall>k. M k \<noteq> 0 \<longrightarrow> key_valid k"
    by (auto simp: tree_ok_def)
  note len = key_valid_len [OF v [rule_format, OF assms(2)]]
  have k: "nibs k \<in># K" using rep assms(2) by (auto simp: trie_rep_def M)
  have run: "\<exists>h'. xtree_del r k (of_nat (length k)) h = Some (M k, h') \<and>
      trie_rep h' r (K - {#nibs k#}) (M'(nibs k := 0)) \<and> (alloc_ok x h \<longrightarrow> alloc_ok x h')" for x
    using xtree_del_run [OF rep, of "of_nat (length k)" k "nibs k" x] len k sz by (auto simp: M)
  from run [of 0] obtain h' where h': "xtree_del r k (of_nat (length k)) h = Some (M k, h')"
    "trie_rep h' r (K - {#nibs k#}) (M'(nibs k := 0))" by blast
  have "alloc_ok x h'" for x using run [of x] h'(1) al by auto
  moreover have "M(k := 0) = (M'(nibs k := 0)) \<circ> nibs" unfolding M by (auto simp: fun_eq_iff)
  moreover have "size (K - {#nibs k#}) + b < 2 ^ 64" using sz k by (simp add: size_Diff_singleton)
  ultimately show ?thesis
    using h' v [unfolded M] unfolding tree_ok_def tree_del_def by (auto intro!: exI)
qed

lemma tree_get_law:
  assumes "tree_ok r b h M" and "key_valid k"
  shows "tree_get r k h = Some (M k)"
  using assms xtree_find_shape [of h r _ _ "of_nat (length k)" k] key_valid_len [OF assms(2)]
  by (auto simp: tree_ok_def trie_rep_def tree_get_def)

interpretation tree_map: key_map key_valid "tree_ok r" "tree_put r" "tree_del r" "tree_get r" for r
  by unfold_locales (auto simp: tree_put_law tree_del_law tree_get_law)

lemma xtree_create_rep:
  assumes "xtree_create h = (r, h')" and "r \<noteq> 0" and "h_nodes h r = None"
  shows "trie_rep h' r {#} (\<lambda>_. 0)"
proof -
  have n: "xnode_at r h' = Some zero_xnode"
    using assms by (auto simp: xtree_create_def calloc_xnode_def xnode_at_def Let_def split: if_splits)
  then have k: "kid h' r i = 0" for i by (simp add: kid_def zero_xnode_def TREE_DIMENSION_def)
  have at: "at_path h' r q = (if q = [] then r else 0)" for q
    by (induction q rule: rev_induct) (auto simp: k)
  have nd: "xnode_of h' r [] = zero_xnode" and "h_nodes h' r \<noteq> None"
    using n assms(2) by (auto simp: xnode_of_def xnode_at_def)
  then show ?thesis
    using assms(2)
    by (auto simp: trie_rep_def trie_shape_def trie_counts_def paths_def at k inj_on_def zero_xnode_def
        TREE_DIMENSION_def)
qed

end
