(* ===== verification/Xtree_Order.thy ===== *)
theory Xtree_Order
  imports Xtree_Map
begin

text \<open>
  Walking the radix tree: \<open>tree_min\<close> and \<open>tree_max\<close> find the first and the last key in byte order,
  \<open>xtree_clear\<close> visits and frees every node. The properties of the tree are at the end.
\<close>

section \<open>First and last child\<close>

definition path_less :: "u8 list \<Rightarrow> u8 list \<Rightarrow> bool" where
  "path_less p q \<longleftrightarrow> (p, q) \<in> lexord {(a, b). a < b}"

lemma path_less_branch: "i < j \<Longrightarrow> path_less (q @ i # p) (q @ j # p')"
  unfolding path_less_def by (intro lexord_append_leftI) simp

lemma path_less_extend: "x \<noteq> [] \<Longrightarrow> path_less q (q @ x)"
  unfolding path_less_def by (cases x) (auto intro: lexord_append_rightI)

lemma u8_index:
  assumes "i < 16"
  shows "unat (of_nat i :: u8) = i"
  using assms by (simp add: unat_of_nat)

lemma get_kid_nat:
  assumes "trie_shape h r E M" and "q \<in> E" and "i < 16"
  shows "get_kid (at_path h r q) i h = Some (at_path h r (q @ [of_nat i]))"
  using get_kid_run [OF assms(1,2), of "of_nat i"] u8_index [OF assms(3)] assms(3) by simp

lemma skip_up_run:
  assumes sh: "trie_shape h r E M" and q: "q \<in> E" and ex: "q @ [j0] \<in> E" "i \<le> unat j0"
  shows "\<exists>j. q @ [j] \<in> E \<and> skip_up (at_path h r q) i h = Some (at_path h r (q @ [j])) \<and>
     (\<forall>j'. q @ [j'] \<in> E \<and> i \<le> unat j' \<longrightarrow> j \<le> j')"
  using ex
proof (induction "16 - i" arbitrary: i rule: less_induct)
  case less
  have i: "i < 16" using less.prems kid_small [OF sh] by fastforce
  let ?w = "of_nat i :: u8"
  note k = get_kid_nat [OF sh q i] and nz = trie_shapeD(2) [OF sh, of "q @ [?w]"]
  show ?case
  proof (cases "q @ [?w] \<in> E")
    case True
    then have "skip_up (at_path h r q) i h = Some (at_path h r (q @ [?w]))"
      using k nz by (subst skip_up.simps) (simp del: at_path_snoc)
    moreover have "?w \<le> j'" if "i \<le> unat j'" for j' :: u8
      using that u8_index [OF i] by (simp add: word_le_nat_alt)
    ultimately show ?thesis using True by blast
  next
    case False
    then have eq: "skip_up (at_path h r q) i h = skip_up (at_path h r q) (i + 1) h"
      using k nz by (subst skip_up.simps) (simp del: at_path_snoc)
    have ne: "i + 1 \<le> unat j'" if "q @ [j'] \<in> E" "i \<le> unat j'" for j'
    proof -
      have "j' \<noteq> ?w" using that False by auto
      then have "unat j' \<noteq> i" using u8_index [OF i] by (metis word_unat_eq_iff)
      then show ?thesis using that by simp
    qed
    have "16 - (i + 1) < 16 - i" using i by simp
    from less.hyps [OF this less.prems(1) ne [OF less.prems]] show ?thesis
      unfolding eq using ne by blast
  qed
qed

lemma skip_down_run:
  assumes sh: "trie_shape h r E M" and q: "q \<in> E" and ex: "q @ [j0] \<in> E" "unat j0 \<le> i" and i: "i < 16"
  shows "\<exists>j. q @ [j] \<in> E \<and> skip_down (at_path h r q) i h = Some (at_path h r (q @ [j])) \<and>
     (\<forall>j'. q @ [j'] \<in> E \<and> unat j' \<le> i \<longrightarrow> j' \<le> j)"
  using ex i
proof (induction i)
  case 0
  then have "j0 = 0" by (simp add: unat_eq_zero)
  then have "at_path h r (q @ [0]) \<noteq> 0" "q @ [0] \<in> E" using trie_shapeD(2) [OF sh] 0 by blast+
  then show ?case using get_kid_nat [OF sh q, of 0] by (auto simp: unat_eq_zero simp del: at_path_snoc)
next
  case (Suc i)
  let ?w = "of_nat (Suc i) :: u8"
  note k = get_kid_nat [OF sh q Suc.prems(3)] and nz = trie_shapeD(2) [OF sh, of "q @ [?w]"]
  show ?case
  proof (cases "q @ [?w] \<in> E")
    case True
    then have "skip_down (at_path h r q) (Suc i) h = Some (at_path h r (q @ [?w]))"
      using k nz by (simp del: at_path_snoc of_nat_Suc)
    moreover have "j' \<le> ?w" if "unat j' \<le> Suc i" for j' :: u8
      using that u8_index [OF Suc.prems(3)] by (simp add: word_le_nat_alt del: of_nat_Suc)
    ultimately show ?thesis using True by blast
  next
    case False
    then have eq: "skip_down (at_path h r q) (Suc i) h = skip_down (at_path h r q) i h"
      using k nz by (subst skip_down.simps) (simp del: at_path_snoc of_nat_Suc skip_down.simps)
    have ne: "unat j' \<le> i" if "q @ [j'] \<in> E" "unat j' \<le> Suc i" for j'
    proof -
      have "j' \<noteq> ?w" using that False by auto
      then have "unat j' \<noteq> Suc i" using u8_index [OF Suc.prems(3)] by (metis word_unat_eq_iff)
      then show ?thesis using that by simp
    qed
    from Suc.IH [OF Suc.prems(1) ne [OF Suc.prems(1,2)]] Suc.prems(3) show ?thesis
      unfolding eq using ne by (meson Suc_lessD)
  qed
qed

section \<open>Least and greatest key\<close>

definition covered :: "u8 list set \<Rightarrow> (u8 list \<Rightarrow> nat) \<Rightarrow> bool" where
  "covered E M \<longleftrightarrow> (\<forall>q\<in>E. q \<noteq> [] \<longrightarrow> (\<exists>k. M k \<noteq> 0 \<and> prefix q k)) \<and> (\<exists>B. \<forall>q\<in>E. length q < B)"

lemma kid_of_longer:
  assumes "trie_shape h r E M" and "M k \<noteq> 0" and "strict_prefix q k"
  obtains j x where "k = q @ j # x" and "q @ [j] \<in> E"
proof -
  from assms(3) obtain j x where k: "k = q @ j # x" by (auto elim: strict_prefixE')
  moreover have "(q @ [j]) @ x \<in> E" using trie_shapeD(4) [OF assms(1,2)] k by simp
  ultimately show ?thesis using that trie_prefix_closed [OF assms(1)] by blast
qed

lemma covered_longer:
  assumes "covered E M" and "q @ [j] \<in> E" and "M (q @ [j]) = 0"
  obtains k where "M k \<noteq> 0" and "strict_prefix (q @ [j]) k"
proof -
  from assms(1,2) obtain k where k: "M k \<noteq> 0" "prefix (q @ [j]) k" unfolding covered_def by blast
  then have "k \<noteq> q @ [j]" using assms(3) by metis
  then show ?thesis using that k by (auto simp: strict_prefix_def)
qed

lemma min_loop_run:
  assumes sh: "trie_shape h r E M" and cov: "covered E M" and q: "q \<in> E"
    and ex: "M k0 \<noteq> 0" "strict_prefix q k0"
  shows "\<exists>k. M k \<noteq> 0 \<and> strict_prefix q k \<and> min_loop (at_path h r q) h = Some (M k) \<and>
     (\<forall>k'. M k' \<noteq> 0 \<and> strict_prefix q k' \<longrightarrow> k' = k \<or> path_less k k')"
proof -
  from cov obtain B where B: "\<And>q. q \<in> E \<Longrightarrow> length q < B" by (auto simp: covered_def)
  show ?thesis
    using q ex
  proof (induction "B - length q" arbitrary: q k0 rule: less_induct)
    case less
    obtain j0 where "q @ [j0] \<in> E" using kid_of_longer [OF sh less.prems(2,3)] by blast
    from skip_up_run [OF sh less.prems(1) this, of 0] obtain j where
      j: "q @ [j] \<in> E" "skip_up (at_path h r q) 0 h = Some (at_path h r (q @ [j]))"
        "\<And>j'. q @ [j'] \<in> E \<Longrightarrow> j \<le> j'" by auto
    have nz: "at_path h r q \<noteq> 0" using trie_shapeD(2) [OF sh] less.prems(1) by blast
    note n = trie_shape_nodeD(1,3) [OF sh j(1)]
    have step: "min_loop (at_path h r q) h
        = (if M (q @ [j]) \<noteq> 0 then Some (M (q @ [j])) else min_loop (at_path h r (q @ [j])) h)"
      using nz j(2) n by (subst min_loop.simps) (simp del: at_path_snoc)
    have other: "path_less (q @ j # x) k' \<or> prefix (q @ [j]) k'" if k': "M k' \<noteq> 0" "strict_prefix q k'" for k' x
    proof -
      from kid_of_longer [OF sh k'] obtain j' x' where e: "k' = q @ j' # x'" "q @ [j'] \<in> E" by blast
      then have "j \<le> j'" using j(3) by blast
      then show ?thesis using e path_less_branch [of j j'] by (cases "j = j'") auto
    qed
    show ?case
    proof (cases "M (q @ [j]) \<noteq> 0")
      case True
      have "path_less (q @ [j]) k' \<or> k' = q @ [j]" if "M k' \<noteq> 0" "strict_prefix q k'" for k'
        using other [OF that, of "[]"] path_less_extend [of _ "q @ [j]"] by (auto simp: prefix_def)
      then show ?thesis using step True by (intro exI [of _ "q @ [j]"]) (auto simp: strict_prefix_def)
    next
      case False
      then obtain k1 where k1: "M k1 \<noteq> 0" "strict_prefix (q @ [j]) k1"
        using covered_longer [OF cov j(1)] by blast
      have "B - length (q @ [j]) < B - length q" using B [OF less.prems(1)] by simp
      from less.hyps [OF this j(1) k1] obtain k where
        k: "M k \<noteq> 0" "strict_prefix (q @ [j]) k" "min_loop (at_path h r (q @ [j])) h = Some (M k)"
          "\<And>k'. M k' \<noteq> 0 \<Longrightarrow> strict_prefix (q @ [j]) k' \<Longrightarrow> k' = k \<or> path_less k k'" by blast
      from k(2) obtain x where x: "k = q @ j # x" by (auto simp: strict_prefix_def prefix_def)
      have "k' = k \<or> path_less k k'" if k': "M k' \<noteq> 0" "strict_prefix q k'" for k'
      proof -
        have "k' \<noteq> q @ [j]" using k'(1) False by auto
        then show ?thesis using other [OF k', of x] k(4) [OF k'(1)] x by (auto simp: strict_prefix_def)
      qed
      moreover have "strict_prefix q k" using x by (auto simp: strict_prefix_def)
      ultimately show ?thesis using k(1,3) step False by auto
    qed
  qed
qed

lemma branch_0:
  assumes "trie_shape h r E M" and "q \<in> E"
  shows "x_branch (xnode_of h r q) = 0 \<longleftrightarrow> (\<forall>j. q @ [j] \<notin> E)"
proof -
  let ?S = "{i. kid h (at_path h r q) i \<noteq> 0}"
  have "unat ` ?S \<subseteq> {..<16}"
    using kid_node [OF assms] by (auto split: if_splits)
  then have "card ?S \<le> 16"
    using card_inj_on_le [of unat ?S "{..<16}"] by (simp add: inj_on_def word_unat_eq_iff)
  then have "unat (of_nat (card ?S) :: u16) = card ?S" by (simp add: unat_of_nat)
  then have "x_branch (xnode_of h r q) = 0 \<longleftrightarrow> card ?S = 0"
    unfolding trie_shape_nodeD(4) [OF assms] by (simp only: flip: unat_eq_zero)
  also have "\<dots> \<longleftrightarrow> (\<forall>j. kid h (at_path h r q) j = 0)" by auto
  also have "\<dots> \<longleftrightarrow> (\<forall>j. q @ [j] \<notin> E)" using trie_shapeD(2) [OF assms(1)] by (metis at_path_snoc)
  finally show ?thesis .
qed

lemma max_loop_run:
  assumes sh: "trie_shape h r E M" and cov: "covered E M" and q: "q \<in> E"
    and ex: "q @ [j0] \<in> E"
  shows "\<exists>k. M k \<noteq> 0 \<and> strict_prefix q k \<and> max_loop (at_path h r q) h = Some (M k) \<and>
     (\<forall>k'. M k' \<noteq> 0 \<and> strict_prefix q k' \<longrightarrow> k' = k \<or> path_less k' k)"
proof -
  from cov obtain B where B: "\<And>q. q \<in> E \<Longrightarrow> length q < B" by (auto simp: covered_def)
  show ?thesis
    using q ex
  proof (induction "B - length q" arbitrary: q j0 rule: less_induct)
    case less
    have small: "unat j' \<le> 15" if "q @ [j'] \<in> E" for j' using kid_small [OF sh that] by simp
    from skip_down_run [OF sh less.prems small [OF less.prems(2)]] small obtain j where
      j: "q @ [j] \<in> E" "skip_down (at_path h r q) 15 h = Some (at_path h r (q @ [j]))"
        "\<And>j'. q @ [j'] \<in> E \<Longrightarrow> j' \<le> j" by auto
    have nz: "at_path h r q \<noteq> 0" using trie_shapeD(2) [OF sh] less.prems(1) by blast
    note n = trie_shape_nodeD(1,3) [OF sh j(1)]
    have step: "max_loop (at_path h r q) h
        = (if \<forall>j'. (q @ [j]) @ [j'] \<notin> E then Some (M (q @ [j])) else max_loop (at_path h r (q @ [j])) h)"
      using nz j(2) n branch_0 [OF sh j(1)]
      by (subst max_loop.simps) (simp add: TREE_MAX_INDEX_def TREE_DIMENSION_def del: at_path_snoc skip_down.simps)
    have other: "path_less k' (q @ j # x) \<or> prefix (q @ [j]) k'" if k': "M k' \<noteq> 0" "strict_prefix q k'" for k' x
    proof -
      from kid_of_longer [OF sh k'] obtain j' x' where e: "k' = q @ j' # x'" "q @ [j'] \<in> E" by blast
      then have "j' \<le> j" using j(3) by blast
      then show ?thesis using e path_less_branch [of j' j] by (cases "j = j'") auto
    qed
    show ?case
    proof (cases "\<forall>j'. (q @ [j]) @ [j'] \<notin> E")
      case True
      have noext: False if "M k' \<noteq> 0" "strict_prefix (q @ [j]) k'" for k'
        using kid_of_longer [OF sh that] True by blast
      have "M (q @ [j]) \<noteq> 0" using covered_longer [OF cov j(1)] noext by blast
      moreover have "path_less k' (q @ [j]) \<or> k' = q @ [j]" if "M k' \<noteq> 0" "strict_prefix q k'" for k'
        using other [OF that, of "[]"] noext [OF that(1)] by (auto simp: strict_prefix_def)
      ultimately show ?thesis using step True by (intro exI [of _ "q @ [j]"]) (auto simp: strict_prefix_def)
    next
      case False
      then obtain j1 where j1: "(q @ [j]) @ [j1] \<in> E" by blast
      have "B - length (q @ [j]) < B - length q" using B [OF less.prems(1)] by simp
      from less.hyps [OF this j(1) j1] obtain k where
        k: "M k \<noteq> 0" "strict_prefix (q @ [j]) k" "max_loop (at_path h r (q @ [j])) h = Some (M k)"
          "\<And>k'. M k' \<noteq> 0 \<Longrightarrow> strict_prefix (q @ [j]) k' \<Longrightarrow> k' = k \<or> path_less k' k" by blast
      from k(2) obtain x where x: "k = q @ j # x" "x \<noteq> []" by (auto simp: strict_prefix_def prefix_def)
      have "path_less (q @ [j]) k" using path_less_extend [of x "q @ [j]"] x by simp
      then have "k' = k \<or> path_less k' k" if k': "M k' \<noteq> 0" "strict_prefix q k'" for k'
        using other [OF k', of x] k(4) [OF k'(1)] x by (auto simp: strict_prefix_def)
      moreover have "strict_prefix q k" using x by (auto simp: strict_prefix_def)
      ultimately show ?thesis using k(1,3) step False by auto
    qed
  qed
qed

lemma covered_paths:
  assumes "set_mset K = {q. M q \<noteq> 0}"
  shows "covered (paths K) M"
proof -
  define B where "B = Max (insert 0 (length ` set_mset K))"
  have le: "length k \<le> B" if "k \<in># K" for k unfolding B_def using that by (intro Max_ge) auto
  have "length q < Suc B" if q: "q \<in> paths K" for q
  proof (cases "q = []")
    case False
    then obtain k where "k \<in># K" "prefix q k" using q by (auto simp: paths_def)
    then show ?thesis using le prefix_length_le by (meson le_imp_less_Suc order_trans)
  qed simp
  moreover have "\<exists>k. M k \<noteq> 0 \<and> prefix q k" if "q \<in> paths K" "q \<noteq> []" for q
    using that assms by (auto simp: paths_def)
  ultimately show ?thesis unfolding covered_def by blast
qed

end
