(* ===== verification/Xtree_Clear.thy ===== *)
theory Xtree_Clear
  imports Xtree_Order
begin

text \<open>
  \<open>xtree_clear\<close> walks the tree without a stack: it goes down to a node without branches, removes it and
  resumes at its right neighbour. The invariant is that nothing is left of the current position.
\<close>

section \<open>The descent\<close>

definition left_done :: "u8 list set \<Rightarrow> u8 list \<Rightarrow> nat \<Rightarrow> bool" where
  "left_done E q i \<longleftrightarrow> (\<forall>p j x j'. q = p @ j # x \<longrightarrow> j' < j \<longrightarrow> p @ [j'] \<notin> E) \<and>
     (\<forall>j'. unat j' < i \<longrightarrow> q @ [j'] \<notin> E)"

lemma left_done_next:
  assumes "left_done E q i" and "q @ [of_nat i] \<notin> E" and "i < 16"
  shows "left_done E q (Suc i)"
proof -
  have "q @ [j'] \<notin> E" if "unat j' < Suc i" for j'
  proof (cases "unat j' = i")
    case True
    moreover have "of_nat (unat j') = j'" by simp
    ultimately have "j' = of_nat i" by simp
    then show ?thesis using assms(2) by simp
  qed (use assms(1) that in \<open>auto simp: left_done_def\<close>)
  then show ?thesis using assms(1) by (simp add: left_done_def)
qed

lemma left_done_child:
  assumes "left_done E q i" and "i < 16"
  shows "left_done E (q @ [of_nat i]) 0"
proof -
  have "p @ [j'] \<notin> E" if e: "q @ [of_nat i] = p @ j # x" and j': "j' < j" for p j x j'
  proof (cases x rule: rev_cases)
    case Nil
    then have "p = q" "j = of_nat i" using e by auto
    then have "unat j' < i" using j' u8_index [OF assms(2)] by (simp add: word_less_nat_alt)
    then show ?thesis using assms(1) \<open>p = q\<close> by (simp add: left_done_def)
  next
    case (snoc y z)
    then have "q = p @ j # y" using e by auto
    then show ?thesis using assms(1) j' by (auto simp: left_done_def)
  qed
  then show ?thesis by (auto simp: left_done_def)
qed

lemma wipe_down_run:
  assumes sh: "trie_shape h r E M" and B: "\<And>q. q \<in> E \<Longrightarrow> length q < B"
    and q: "q \<in> E" and ld: "left_done E q i" and i: "i \<le> 16"
  shows "\<exists>x. q @ x \<in> E \<and> wipe_down (at_path h r q) i h = Some (at_path h r (q @ x)) \<and>
     (\<forall>j. (q @ x) @ [j] \<notin> E) \<and> left_done E (q @ x) 0"
  using q ld i
proof (induction "(B - length q) * 17 + (16 - i)" arbitrary: q i rule: less_induct)
  case less
  show ?case
  proof (cases "i < 16")
    case False
    have "q @ [j] \<notin> E" for j
      using less.prems(2,3) False kid_small [OF sh, of q j] by (auto simp: left_done_def)
    then show ?thesis
      using False less.prems(1,2) by (intro exI [of _ "[]"]) (auto simp: wipe_down.simps TREE_DIMENSION_def left_done_def)
  next
    case True
    let ?c = "q @ [of_nat i]"
    note k = get_kid_nat [OF sh less.prems(1) True] and nz = trie_shapeD(2) [OF sh, of ?c]
    show ?thesis
    proof (cases "?c \<in> E")
      case False
      then have eq: "wipe_down (at_path h r q) i h = wipe_down (at_path h r q) (Suc i) h"
        using True k nz by (subst wipe_down.simps) (simp add: TREE_DIMENSION_def del: at_path_snoc)
      have "(B - length q) * 17 + (16 - Suc i) < (B - length q) * 17 + (16 - i)" using True by simp
      from less.hyps [OF this less.prems(1) left_done_next [OF less.prems(2) False True]] True
      show ?thesis unfolding eq by simp
    next
      case c: True
      note n = trie_shape_nodeD(1) [OF sh c] and ld = left_done_child [OF less.prems(2) True]
      have step: "wipe_down (at_path h r q) i h
          = (if \<forall>j. ?c @ [j] \<notin> E then Some (at_path h r ?c) else wipe_down (at_path h r ?c) 0 h)"
        using True k nz c n branch_0 [OF sh c]
        by (subst wipe_down.simps) (simp add: TREE_DIMENSION_def del: at_path_snoc)
      show ?thesis
      proof (cases "\<forall>j. ?c @ [j] \<notin> E")
        case leaf: True
        then show ?thesis using step c ld by (intro exI [of _ "[of_nat i]"]) auto
      next
        case False
        have "B - length ?c < B - length q" using B [OF less.prems(1)] by simp
        then have "(B - length ?c) * 17 + (16 - 0) < (B - length q) * 17 + (16 - i)" by linarith
        from less.hyps [OF this c ld] obtain x where
          "?c @ x \<in> E" "wipe_down (at_path h r ?c) 0 h = Some (at_path h r (?c @ x))"
          "\<forall>j. (?c @ x) @ [j] \<notin> E" "left_done E (?c @ x) 0" by auto
        then show ?thesis using step False by (intro exI [of _ "of_nat i # x"]) auto
      qed
    qed
  qed
qed

section \<open>The loop\<close>

definition drop_leaf :: "xtrees \<Rightarrow> nat \<Rightarrow> u8 list \<Rightarrow> u8 \<Rightarrow> bool \<Rightarrow> xtrees" where
  "drop_leaf h r p l mapped =
     (if mapped then touch (prune h r p l) r [] (\<lambda>n. n\<lparr>x_route := x_route n - 1\<rparr>) else prune h r p l)"

lemma drop_leaf_shape:
  assumes sh: "trie_shape h r E M" and d: "p @ [l] \<in> E" and leaf: "\<And>j. p @ [l, j] \<notin> E"
  shows "trie_shape (drop_leaf h r p l mapped) r (E - {p @ [l]}) (M(p @ [l] := 0))"
    and "at_path (drop_leaf h r p l mapped) r q = (if q = p @ [l] then 0 else at_path h r q)"
    and "x_leaves (xnode_of (drop_leaf h r p l mapped) r []) = x_leaves (xnode_of h r [])"
    and "x_route (xnode_of (drop_leaf h r p l mapped) r [])
           = x_route (xnode_of h r []) - (if mapped then 1 else 0)"
    and "dom (h_nodes (drop_leaf h r p l mapped)) = dom (h_nodes h) - {at_path h r (p @ [l])}"
proof -
  let ?P = "prune h r p l" and ?f = "\<lambda>n. n\<lparr>x_route := x_route n - 1\<rparr>"
  have s: "trie_shape ?P r (E - {p @ [l]}) (M(p @ [l] := 0))" by (rule shape_prune [OF assms])
  have N: "[] \<in> E - {p @ [l]}" using trie_shapeD(1) [OF s] .
  note nd = xnode_of_touch [OF s N _ N, of ?f] xnode_of_prune [OF assms, of "[]"]
  have p: "p \<in> E" using trie_prefix_closed [OF sh d] .
  show "trie_shape (drop_leaf h r p l mapped) r (E - {p @ [l]}) (M(p @ [l] := 0))"
    using s shape_touch_same [OF s N, of ?f] by (simp add: drop_leaf_def)
  show "at_path (drop_leaf h r p l mapped) r q = (if q = p @ [l] then 0 else at_path h r q)"
  proof -
    have "at_path (touch ?P r [] ?f) r = at_path ?P r" by (rule at_path_touch [OF s N]) simp
    then show ?thesis unfolding at_path_prune(1) [OF assms, symmetric] by (simp only: drop_leaf_def split: if_split) simp
  qed
  show "x_leaves (xnode_of (drop_leaf h r p l mapped) r []) = x_leaves (xnode_of h r [])"
    using nd N by (auto simp: drop_leaf_def)
  show "x_route (xnode_of (drop_leaf h r p l mapped) r []) = x_route (xnode_of h r []) - (if mapped then 1 else 0)"
    using nd N by (auto simp: drop_leaf_def)
  have "at_path h r p \<noteq> at_path h r (p @ [l])"
    using trie_path_eq [OF sh, of p "p @ [l]"] trie_shapeD(2) [OF sh, of p] p by blast
  moreover have "h_nodes h (at_path h r p) \<noteq> None" using sh p by (simp add: trie_shape_def)
  moreover have "h_nodes ?P r \<noteq> None"
    using s [unfolded trie_shape_def, THEN conjunct2, THEN conjunct2, THEN conjunct2, THEN conjunct2, rule_format, OF N]
    by simp
  ultimately have "dom (h_nodes ?P) = dom (h_nodes h) - {at_path h r (p @ [l])}" "r \<in> dom (h_nodes ?P)"
    by (auto simp: prune_def simp del: at_path_snoc split: if_splits)
  then show "dom (h_nodes (drop_leaf h r p l mapped)) = dom (h_nodes h) - {at_path h r (p @ [l])}"
    by (auto simp: drop_leaf_def touch_def)
qed

lemma xnode_commute:
  "n\<lparr>x_branch := b, x_kids := k\<rparr> = n\<lparr>x_kids := k, x_branch := b\<rparr>"
  "n\<lparr>x_route := c, x_kids := k\<rparr> = n\<lparr>x_kids := k, x_route := c\<rparr>"
  "n\<lparr>x_route := c, x_branch := b\<rparr> = n\<lparr>x_branch := b, x_route := c\<rparr>"
  by simp_all

lemma drop_leaf_run:
  assumes sh: "trie_shape h r E M" and d: "p @ [l] \<in> E" and leaf: "\<And>j. p @ [l, j] \<notin> E"
  shows "(do {
      h1 \<leftarrow> upd_xnode (at_path h r p) (\<lambda>n. n\<lparr>x_branch := x_branch n - 1\<rparr>) h;
      h2 \<leftarrow> (if M (p @ [l]) \<noteq> 0 then upd_xnode r (\<lambda>n. n\<lparr>x_route := x_route n - 1\<rparr>) h1 else Some h1);
      h3 \<leftarrow> free_xnode (at_path h r (p @ [l])) h2;
      set_kid (at_path h r p) (unat l) 0 h3 }) = Some (drop_leaf h r p l (M (p @ [l]) \<noteq> 0))"
proof -
  let ?d = "at_path h r (p @ [l])" and ?a = "at_path h r p"
  have p: "p \<in> E" and N: "[] \<in> E" using trie_prefix_closed [OF sh d] trie_shapeD(1) [OF sh] by auto
  have ne: "?a \<noteq> ?d" using trie_path_eq [OF sh, of p "p @ [l]"] trie_shapeD(2) [OF sh, of p] p by blast
  have rd: "r \<noteq> ?d" using trie_path_eq [OF sh, of "[]" "p @ [l]"] trie_root [OF sh] by auto
  have rp: "r = ?a \<longleftrightarrow> p = []" using trie_path_eq [OF sh, of "[]" p] trie_root [OF sh] by auto
  have a: "h_nodes h ?a = Some (xnode_of h r p)" "?a \<noteq> 0" and dd: "h_nodes h ?d = Some (xnode_of h r (p @ [l]))" "?d \<noteq> 0"
    and r: "h_nodes h r = Some (xnode_of h r [])" "r \<noteq> 0"
    using trie_shape_nodeD(1) [OF sh p] trie_shape_nodeD(1) [OF sh d] trie_shape_nodeD(1) [OF sh N]
    by (auto simp: xnode_at_def split: if_splits)
  note facts = ne rd rp a dd r kid_small [OF sh d] trie_shape_nodeD(2) [OF sh p] xnode_of_prune [OF sh d leaf N]
    and defs = drop_leaf_def touch_def upd_xnode_def free_xnode_def set_kid_def xnode_at_def xnode_commute
  show ?thesis
    apply (cases "p = []"; cases "M (p @ [l]) = 0")
    using facts
    apply (simp_all add: defs fun_upd_twist del: at_path_snoc)
    apply (simp_all add: prune_def xnode_commute fun_upd_twist del: at_path_snoc)
    done
qed

lemma wipe_step:
  assumes sh: "trie_shape h r E M" and d: "p @ [l] \<in> E" and leaf: "\<And>j. p @ [l, j] \<notin> E"
    and br: "x_branch (xnode_of h r []) > 0" and tree: "tree \<noteq> 0"
    and down: "wipe_down tree i h = Some (at_path h r (p @ [l]))"
  shows "wipe_loop r tree i out h = wipe_loop r (at_path h r p) (Suc (unat l))
    (if M (p @ [l]) \<noteq> 0 then out @ [M (p @ [l])] else out) (drop_leaf h r p l (M (p @ [l]) \<noteq> 0))"
proof -
  define F where "F = wipe_loop r (at_path h r p) (Suc (unat l))
    (if M (p @ [l]) \<noteq> 0 then out @ [M (p @ [l])] else out)"
  note n = trie_shape_nodeD(1) [OF sh d] trie_shape_nodeD(1) [OF sh trie_shapeD(1) [OF sh]]
    and dn = trie_shape_nodeD(3,5,6) [OF sh d]
  have l: "unat (l + 1) = Suc (unat l)" using kid_small [OF sh d] by (simp add: unat_word_ariths)
  have zb: "x_branch (xnode_of h r (p @ [l])) = 0" using branch_0 [OF sh d] leaf by simp
  have "wipe_loop r tree i out h = Option.bind (do {
      h1 \<leftarrow> upd_xnode (at_path h r p) (\<lambda>n. n\<lparr>x_branch := x_branch n - 1\<rparr>) h;
      h2 \<leftarrow> (if M (p @ [l]) \<noteq> 0 then upd_xnode r (\<lambda>n. n\<lparr>x_route := x_route n - 1\<rparr>) h1 else Some h1);
      h3 \<leftarrow> free_xnode (at_path h r (p @ [l])) h2;
      set_kid (at_path h r p) (unat l) 0 h3 }) F"
    using n dn zb br tree down l unfolding F_def
    by (subst wipe_loop.simps) (simp add: Let_def bind_assoc del: at_path_snoc)
  then show ?thesis unfolding drop_leaf_run [OF sh d leaf] by (simp add: F_def)
qed

lemma left_done_up:
  assumes "left_done E (p @ [l]) 0"
  shows "left_done (E - {p @ [l]}) p (Suc (unat l))"
proof -
  have "p @ [j'] \<notin> E - {p @ [l]}" if "unat j' < Suc (unat l)" for j'
  proof (cases "j' = l")
    case False
    then have "j' < l" using that by (metis word_less_nat_alt less_SucE word_unat_eq_iff)
    then show ?thesis using assms by (auto simp: left_done_def)
  qed simp
  moreover have "p' @ [j'] \<notin> E" if "p = p' @ j # x" "j' < j" for p' j x j'
  proof -
    have "p @ [l] = p' @ j # (x @ [l])" using that by simp
    then show ?thesis using assms that(2) unfolding left_done_def by blast
  qed
  ultimately show ?thesis by (auto simp: left_done_def)
qed

lemma mapped_split:
  assumes "finite E" and "d \<in> E"
  shows "image_mset M (mset_set {q \<in> E. M q \<noteq> 0})
      = (if M d \<noteq> 0 then {#M d#} else {#}) + image_mset (M(d := 0)) (mset_set {q \<in> E - {d}. (M(d := 0)) q \<noteq> 0})"
    and "card {q \<in> E. M q \<noteq> 0} = (if M d \<noteq> 0 then 1 else 0) + card {q \<in> E - {d}. (M(d := 0)) q \<noteq> 0}"
proof -
  let ?A = "{q \<in> E - {d}. (M(d := 0)) q \<noteq> 0}"
  have A: "{q \<in> E. M q \<noteq> 0} = (if M d \<noteq> 0 then insert d ?A else ?A)" using assms(2) by auto
  have fin: "finite ?A" and new: "d \<notin> ?A" using assms(1) by auto
  have "image_mset (M(d := 0)) (mset_set ?A) = image_mset M (mset_set ?A)"
    by (rule image_mset_cong) (use fin in auto)
  then show "image_mset M (mset_set {q \<in> E. M q \<noteq> 0})
      = (if M d \<noteq> 0 then {#M d#} else {#}) + image_mset (M(d := 0)) (mset_set ?A)"
    unfolding A using fin new by simp
  show "card {q \<in> E. M q \<noteq> 0} = (if M d \<noteq> 0 then 1 else 0) + card ?A"
    unfolding A using fin new by simp
qed

lemma wipe_loop_run:
  assumes "finite E" and "trie_shape h r E M" and "M [] = 0" and "q \<in> E" and "left_done E q i" and "i \<le> 16"
  shows "\<exists>out' h'. wipe_loop r (at_path h r q) i out h = Some (out @ out', h') \<and>
     trie_shape h' r {[]} (\<lambda>_. 0) \<and> mset out' = image_mset M (mset_set {q \<in> E. M q \<noteq> 0}) \<and>
     x_leaves (xnode_of h' r []) = x_leaves (xnode_of h r []) \<and>
     x_route (xnode_of h' r []) = x_route (xnode_of h r []) - of_nat (card {q \<in> E. M q \<noteq> 0}) \<and>
     dom (h_nodes h') = dom (h_nodes h) - at_path h r ` (E - {[]})"
  using assms
proof (induction "card E" arbitrary: E h M q i out rule: less_induct)
  case less
  note sh = less.prems(2)
  have N: "[] \<in> E" and rn: "xnode_at r h = Some (xnode_of h r [])"
    using trie_shapeD(1) [OF sh] trie_shape_nodeD(1) [OF sh, of "[]"] by auto
  have nz: "at_path h r q \<noteq> 0" using trie_shapeD(2) [OF sh] less.prems(4) by blast
  show ?case
  proof (cases "x_branch (xnode_of h r []) = 0")
    case True
    have "E = {[]}"
    proof -
      have "q = []" if q: "q \<in> E" for q
      proof (cases q)
        case (Cons j x)
        then have "[j] \<in> E" using trie_prefix_closed [OF sh, of "[j]" x] q by simp
        then show ?thesis using branch_0 [OF sh N] True by auto
      qed simp
      then show ?thesis using N by blast
    qed
    moreover from this have "M q = 0" for q using trie_shapeD(4) [OF sh, of q] less.prems(3) by auto
    then have "M = (\<lambda>_. 0)" by (rule ext)
    moreover have "wipe_loop r (at_path h r q) i out h = Some (out, h)"
      using True rn nz by (subst wipe_loop.simps) simp
    ultimately show ?thesis using sh by auto
  next
    case False
    obtain B where B: "\<And>q. q \<in> E \<Longrightarrow> length q < B"
      using less.prems(1) finite_nat_set_iff_bounded [of "length ` E"] by auto
    from wipe_down_run [OF sh B less.prems(4-6)] obtain x where
      x: "q @ x \<in> E" "wipe_down (at_path h r q) i h = Some (at_path h r (q @ x))"
        "\<And>j. (q @ x) @ [j] \<notin> E" "left_done E (q @ x) 0" by blast
    have "q @ x \<noteq> []" using x(3) branch_0 [OF sh N] False by auto
    then obtain p l where pl: "q @ x = p @ [l]" by (metis rev_exhaust)
    note x = x [unfolded pl]
    have leaf: "p @ [l, j] \<notin> E" for j using x(3) [of j] by simp
    let ?m = "M (p @ [l]) \<noteq> 0" and ?E = "E - {p @ [l]}" and ?M = "M(p @ [l] := 0)"
    let ?h = "drop_leaf h r p l ?m"
    let ?out = "if ?m then out @ [M (p @ [l])] else out"
    note D = drop_leaf_shape [OF sh x(1) leaf, of ?m]
    have p: "p \<in> ?E" using trie_prefix_closed [OF sh x(1)] by simp
    have at: "at_path ?h r p = at_path h r p" using D(2) [of p] by simp
    have "card ?E < card E" using x(1) less.prems(1) by (meson card_Diff1_less)
    moreover have "Suc (unat l) \<le> 16" using kid_small [OF sh x(1)] by simp
    ultimately obtain out' h' where o:
      "wipe_loop r (at_path ?h r p) (Suc (unat l)) ?out ?h = Some (?out @ out', h')"
      "trie_shape h' r {[]} (\<lambda>_. 0)" "mset out' = image_mset ?M (mset_set {q \<in> ?E. ?M q \<noteq> 0})"
      "x_leaves (xnode_of h' r []) = x_leaves (xnode_of ?h r [])"
      "x_route (xnode_of h' r []) = x_route (xnode_of ?h r []) - of_nat (card {q \<in> ?E. ?M q \<noteq> 0})"
      "dom (h_nodes h') = dom (h_nodes ?h) - at_path ?h r ` (?E - {[]})"
      using less.hyps [of ?E ?h ?M p "Suc (unat l)" ?out] D(1) less.prems(1,3) p left_done_up [OF x(4)] by auto
    have step: "wipe_loop r (at_path h r q) i out h = Some (?out @ out', h')"
      using wipe_step [OF sh x(1) leaf _ nz x(2), of out] False o(1) at by (simp add: word_gt_0)
    have img: "at_path ?h r ` (?E - {[]}) = at_path h r ` (?E - {[]})"
    proof (rule image_cong [OF refl])
      fix y assume "y \<in> ?E - {[]}"
      then show "at_path ?h r y = at_path h r y" using D(2) [of y] by simp
    qed
    have "at_path h r ` (E - {[]}) = insert (at_path h r (p @ [l])) (at_path h r ` (?E - {[]}))"
      using x(1) by blast
    then have "dom (h_nodes h') = dom (h_nodes h) - at_path h r ` (E - {[]})"
      unfolding o(6) img D(5) by blast
    moreover have "mset (if ?m then M (p @ [l]) # out' else out') = image_mset M (mset_set {q \<in> E. M q \<noteq> 0})"
      unfolding mapped_split(1) [OF less.prems(1) x(1), of M] o(3) [symmetric] by simp
    moreover have "x_route (xnode_of h' r []) = x_route (xnode_of h r []) - of_nat (card {q \<in> E. M q \<noteq> 0})"
      unfolding mapped_split(2) [OF less.prems(1) x(1), of M] o(5) D(4) by simp
    ultimately show ?thesis
      using step o(2,4) D(3) by (intro exI [of _ "if ?m then M (p @ [l]) # out' else out'"] exI [of _ h']) simp
  qed
qed

end
