(* ===== verification/Xtree_Props.thy ===== *)
theory Xtree_Props
  imports Xtree_Clear
begin

text \<open>
  The properties of the radix tree, with a small tree of three keys as their witness.
\<close>

definition empty_store :: xtrees where
  "empty_store = \<lparr>h_nodes = Map.empty, h_alloc = Suc, h_allocs = 0\<rparr>"

definition tree_demo_root :: nat where
  "tree_demo_root = fst (xtree_create empty_store)"

definition demo0 :: xtrees where
  "demo0 = snd (xtree_create empty_store)"

definition demo1 :: xtrees where
  "demo1 = snd (the (xtree_add tree_demo_root [0x21] 1 7 demo0))"

definition demo2 :: xtrees where
  "demo2 = snd (the (xtree_add tree_demo_root [0x21, 0x43] 2 9 demo1))"

lemma demo_create: "xtree_create empty_store = (tree_demo_root, demo0)"
  by (simp add: tree_demo_root_def demo0_def)

lemma tree_demo_root: "tree_demo_root = 1"
  by (simp add: tree_demo_root_def xtree_create_def calloc_xnode_def empty_store_def)

lemma demo0_alloc: "alloc_ok m demo0"
  by (simp add: demo0_def xtree_create_def calloc_xnode_def empty_store_def alloc_ok_def)

lemma demo0_rep: "trie_rep demo0 tree_demo_root {#} (\<lambda>_. 0)"
  by (rule xtree_create_rep [OF demo_create]) (simp_all add: tree_demo_root empty_store_def)

lemma demo1_rep:
  "trie_rep demo1 tree_demo_root {#nibs [0x21]#} ((\<lambda>_. 0)(nibs [0x21] := 7)) \<and> alloc_ok 4 demo1"
  using xtree_add_run [OF demo0_rep, of 1 "[0x21]" 4 "nibs [0x21]" 7] demo0_alloc
  by (auto simp: demo1_def)

lemma demo2_rep:
  "trie_rep demo2 tree_demo_root {#nibs [0x21], nibs [0x21, 0x43]#}
     ((\<lambda>_. 0)(nibs [0x21] := 7, nibs [0x21, 0x43] := 9))"
  using xtree_add_run [OF demo1_rep [THEN conjunct1], of 2 "[0x21, 0x43]" 0 "nibs [0x21, 0x43]" 9] demo1_rep
  by (auto simp: demo2_def add_mset_commute)

text \<open>
  C13. A radix tree is a map from byte strings to pointers: started from \<open>xtree_create\<close>, any sequence of
  additions of keys of 1 to 255 bytes and deletions of stored keys returns normally, and afterwards
  \<open>xtree_find\<close> returns for every key the pointer stored last, or NULL. Keys may be prefixes of each other
  and may be added again. The hypotheses are that \<open>calloc\<close> gives fresh memory and that there are fewer
  than \<open>2^64\<close> operations.
\<close>

theorem xtree_refines_map:
  assumes "xtree_create h = (r, h0)" and "r \<noteq> 0" and "h_nodes h r = None" and "\<forall>m. alloc_ok m h0"
    and "ops_ok key_valid ops (\<lambda>_. 0)" and "length ops < 2 ^ 64"
  shows "\<exists>h'. run_ops (tree_put r) (tree_del r) ops h0 = Some h' \<and>
    (\<forall>k. key_valid k \<longrightarrow> tree_get r k h' = Some (fold map_step ops (\<lambda>_. 0) k))"
proof (rule tree_map.run_get [OF _ assms(5)])
  show "tree_ok r (length ops) h0 (\<lambda>_. 0)"
    using xtree_create_rep [OF assms(1-3)] assms(4,6) unfolding tree_ok_def by (auto intro!: exI)
qed

theorem xtree_refines_map_witness:
  "\<exists>h'. run_ops (tree_put tree_demo_root) (tree_del tree_demo_root)
      [Put [0x21] 7, Put [0x21, 0x43] 9, Del [0x21]] demo0 = Some h' \<and>
    tree_get tree_demo_root [0x21] h' = Some 0 \<and> tree_get tree_demo_root [0x21, 0x43] h' = Some 9"
  using xtree_refines_map [OF demo_create, of "[Put [0x21] 7, Put [0x21, 0x43] 9, Del [0x21]]"] demo0_alloc
  by (auto simp: tree_demo_root empty_store_def key_valid_def)

lemma root_route:
  assumes "trie_rep h r K M" and "size K < 2 ^ 64"
  shows "xnode_at r h = Some (xnode_of h r [])" and "x_route (xnode_of h r []) > 0 \<longleftrightarrow> K \<noteq> {#}"
proof -
  have sh: "trie_shape h r (paths K) M" and rt: "x_route (xnode_of h r []) = of_nat (size K)"
    using assms(1) by (auto simp: trie_rep_def trie_counts_def)
  show "xnode_at r h = Some (xnode_of h r [])"
    using trie_shape_nodeD(1) [OF sh trie_shapeD(1) [OF sh]] by simp
  have "unat (of_nat (size K) :: u64) = size K" using assms(2) by (rule unat_of_nat_small)
  then show "x_route (xnode_of h r []) > 0 \<longleftrightarrow> K \<noteq> {#}"
    unfolding rt word_less_nat_alt by (simp add: nonempty_has_size)
qed

lemma stored_strict:
  assumes "trie_rep h r K M" and "[] \<notin># K" and "M k \<noteq> 0"
  shows "strict_prefix [] k"
  using assms by (auto simp: trie_rep_def strict_prefix_def)

lemma two_keys:
  fixes m n :: nat
  assumes "path_less a b" and "\<not> path_less b a"
    and "(\<exists>k. ((\<lambda>_. 0)(a := m, b := n)) k \<noteq> 0 \<and> x = Some (((\<lambda>_. 0)(a := m, b := n)) k) \<and>
        (\<forall>k'. ((\<lambda>_. 0)(a := m, b := n)) k' \<noteq> 0 \<longrightarrow> k' = k \<or> path_less k k')) \<and>
      (\<exists>k. ((\<lambda>_. 0)(a := m, b := n)) k \<noteq> 0 \<and> y = Some (((\<lambda>_. 0)(a := m, b := n)) k) \<and>
        (\<forall>k'. ((\<lambda>_. 0)(a := m, b := n)) k' \<noteq> 0 \<longrightarrow> k' = k \<or> path_less k' k))"
    and "m \<noteq> 0" and "n \<noteq> 0"
  shows "x = Some m \<and> y = Some n"
  using assms by (auto split: if_splits)

text \<open>
  On a tree whose stored keys all have a pointer, \<open>tree_min\<close> terminates and returns the pointer of
  the first key in lexicographic order (a key comes before its extensions), \<open>tree_max\<close> that of the last.
\<close>

theorem tree_min_max_key:
  assumes rep: "trie_rep h r K M" and keys: "set_mset K = {q. M q \<noteq> 0}" and ne: "K \<noteq> {#}" "[] \<notin># K"
    and sz: "size K < 2 ^ 64"
  shows "(\<exists>k. M k \<noteq> 0 \<and> tree_min r h = Some (M k) \<and> (\<forall>k'. M k' \<noteq> 0 \<longrightarrow> k' = k \<or> path_less k k')) \<and>
    (\<exists>k. M k \<noteq> 0 \<and> tree_max r h = Some (M k) \<and> (\<forall>k'. M k' \<noteq> 0 \<longrightarrow> k' = k \<or> path_less k' k))"
proof
  have sh: "trie_shape h r (paths K) M" using rep by (simp add: trie_rep_def)
  note cov = covered_paths [OF keys] and N = trie_shapeD(1) [OF sh] and root = root_route [OF rep sz]
  from ne keys obtain k0 where k0: "M k0 \<noteq> 0" by auto
  note sp = stored_strict [OF rep ne(2)]
  show "\<exists>k. M k \<noteq> 0 \<and> tree_min r h = Some (M k) \<and> (\<forall>k'. M k' \<noteq> 0 \<longrightarrow> k' = k \<or> path_less k k')"
    using min_loop_run [OF sh cov N k0 sp [OF k0]] root ne sp by (auto simp: tree_min_def)
  obtain j where "[] @ [j] \<in> paths K" using kid_of_longer [OF sh k0 sp [OF k0]] by blast
  from max_loop_run [OF sh cov N this]
  show "\<exists>k. M k \<noteq> 0 \<and> tree_max r h = Some (M k) \<and> (\<forall>k'. M k' \<noteq> 0 \<longrightarrow> k' = k \<or> path_less k' k)"
    using root ne sp by (auto simp: tree_max_def)
qed

theorem tree_min_max_key_witness:
  "tree_min tree_demo_root demo2 = Some 7 \<and> tree_max tree_demo_root demo2 = Some 9"
proof -
  have less: "path_less (nibs [0x21]) (nibs [0x21, 0x43])"
    using path_less_extend [of "nibs [0x43]" "nibs [0x21]"] by simp
  have no: "\<not> path_less (nibs [0x21, 0x43]) (nibs [0x21])" by (simp add: path_less_def)
  show ?thesis
    by (rule two_keys [OF less no tree_min_max_key [OF demo2_rep]]) auto
qed

lemma finite_paths: "finite (paths K)"
proof -
  have "paths K = insert [] (\<Union>k \<in> set_mset K. set (prefixes k))" by (auto simp: paths_def)
  then show ?thesis by simp
qed

text \<open>
  C31. \<open>xtree_clear\<close> terminates on a tree in which every key is stored once: it frees every node but the
  root, hands each mapped pointer to the callback exactly once, and leaves an empty tree.
\<close>

theorem xtree_clear_frees:
  assumes rep: "trie_rep h r K M" and keys: "K = mset_set {q. M q \<noteq> 0}" and len: "\<forall>k \<in># K. 2 \<le> length k"
  shows "\<exists>out h'. xtree_clear r h = Some (out, h') \<and> trie_rep h' r {#} (\<lambda>_. 0) \<and>
    mset out = image_mset M K \<and> dom (h_nodes h') = dom (h_nodes h) - at_path h r ` (paths K - {[]})"
proof -
  have sh: "trie_shape h r (paths K) M" and cn: "trie_counts h r K [] (of_nat (size K))"
    and MK: "\<And>q. M q \<noteq> 0 \<Longrightarrow> q \<in># K" using rep by (auto simp: trie_rep_def)
  have A: "{q \<in> paths K. M q \<noteq> 0} = {q. M q \<noteq> 0}" using trie_shapeD(4) [OF sh] by auto
  have M0: "M [] = 0" using MK [of "[]"] len by fastforce
  have leaves: "{#k \<in># K. k \<noteq> [] \<and> butlast k = []#} = {#}"
  proof -
    have "\<not> (k \<noteq> [] \<and> butlast k = [])" if "k \<in># K" for k
      using len that by (cases k rule: rev_cases) fastforce+
    then show ?thesis by (auto simp: multiset_eq_iff count_eq_zero_iff)
  qed
  have "left_done (paths K) [] 0" by (simp add: left_done_def)
  from wipe_loop_run [OF finite_paths sh M0 trie_shapeD(1) [OF sh] this, of "[]"] obtain out h' where
    o: "wipe_loop r r 0 [] h = Some (out, h')" "trie_shape h' r {[]} (\<lambda>_. 0)"
      "mset out = image_mset M (mset_set {q. M q \<noteq> 0})"
      "x_leaves (xnode_of h' r []) = x_leaves (xnode_of h r [])"
      "x_route (xnode_of h' r []) = x_route (xnode_of h r []) - of_nat (card {q. M q \<noteq> 0})"
      "dom (h_nodes h') = dom (h_nodes h) - at_path h r ` (paths K - {[]})"
    unfolding A by auto
  have "size K = card {q. M q \<noteq> 0}" by (subst keys) simp
  then have "x_route (xnode_of h' r []) = 0" and "x_leaves (xnode_of h' r []) = 0"
    using cn o(4,5) leaves trie_root [OF sh] by (auto simp: trie_counts_def)
  moreover have "at_path h' r q \<noteq> 0 \<longleftrightarrow> q = []" for q using trie_shapeD(2) [OF o(2), of q] by simp
  ultimately have "trie_rep h' r {#} (\<lambda>_. 0)"
    using o(2) by (auto simp: trie_rep_def trie_counts_def paths_def)
  then show ?thesis using o(1,3,6) unfolding xtree_clear_def keys [symmetric] by blast
qed

theorem xtree_clear_frees_witness:
  "\<exists>out h'. xtree_clear tree_demo_root demo2 = Some (out, h') \<and> trie_rep h' tree_demo_root {#} (\<lambda>_. 0) \<and> mset out = {#7, 9#}"
proof -
  let ?M = "(\<lambda>_. 0)(nibs [0x21] := 7 :: nat, nibs [0x21, 0x43] := 9)"
  have "{q. ?M q \<noteq> 0} = {nibs [0x21], nibs [0x21, 0x43]}" by auto
  then have "{#nibs [0x21], nibs [0x21, 0x43]#} = mset_set {q. ?M q \<noteq> 0}" by simp
  from xtree_clear_frees [OF demo2_rep this] show ?thesis by auto
qed


text \<open>
  \<open>tree_rise\<close> returns more than \<open>count\<close> nodes when a stored key is a prefix of another: the inner loop
  goes on after the counter reached 0, and the counter wraps.
\<close>

theorem tree_rise_exceeds_count:
  "map_option length (tree_rise tree_demo_root None 0 1 demo2) = Some 2"
  by code_simp

end
