(* ===== verification/Msger.thy ===== *)
theory Msger
  imports Channel_Send Avl_Tree Ring "HOL-Library.Product_Lexorder"
begin

text \<open>
  The messenger of \<open>src/src/xnet/xmsger.c\<close>: the thread that owns all channels. It keeps the channels in a
  ring list (\<open>sendlist\<close>) for sending and in an AVL tree (\<open>peers\<close>) for finding the channel of an arriving
  datagram by the address it came from and its channel id; this theory puts the models of the channel, of
  the tree and of the ring together. A channel is a heap object: its fields are in \<open>g_chan\<close>, its \<open>ucid\<close>,
  socket, ring links and tree node in their own maps, all at the same address (the tree node is the first
  field of the structure, so the offset of the tree is 0).

  An operation of a channel runs in the environment \<open>g_env\<close> with that channel loaded. Addresses of new
  memory come from the sequence \<open>g_alloc\<close>, where 0 is a failed allocation. \<open>g_timedout\<close> are the calls of
  \<open>on_message_timedout\<close>.
\<close>

section \<open>State\<close>

record xmsger =
  g_env :: xstate
  g_chan :: "nat \<Rightarrow> xchannel option"
  g_ucid :: "nat \<Rightarrow> u64 list"
  g_sock :: "nat \<Rightarrow> nat"
  g_list :: ring
  g_peers :: avl_tree
  g_cid :: u16
  g_timer :: u64
  g_laddr :: "u64 list"
  g_addrs :: "nat \<Rightarrow> u64 list option"
  g_ipv6 :: "u64 list \<Rightarrow> bool"
  g_alloc :: "nat \<Rightarrow> nat"
  g_allocs :: nat
  g_timedout :: "nat list"

definition draw :: "xmsger \<Rightarrow> nat \<times> xmsger" where
  "draw M = (g_alloc M (g_allocs M), M\<lparr>g_allocs := g_allocs M + 1\<rparr>)"

text \<open>Running a channel operation on the channel at \<open>p\<close>.\<close>

definition on_chan :: "nat \<Rightarrow> (xstate \<Rightarrow> xstate option) \<Rightarrow> xmsger \<Rightarrow> xmsger option" where
  "on_chan p f M = do {
     c \<leftarrow> g_chan M p;
     w \<leftarrow> f ((g_env M)\<lparr>w_chan := c\<rparr>);
     Some (M\<lparr>g_env := w, g_chan := (g_chan M)(p \<mapsto> w_chan w)\<rparr>) }"

definition on_chan_int :: "nat \<Rightarrow> (xstate \<Rightarrow> (xstate \<times> bool \<times> int) option) \<Rightarrow> xmsger \<Rightarrow> (xmsger \<times> bool \<times> int) option" where
  "on_chan_int p f M = do {
     c \<leftarrow> g_chan M p;
     (w, kept, r) \<leftarrow> f ((g_env M)\<lparr>w_chan := c\<rparr>);
     Some (M\<lparr>g_env := w, g_chan := (g_chan M)(p \<mapsto> w_chan w)\<rparr>, kept, r) }"

section \<open>Channel identifiers\<close>

function unicid_loop :: "nat \<Rightarrow> u64 list \<Rightarrow> u64 list \<Rightarrow> int" where
  "unicid_loop i x y =
     (if i < 3 then if x ! i \<noteq> y ! i then (if x ! i > y ! i then 1 else - 1) else unicid_loop (i + 1) x y
      else 0)"
  by pat_completeness auto
termination
  by (relation "measure (\<lambda>(i, x, y). 3 - i)") auto

declare unicid_loop.simps [simp del]

definition unicid_comp :: "(nat \<Rightarrow> u64 list) \<Rightarrow> nat \<Rightarrow> nat \<Rightarrow> int" where
  "unicid_comp ucid a b = unicid_loop 0 (ucid a) (ucid b)"

definition unicid_find :: "(nat \<Rightarrow> u64 list) \<Rightarrow> u64 list \<Rightarrow> nat \<Rightarrow> int" where
  "unicid_find ucid x b = unicid_loop 0 x (ucid b)"

text \<open>\<open>*(uint16_t*)&ucid[0] = cid\<close> on a little-endian machine.\<close>

definition with_cid :: "u64 list \<Rightarrow> u16 \<Rightarrow> u64 list" where
  "with_cid u cid = u[0 := (u ! 0 AND NOT 0xffff) OR ucast cid]"

section \<open>Creating and freeing channels\<close>

text \<open>
  \<open>xchannel_create\<close> with its allocations (one draw stands for the four of the source, which fail
  together) and the insertion into the ring; the result is the address or 0.
\<close>

definition channel_new :: "u16 \<Rightarrow> xmsger \<Rightarrow> nat \<times> xmsger" where
  "channel_new srange M =
     (let (p, M1) = draw M in
      if p = 0 then (0, M1)
      else let (now, w) = clock (g_env M1); t = g_peers M1; s = t_root t in
        (p, M1\<lparr>g_env := w, g_chan := (g_chan M1)(p \<mapsto> xchannel_create now srange), g_ucid := (g_ucid M1)(p := [0, 0, 0]),
          g_peers := t\<lparr>t_root := s\<lparr>v_heap := (v_heap s)(p \<mapsto> \<lparr>n_left = 0, n_right = 0, n_parent = 0, n_height = 0\<rparr>)\<rparr>\<rparr>,
          g_list := ring_list_put_into_head p (g_list M1)\<rparr>))"

text \<open>\<open>xchannel_clear\<close>: its loops over the three rings, then the message being received and the request.\<close>

function flush_spos :: "'a serialbuf \<Rightarrow> 'a serialbuf" where
  "flush_spos b = (if serialbuf_sendable b > 0 then flush_spos (b\<lparr>b_spos := b_spos b + 1\<rparr>) else b)"
  by pat_completeness auto
termination
proof (relation "measure (\<lambda>b. unat (serialbuf_sendable b))")
  fix b :: "'a serialbuf"
  assume "serialbuf_sendable b > 0"
  then have "b_wpos b - b_spos b \<noteq> 0" by (simp add: serialbuf_sendable_def word_gt_0)
  then have "unat (b_wpos b - b_spos b - 1) = unat (b_wpos b - b_spos b) - 1" "unat (b_wpos b - b_spos b) \<noteq> 0"
    by (simp_all add: unat_minus_one unat_eq_zero)
  then show "(b\<lparr>b_spos := b_spos b + 1\<rparr>, b) \<in> measure (\<lambda>b. unat (serialbuf_sendable b))"
    by (simp add: serialbuf_sendable_def diff_diff_eq)
qed simp

declare flush_spos.simps [simp del]

fun clear_recv :: "nat list \<Rightarrow> xpack option list \<Rightarrow> xpack option list option" where
  "clear_recv [] buf = Some buf"
| "clear_recv (i # is) buf = do {
     slot \<leftarrow> rd buf i;
     buf1 \<leftarrow> (if slot \<noteq> None then wr buf i None else Some buf);
     clear_recv is buf1 }"

text \<open>\<open>xl_free(&p)\<close> of a message in the store: the pointer is set to NULL when the message is released.\<close>

definition free_msg :: "nat \<Rightarrow> xstate \<Rightarrow> (nat \<times> xstate) option" where
  "free_msg mp w =
     (if mp = 0 then Some (0, w) else do {
        m \<leftarrow> w_msgs w mp;
        Some (case xl_free m of None \<Rightarrow> (0, w\<lparr>w_msgs := (w_msgs w)(mp := None)\<rparr>)
          | Some m' \<Rightarrow> (mp, w\<lparr>w_msgs := (w_msgs w)(mp \<mapsto> m')\<rparr>)) })"

fun clear_msgs :: "nat list \<Rightarrow> xstate \<Rightarrow> xstate option" where
  "clear_msgs [] w = Some w"
| "clear_msgs (i # is) w = do {
     let mb = c_msgbuf (w_chan w);
     mp \<leftarrow> rd (b_buf mb) i;
     if mp \<noteq> 0 then do {
       m \<leftarrow> w_msgs w mp;
       (mp', w1) \<leftarrow> free_msg mp (w\<lparr>w_mlen := w_mlen w - (f_wpos m - f_rpos m)\<rparr>);
       buf \<leftarrow> wr (b_buf mb) i mp';
       clear_msgs is (w1\<lparr>w_chan := (w_chan w1)\<lparr>c_msgbuf := mb\<lparr>b_buf := buf\<rparr>\<rparr>\<rparr>) }
     else clear_msgs is w }"

definition xchannel_clear :: "xstate \<Rightarrow> xstate option" where
  "xchannel_clear w = do {
     let c = w_chan w;
     let sb = flush_spos (c_sendbuf c);
     let rb = c_recvbuf c;
     buf \<leftarrow> clear_recv [0..<unat (b_range rb)] (b_buf rb);
     w1 \<leftarrow> clear_msgs [0..<unat (b_range (c_msgbuf c))]
        (w\<lparr>w_chan := c\<lparr>c_sendbuf := sb\<lparr>b_rpos := b_spos sb\<rparr>, c_recvbuf := rb\<lparr>b_buf := buf\<rparr>\<rparr>\<rparr>);
     (req, w2) \<leftarrow> free_msg (c_req (w_chan w1)) w1;
     Some (w2\<lparr>w_chan := (w_chan w2)\<lparr>c_msg := Option.bind (c_msg (w_chan w2)) xl_free, c_req := req\<rparr>\<rparr>) }"

definition xchannel_free :: "nat \<Rightarrow> xmsger \<Rightarrow> xmsger option" where
  "xchannel_free p M = do {
     M1 \<leftarrow> on_chan p xchannel_clear M;
     let M2 = M1\<lparr>g_list := ring_list_take_out p (g_list M1)\<rparr>;
     n \<leftarrow> node_at p (t_root (g_peers M2));
     t \<leftarrow> (if n_parent n \<noteq> p then avl_tree_remove p (g_peers M2) else Some (g_peers M2));
     c \<leftarrow> g_chan M2 p;
     Some (M2\<lparr>g_peers := t\<lparr>t_root := (t_root t)\<lparr>v_heap := (v_heap (t_root t))(p := None)\<rparr>\<rparr>,
        g_chan := (g_chan M2)(p := None), g_addrs := (g_addrs M2)(c_addr c := None)\<rparr>) }"

section \<open>Requests of the application\<close>

text \<open>
  The application thread talks to the messenger thread through a local datagram that carries pointers in
  the \<open>flags\<close> of its head. A datagram: socket it arrived on, sender address, packet and those pointers.
\<close>

record dgram =
  d_sid :: nat
  d_addr :: "u64 list"
  d_pack :: xpack
  d_msg :: nat
  d_chan :: nat

definition local_dgram :: "u16 \<Rightarrow> nat \<Rightarrow> nat \<Rightarrow> xmsger \<Rightarrow> dgram" where
  "local_dgram type mp cp M = \<lparr>d_sid = 0, d_addr = g_laddr M,
     d_pack = zero_pack\<lparr>k_head := zero_head\<lparr>h_type := XPACK_TYPE_LOCAL, h_ack_type := type\<rparr>\<rparr>, d_msg = mp, d_chan = cp\<rparr>"

text \<open>\<open>sent\<close> is the result of \<open>udp_local_send\<close>.\<close>

definition xmsger_flush :: "bool \<Rightarrow> nat \<Rightarrow> xmsger \<Rightarrow> dgram option \<times> int" where
  "xmsger_flush sent p M = (if p = 0 then (None, - 1)
     else if sent then (Some (local_dgram XPACK_TYPE_FLUSH 0 p M), 0) else (None, - 1))"

definition xmsger_disconnect :: "bool \<Rightarrow> nat \<Rightarrow> xmsger \<Rightarrow> (dgram option \<times> int) option" where
  "xmsger_disconnect sent mp M = (if mp = 0 then Some (None, - 1) else do {
     m \<leftarrow> w_msgs (g_env M) mp;
     Some (if sent then (Some (local_dgram (f_type m) mp 0 M), 0) else (None, - 1)) })"

definition xmsger_connect :: "bool \<Rightarrow> nat \<Rightarrow> xmsger \<Rightarrow> (dgram option \<times> int) option" where
  "xmsger_connect sent mp M = (if mp = 0 then Some (None, - 1) else do {
     m \<leftarrow> w_msgs (g_env M) mp;
     Some (if sent then (Some (local_dgram (f_type m) mp 0 M), 0) else (None, - 1)) })"

text \<open>The loop of \<open>xmsger_local_recv\<close> that gives the new channel \<open>p\<close> the next channel id not in use.\<close>

partial_function (option) cid_loop :: "nat \<Rightarrow> xmsger \<Rightarrow> xmsger option" where
  "cid_loop p M = do {
     let cid = g_cid M;
     c \<leftarrow> g_chan M p;
     let M1 = M\<lparr>g_cid := cid + 1, g_chan := (g_chan M)(p \<mapsto> c\<lparr>c_cid := cid\<rparr>), g_ucid := (g_ucid M)(p := with_cid (g_ucid M p) cid)\<rparr>;
     (t, found) \<leftarrow> avl_tree_add (unicid_comp (g_ucid M1) p) p (g_peers M1);
     let M2 = M1\<lparr>g_peers := t\<rparr>;
     if found \<noteq> 0 then cid_loop p M2 else Some M2 }"

definition local_connect :: "nat \<Rightarrow> xmsger \<Rightarrow> (xmsger \<times> int) option" where
  "local_connect mp M =
     (let (p, M1) = channel_new XPACK_SERIAL_RANGE M in
      if p = 0 then Some (M1, - 1)
      else if mp = 0 then Some (M1, - 1)
      else do {
        m \<leftarrow> w_msgs (g_env M1) mp;
        let m1 = xl_hold (xmsg_fixed m);
        a \<leftarrow> rd (f_args m1) 2;
        words \<leftarrow> g_addrs M1 a;
        c \<leftarrow> g_chan M1 p;
        let M2 = M1\<lparr>g_env := (g_env M1)\<lparr>w_msgs := (w_msgs (g_env M1))(mp \<mapsto> m1)\<rparr>,
              g_chan := (g_chan M1)(p \<mapsto> c\<lparr>c_req := mp, c_addr := a\<rparr>), g_sock := (g_sock M1)(p := if g_ipv6 M1 words then 1 else 0),
              g_ucid := (g_ucid M1)(p := words)\<rparr>;
        M3 \<leftarrow> cid_loop p M2;
        M4 \<leftarrow> on_chan p (\<lambda>w. msgbuf_put mp m1 (w\<lparr>w_chan := (w_chan w)\<lparr>c_ack := (c_ack (w_chan w))\<lparr>h_cid := c_cid (w_chan w)\<rparr>\<rparr>\<rparr>)) M3;
        Some (M4, 0) })"

definition local_disconnect :: "nat \<Rightarrow> xmsger \<Rightarrow> (xmsger \<times> int) option" where
  "local_disconnect mp M = do {
     m \<leftarrow> w_msgs (g_env M) mp;
     p \<leftarrow> rd (f_args m) 3;
     if p = 0 then Some (M, - 1)
     else do {
       M1 \<leftarrow> on_chan p (msgbuf_put mp (xmsg_fixed m)) M;
       Some (M1, 0) } }"

definition xmsger_local_recv :: "dgram \<Rightarrow> xmsger \<Rightarrow> (xmsger \<times> int) option" where
  "xmsger_local_recv d M =
     (let type = h_ack_type (k_head (d_pack d)) in
      if type = XPACK_TYPE_REQ then local_connect (d_msg d) M
      else if type = XPACK_TYPE_RES then local_disconnect (d_msg d) M
      else if type = XPACK_TYPE_FLUSH then map_option (\<lambda>M'. (M', 0)) (xchannel_free (d_chan d) M)
      else Some (M, 0))"

section \<open>Sending\<close>

text \<open>
  One pass of the loop of \<open>xmsger_send_all\<close>. First the pacing: a packet is sent when the interval of the
  channel is over and fewer than \<open>threshold\<close> packets are on the way, else the timer is set.
\<close>

definition signed_delay :: "u64 \<Rightarrow> int" where
  "signed_delay x = sint x"

definition shorten_timer :: "int \<Rightarrow> xmsger \<Rightarrow> xmsger" where
  "shorten_timer delay M = (if g_timer M > of_int delay then M\<lparr>g_timer := of_int delay\<rparr> else M)"

definition pace :: "nat \<Rightarrow> xmsger \<Rightarrow> xmsger option" where
  "pace p M = do {
     c \<leftarrow> g_chan M p;
     let (now, w) = clock (g_env M);
     let M1 = M\<lparr>g_env := w\<rparr>;
     let delay = signed_delay ((if c_psf c > 0 then c_psf c else XPACK_PSF_DEFAULT) - (now - c_send_ts c));
     if delay > 0 then Some (shorten_timer delay M1)
     else if serialbuf_readable (c_sendbuf c) < c_threshold c then on_chan p xchannel_send_pack M1
     else if c_kabuf c = 0 then Some (M1\<lparr>g_chan := (g_chan M1)(p \<mapsto> c\<lparr>c_kabuf := now\<rparr>)\<rparr>)
     else Some M1 }"

definition time_out :: "nat \<Rightarrow> xchannel \<Rightarrow> xmsger \<Rightarrow> xmsger" where
  "time_out p c M = (if \<not> c_timedout c
     then M\<lparr>g_chan := (g_chan M)(p \<mapsto> c\<lparr>c_timedout := True\<rparr>), g_timedout := g_timedout M @ [p]\<rparr> else M)"

definition NANO_SECONDS :: u64 where "NANO_SECONDS = 1000000000"

text \<open>The resend of the oldest packet that is not acknowledged.\<close>

definition resend_first :: "u64 \<Rightarrow> xstate \<Rightarrow> xstate option" where
  "resend_first now w = do {
     let c = w_chan w;
     let sb = c_sendbuf c;
     let i = serialbuf_index sb (b_rpos sb);
     spack \<leftarrow> rd (b_buf sb) i;
     let pack = spack\<lparr>k_kabuf := now - k_ts spack, k_ts := now,
           k_head := (if h_ack_type (k_head spack) \<noteq> 0 then (k_head spack)\<lparr>h_ack_pos := b_wpos (c_recvbuf c)\<rparr> else k_head spack)\<rparr>;
     body \<leftarrow> rd_seg (k_body pack) 0 (unat (h_len (k_head pack)));
     let (sent, w1) = udp_sendto (k_head pack) body w;
     let pack' = (if sent then pack\<lparr>k_timedout := resend_scaled (k_timedout pack),
           k_head := (k_head pack)\<lparr>h_resend := h_resend (k_head pack) + 1\<rparr>\<rparr> else pack);
     buf \<leftarrow> wr (b_buf sb) i pack';
     Some (w1\<lparr>w_chan := c\<lparr>c_sendbuf := sb\<lparr>b_buf := buf\<rparr>,
        c_threshold := (if sent \<and> c_threshold c > XCHANNEL_THRESHOLD_MIN then c_threshold c - 1 else c_threshold c)\<rparr>\<rparr>) }"

text \<open>The second half of the pass: timeouts. The flag is \<open>False\<close> for the \<open>break\<close> that ends the loop.\<close>

definition check_timeouts :: "nat \<Rightarrow> xmsger \<Rightarrow> (xmsger \<times> bool) option" where
  "check_timeouts p M = do {
     c \<leftarrow> g_chan M p;
     let sb = c_sendbuf c;
     if serialbuf_recvable sb > 0 then do {
       let (now, w) = clock (g_env M);
       let M1 = M\<lparr>g_env := w\<rparr>;
       spack \<leftarrow> rd (b_buf sb) (serialbuf_index sb (b_rpos sb));
       let last_ts = (if c_ack_ts c > 0 then c_ack_ts c else c_send_ts c);
       let delay = signed_delay (k_timedout spack - (now - last_ts));
       if delay > 0 then Some (shorten_timer delay M1, True)
       else if now - last_ts > NANO_SECONDS * XCHANNEL_TIMEDOUT_LIMIT then Some (time_out p c M1, False)
       else map_option (\<lambda>M'. (M', True)) (on_chan p (resend_first now) M1) }
     else if c_rpos c = c_wpos c then do {
       let (now, w) = clock (g_env M);
       let M1 = M\<lparr>g_env := w\<rparr>;
       Some (if now - c_recv_ts c > NANO_SECONDS * XCHANNEL_TIMEDOUT_LIMIT then time_out p c M1 else M1, True) }
     else Some (M, True) }"

partial_function (option) send_loop :: "nat \<Rightarrow> xmsger \<Rightarrow> xmsger option" where
  "send_loop p M =
     (if p = r_head (g_list M) then Some M else do {
        M1 \<leftarrow> pace p M;
        (M2, go_on) \<leftarrow> check_timeouts p M1;
        if go_on then send_loop (r_next (g_list M2) p) M2 else Some M2 })"

definition xmsger_send_all :: "xmsger \<Rightarrow> xmsger option" where
  "xmsger_send_all M =
     (if r_len (g_list M) > 0 then send_loop (r_next (g_list M) (r_head (g_list M))) M else Some M)"

section \<open>Receiving\<close>

text \<open>
  The branches of \<open>msger_loop\<close> for a datagram of a known channel and of an unknown one. The results: was
  the packet kept by the channel, and does the thread go on (it ends when a message cannot be created).
\<close>

definition recv_known :: "nat \<Rightarrow> xpack \<Rightarrow> xmsger \<Rightarrow> (xmsger \<times> bool \<times> bool) option" where
  "recv_known p pack M =
     (let type = h_type (k_head pack) in
      if type = XPACK_TYPE_MSG then do {
        (M1, kept, r) \<leftarrow> on_chan_int p (xchannel_recv_pack pack) M;
        if r \<noteq> 0 then Some (M1, kept, False)
        else do {
          c \<leftarrow> g_chan M1 p;
          M2 \<leftarrow> (if serialbuf_sendable (c_sendbuf c) > 0 then on_chan p xchannel_send_pack M1
                 else on_chan p (\<lambda>w. Some (xchannel_send_ack w)) M1);
          Some (M2, kept, True) } }
      else if type = XPACK_TYPE_ACK then do {
        M1 \<leftarrow> on_chan p (xchannel_recv_ack (k_head pack)) M;
        Some (M1, False, True) }
      else if type = XPACK_TYPE_RES then do {
        (M1, kept, r) \<leftarrow> on_chan_int p (xchannel_recv_pack pack) M;
        if r \<noteq> 0 then Some (M1, kept, False)
        else do {
          M2 \<leftarrow> on_chan p (\<lambda>w. Some (xchannel_send_ack w)) M1;
          Some (M2, kept, True) } }
      else if type = XPACK_TYPE_REQ then do {
        c \<leftarrow> g_chan M p;
        if h_resend (k_head pack) > 0 \<or> h_ack_pos (k_head pack) = b_range (c_recvbuf c) then do {
          (M1, kept, r) \<leftarrow> on_chan_int p (xchannel_recv_pack pack) M;
          if r \<noteq> 0 then Some (M1, kept, False)
          else do {
            M2 \<leftarrow> on_chan p (\<lambda>w. Some (xchannel_send_ack w)) M1;
            Some (M2, kept, True) } }
        else Some (M, False, True) }
      else Some (M, False, True))"

text \<open>\<open>src\<close> is the sender's address, \<open>cid\<close> the same with the channel id in it.\<close>

definition recv_request :: "nat \<Rightarrow> u64 list \<Rightarrow> u64 list \<Rightarrow> xpack \<Rightarrow> xmsger \<Rightarrow> (xmsger \<times> bool \<times> bool) option" where
  "recv_request sid src cid pack M =
     (let (p, M1) = channel_new (h_ack_pos (k_head pack)) M in
      if p = 0 then Some (M1, False, False)
      else let (a, M2) = draw M1 in do {
        c \<leftarrow> g_chan M2 p;
        let M3 = M2\<lparr>g_addrs := (if a = 0 then g_addrs M2 else (g_addrs M2)(a \<mapsto> src)), g_sock := (g_sock M2)(p := sid),
              g_ucid := (g_ucid M2)(p := cid),
              g_chan := (g_chan M2)(p \<mapsto> c\<lparr>c_cid := h_cid (k_head pack), c_addr := a, c_ack := (c_ack c)\<lparr>h_cid := h_cid (k_head pack)\<rparr>\<rparr>)\<rparr>;
        (t, found) \<leftarrow> avl_tree_add (unicid_comp (g_ucid M3) p) p (g_peers M3);
        let M4 = M3\<lparr>g_peers := t\<rparr>;
        if found \<noteq> 0 then Some (M4, False, False)
        else do {
          (M5, kept, r) \<leftarrow> on_chan_int p (xchannel_recv_pack pack) M4;
          if r \<noteq> 0 then Some (M5, kept, False)
          else do {
            M6 \<leftarrow> on_chan p (\<lambda>w. Some (xchannel_send_ack w)) M5;
            Some (M6, kept, True) } } })"

definition recv_unknown :: "nat \<Rightarrow> u64 list \<Rightarrow> u64 list \<Rightarrow> xpack \<Rightarrow> xmsger \<Rightarrow> (xmsger \<times> bool \<times> bool) option" where
  "recv_unknown sid src cid pack M =
     (let type = h_type (k_head pack) in
      if type = XPACK_TYPE_REQ then recv_request sid src cid pack M
      else if type = XPACK_TYPE_RES then Some (M\<lparr>g_env := xchannel_send_final (k_head pack) (g_env M)\<rparr>, False, True)
      else Some (M, False, True))"

text \<open>
  The channel of a datagram. \<open>mcompare(addr, msger->laddr, 8)\<close> compares the first word of the addresses.
\<close>

definition recv_dispatch :: "dgram \<Rightarrow> xmsger \<Rightarrow> (xmsger \<times> bool \<times> bool) option" where
  "recv_dispatch d M = do {
     let cid = with_cid (d_addr d) (h_cid (k_head (d_pack d)));
     p \<leftarrow> avl_tree_find (unicid_find (g_ucid M) cid) (g_peers M);
     if p \<noteq> 0 then recv_known p (d_pack d) M
     else recv_unknown (d_sid d) (d_addr d) cid (d_pack d) M }"

definition recv_dgram :: "dgram \<Rightarrow> xmsger \<Rightarrow> (xmsger \<times> bool) option" where
  "recv_dgram d M =
     (if h_type (k_head (d_pack d)) = XPACK_TYPE_LOCAL then
        if d_addr d ! 0 = g_laddr M ! 0 then do {
          (M1, r) \<leftarrow> xmsger_local_recv d M;
          Some (M1, True) }
        else Some (M, True)
      else do {
        (M1, kept, go_on) \<leftarrow> recv_dispatch d M;
        if \<not> go_on then Some (M1, False)
        else let (q, M2) = (if kept then draw M1 else (1, M1)) in
          if q = 0 then Some (M2, False)
          else do {
            M3 \<leftarrow> xmsger_send_all M2;
            Some (M3, True) } })"

text \<open>
  The datagrams read from one socket until \<open>udp_recvfrom\<close> gives none, and \<open>msger_loop\<close>: per round, what
  the two sockets deliver; the list of rounds ends when \<open>running\<close> is found false. The result is \<open>False\<close>
  when the thread ended itself.
\<close>

fun recv_all :: "dgram list \<Rightarrow> xmsger \<Rightarrow> (xmsger \<times> bool) option" where
  "recv_all [] M = Some (M, True)"
| "recv_all (d # ds) M = do {
     (M1, go_on) \<leftarrow> recv_dgram d M;
     if go_on then recv_all ds M1 else Some (M1, False) }"

definition msger_round :: "dgram list \<Rightarrow> dgram list \<Rightarrow> xmsger \<Rightarrow> (xmsger \<times> bool) option" where
  "msger_round ds0 ds1 M = do {
     (M1, go_on) \<leftarrow> recv_all ds0 M;
     if \<not> go_on then Some (M1, False)
     else do {
       (M2, go_on2) \<leftarrow> recv_all ds1 M1;
       if \<not> go_on2 then Some (M2, False)
       else do {
         M3 \<leftarrow> xmsger_send_all (M2\<lparr>g_timer := 10000000\<rparr>);
         Some (M3, True) } } }"

fun msger_rounds :: "(dgram list \<times> dgram list) list \<Rightarrow> xmsger \<Rightarrow> (xmsger \<times> bool) option" where
  "msger_rounds [] M = Some (M, True)"
| "msger_rounds (x # xs) M = do {
     (M1, go_on) \<leftarrow> msger_round (fst x) (snd x) M;
     if go_on then msger_rounds xs M1 else Some (M1, False) }"

definition msger_loop :: "(dgram list \<times> dgram list) list \<Rightarrow> xmsger \<Rightarrow> (xmsger \<times> bool) option" where
  "msger_loop rounds M = (let (q, M1) = draw M in
     if q = 0 then Some (M1, False) else msger_rounds rounds (M1\<lparr>g_timer := 100000000\<rparr>))"

section \<open>Starting and stopping\<close>

text \<open>
  What \<open>xmsger_create\<close> is told by the operating system: the results of opening and binding the three
  sockets (IPv4, IPv6 and the local one), of making a loopback address and of starting the thread.
\<close>

record xos =
  os_open :: "nat \<Rightarrow> int"
  os_bind :: "nat \<Rightarrow> u16 \<Rightarrow> bool"
  os_addr :: "u16 \<Rightarrow> u64 list option"
  os_thread :: bool

text \<open>\<open>while (udp_bind(sock, port) == -1) port++\<close>\<close>

partial_function (option) bind_loop :: "(u16 \<Rightarrow> bool) \<Rightarrow> u16 \<Rightarrow> u16 option" where
  "bind_loop ok port = (if ok port then Some port else bind_loop ok (port + 1))"

definition empty_ring :: "ring \<Rightarrow> ring" where
  "empty_ring r = (let h = r_head r in r\<lparr>r_next := (r_next r)(h := h), r_prev := (r_prev r)(h := h), r_len := 0\<rparr>)"

text \<open>
  \<open>M\<close> gives the memory and the environment of the new messenger; the inner \<^term>\<open>None\<close> is the result NULL.
  With a NULL callback the source jumps over the initialisation of \<open>msger\<close> to \<open>xmsger_free(&msger)\<close>, which
  is undefined behaviour.
\<close>

definition xmsger_create :: "xos \<Rightarrow> bool \<Rightarrow> u16 \<Rightarrow> xmsger \<Rightarrow> xmsger option option" where
  "xmsger_create os callback port M =
     (if \<not> callback then None
      else if os_open os 0 < 0 then Some None
      else do {
        port0 \<leftarrow> bind_loop (os_bind os 0) port;
        if os_open os 1 < 0 \<or> \<not> os_bind os 1 port0 \<or> os_open os 2 < 0 then Some None
        else do {
          lport \<leftarrow> bind_loop (os_bind os 2) (port0 + 1);
          Some (case os_addr os port0 of None \<Rightarrow> None
            | Some _ \<Rightarrow> (case os_addr os lport of None \<Rightarrow> None
              | Some laddr \<Rightarrow>
                  let (now, w) = clock (g_env M) in
                  if os_thread os then Some (M\<lparr>g_env := w, g_laddr := laddr, g_cid := ucast (now mod 65535),
                    g_list := empty_ring (g_list M), g_peers := avl_tree_init (v_heap (t_root (g_peers M))) 0\<rparr>)
                  else None)) } })"

text \<open>\<open>xmsger_free\<close> after the thread was joined: all channels of the ring, then the tree.\<close>

partial_function (option) free_loop :: "nat \<Rightarrow> xmsger \<Rightarrow> xmsger option" where
  "free_loop p M =
     (if p \<noteq> 0 \<and> p \<noteq> r_head (g_list M) then do {
        let nxt = r_next (g_list M) p;
        M1 \<leftarrow> xchannel_free p M;
        free_loop nxt M1 }
      else Some M)"

definition xmsger_free :: "xmsger \<Rightarrow> xmsger option" where
  "xmsger_free M = do {
     M1 \<leftarrow> free_loop (r_next (g_list M) (r_head (g_list M))) M;
     (t, ds) \<leftarrow> avl_tree_clear (g_peers M1);
     Some (M1\<lparr>g_peers := t\<rparr>) }"

end
