(* ===== verification/Msger_Channels.thy ===== *)
theory Msger_Channels
  imports Msger Index
begin

text \<open>
  What the messenger guarantees. The invariant ties its two views of the channels together: the ring of
  channels, the tree that finds them and the heap of live channels have the same members, and the keys of
  the tree are the identifiers (address and channel id) of the channels. On top of it: datagrams reach the
  channel they belong to and no other, connecting finds a free channel id, freeing removes a channel
  everywhere, and a sending round serves the channels in the order of the ring.
\<close>

section \<open>Identifiers are ordered\<close>

definition ukey :: "u64 list \<Rightarrow> u64 \<times> u64 \<times> u64" where
  "ukey u = (u ! 0, u ! 1, u ! 2)"

lemma unicid_loop_sign:
  "(unicid_loop 0 x y = 0 \<longleftrightarrow> ukey x = ukey y) \<and> (unicid_loop 0 x y < 0 \<longleftrightarrow> ukey x < ukey y)"
proof -
  have "unicid_loop 0 x y = (if x ! 0 \<noteq> y ! 0 then (if x ! 0 > y ! 0 then 1 else - 1)
    else if x ! 1 \<noteq> y ! 1 then (if x ! 1 > y ! 1 then 1 else - 1)
    else if x ! 2 \<noteq> y ! 2 then (if x ! 2 > y ! 2 then 1 else - 1) else 0)"
    by (simp add: unicid_loop.simps numeral_2_eq_2)
  then show ?thesis by (auto simp: ukey_def less_prod_def')
qed

lemma order_comp: "order_by (unicid_comp ucid p) (\<lambda>d. ukey (ucid d)) (ukey (ucid p))"
  using unicid_loop_sign by (simp add: order_by_def unicid_comp_def)

lemma order_find: "order_by (unicid_find ucid x) (\<lambda>d. ukey (ucid d)) (ukey x)"
  using unicid_loop_sign by (simp add: order_by_def unicid_find_def)

lemma ukey_eq: "length x = 3 \<Longrightarrow> length y = 3 \<Longrightarrow> ukey x = ukey y \<longleftrightarrow> x = y"
proof -
  assume "length x = 3" "length y = 3"
  moreover have "i < 3 \<longleftrightarrow> i = 0 \<or> i = 1 \<or> i = 2" for i :: nat by auto
  ultimately show ?thesis by (auto simp: ukey_def list_eq_iff_nth_eq)
qed

lemma length_with_cid [simp]: "length (with_cid u c) = length u"
  by (simp add: with_cid_def)

text \<open>Different channel ids give different identifiers.\<close>

lemma with_cid_inj: "u \<noteq> [] \<Longrightarrow> with_cid u c = with_cid u c' \<longleftrightarrow> c = c'"
proof
  assume ne: "u \<noteq> []" and eq: "with_cid u c = with_cid u c'"
  then have "(u ! 0 AND NOT 0xffff) OR ucast c = (u ! 0 AND NOT 0xffff) OR (ucast c' :: u64)"
    by (cases u) (simp_all add: with_cid_def)
  then have e: "bit ((u ! 0 AND NOT 0xffff) OR ucast c) n = bit ((u ! 0 AND NOT 0xffff) OR (ucast c' :: u64)) n" for n by simp
  have m: "(0xffff :: u64) = mask 16" by (simp add: mask_eq_exp_minus_1)
  show "c = c'"
  proof (rule bit_word_eqI)
    fix n assume "n < LENGTH(16)"
    then show "bit c n = bit c' n" using e[of n] unfolding m by (auto simp: bit_or_iff bit_and_iff bit_not_iff bit_mask_iff bit_ucast_iff)
  qed
qed simp

section \<open>The invariant\<close>

lemma tree_holds_node: "tree_holds key t D \<Longrightarrow> d \<in> D \<Longrightarrow> tree_node t d \<noteq> None"
  using tree_holds_linked[of key t D d] by (auto simp: node_at_def tree_node_def split: if_splits)

definition chan_key :: "xmsger \<Rightarrow> nat \<Rightarrow> u64 \<times> u64 \<times> u64" where
  "chan_key M p = ukey (g_ucid M p)"

text \<open>The channels \<open>ps\<close> are in the ring, those of \<open>D\<close> in the tree.\<close>

definition msger_has :: "xmsger \<Rightarrow> nat list \<Rightarrow> nat set \<Rightarrow> bool" where
  "msger_has M ps D \<longleftrightarrow> ring_rep (g_list M) ps \<and> 0 \<notin> set ps \<and> tree_holds (chan_key M) (g_peers M) D
     \<and> (\<forall>p. g_chan M p \<noteq> None \<longleftrightarrow> p \<in> set ps) \<and> (\<forall>p \<in> set ps. length (g_ucid M p) = 3)
     \<and> (\<forall>p \<in> set ps. tree_node (g_peers M) p \<noteq> None) \<and> (\<forall>a u. g_addrs M a = Some u \<longrightarrow> length u = 3)"

definition msger_ok :: "xmsger \<Rightarrow> nat list \<Rightarrow> bool" where
  "msger_ok M ps \<longleftrightarrow> msger_has M ps (set ps)"

text \<open>The address the next allocation gives is not in use.\<close>

definition fresh_memory :: "xmsger \<Rightarrow> bool" where
  "fresh_memory M \<longleftrightarrow> g_chan M (g_alloc M (g_allocs M)) = None \<and> g_alloc M (g_allocs M) \<noteq> r_head (g_list M)"

lemma chan_key_fun: "chan_key M = (\<lambda>d. ukey (g_ucid M d))"
  by (simp add: fun_eq_iff chan_key_def)

text \<open>The parts an operation of one channel leaves alone.\<close>

definition same_index :: "xmsger \<Rightarrow> xmsger \<Rightarrow> bool" where
  "same_index M M' \<longleftrightarrow> g_list M' = g_list M \<and> g_peers M' = g_peers M \<and> g_ucid M' = g_ucid M \<and> g_addrs M' = g_addrs M
     \<and> g_sock M' = g_sock M \<and> g_cid M' = g_cid M"

lemma same_index_refl [simp]: "same_index M M"
  by (simp add: same_index_def)

lemma same_index_trans: "same_index M M' \<Longrightarrow> same_index M' M'' \<Longrightarrow> same_index M M''"
  by (simp add: same_index_def)

text \<open>Only the channel \<open>p\<close> changes.\<close>

definition only :: "nat \<Rightarrow> xmsger \<Rightarrow> xmsger \<Rightarrow> bool" where
  "only p M M' \<longleftrightarrow> same_index M M' \<and> (\<forall>q. q \<noteq> p \<longrightarrow> g_chan M' q = g_chan M q) \<and> (g_chan M' p \<noteq> None \<longleftrightarrow> g_chan M p \<noteq> None)"

lemma only_refl [simp]: "only p M M"
  by (simp add: only_def)

lemma only_trans: "only p M M' \<Longrightarrow> only p M' M'' \<Longrightarrow> only p M M''"
  by (auto simp: only_def intro: same_index_trans)

lemma only_keeps: "only p M M' \<Longrightarrow> msger_has M ps D \<Longrightarrow> msger_has M' ps D"
proof -
  assume o: "only p M M'" and h: "msger_has M ps D"
  have "g_chan M' q \<noteq> None \<longleftrightarrow> g_chan M q \<noteq> None" for q using o by (cases "q = p") (auto simp: only_def)
  then show ?thesis using o h by (simp add: only_def same_index_def msger_has_def chan_key_fun)
qed

lemma on_chan_only: "on_chan p f M = Some M' \<Longrightarrow> only p M M'"
  by (auto simp: on_chan_def only_def same_index_def bind_eq_Some_conv)

lemma on_chan_int_only: "on_chan_int p f M = Some (M', x) \<Longrightarrow> only p M M'"
  by (auto simp: on_chan_int_def only_def same_index_def bind_eq_Some_conv)

section \<open>Datagrams reach their channel\<close>

lemma recv_known_only: "recv_known p pack M = Some (M', kept, go_on) \<Longrightarrow> only p M M'"
  by (auto simp: recv_known_def Let_def bind_eq_Some_conv split: if_splits dest!: on_chan_only on_chan_int_only
      intro: only_trans)

lemma dispatch_known:
  assumes "msger_ok M ps" and "p \<in> set ps" and "length (d_addr d) = 3"
    and "g_ucid M p = with_cid (d_addr d) (h_cid (k_head (d_pack d)))"
  shows "recv_dispatch d M = recv_known p (d_pack d) M"
proof -
  have T: "tree_holds (chan_key M) (g_peers M) (set ps)" using assms(1) by (simp add: msger_ok_def msger_has_def)
  have "avl_tree_find (unicid_find (g_ucid M) (g_ucid M p)) (g_peers M) = Some p"
    using avl_index.find_hit[OF T _ assms(2)] order_find[of "g_ucid M" "g_ucid M p"] by (simp add: chan_key_fun)
  moreover have "p \<noteq> 0" using avl_index.members[OF T] assms(2) by metis
  ultimately show ?thesis using assms(4) by (simp add: recv_dispatch_def)
qed

lemma dispatch_unknown:
  assumes "msger_ok M ps" and "length (d_addr d) = 3"
    and "\<forall>p \<in> set ps. g_ucid M p \<noteq> with_cid (d_addr d) (h_cid (k_head (d_pack d)))"
  shows "recv_dispatch d M = recv_unknown (d_sid d) (d_addr d) (with_cid (d_addr d) (h_cid (k_head (d_pack d)))) (d_pack d) M"
proof -
  let ?u = "with_cid (d_addr d) (h_cid (k_head (d_pack d)))"
  have T: "tree_holds (chan_key M) (g_peers M) (set ps)" and L: "\<forall>p \<in> set ps. length (g_ucid M p) = 3"
    using assms(1) by (auto simp: msger_ok_def msger_has_def)
  have "ukey ?u \<notin> chan_key M ` set ps" using L assms(2,3) ukey_eq length_with_cid unfolding chan_key_def by (metis imageE)
  then have "avl_tree_find (unicid_find (g_ucid M) ?u) (g_peers M) = Some 0"
    using avl_index.find_miss[OF T] order_find[of "g_ucid M" ?u] by (simp add: chan_key_fun)
  then show ?thesis by (simp add: recv_dispatch_def)
qed

section \<open>New channels\<close>

lemma channel_new_run:
  assumes "msger_ok M ps" and "fresh_memory M" and "g_alloc M (g_allocs M) = p" and "0 < p"
  shows "\<exists>M'. channel_new r M = (p, M') \<and> msger_has M' (p # ps) (set ps)
     \<and> g_chan M' p = Some (xchannel_create (w_clock (g_env M) (w_ticks (g_env M))) r)
     \<and> (\<forall>q. q \<noteq> p \<longrightarrow> g_chan M' q = g_chan M q \<and> g_ucid M' q = g_ucid M q \<and> g_sock M' q = g_sock M q) \<and> g_cid M' = g_cid M
     \<and> g_addrs M' = g_addrs M \<and> g_env M' = (g_env M)\<lparr>w_ticks := w_ticks (g_env M) + 1\<rparr> \<and> g_ipv6 M' = g_ipv6 M"
proof -
  let ?t = "g_peers M"
  let ?t' = "?t\<lparr>t_root := (t_root ?t)\<lparr>v_heap := (v_heap (t_root ?t))(p \<mapsto> \<lparr>n_left = 0, n_right = 0, n_parent = 0, n_height = 0\<rparr>)\<rparr>\<rparr>"
  define M' where "M' = snd (channel_new r M)"
  have new: "channel_new r M = (p, M')" using assms(3,4) by (simp add: M'_def channel_new_def draw_def clock_def Let_def)
  have "\<forall>q. g_chan M q \<noteq> None \<longleftrightarrow> q \<in> set ps" using assms(1) by (simp add: msger_ok_def msger_has_def)
  then have p: "p \<notin> set (r_head (g_list M) # ps)" using assms(2,3) by (metis fresh_memory_def set_ConsD)
  have H: "ring_rep (g_list M) ps" "tree_holds (chan_key M) ?t (set ps)" "\<forall>p. g_chan M p \<noteq> None \<longleftrightarrow> p \<in> set ps"
    "\<forall>p \<in> set ps. length (g_ucid M p) = 3" "\<forall>p \<in> set ps. tree_node ?t p \<noteq> None" "\<forall>a u. g_addrs M a = Some u \<longrightarrow> length u = 3"
    using assms(1) by (auto simp: msger_ok_def msger_has_def)
  have f: "g_list M' = ring_list_put_into_head p (g_list M)" "g_peers M' = ?t'" "g_ucid M' = (g_ucid M)(p := [0, 0, 0])"
    "g_chan M' = (g_chan M)(p \<mapsto> xchannel_create (w_clock (g_env M) (w_ticks (g_env M))) r)" "g_addrs M' = g_addrs M"
    "g_sock M' = g_sock M" "g_cid M' = g_cid M" "g_env M' = (g_env M)\<lparr>w_ticks := w_ticks (g_env M) + 1\<rparr>" "g_ipv6 M' = g_ipv6 M"
    using assms(3,4) by (simp_all add: M'_def channel_new_def draw_def clock_def Let_def)
  have "ring_rep (g_list M') (p # ps)" unfolding f using ring_rep_put_head[OF H(1) p] .
  moreover have "tree_holds (chan_key M) ?t' (set ps)" using tree_holds_other[OF H(2)] p by simp
  then have "tree_holds (chan_key M') (g_peers M') (set ps)"
    unfolding f(2) by (rule avl_index.keys_only) (use p f(3) in \<open>auto simp: chan_key_def\<close>)
  ultimately have "msger_has M' (p # ps) (set ps)"
    using H p f assms(1,4) by (auto simp: msger_has_def msger_ok_def tree_node_def)
  then show ?thesis using new f by (intro exI[of _ M']) auto
qed

lemma with_cid_twice: "with_cid (with_cid u a) b = with_cid u b"
proof (cases u)
  case (Cons x xs)
  have m: "(0xffff :: u64) = mask 16" by (simp add: mask_eq_exp_minus_1)
  have "((x AND NOT 0xffff) OR ucast a) AND NOT 0xffff = x AND NOT (0xffff :: u64)"
    unfolding m by (rule bit_word_eqI) (auto simp: bit_or_iff bit_and_iff bit_not_iff bit_mask_iff bit_ucast_iff dest: bit_imp_le_length)
  then show ?thesis unfolding with_cid_def Cons by simp
qed (simp add: with_cid_def)

definition cid_key :: "xmsger \<Rightarrow> nat \<Rightarrow> nat \<Rightarrow> u64 \<times> u64 \<times> u64" where
  "cid_key M p i = ukey (with_cid (g_ucid M p) (g_cid M + of_nat i))"

definition with_new_cid :: "nat \<Rightarrow> nat \<Rightarrow> xchannel \<Rightarrow> avl_tree \<Rightarrow> xmsger \<Rightarrow> xmsger" where
  "with_new_cid p i c t M = M\<lparr>g_cid := g_cid M + of_nat i + 1, g_chan := (g_chan M)(p \<mapsto> c\<lparr>c_cid := g_cid M + of_nat i\<rparr>),
     g_ucid := (g_ucid M)(p := with_cid (g_ucid M p) (g_cid M + of_nat i)), g_peers := t\<rparr>"

lemma cid_loop_step:
  assumes "msger_has M (p # ps) (set ps)" and "g_chan M p = Some c"
  shows "cid_key M p 0 \<notin> chan_key M ` set ps \<Longrightarrow> \<exists>t. cid_loop p M = Some (with_new_cid p 0 c t M)
      \<and> tree_holds (chan_key (with_new_cid p 0 c t M)) t (insert p (set ps))
      \<and> (\<forall>e. e \<notin> insert p (set ps) \<longrightarrow> tree_node t e = tree_node (g_peers M) e)"
    and "cid_key M p 0 \<in> chan_key M ` set ps \<Longrightarrow> cid_loop p M = cid_loop p (with_new_cid p 0 c (g_peers M) M)"
proof -
  let ?M = "with_new_cid p 0 c (g_peers M) M"
  have H: "tree_holds (chan_key M) (g_peers M) (set ps)" "tree_node (g_peers M) p \<noteq> None" "p \<notin> set ps" "0 < p"
    using assms(1) by (auto simp: msger_has_def ring_rep_def ring_links_def)
  have T: "tree_holds (chan_key ?M) (g_peers M) (set ps)"
    by (rule avl_index.keys_only[OF H(1)]) (use H(3) in \<open>auto simp: chan_key_def with_new_cid_def\<close>)
  have k: "chan_key ?M ` set ps = chan_key M ` set ps" "chan_key ?M p = cid_key M p 0"
    using H(3) by (auto simp: chan_key_def with_new_cid_def cid_key_def image_iff)
  have ord: "order_by (unicid_comp (g_ucid ?M) p) (chan_key ?M) (chan_key ?M p)"
    using order_comp[of "g_ucid ?M" p] by (simp add: chan_key_fun)
  have step: "cid_loop p M = Option.bind (avl_tree_add (unicid_comp (g_ucid ?M) p) p (g_peers M))
      (\<lambda>(t, found). if found \<noteq> 0 then cid_loop p (?M\<lparr>g_peers := t\<rparr>) else Some (?M\<lparr>g_peers := t\<rparr>))"
    unfolding with_new_cid_def by (subst cid_loop.simps) (simp add: assms(2) Let_def cong: if_cong prod.case_cong)
  have w: "?M\<lparr>g_peers := t\<rparr> = with_new_cid p 0 c t M" for t by (simp add: with_new_cid_def)
  {
    assume "cid_key M p 0 \<notin> chan_key M ` set ps"
    then obtain t where t: "avl_tree_add (unicid_comp (g_ucid ?M) p) p (g_peers M) = Some (t, 0)"
        "tree_holds (chan_key ?M) t (insert p (set ps))" "\<forall>e. e \<notin> insert p (set ps) \<longrightarrow> tree_node t e = tree_node (g_peers M) e"
      using avl_index.add_new[OF T ord H(4,3,2)] k by auto
    moreover have "chan_key (with_new_cid p 0 c t M) = chan_key ?M" by (simp add: chan_key_fun with_new_cid_def)
    ultimately show "\<exists>t. cid_loop p M = Some (with_new_cid p 0 c t M)
      \<and> tree_holds (chan_key (with_new_cid p 0 c t M)) t (insert p (set ps))
      \<and> (\<forall>e. e \<notin> insert p (set ps) \<longrightarrow> tree_node t e = tree_node (g_peers M) e)"
      using step w by (intro exI[of _ t]) simp
  next
    assume "cid_key M p 0 \<in> chan_key M ` set ps"
    then obtain e where "e \<in> set ps" "chan_key ?M e = chan_key ?M p" using k by (metis imageE)
    then have "avl_tree_add (unicid_comp (g_ucid ?M) p) p (g_peers M) = Some (g_peers M, e)" "e \<noteq> 0"
      using avl_index.add_old[OF T ord H(4,3,2)] avl_index.members[OF T] by metis+
    then show "cid_loop p M = cid_loop p ?M" using step w by simp
  }
qed

text \<open>After \<open>i\<close> ids in use the first free one is taken.\<close>

lemma cid_loop_run:
  assumes "msger_has M (p # ps) (set ps)" and "g_chan M p = Some c"
    and "\<forall>j < i. cid_key M p j \<in> chan_key M ` set ps" and "cid_key M p i \<notin> chan_key M ` set ps"
  shows "\<exists>t. cid_loop p M = Some (with_new_cid p i c t M) \<and> tree_holds (chan_key (with_new_cid p i c t M)) t (insert p (set ps))
      \<and> (\<forall>e. e \<notin> insert p (set ps) \<longrightarrow> tree_node t e = tree_node (g_peers M) e)"
  using assms
proof (induction i arbitrary: M c)
  case 0
  then show ?case using cid_loop_step(1) by blast
next
  case (Suc i)
  let ?M = "with_new_cid p 0 c (g_peers M) M" and ?c = "c\<lparr>c_cid := g_cid M\<rparr>"
  have pn: "p \<notin> set ps" "tree_holds (chan_key M) (g_peers M) (set ps)" using Suc.prems(1) by (auto simp: msger_has_def ring_rep_def ring_links_def)
  have T: "tree_holds (chan_key ?M) (g_peers M) (set ps)"
    by (rule avl_index.keys_only[OF pn(2)]) (use pn in \<open>auto simp: chan_key_def with_new_cid_def\<close>)
  then have has: "msger_has ?M (p # ps) (set ps)"
    using Suc.prems(1,2) by (auto simp: msger_has_def with_new_cid_def)
  have k: "chan_key ?M ` set ps = chan_key M ` set ps" "cid_key ?M p j = cid_key M p (Suc j)" for j
    using pn by (auto simp: chan_key_def with_new_cid_def cid_key_def image_iff with_cid_twice add.assoc)
  have "\<forall>j < i. cid_key ?M p j \<in> chan_key ?M ` set ps" "cid_key ?M p i \<notin> chan_key ?M ` set ps" using Suc.prems(3,4) k by auto
  from Suc.IH[OF has _ this, of ?c] obtain t where t: "cid_loop p ?M = Some (with_new_cid p i ?c t ?M)"
      "tree_holds (chan_key (with_new_cid p i ?c t ?M)) t (insert p (set ps))"
      "\<forall>e. e \<notin> insert p (set ps) \<longrightarrow> tree_node t e = tree_node (g_peers ?M) e"
    by (auto simp: with_new_cid_def)
  moreover have "cid_loop p M = cid_loop p ?M" using cid_loop_step(2)[OF Suc.prems(1,2)] Suc.prems(3) by blast
  moreover have "with_new_cid p i ?c t ?M = with_new_cid p (Suc i) c t M"
    by (simp add: with_new_cid_def with_cid_twice add.assoc)
  moreover have "g_peers ?M = g_peers M" by (simp add: with_new_cid_def)
  ultimately show ?case by auto
qed

section \<open>Connecting\<close>

lemma cid_keys_differ:
  assumes "length (g_ucid M p) = 3"
  shows "inj_on (cid_key M p) {..<65536}"
proof (rule inj_onI)
  fix i j assume ij: "i \<in> {..<65536}" "j \<in> {..<65536}" and "cid_key M p i = cid_key M p j"
  then have "with_cid (g_ucid M p) (g_cid M + of_nat i) = with_cid (g_ucid M p) (g_cid M + of_nat j)"
    using assms by (simp add: cid_key_def ukey_eq)
  then have "g_cid M + of_nat i = g_cid M + of_nat j" using with_cid_inj assms by (metis list.size(3) zero_neq_numeral)
  then have "(of_nat i :: u16) = of_nat j" by simp
  then show "i = j" using ij by (simp add: serial_eq)
qed

lemma local_connect_run:
  assumes ok: "msger_ok M ps" and fr: "fresh_memory M" and p: "g_alloc M (g_allocs M) = p" "0 < p"
    and mp: "mp \<noteq> 0" "w_msgs (g_env M) mp = Some m" "2 < length (f_args m)" "g_addrs M (f_args m ! 2) = Some u" and few: "length ps < 65536"
  shows "\<exists>M' c i. local_connect mp M = Some (M', 0) \<and> msger_ok M' (p # ps) \<and> (\<forall>q. q \<noteq> p \<longrightarrow> g_chan M' q = g_chan M q)
     \<and> i < 65536 \<and> (\<forall>j < i. with_cid u (g_cid M + of_nat j) \<in> g_ucid M ` set ps) \<and> with_cid u (g_cid M + of_nat i) \<notin> g_ucid M ` set ps
     \<and> g_ucid M' p = with_cid u (g_cid M + of_nat i) \<and> g_chan M' p = Some c \<and> c_cid c = g_cid M + of_nat i \<and> h_cid (c_ack c) = c_cid c
     \<and> c_req c = mp \<and> b_buf (c_msgbuf c) ! 0 = mp \<and> serialbuf_sendable (c_msgbuf c) = 1 \<and> c_wpos c = f_wpos m"
proof -
  obtain M1 where M1: "channel_new XPACK_SERIAL_RANGE M = (p, M1)" "msger_has M1 (p # ps) (set ps)"
      "g_chan M1 p = Some (xchannel_create (w_clock (g_env M) (w_ticks (g_env M))) XPACK_SERIAL_RANGE)"
      "\<forall>q. q \<noteq> p \<longrightarrow> g_chan M1 q = g_chan M q \<and> g_ucid M1 q = g_ucid M q \<and> g_sock M1 q = g_sock M q"
      "g_cid M1 = g_cid M" "g_addrs M1 = g_addrs M" "w_msgs (g_env M1) = w_msgs (g_env M)"
    using channel_new_run[OF ok fr p] by fastforce
  let ?c0 = "xchannel_create (w_clock (g_env M) (w_ticks (g_env M))) XPACK_SERIAL_RANGE" and ?m = "xl_hold (xmsg_fixed m)"
  have args: "f_args ?m = f_args m" "f_wpos ?m = f_wpos m" by (simp_all add: xl_hold_def xmsg_fixed_def Let_def)
  define c1 where "c1 = ?c0\<lparr>c_req := mp, c_addr := f_args m ! 2\<rparr>"
  define M2 where "M2 = M1\<lparr>g_env := (g_env M1)\<lparr>w_msgs := (w_msgs (g_env M1))(mp \<mapsto> ?m)\<rparr>, g_chan := (g_chan M1)(p \<mapsto> c1),
      g_sock := (g_sock M1)(p := if g_ipv6 M1 u then 1 else 0), g_ucid := (g_ucid M1)(p := u)\<rparr>"
  have u: "length u = 3" using ok mp(4) by (auto simp: msger_ok_def msger_has_def)
  have pn: "p \<notin> set ps" using M1(2) by (auto simp: msger_has_def ring_rep_def ring_links_def)
  have "tree_holds (chan_key M1) (g_peers M1) (set ps)" using M1(2) by (simp add: msger_has_def)
  then have "tree_holds (chan_key M2) (g_peers M1) (set ps)"
    by (rule avl_index.keys_only) (use pn in \<open>auto simp: chan_key_def M2_def\<close>)
  then have has: "msger_has M2 (p # ps) (set ps)" using M1(2,3) u by (auto simp: msger_has_def M2_def)
  have T2: "tree_holds (chan_key M2) (g_peers M2) (set ps)" using has by (simp add: msger_has_def)
  have c2: "g_chan M2 p = Some c1" "g_cid M2 = g_cid M" "g_ucid M2 p = u" by (simp_all add: M2_def M1(5))
  have "card (set ps) < 65536" using few card_length[of ps] by simp
  then obtain i where i: "i < 65536" "cid_key M2 p i \<notin> chan_key M2 ` set ps" "\<forall>j < i. cid_key M2 p j \<in> chan_key M2 ` set ps"
    using avl_index.first_free[OF T2 cid_keys_differ] u c2(3) by blast
  have key: "cid_key M2 p j \<in> chan_key M2 ` set ps \<longleftrightarrow> with_cid u (g_cid M + of_nat j) \<in> g_ucid M ` set ps" for j
  proof -
    have "chan_key M2 q = ukey (g_ucid M q)" "length (g_ucid M q) = 3" if "q \<in> set ps" for q
      using that pn M1(4) ok by (auto simp: chan_key_def M2_def msger_ok_def msger_has_def)
    moreover have "cid_key M2 p j = ukey (with_cid u (g_cid M + of_nat j))" by (simp add: cid_key_def c2)
    ultimately show ?thesis using ukey_eq u by (auto simp: image_iff)
  qed
  obtain t where t: "cid_loop p M2 = Some (with_new_cid p i c1 t M2)" "tree_holds (chan_key (with_new_cid p i c1 t M2)) t (insert p (set ps))"
      "\<forall>e. e \<notin> insert p (set ps) \<longrightarrow> tree_node t e = tree_node (g_peers M2) e"
    using cid_loop_run[OF has c2(1) i(3,2)] by blast
  define M3 where "M3 = with_new_cid p i c1 t M2"
  define c3 where "c3 = c1\<lparr>c_cid := g_cid M + of_nat i\<rparr>"
  define c4 where "c4 = c3\<lparr>c_ack := (c_ack c3)\<lparr>h_cid := c_cid c3\<rparr>, c_wpos := f_wpos m,
      c_msgbuf := (c_msgbuf c3)\<lparr>b_buf := (b_buf (c_msgbuf c3))[0 := mp], b_wpos := 1\<rparr>\<rparr>"
  have c3: "g_chan M3 p = Some c3" by (simp add: M3_def with_new_cid_def c3_def c2)
  have f3: "g_list M3 = g_list M2" "g_peers M3 = t" "g_ucid M3 = (g_ucid M2)(p := with_cid u (g_cid M + of_nat i))"
      "g_chan M3 = (g_chan M2)(p \<mapsto> c3)" "g_addrs M3 = g_addrs M2" "g_env M3 = g_env M2"
    by (simp_all add: M3_def with_new_cid_def c3_def c2)
  have "tree_holds (chan_key M3) t (set (p # ps))" using t(2) by (simp add: M3_def)
  moreover from this have "\<forall>q \<in> set (p # ps). tree_node t q \<noteq> None" by (auto dest: tree_holds_node)
  ultimately have has3: "msger_ok M3 (p # ps)" using has u by (auto simp: msger_ok_def msger_has_def f3)
  define w4 where "w4 = (g_env M3)\<lparr>w_chan := c4, w_mlen := w_mlen (g_env M3) + f_wpos m, w_msgs := (w_msgs (g_env M3))(mp \<mapsto> ?m)\<rparr>"
  have put: "msgbuf_put mp ?m ((g_env M3)\<lparr>w_chan := c3\<lparr>c_ack := (c_ack c3)\<lparr>h_cid := c_cid c3\<rparr>\<rparr>\<rparr>) = Some w4"
    by (simp add: msgbuf_put_def w4_def c4_def c3_def c1_def args(2) xchannel_create_def serialbuf_index_def XMSG_BUF_RANGE_def Let_def)
  define M4 where "M4 = M3\<lparr>g_env := w4, g_chan := (g_chan M3)(p \<mapsto> c4)\<rparr>"
  have on: "on_chan p (\<lambda>w. msgbuf_put mp ?m (w\<lparr>w_chan := (w_chan w)\<lparr>c_ack := (c_ack (w_chan w))\<lparr>h_cid := c_cid (w_chan w)\<rparr>\<rparr>\<rparr>)) M3 = Some M4"
    using put c3 by (simp add: on_chan_def M4_def w4_def)
  have ok4: "msger_ok M4 (p # ps)" using only_keeps[OF on_chan_only[OF on]] has3 by (simp add: msger_ok_def)
  have "local_connect mp M = Some (M4, 0)"
    using M1 p(2) mp t(1) on by (simp add: local_connect_def Let_def args M2_def c1_def M3_def)
  moreover have "\<forall>q. q \<noteq> p \<longrightarrow> g_chan M4 q = g_chan M q" by (simp add: M4_def f3 M2_def M1(4))
  moreover have "g_ucid M4 p = with_cid u (g_cid M + of_nat i)" by (simp add: M4_def f3)
  moreover have "c_cid c4 = g_cid M + of_nat i" "h_cid (c_ack c4) = c_cid c4" "c_req c4 = mp" "c_wpos c4 = f_wpos m"
      "b_buf (c_msgbuf c4) ! 0 = mp" "serialbuf_sendable (c_msgbuf c4) = 1"
    by (simp_all add: c4_def c3_def c1_def xchannel_create_def serialbuf_sendable_def)
  ultimately show ?thesis using ok4 i key by (intro exI[of _ M4] exI[of _ c4] exI[of _ i]) (simp add: M4_def)
qed

section \<open>Freeing a channel\<close>

lemma flush_spos_eq: "flush_spos b = b\<lparr>b_spos := b_wpos b\<rparr>"
proof (induction b rule: flush_spos.induct)
  case (1 b)
  then show ?case by (subst flush_spos.simps) (auto simp: serialbuf_sendable_def word_gt_0)
qed

lemma clear_recv_run:
  "\<forall>i \<in> set is. i < length buf \<Longrightarrow> \<exists>buf'. clear_recv is buf = Some buf' \<and> length buf' = length buf
     \<and> (\<forall>i. buf' ! i = (if i \<in> set is then None else buf ! i))"
proof (induction "is" arbitrary: buf)
  case (Cons i "is")
  let ?b = "if buf ! i \<noteq> None then buf[i := None] else buf"
  have b: "length ?b = length buf" "\<forall>j. ?b ! j = (if j = i then None else buf ! j)"
    using Cons.prems by (auto simp: nth_list_update)
  obtain buf' where "clear_recv is ?b = Some buf'" "length buf' = length ?b" "\<forall>j. buf' ! j = (if j \<in> set is then None else ?b ! j)"
    using Cons.IH[of ?b] Cons.prems b(1) by fastforce
  moreover have "clear_recv (i # is) buf = clear_recv is ?b" using Cons.prems by (auto simp: wr_def)
  ultimately show ?case using b by auto
qed simp

text \<open>The messages a channel refers to are alive and have a reference for each pointer to them.\<close>

definition refs_ok :: "nat list \<Rightarrow> (nat \<Rightarrow> xframe option) \<Rightarrow> bool" where
  "refs_ok qs msgs \<longleftrightarrow> (\<forall>mp \<in> set qs. mp \<noteq> 0 \<longrightarrow> (\<exists>m. msgs mp = Some m \<and> count_list qs mp \<le> unat (f_ref m)))"

lemma free_msg_run:
  assumes "refs_ok (mp # qs) (w_msgs w)"
  shows "\<exists>r w'. free_msg mp w = Some (r, w') \<and> refs_ok qs (w_msgs w') \<and> w' = w\<lparr>w_msgs := w_msgs w'\<rparr> \<and> (\<forall>q. q \<noteq> mp \<longrightarrow> w_msgs w' q = w_msgs w q)"
proof (cases "mp = 0")
  case True
  then show ?thesis using assms by (auto simp: free_msg_def refs_ok_def)
next
  case False
  then obtain m where m: "w_msgs w mp = Some m" "count_list qs mp + 1 \<le> unat (f_ref m)" using assms by (auto simp: refs_ok_def)
  then have r: "f_ref m \<noteq> 0" by auto
  then have u: "unat (f_ref m - 1) = unat (f_ref m) - 1" by (simp add: unat_minus_one)
  define msgs where "msgs = (if f_ref m = 1 then (w_msgs w)(mp := None) else (w_msgs w)(mp \<mapsto> m\<lparr>f_ref := f_ref m - 1\<rparr>))"
  have "unat (f_ref m) = 1 \<longleftrightarrow> unat (f_ref m - 1) = 0" using u m(2) by linarith
  then have one: "f_ref m = 1 \<longleftrightarrow> unat (f_ref m) = 1" by (simp add: unat_eq_zero)
  have run: "\<exists>r. free_msg mp w = Some (r, w\<lparr>w_msgs := msgs\<rparr>)" using False m(1) by (simp add: free_msg_def xl_free_def Let_def msgs_def)
  have "refs_ok qs msgs"
    unfolding refs_ok_def
  proof (intro ballI impI)
    fix q assume q: "q \<in> set qs" "q \<noteq> 0"
    show "\<exists>m. msgs q = Some m \<and> count_list qs q \<le> unat (f_ref m)"
    proof (cases "q = mp")
      case True
      then have "count_list qs mp \<noteq> 0" using q(1) by (simp add: count_list_0_iff)
      then show ?thesis using True m one u by (auto simp: msgs_def)
    next
      case False
      then show ?thesis using assms q by (auto simp: refs_ok_def msgs_def)
    qed
  qed
  moreover have "\<forall>q. q \<noteq> mp \<longrightarrow> msgs q = w_msgs w q" by (simp add: msgs_def)
  ultimately show ?thesis using run by (elim exE) (rule exI, rule exI[of _ "w\<lparr>w_msgs := msgs\<rparr>"], simp)
qed

lemma msgbuf_same: "c\<lparr>c_msgbuf := c_msgbuf c\<rparr> = c" for c :: xchannel
  by (cases c) (simp only: xchannel.simps)

lemma clear_msgs_run:
  assumes "distinct is" and "\<forall>i \<in> set is. i < length (b_buf (c_msgbuf (w_chan w)))"
    and "refs_ok (map ((!) (b_buf (c_msgbuf (w_chan w)))) is @ qs) (w_msgs w)"
  shows "\<exists>w'. clear_msgs is w = Some w' \<and> refs_ok qs (w_msgs w')
     \<and> (\<forall>q. q \<notin> set (map ((!) (b_buf (c_msgbuf (w_chan w)))) is) \<longrightarrow> w_msgs w' q = w_msgs w q)
     \<and> (\<exists>mb. (w_chan w)\<lparr>c_msgbuf := mb\<rparr> = w_chan w')"
  using assms
proof (induction "is" arbitrary: w)
  case Nil
  have e: "\<exists>mb. (w_chan w)\<lparr>c_msgbuf := mb\<rparr> = w_chan w" by (rule exI) (rule msgbuf_same)
  from Nil have r: "refs_ok qs (w_msgs w)" by simp
  show ?case by (rule exI[of _ w]) (simp only: clear_msgs.simps e r simp_thms)
next
  case (Cons i "is")
  let ?mb = "c_msgbuf (w_chan w)"
  let ?mp = "b_buf ?mb ! i"
  have i: "i < length (b_buf ?mb)" "i \<notin> set is" "distinct is" "\<forall>j \<in> set is. j < length (b_buf ?mb)" using Cons.prems by auto
  show ?case
  proof (cases "?mp = 0")
    case True
    then have "refs_ok (map ((!) (b_buf ?mb)) is @ qs) (w_msgs w)" using Cons.prems(3) by (auto simp: refs_ok_def)
    from Cons.IH[OF i(3,4) this] obtain w' mb where w': "clear_msgs is w = Some w'" "refs_ok qs (w_msgs w')"
        "\<forall>q. q \<notin> set (map ((!) (b_buf ?mb)) is) \<longrightarrow> w_msgs w' q = w_msgs w q" "(w_chan w)\<lparr>c_msgbuf := mb\<rparr> = w_chan w'" by blast
    have "clear_msgs (i # is) w = clear_msgs is w" using i(1) True by (simp add: Let_def)
    then show ?thesis using w' by auto
  next
    case False
    let ?d = "f_wpos (the (w_msgs w ?mp)) - f_rpos (the (w_msgs w ?mp))"
    let ?w = "w\<lparr>w_mlen := w_mlen w - ?d\<rparr>"
    obtain m where m: "w_msgs w ?mp = Some m" using Cons.prems(3) False by (auto simp: refs_ok_def)
    have R: "refs_ok (?mp # map ((!) (b_buf ?mb)) is @ qs) (w_msgs ?w)" using Cons.prems(3) by simp
    from free_msg_run[OF this] obtain r w1 where fr: "free_msg ?mp ?w = Some (r, w1)"
      and w1: "refs_ok (map ((!) (b_buf ?mb)) is @ qs) (w_msgs w1)" "w1 = ?w\<lparr>w_msgs := w_msgs w1\<rparr>" "\<forall>q. q \<noteq> ?mp \<longrightarrow> w_msgs w1 q = w_msgs w q" by auto
    let ?w2 = "w1\<lparr>w_chan := (w_chan w1)\<lparr>c_msgbuf := ?mb\<lparr>b_buf := (b_buf ?mb)[i := r]\<rparr>\<rparr>\<rparr>"
    have run: "clear_msgs (i # is) w = clear_msgs is ?w2" using False m i(1) fr by (simp add: Let_def)
    have same: "map ((!) ((b_buf ?mb)[i := r])) is = map ((!) (b_buf ?mb)) is"
      using i(2) by (auto intro!: nth_list_update_neq)
    have c1: "w_chan w1 = w_chan w" by (subst w1(2)) simp
    from Cons.IH[of ?w2] i w1(1) same c1 obtain w' mb where w': "clear_msgs is ?w2 = Some w'" "refs_ok qs (w_msgs w')"
        "\<forall>q. q \<notin> set (map ((!) (b_buf ?mb)) is) \<longrightarrow> w_msgs w' q = w_msgs w1 q" "(w_chan w)\<lparr>c_msgbuf := mb\<rparr> = w_chan w'"
      by auto
    then show ?thesis using run w1(3) by auto
  qed
qed

text \<open>When all references are accounted for, clearing a channel returns; it touches no message of others.\<close>

definition clearable :: "xstate \<Rightarrow> bool" where
  "clearable w \<longleftrightarrow> (let c = w_chan w in unat (b_range (c_recvbuf c)) \<le> length (b_buf (c_recvbuf c))
     \<and> unat (b_range (c_msgbuf c)) \<le> length (b_buf (c_msgbuf c))
     \<and> refs_ok (take (unat (b_range (c_msgbuf c))) (b_buf (c_msgbuf c)) @ [c_req c]) (w_msgs w))"

lemma xchannel_clear_run:
  assumes "clearable w"
  shows "\<exists>w'. xchannel_clear w = Some w' \<and> c_addr (w_chan w') = c_addr (w_chan w)
     \<and> (\<forall>q. q \<notin> set (b_buf (c_msgbuf (w_chan w))) \<and> q \<noteq> c_req (w_chan w) \<longrightarrow> w_msgs w' q = w_msgs w q)
     \<and> serialbuf_readable (c_sendbuf (w_chan w')) = 0 \<and> (\<forall>i < unat (b_range (c_recvbuf (w_chan w))). b_buf (c_recvbuf (w_chan w')) ! i = None)"
proof -
  let ?c = "w_chan w" and ?n = "unat (b_range (c_msgbuf (w_chan w)))"
  let ?sb = "(c_sendbuf ?c)\<lparr>b_spos := b_wpos (c_sendbuf ?c), b_rpos := b_wpos (c_sendbuf ?c)\<rparr>"
  have C: "unat (b_range (c_recvbuf ?c)) \<le> length (b_buf (c_recvbuf ?c))" "?n \<le> length (b_buf (c_msgbuf ?c))"
    "refs_ok (take ?n (b_buf (c_msgbuf ?c)) @ [c_req ?c]) (w_msgs w)" using assms by (auto simp: clearable_def Let_def)
  obtain buf where buf: "clear_recv [0..<unat (b_range (c_recvbuf ?c))] (b_buf (c_recvbuf ?c)) = Some buf"
      "\<forall>i. buf ! i = (if i < unat (b_range (c_recvbuf ?c)) then None else b_buf (c_recvbuf ?c) ! i)"
    using clear_recv_run[of "[0..<unat (b_range (c_recvbuf ?c))]" "b_buf (c_recvbuf ?c)"] C(1) by auto
  let ?c1 = "?c\<lparr>c_sendbuf := ?sb, c_recvbuf := (c_recvbuf ?c)\<lparr>b_buf := buf\<rparr>\<rparr>"
  have "map ((!) (b_buf (c_msgbuf ?c))) [0..<?n] = take ?n (b_buf (c_msgbuf ?c))" using C(2) by (intro nth_equalityI) simp_all
  then obtain w1 mb where w1: "clear_msgs [0..<?n] (w\<lparr>w_chan := ?c1\<rparr>) = Some w1" "refs_ok [c_req ?c] (w_msgs w1)"
      "\<forall>q. q \<notin> set (take ?n (b_buf (c_msgbuf ?c))) \<longrightarrow> w_msgs w1 q = w_msgs w q" "?c1\<lparr>c_msgbuf := mb\<rparr> = w_chan w1"
    using clear_msgs_run[of "[0..<?n]" "w\<lparr>w_chan := ?c1\<rparr>" "[c_req ?c]"] C by auto
  note c1 = w1(4)[symmetric]
  obtain r w2 where w2: "free_msg (c_req ?c) w1 = Some (r, w2)" "w2 = w1\<lparr>w_msgs := w_msgs w2\<rparr>" "\<forall>q. q \<noteq> c_req ?c \<longrightarrow> w_msgs w2 q = w_msgs w1 q"
    using free_msg_run[of "c_req ?c" "[]" w1] w1(2) by auto
  have c2: "w_chan w2 = w_chan w1" by (subst w2(2)) simp
  have "xchannel_clear w = Some (w2\<lparr>w_chan := (w_chan w2)\<lparr>c_msg := Option.bind (c_msg (w_chan w2)) xl_free, c_req := r\<rparr>\<rparr>)"
    using buf(1) w1(1) c1 w2(1) by (simp add: xchannel_clear_def Let_def flush_spos_eq)
  moreover have "w_msgs w2 q = w_msgs w q" if "q \<notin> set (b_buf (c_msgbuf ?c))" "q \<noteq> c_req ?c" for q
    using that w2(3) w1(3) in_set_takeD by fastforce
  ultimately show ?thesis using buf(2) c2 c1 by (simp add: serialbuf_readable_def)
qed

text \<open>The rest of \<open>xchannel_free\<close>, once the channel is cleared.\<close>

lemma xchannel_free_cleared:
  assumes ok: "msger_ok M (xs @ p # ys)" and c: "g_chan M p = Some c" and w: "xchannel_clear ((g_env M)\<lparr>w_chan := c\<rparr>) = Some w"
  shows "\<exists>M'. xchannel_free p M = Some M' \<and> msger_ok M' (xs @ ys) \<and> (\<forall>q. q \<noteq> p \<longrightarrow> g_chan M' q = g_chan M q \<and> g_ucid M' q = g_ucid M q)
    \<and> g_chan M' p = None \<and> g_env M' = w"
proof -
  have H: "ring_rep (g_list M) (xs @ p # ys)" "tree_holds (chan_key M) (g_peers M) (set (xs @ p # ys))"
    "\<forall>q. g_chan M q \<noteq> None \<longleftrightarrow> q \<in> set (xs @ p # ys)" "\<forall>q \<in> set (xs @ p # ys). length (g_ucid M q) = 3" "0 \<notin> set (xs @ p # ys)"
    "\<forall>a u. g_addrs M a = Some u \<longrightarrow> length u = 3"
    using ok by (auto simp: msger_ok_def msger_has_def)
  have d: "p \<notin> set (xs @ ys)" "set (xs @ p # ys) - {p} = set (xs @ ys)" using H(1) by (auto simp: ring_rep_def ring_links_def)
  obtain n where n: "node_at p (t_root (g_peers M)) = Some n" "n_parent n \<noteq> p" using tree_holds_linked[OF H(2), of p] by auto
  obtain t where t: "avl_tree_remove p (g_peers M) = Some t" "tree_holds (chan_key M) t (set (xs @ ys))"
    using avl_index.remove_old[OF H(2), of p] d(2) by auto
  let ?t = "t\<lparr>t_root := (t_root t)\<lparr>v_heap := (v_heap (t_root t))(p := None)\<rparr>\<rparr>"
  define M' where "M' = M\<lparr>g_env := w, g_list := ring_list_take_out p (g_list M), g_peers := ?t, g_chan := (g_chan M)(p := None),
      g_addrs := (g_addrs M)(c_addr (w_chan w) := None)\<rparr>"
  have run: "xchannel_free p M = Some M'" using c w n t(1) by (simp add: xchannel_free_def on_chan_def M'_def Let_def)
  have T: "tree_holds (chan_key M) ?t (set (xs @ ys))" by (rule tree_holds_other[OF t(2) d(1)])
  moreover have "chan_key M' = chan_key M" by (simp add: chan_key_fun M'_def)
  moreover have "ring_rep (g_list M') (xs @ ys)" using ring_rep_take_out[OF H(1)] by (simp add: M'_def)
  moreover have "\<forall>q \<in> set (xs @ ys). tree_node ?t q \<noteq> None" using tree_holds_node[OF T] by blast
  moreover have "\<forall>q. g_chan M' q \<noteq> None \<longleftrightarrow> q \<in> set (xs @ ys)" using H(3) d(1) by (auto simp: M'_def)
  ultimately have "msger_ok M' (xs @ ys)"
    using H(4-6) by (auto simp: msger_ok_def msger_has_def M'_def)
  then show ?thesis using run by (intro exI[of _ M']) (simp add: M'_def)
qed

lemma xchannel_free_run:
  assumes "msger_ok M (xs @ p # ys)" and "g_chan M p = Some c" and "clearable ((g_env M)\<lparr>w_chan := c\<rparr>)"
  shows "\<exists>M'. xchannel_free p M = Some M' \<and> msger_ok M' (xs @ ys) \<and> (\<forall>q. q \<noteq> p \<longrightarrow> g_chan M' q = g_chan M q \<and> g_ucid M' q = g_ucid M q)
    \<and> g_chan M' p = None \<and> (\<forall>q. q \<notin> set (b_buf (c_msgbuf c)) \<and> q \<noteq> c_req c \<longrightarrow> w_msgs (g_env M') q = w_msgs (g_env M) q)"
proof -
  obtain w where w: "xchannel_clear ((g_env M)\<lparr>w_chan := c\<rparr>) = Some w"
      "\<forall>q. q \<notin> set (b_buf (c_msgbuf c)) \<and> q \<noteq> c_req c \<longrightarrow> w_msgs w q = w_msgs (g_env M) q"
    using xchannel_clear_run[OF assms(3)] by auto
  then show ?thesis using xchannel_free_cleared[OF assms(1,2) w(1)] by metis
qed

section \<open>A sending round\<close>

lemma time_out_only: "g_chan M p = Some c \<Longrightarrow> only p M (time_out p c M)"
  by (auto simp: time_out_def only_def same_index_def)

lemma env_only: "only p M (M\<lparr>g_env := w\<rparr>)" "only p M (shorten_timer d M)" "only p M (M\<lparr>g_timer := t\<rparr>)" "only p M (snd (draw M))"
  by (auto simp: only_def same_index_def shorten_timer_def draw_def)

lemma pace_only:
  assumes "pace p M = Some M'"
  shows "only p M M'"
proof -
  obtain c where c: "g_chan M p = Some c" using assms by (auto simp: pace_def bind_eq_Some_conv)
  define M1 where "M1 = M\<lparr>g_env := snd (clock (g_env M))\<rparr>"
  have M1: "only p M M1" by (simp add: M1_def env_only)
  have "M' = shorten_timer d M1 \<or> on_chan p xchannel_send_pack M1 = Some M' \<or> M' = M1 \<or> M' = M1\<lparr>g_chan := (g_chan M1)(p \<mapsto> c\<lparr>c_kabuf := n\<rparr>)\<rparr>"
    if "d = signed_delay ((if c_psf c > 0 then c_psf c else XPACK_PSF_DEFAULT) - (n - c_send_ts c))" "n = fst (clock (g_env M))" for d n
    using assms that unfolding pace_def by (auto simp: c M1_def Let_def split_def split: if_splits)
  from this[OF refl refl] have "only p M1 M'"
    using c on_chan_only by (elim disjE) (auto simp: env_only, auto simp: only_def same_index_def M1_def)
  then show ?thesis by (rule only_trans[OF M1])
qed

lemma check_timeouts_only:
  assumes "check_timeouts p M = Some (M', go_on)"
  shows "only p M M'"
proof -
  obtain c where c: "g_chan M p = Some c" using assms by (auto simp: check_timeouts_def bind_eq_Some_conv)
  define M1 where "M1 = M\<lparr>g_env := snd (clock (g_env M))\<rparr>"
  have M1: "only p M M1" "only p M1 (time_out p c M1)" using c by (simp_all add: M1_def env_only time_out_only)
  have "M' = M \<or> M' = M1 \<or> M' = time_out p c M1 \<or> (\<exists>d. M' = shorten_timer d M1) \<or> (\<exists>n. on_chan p (resend_first n) M1 = Some M')"
    using assms unfolding check_timeouts_def by (auto simp: c M1_def Let_def split_def bind_eq_Some_conv split: if_splits)
  then have "M' = M \<or> only p M1 M'" using M1 env_only(2) on_chan_only by auto
  then show ?thesis using only_trans[OF M1(1)] by auto
qed

text \<open>The channels of a list are served one after the other, until one is found to have timed out while sending.\<close>

fun serve :: "nat list \<Rightarrow> xmsger \<Rightarrow> xmsger option" where
  "serve [] M = Some M"
| "serve (p # ps) M = do {
     M1 \<leftarrow> pace p M;
     (M2, go_on) \<leftarrow> check_timeouts p M1;
     if go_on then serve ps M2 else Some M2 }"

lemma only_list: "only p M M' \<Longrightarrow> g_list M' = g_list M"
  by (simp add: only_def same_index_def)

lemma send_loop_serve:
  "ring_rep (g_list M) (xs @ ps) \<Longrightarrow> send_loop (if ps = [] then r_head (g_list M) else hd ps) M = serve ps M"
proof (induction ps arbitrary: xs M)
  case Nil
  then show ?case by (simp add: send_loop.simps)
next
  case (Cons p ps)
  have p: "p \<noteq> r_head (g_list M)" using ring_rep_not_head[OF Cons.prems] by simp
  have nx: "r_next (g_list M) p = (if ps = [] then r_head (g_list M) else hd ps)" using ring_next[OF Cons.prems] .
  have IH: "send_loop (r_next (g_list M2) p) M2 = serve ps M2" if "g_list M2 = g_list M" for M2
    using Cons.IH[of M2 "xs @ [p]"] Cons.prems that nx by (auto split: if_splits)
  have go: "send_loop p M = Option.bind (pace p M) (\<lambda>M1. Option.bind (check_timeouts p M1) (\<lambda>(M2, go_on).
      if go_on then send_loop (r_next (g_list M2) p) M2 else Some M2))"
    using p by (subst send_loop.simps) simp
  show ?case
  proof (cases "pace p M")
    case None
    then show ?thesis using go by simp
  next
    case (Some M1)
    then have g1: "g_list M1 = g_list M" using pace_only only_list by blast
    show ?thesis
    proof (cases "check_timeouts p M1")
      case None
      then show ?thesis using go Some by simp
    next
      case t: (Some x)
      obtain M2 b where x: "x = (M2, b)" by (cases x)
      then have "g_list M2 = g_list M" using g1 t check_timeouts_only only_list by metis
      then show ?thesis using go Some t x IH by simp
    qed
  qed
qed

lemma send_all_serve:
  assumes "ring_rep (g_list M) ps" and "length ps < 2 ^ 64"
  shows "xmsger_send_all M = serve ps M"
proof -
  have "r_len (g_list M) = of_nat (length ps)" using assms(1) by (simp add: ring_rep_def)
  moreover have "unat (of_nat (length ps) :: u64) = length ps" using assms(2) by (simp add: unsigned_of_nat take_bit_nat_eq_self)
  ultimately have "r_len (g_list M) > 0 \<longleftrightarrow> ps \<noteq> []" by (simp add: word_less_nat_alt)
  then show ?thesis using send_loop_serve[of M "[]" ps] ring_first[OF assms(1)] assms(1) by (cases ps) (simp_all add: xmsger_send_all_def)
qed

section \<open>The invariant is kept\<close>

lemma serve_keeps: "serve ps M = Some M' \<Longrightarrow> msger_has M qs D \<Longrightarrow> msger_has M' qs D"
proof (induction ps arbitrary: M)
  case (Cons p ps)
  then obtain M1 M2 b where s: "pace p M = Some M1" "check_timeouts p M1 = Some (M2, b)" "(if b then serve ps M2 else Some M2) = Some M'"
    by (auto simp: bind_eq_Some_conv)
  have "msger_has M2 qs D" using only_keeps pace_only[OF s(1)] check_timeouts_only[OF s(2)] Cons.prems(2) by blast
  then show ?case using s(3) Cons.IH by (auto split: if_splits)
qed simp

lemma send_all_keeps:
  assumes "xmsger_send_all M = Some M'" and "msger_ok M ps" and "length ps < 2 ^ 64"
  shows "msger_ok M' ps"
  using send_all_serve[of M ps] serve_keeps[of ps M M' ps "set ps"] assms by (simp add: msger_ok_def msger_has_def)

lemma draw_keeps [simp]: "msger_has (M\<lparr>g_allocs := n\<rparr>) ps D = msger_has M ps D"
  by (simp add: msger_has_def chan_key_fun)

lemma channel_new_fails: "g_alloc M (g_allocs M) = 0 \<Longrightarrow> channel_new r M = (0, M\<lparr>g_allocs := g_allocs M + 1\<rparr>)"
  by (simp add: channel_new_def draw_def)

lemma index_new_channel:
  assumes "msger_has M (p # ps) (set ps)" and "chan_key M p \<notin> chan_key M ` set ps"
  shows "\<exists>t. avl_tree_add (unicid_comp (g_ucid M) p) p (g_peers M) = Some (t, 0) \<and> msger_ok (M\<lparr>g_peers := t\<rparr>) (p # ps)"
proof -
  have H: "tree_holds (chan_key M) (g_peers M) (set ps)" "tree_node (g_peers M) p \<noteq> None" "p \<notin> set ps" "0 < p"
    using assms(1) by (auto simp: msger_has_def ring_rep_def ring_links_def)
  have ord: "order_by (unicid_comp (g_ucid M) p) (chan_key M) (chan_key M p)"
    using order_comp[of "g_ucid M" p] by (simp add: chan_key_fun)
  obtain t where t: "avl_tree_add (unicid_comp (g_ucid M) p) p (g_peers M) = Some (t, 0)" "tree_holds (chan_key M) t (insert p (set ps))"
    using avl_index.add_new[OF H(1) ord H(4,3,2) assms(2)] by blast
  moreover have "\<forall>q \<in> set (p # ps). tree_node t q \<noteq> None" using tree_holds_node[OF t(2)] by auto
  ultimately show ?thesis using assms(1) by (auto simp: msger_ok_def msger_has_def chan_key_fun)
qed

lemma recv_request_keeps:
  assumes ok: "msger_ok M ps" and fr: "fresh_memory M" and src: "length src = 3" "cid = with_cid src k" "\<forall>q \<in> set ps. g_ucid M q \<noteq> cid"
    and run: "recv_request sid src cid pack M = Some (M', kept, go_on)"
  shows "\<exists>ps'. msger_ok M' ps' \<and> length ps' \<le> Suc (length ps)"
proof (cases "g_alloc M (g_allocs M) = 0")
  case True
  then have "M' = M\<lparr>g_allocs := g_allocs M + 1\<rparr>" using run by (simp add: recv_request_def channel_new_fails)
  then show ?thesis using ok by (auto simp: msger_ok_def)
next
  case False
  define p where "p = g_alloc M (g_allocs M)"
  obtain M1 where M1: "channel_new (h_ack_pos (k_head pack)) M = (p, M1)" "msger_has M1 (p # ps) (set ps)" "\<forall>q. q \<noteq> p \<longrightarrow> g_ucid M1 q = g_ucid M q"
    using channel_new_run[OF ok fr refl] False unfolding p_def by fastforce
  obtain a M2 where M2: "draw M1 = (a, M2)" by (cases "draw M1")
  then have has2: "msger_has M2 (p # ps) (set ps)" using M1(2) by (auto simp: draw_def)
  have pn: "p \<notin> set ps" "0 < p" using M1(2) by (auto simp: msger_has_def ring_rep_def ring_links_def)
  have "g_chan M2 p \<noteq> None" using has2 by (simp add: msger_has_def)
  then obtain c where c: "g_chan M2 p = Some c" by blast
  define M3 where "M3 = M2\<lparr>g_addrs := (if a = 0 then g_addrs M2 else (g_addrs M2)(a \<mapsto> src)), g_sock := (g_sock M2)(p := sid),
      g_ucid := (g_ucid M2)(p := cid),
      g_chan := (g_chan M2)(p \<mapsto> c\<lparr>c_cid := h_cid (k_head pack), c_addr := a, c_ack := (c_ack c)\<lparr>h_cid := h_cid (k_head pack)\<rparr>\<rparr>)\<rparr>"
  have "tree_holds (chan_key M2) (g_peers M2) (set ps)" using has2 by (simp add: msger_has_def)
  then have "tree_holds (chan_key M3) (g_peers M2) (set ps)"
    by (rule avl_index.keys_only) (use pn in \<open>auto simp: chan_key_def M3_def\<close>)
  then have has3: "msger_has M3 (p # ps) (set ps)" using has2 src c by (auto simp: msger_has_def M3_def)
  have "g_ucid M3 p = cid" "\<forall>q \<in> set ps. g_ucid M3 q = g_ucid M q" "\<forall>q \<in> set ps. length (g_ucid M3 q) = 3" "length cid = 3"
    using M1(3) M2 pn has3 src by (auto simp: M3_def draw_def msger_has_def)
  then have "chan_key M3 p \<notin> chan_key M3 ` set ps" using src(3) ukey_eq unfolding chan_key_def by (metis imageE)
  from index_new_channel[OF has3 this] obtain t where t: "avl_tree_add (unicid_comp (g_ucid M3) p) p (g_peers M3) = Some (t, 0)"
      "msger_ok (M3\<lparr>g_peers := t\<rparr>) (p # ps)" by blast
  have eq: "recv_request sid src cid pack M = Option.bind (on_chan_int p (xchannel_recv_pack pack) (M3\<lparr>g_peers := t\<rparr>)) (\<lambda>(M5, kept, r).
      if r \<noteq> 0 then Some (M5, kept, False)
      else Option.bind (on_chan p (\<lambda>w. Some (xchannel_send_ack w)) M5) (\<lambda>M6. Some (M6, kept, True)))"
    using M1(1) pn(2) M2 c t(1) by (simp add: recv_request_def Let_def M3_def)
  have "only p (M3\<lparr>g_peers := t\<rparr>) M'"
    using run[unfolded eq] by (auto simp: bind_eq_Some_conv split: if_splits dest!: on_chan_only on_chan_int_only intro: only_trans)
  then have "msger_ok M' (p # ps)" using only_keeps t(2) by (simp add: msger_ok_def)
  then show ?thesis by (intro exI[of _ "p # ps"]) simp
qed

text \<open>One arriving datagram that belongs to no channel request of the application.\<close>

lemma recv_dispatch_keeps:
  assumes ok: "msger_ok M ps" and fr: "fresh_memory M" and a: "length (d_addr d) = 3" and run: "recv_dispatch d M = Some (M', kept, go_on)"
  shows "\<exists>ps'. msger_ok M' ps' \<and> length ps' \<le> Suc (length ps)"
proof -
  let ?u = "with_cid (d_addr d) (h_cid (k_head (d_pack d)))"
  show ?thesis
  proof (cases "\<exists>p \<in> set ps. g_ucid M p = ?u")
    case True
    then obtain p where "p \<in> set ps" "g_ucid M p = ?u" by blast
    then have "only p M M'" using dispatch_known[OF ok _ a] run recv_known_only by metis
    then have "msger_ok M' ps" using only_keeps ok by (simp add: msger_ok_def)
    then show ?thesis by auto
  next
    case False
    then have u: "\<forall>q \<in> set ps. g_ucid M q \<noteq> ?u" by blast
    have *: "recv_unknown (d_sid d) (d_addr d) ?u (d_pack d) M = Some (M', kept, go_on)" using dispatch_unknown[OF ok a u] run by simp
    show ?thesis
    proof (cases "h_type (k_head (d_pack d)) = XPACK_TYPE_REQ")
      case True
      then show ?thesis using * recv_request_keeps[OF ok fr a refl u] by (simp add: recv_unknown_def)
    next
      case False
      then have "M' = M \<or> M' = M\<lparr>g_env := xchannel_send_final (k_head (d_pack d)) (g_env M)\<rparr>"
        using * by (auto simp: recv_unknown_def Let_def split: if_splits)
      then have "msger_ok M' ps" using only_keeps[OF env_only(1)] ok by (auto simp: msger_ok_def)
      then show ?thesis by auto
    qed
  qed
qed

lemma local_recv_keeps:
  assumes ok: "msger_ok M ps" and fr: "fresh_memory M" and few: "length ps < 65536"
    and m: "h_ack_type (k_head (d_pack d)) = XPACK_TYPE_REQ \<Longrightarrow> d_msg d \<noteq> 0" and run: "xmsger_local_recv d M = Some (M', r)"
  shows "\<exists>ps'. msger_ok M' ps' \<and> length ps' \<le> Suc (length ps)"
proof -
  let ?t = "h_ack_type (k_head (d_pack d))"
  consider (con) "?t = XPACK_TYPE_REQ" | (dis) "?t = XPACK_TYPE_RES" | (flush) "?t = XPACK_TYPE_FLUSH"
    | (other) "?t \<noteq> XPACK_TYPE_REQ" "?t \<noteq> XPACK_TYPE_RES" "?t \<noteq> XPACK_TYPE_FLUSH" by blast
  then show ?thesis
  proof cases
    case con
    then have c: "local_connect (d_msg d) M = Some (M', r)" using run by (simp add: xmsger_local_recv_def)
    show ?thesis
    proof (cases "g_alloc M (g_allocs M) = 0")
      case True
      then have "M' = M\<lparr>g_allocs := g_allocs M + 1\<rparr>" using c by (simp add: local_connect_def channel_new_fails)
      then show ?thesis using ok by (auto simp: msger_ok_def)
    next
      case False
      define p where "p = g_alloc M (g_allocs M)"
      obtain M1 where M1: "channel_new XPACK_SERIAL_RANGE M = (p, M1)" "g_addrs M1 = g_addrs M" "w_msgs (g_env M1) = w_msgs (g_env M)"
        using channel_new_run[OF ok fr refl] False unfolding p_def by fastforce
      then obtain x u where "w_msgs (g_env M) (d_msg d) = Some x" "2 < length (f_args x)" "g_addrs M (f_args x ! 2) = Some u"
        using c False m[OF con] p_def
        by (auto simp: local_connect_def Let_def bind_eq_Some_conv rd_def xl_hold_def xmsg_fixed_def split: if_splits)
      then obtain M2 where "local_connect (d_msg d) M = Some (M2, 0)" "msger_ok M2 (p # ps)"
        using local_connect_run[OF ok fr p_def[symmetric] _ m[OF con] _ _ _ few] False p_def by blast
      then show ?thesis using c by (intro exI[of _ "p # ps"]) simp
    qed
  next
    case dis
    then have "M' = M \<or> (\<exists>p mp x. on_chan p (msgbuf_put mp x) M = Some M')"
      using run by (auto simp: xmsger_local_recv_def xpack_types local_disconnect_def bind_eq_Some_conv split: if_splits)
    then have "msger_ok M' ps" using only_keeps on_chan_only ok unfolding msger_ok_def by blast
    then show ?thesis by auto
  next
    case flush
    then have fre: "xchannel_free (d_chan d) M = Some M'" using run by (auto simp: xmsger_local_recv_def xpack_types)
    then obtain c w where c: "g_chan M (d_chan d) = Some c" "xchannel_clear ((g_env M)\<lparr>w_chan := c\<rparr>) = Some w"
      by (auto simp: xchannel_free_def on_chan_def bind_eq_Some_conv)
    then have "d_chan d \<in> set ps" using ok by (metis msger_ok_def msger_has_def option.distinct(1))
    then obtain xs ys where ps: "ps = xs @ d_chan d # ys" by (meson split_list)
    then have "msger_ok M' (xs @ ys)" using xchannel_free_cleared[of M xs "d_chan d" ys, OF _ c] ok fre by auto
    then show ?thesis using ps by (intro exI[of _ "xs @ ys"]) simp
  next
    case other
    then show ?thesis using run ok by (auto simp: xmsger_local_recv_def)
  qed
qed

lemma recv_dgram_keeps:
  assumes ok: "msger_ok M ps" and fr: "fresh_memory M" and few: "length ps < 65536" and a: "length (d_addr d) = 3"
    and m: "h_ack_type (k_head (d_pack d)) = XPACK_TYPE_REQ \<Longrightarrow> d_msg d \<noteq> 0 \<or> h_type (k_head (d_pack d)) \<noteq> XPACK_TYPE_LOCAL"
    and run: "recv_dgram d M = Some (M', go_on)"
  shows "\<exists>ps'. msger_ok M' ps' \<and> length ps' \<le> Suc (length ps)"
proof (cases "h_type (k_head (d_pack d)) = XPACK_TYPE_LOCAL")
  case True
  show ?thesis
  proof (cases "d_addr d ! 0 = g_laddr M ! 0")
    case t: True
    then obtain r where "xmsger_local_recv d M = Some (M', r)" using run True by (auto simp: recv_dgram_def bind_eq_Some_conv)
    then show ?thesis using local_recv_keeps[OF ok fr few] m True by blast
  next
    case False
    then show ?thesis using run True ok by (auto simp: recv_dgram_def)
  qed
next
  case False
  then obtain M1 kept b where M1: "recv_dispatch d M = Some (M1, kept, b)" using run by (auto simp: recv_dgram_def bind_eq_Some_conv)
  then obtain ps' where ps': "msger_ok M1 ps'" "length ps' \<le> Suc (length ps)" using recv_dispatch_keeps[OF ok fr a] by blast
  define M2 where "M2 = (if kept then snd (draw M1) else M1)"
  have ok2: "msger_ok M2 ps'" using ps'(1) by (simp add: M2_def msger_ok_def draw_def)
  have "M' = M1 \<or> M' = M2 \<or> xmsger_send_all M2 = Some M'"
    using run M1 False by (auto simp: recv_dgram_def M2_def split_def Let_def bind_eq_Some_conv split: if_splits)
  moreover have "length ps' < 2 ^ 64" using ps'(2) few by simp
  ultimately have "msger_ok M' ps'" using ps'(1) ok2 send_all_keeps by blast
  then show ?thesis using ps'(2) by blast
qed

text \<open>
  The states a messenger can get into: datagrams arrive from the network or from the application (which
  never asks to connect without a message), the wait times out, the application queues messages on a
  channel, and messages are created and changed by the application. New memory is not in use, and there
  are never more than 65535 channels.
\<close>

definition few_channels :: "xmsger \<Rightarrow> bool" where
  "few_channels M \<longleftrightarrow> card {p. g_chan M p \<noteq> None} < 65536"

definition dgram_ok :: "dgram \<Rightarrow> bool" where
  "dgram_ok d \<longleftrightarrow> length (d_addr d) = 3 \<and> (h_type (k_head (d_pack d)) = XPACK_TYPE_LOCAL \<longrightarrow> d_msg d \<noteq> 0 \<or> h_ack_type (k_head (d_pack d)) \<noteq> XPACK_TYPE_REQ)"

inductive msger_reach :: "xmsger \<Rightarrow> xmsger \<Rightarrow> bool" for M0 where
  start: "msger_reach M0 M0"
| arrive: "\<lbrakk>msger_reach M0 M; fresh_memory M; few_channels M; dgram_ok d; recv_dgram d M = Some (M', go_on)\<rbrakk> \<Longrightarrow> msger_reach M0 M'"
| wake: "\<lbrakk>msger_reach M0 M; few_channels M; xmsger_send_all (M\<lparr>g_timer := 10000000\<rparr>) = Some M'\<rbrakk> \<Longrightarrow> msger_reach M0 M'"
| queue: "\<lbrakk>msger_reach M0 M; on_chan p (\<lambda>w. map_option fst (xmsger_send mp w)) M = Some M'\<rbrakk> \<Longrightarrow> msger_reach M0 M'"
| message: "msger_reach M0 M \<Longrightarrow> msger_reach M0 (M\<lparr>g_env := (g_env M)\<lparr>w_msgs := msgs\<rparr>\<rparr>)"

lemma few_channels_length: "msger_ok M ps \<Longrightarrow> few_channels M \<Longrightarrow> length ps < 65536"
proof -
  assume ok: "msger_ok M ps" and few: "few_channels M"
  have "distinct ps" "{p. g_chan M p \<noteq> None} = set ps" using ok by (auto simp: msger_ok_def msger_has_def ring_rep_def ring_links_def)
  then show ?thesis using few by (simp add: few_channels_def distinct_card)
qed

lemma reach_ok:
  assumes "msger_reach M0 M" and "msger_ok M0 ps0"
  shows "\<exists>ps. msger_ok M ps"
  using assms(1)
proof induction
  case start
  show ?case using assms(2) by blast
next
  case (arrive M d M' go_on)
  then obtain ps where ps: "msger_ok M ps" by blast
  show ?case using recv_dgram_keeps[OF ps arrive(2) few_channels_length[OF ps arrive(3)] _ _ arrive(5)] arrive(4)
    by (auto simp: dgram_ok_def)
next
  case (wake M M')
  then obtain ps where ps: "msger_ok M ps" by blast
  then have "msger_ok (M\<lparr>g_timer := 10000000\<rparr>) ps" using only_keeps[OF env_only(3)] by (simp add: msger_ok_def)
  then show ?case using send_all_keeps[OF wake(3)] few_channels_length[OF ps wake(2)] by fastforce
next
  case (queue M p mp M')
  then show ?case using only_keeps on_chan_only unfolding msger_ok_def by blast
next
  case (message M msgs)
  then show ?case using only_keeps[OF env_only(1)] unfolding msger_ok_def by blast
qed

text \<open>A messenger as \<open>xmsger_create\<close> leaves it.\<close>

lemma bind_loop_returns: "ok p \<Longrightarrow> \<exists>q. bind_loop ok p0 = Some q \<and> ok q"
proof (induction "unat (p - p0)" arbitrary: p0 rule: less_induct)
  case less
  show ?case
  proof (cases "ok p0")
    case True
    then show ?thesis by (simp add: bind_loop.simps)
  next
    case False
    then have "p - p0 \<noteq> 0" using less(2) by auto
    then have "unat (p - (p0 + 1)) < unat (p - p0)" using unat_minus_one[of "p - p0"] by (simp add: diff_diff_eq unat_gt_0)
    then show ?thesis using less(1)[of "p0 + 1"] less(2) False by (simp add: bind_loop.simps[of ok p0])
  qed
qed

lemma xmsger_create_ok:
  assumes "xmsger_create os cb port M = Some (Some M0)" and "g_chan M = Map.empty" and "g_addrs M = Map.empty"
  shows "msger_ok M0 []"
proof -
  obtain w la k where "M0 = M\<lparr>g_env := w, g_laddr := la, g_cid := k, g_list := empty_ring (g_list M),
      g_peers := avl_tree_init (v_heap (t_root (g_peers M))) 0\<rparr>"
    using assms(1) by (auto simp: xmsger_create_def bind_eq_Some_conv Let_def split_def split: if_splits option.splits)
  moreover have "ring_rep (empty_ring (g_list M)) []" by (simp add: ring_rep_def ring_links_def empty_ring_def Let_def)
  moreover have "tree_holds key (avl_tree_init F 0) {}" for key :: "nat \<Rightarrow> u64 \<times> u64 \<times> u64" and F
    using tree_inv_own_heap[OF tree_inv_init[of key F 0]] by (auto simp: tree_holds_def intro!: exI[of _ Tip]) (simp add: avl_tree_init_def)
  ultimately show ?thesis using assms(2,3) by (simp add: msger_ok_def msger_has_def)
qed

end
