(* ===== verification/Msger_Props.thy ===== *)
theory Msger_Props
  imports Msger_Channels
begin

text \<open>
  The properties of the messenger, stated of its operations, each with an application to a small concrete
  messenger.
\<close>

section \<open>A concrete messenger\<close>

text \<open>One channel at address 10 with one packet on the way, the ring head at 5, a free block at 20.\<close>

definition demo_chan :: xchannel where
  "demo_chan = (let c = xchannel_create 0 64 in c\<lparr>c_threshold := 1, c_wpos := 2,
     c_sendbuf := (c_sendbuf c)\<lparr>b_spos := 1, b_wpos := 1,
       b_buf := (b_buf (c_sendbuf c))[0 := zero_pack\<lparr>k_timedout := 1000, k_head := zero_head\<lparr>h_type := XPACK_TYPE_MSG, h_len := 2, h_range := 1\<rparr>\<rparr>]\<rparr>\<rparr>)"

definition demo_env :: "u64 \<Rightarrow> xstate" where
  "demo_env now = demo_state\<lparr>w_clock := (\<lambda>_. now), w_sendok := (\<lambda>_. True), w_msgs := [9 \<mapsto> demo_msg\<lparr>f_ref := 1, f_args := [0, 0, 77, 10]\<rparr>]\<rparr>"

definition demo_msger :: "u64 \<Rightarrow> xmsger" where
  "demo_msger now = \<lparr>g_env = demo_env now, g_chan = [10 \<mapsto> demo_chan], g_ucid = (\<lambda>_. [7, 0, 0]), g_sock = (\<lambda>_. 0),
     g_list = \<lparr>r_head = 5, r_next = (\<lambda>n. if n = 5 then 10 else 5), r_prev = (\<lambda>n. if n = 5 then 10 else 5), r_len = 1\<rparr>,
     g_peers = \<lparr>t_root = \<lparr>v_heap = [10 \<mapsto> \<lparr>n_left = 0, n_right = 0, n_parent = 0, n_height = 1\<rparr>], v_root = 10\<rparr>, t_offset = 0, t_count = 1\<rparr>,
     g_cid = 7, g_timer = 0, g_laddr = [1, 0, 0], g_addrs = [77 \<mapsto> [7, 0, 0]], g_ipv6 = (\<lambda>_. False), g_alloc = (\<lambda>_. 20), g_allocs = 0,
     g_timedout = []\<rparr>"

lemma demo_msger_ok: "msger_ok (demo_msger now) [10]"
proof -
  have "tree_inv k (v_heap (t_root (g_peers (demo_msger now)))) (g_peers (demo_msger now)) (Bin Tip 10 1 Tip)" for k :: "nat \<Rightarrow> u64 \<times> u64 \<times> u64"
    by (simp add: tree_inv_def rep_def demo_msger_def)
  then have "tree_holds (chan_key (demo_msger now)) (g_peers (demo_msger now)) {10}"
    unfolding tree_holds_def by (intro conjI exI[of _ "Bin Tip 10 1 Tip"]) (simp_all add: demo_msger_def)
  then show ?thesis
    by (simp add: msger_ok_def msger_has_def ring_rep_def ring_links_def) (simp add: demo_msger_def tree_node_def)
qed

section \<open>Properties\<close>

text \<open>C4. Consistency: from its creation on, whatever arrives and whatever the application asks for, the
  messenger's ring of channels, its tree of channels and its live channels are the same set, the ring is
  correctly linked and counted and the tree ordered and balanced.\<close>

theorem messenger_consistent:
  assumes "xmsger_create os cb port M = Some (Some M0)" and "g_chan M = Map.empty" and "g_addrs M = Map.empty" and "msger_reach M0 M'"
  shows "\<exists>ps. ring_rep (g_list M') ps \<and> tree_holds (chan_key M') (g_peers M') (set ps) \<and> {p. g_chan M' p \<noteq> None} = set ps"
proof -
  obtain ps where "msger_ok M' ps" using reach_ok[OF assms(4) xmsger_create_ok[OF assms(1-3)]] by blast
  then show ?thesis by (auto simp: msger_ok_def msger_has_def)
qed

definition demo_os :: xos where
  "demo_os = \<lparr>os_open = (\<lambda>_. 3), os_bind = (\<lambda>_ _. True), os_addr = (\<lambda>_. Some [1, 0, 0]), os_thread = True\<rparr>"

definition demo_blank :: xmsger where
  "demo_blank = (demo_msger 0)\<lparr>g_chan := Map.empty, g_addrs := Map.empty\<rparr>"

theorem messenger_consistent_witness:
  "\<exists>M0 ps. xmsger_create demo_os True 9256 demo_blank = Some (Some M0) \<and> ring_rep (g_list M0) ps
     \<and> tree_holds (chan_key M0) (g_peers M0) (set ps) \<and> {p. g_chan M0 p \<noteq> None} = set ps"
proof -
  obtain M0 where M0: "xmsger_create demo_os True 9256 demo_blank = Some (Some M0)"
    by (simp add: xmsger_create_def demo_os_def bind_loop.simps clock_def)
  then show ?thesis
    using messenger_consistent[OF M0 _ _ msger_reach.start] by (simp add: demo_blank_def)
qed

text \<open>C9. Routing: a datagram from an address with a channel id is handed to exactly the channel with that
  identifier, and whatever it contains, no other channel, no link of the ring and no node of the tree
  changes; when there is no such channel it is treated as coming from a stranger.\<close>

theorem datagram_routing:
  assumes "msger_ok M ps" and "length (d_addr d) = 3"
  shows "(\<forall>p \<in> set ps. g_ucid M p = with_cid (d_addr d) (h_cid (k_head (d_pack d))) \<longrightarrow> recv_dispatch d M = recv_known p (d_pack d) M
      \<and> (\<forall>M' kept go_on. recv_known p (d_pack d) M = Some (M', kept, go_on) \<longrightarrow> only p M M'))
    \<and> ((\<forall>p \<in> set ps. g_ucid M p \<noteq> with_cid (d_addr d) (h_cid (k_head (d_pack d)))) \<longrightarrow>
        recv_dispatch d M = recv_unknown (d_sid d) (d_addr d) (with_cid (d_addr d) (h_cid (k_head (d_pack d)))) (d_pack d) M)"
  using dispatch_known[OF assms(1) _ assms(2)] recv_known_only dispatch_unknown[OF assms] by blast

definition demo_dgram :: dgram where
  "demo_dgram = \<lparr>d_sid = 0, d_addr = [0, 0, 0], d_pack = zero_pack\<lparr>k_head := zero_head\<lparr>h_cid := 7\<rparr>\<rparr>, d_msg = 0, d_chan = 0\<rparr>"

theorem datagram_routing_witness:
  "recv_dispatch demo_dgram (demo_msger 0) = recv_known 10 (d_pack demo_dgram) (demo_msger 0)"
proof -
  have "g_ucid (demo_msger 0) 10 = with_cid (d_addr demo_dgram) (h_cid (k_head (d_pack demo_dgram)))"
    by (simp add: demo_msger_def demo_dgram_def with_cid_def)
  moreover have "length (d_addr demo_dgram) = 3" by (simp add: demo_dgram_def)
  ultimately show ?thesis using datagram_routing[OF demo_msger_ok, of demo_dgram 0] by simp
qed

text \<open>C18. Connecting: as long as there are fewer than 65536 channels, the search for a channel id ends, with
  the first id from the messenger's counter on that no channel with the same address uses; the new channel
  is in the ring and in the tree under that id, carries the id in its acknowledgements and has the request
  queued as its first message, and no other channel changes.\<close>

theorem connect_takes_free_id:
  assumes "msger_ok M ps" and "fresh_memory M" and "g_alloc M (g_allocs M) = p" and "0 < p"
    and "mp \<noteq> 0" and "w_msgs (g_env M) mp = Some m" and "2 < length (f_args m)" and "g_addrs M (f_args m ! 2) = Some u" and "length ps < 65536"
  shows "\<exists>M' c i. local_connect mp M = Some (M', 0) \<and> msger_ok M' (p # ps) \<and> (\<forall>q. q \<noteq> p \<longrightarrow> g_chan M' q = g_chan M q)
     \<and> i < 65536 \<and> (\<forall>j < i. with_cid u (g_cid M + of_nat j) \<in> g_ucid M ` set ps) \<and> with_cid u (g_cid M + of_nat i) \<notin> g_ucid M ` set ps
     \<and> g_ucid M' p = with_cid u (g_cid M + of_nat i) \<and> g_chan M' p = Some c \<and> c_cid c = g_cid M + of_nat i \<and> h_cid (c_ack c) = c_cid c
     \<and> c_req c = mp \<and> b_buf (c_msgbuf c) ! 0 = mp \<and> serialbuf_sendable (c_msgbuf c) = 1 \<and> c_wpos c = f_wpos m"
  using assms by (rule local_connect_run)

theorem connect_takes_free_id_witness:
  "\<exists>M' c i. local_connect 9 (demo_msger 0) = Some (M', 0) \<and> msger_ok M' [20, 10] \<and> g_chan M' 20 = Some c \<and> c_cid c = 7 + of_nat i \<and> i < 65536"
proof -
  have "fresh_memory (demo_msger 0)" by (simp add: fresh_memory_def demo_msger_def)
  from connect_takes_free_id[OF demo_msger_ok this, of 20 9 "demo_msg\<lparr>f_ref := 1, f_args := [0, 0, 77, 10]\<rparr>" "[7, 0, 0]"]
  show ?thesis by (auto simp: demo_msger_def demo_env_def)
qed

text \<open>C19. Freeing: when every pointer of the channel to a message is backed by a reference, freeing the channel
  returns; the channel is gone from the ring, from the tree and from memory, the other channels stay as they
  were and in the same order, and only messages this channel refers to lose references.\<close>

theorem free_removes_channel:
  assumes "msger_ok M (xs @ p # ys)" and "g_chan M p = Some c" and "clearable ((g_env M)\<lparr>w_chan := c\<rparr>)"
  shows "\<exists>M'. xchannel_free p M = Some M' \<and> msger_ok M' (xs @ ys) \<and> (\<forall>q. q \<noteq> p \<longrightarrow> g_chan M' q = g_chan M q \<and> g_ucid M' q = g_ucid M q)
    \<and> g_chan M' p = None \<and> (\<forall>q. q \<notin> set (b_buf (c_msgbuf c)) \<and> q \<noteq> c_req c \<longrightarrow> w_msgs (g_env M') q = w_msgs (g_env M) q)"
  using assms by (rule xchannel_free_run)

theorem free_removes_channel_witness:
  "\<exists>M'. xchannel_free 10 (demo_msger 0) = Some M' \<and> msger_ok M' [] \<and> g_chan M' 10 = None"
proof -
  have "clearable ((g_env (demo_msger 0))\<lparr>w_chan := demo_chan\<rparr>)"
    by (simp add: clearable_def demo_chan_def xchannel_create_def XMSG_BUF_RANGE_def refs_ok_def Let_def)
  from free_removes_channel[of "demo_msger 0" "[]" 10 "[]", OF _ _ this] show ?thesis
    using demo_msger_ok[of 0] by (auto simp: demo_msger_def)
qed



text \<open>A channel whose window is full sends nothing new.\<close>

lemma pace_full:
  assumes "g_chan M p = Some c" and "c_threshold c \<le> serialbuf_readable (c_sendbuf c)"
  shows "\<exists>M1 k. pace p M = Some M1 \<and> only p M M1 \<and> g_env M1 = (g_env M)\<lparr>w_ticks := w_ticks (g_env M) + 1\<rparr> \<and> g_chan M1 p = Some (c\<lparr>c_kabuf := k\<rparr>)"
proof -
  have "\<exists>M1 k. pace p M = Some M1 \<and> g_env M1 = (g_env M)\<lparr>w_ticks := w_ticks (g_env M) + 1\<rparr> \<and> g_chan M1 p = Some (c\<lparr>c_kabuf := k\<rparr>)"
    using assms by (auto simp: pace_def clock_def Let_def shorten_timer_def not_less intro: exI[of _ "c_kabuf c"])
  then show ?thesis using pace_only by blast
qed

text \<open>C37. A dead peer stops everybody: when the first channel of the ring has a full window and its oldest packet
  has been unacknowledged for more than ten seconds, a sending round ends at that channel: nothing is sent
  and nothing is retransmitted for any other channel, however many are waiting behind it.\<close>

theorem timed_out_channel_starves_others:
  assumes "ring_rep (g_list M) (p # ps)" and "length ps < 2 ^ 63" and "g_chan M p = Some c"
    and "c_threshold c \<le> serialbuf_readable (c_sendbuf c)" and "serialbuf_recvable (c_sendbuf c) > 0"
    and "rd (b_buf (c_sendbuf c)) (serialbuf_index (c_sendbuf c) (b_rpos (c_sendbuf c))) = Some spack"
    and "now = w_clock (g_env M) (w_ticks (g_env M) + 1)" and "last_ts = (if c_ack_ts c > 0 then c_ack_ts c else c_send_ts c)"
    and "sint (k_timedout spack - (now - last_ts)) \<le> 0" and "now - last_ts > NANO_SECONDS * XCHANNEL_TIMEDOUT_LIMIT"
  shows "\<exists>M'. xmsger_send_all M = Some M' \<and> w_out (g_env M') = w_out (g_env M) \<and> (\<forall>q. q \<noteq> p \<longrightarrow> g_chan M' q = g_chan M q)"
proof -
  obtain M1 k where M1: "pace p M = Some M1" "only p M M1" "g_env M1 = (g_env M)\<lparr>w_ticks := w_ticks (g_env M) + 1\<rparr>" "g_chan M1 p = Some (c\<lparr>c_kabuf := k\<rparr>)"
    using pace_full[OF assms(3,4)] by blast
  have "\<exists>M2. check_timeouts p M1 = Some (M2, False) \<and> w_out (g_env M2) = w_out (g_env M1)"
    using assms(5-10) M1(3,4) by (cases "c_ack_ts c > 0") (simp_all add: check_timeouts_def clock_def Let_def signed_delay_def time_out_def not_less)
  then obtain M2 where M2: "check_timeouts p M1 = Some (M2, False)" "w_out (g_env M2) = w_out (g_env M1)" by blast
  have "xmsger_send_all M = Some M2" using send_all_serve[OF assms(1)] assms(2) M1(1) M2(1) by simp
  moreover have "only p M M2" using only_trans[OF M1(2) check_timeouts_only[OF M2(1)]] .
  ultimately show ?thesis using M2(2) M1(3) by (auto simp: only_def)
qed

definition demo_late :: u64 where "demo_late = 20000000000"

theorem timed_out_channel_starves_others_witness:
  "\<exists>M'. xmsger_send_all (demo_msger demo_late) = Some M' \<and> w_out (g_env M') = w_out (g_env (demo_msger demo_late))
     \<and> (\<forall>q. q \<noteq> 10 \<longrightarrow> g_chan M' q = g_chan (demo_msger demo_late) q)"
proof (rule timed_out_channel_starves_others[where ps = "[]" and c = demo_chan, OF _ _ _ _ _ _ refl refl])
  show "ring_rep (g_list (demo_msger demo_late)) [10]" by (simp add: demo_msger_def ring_rep_def ring_links_def)
  show "rd (b_buf (c_sendbuf demo_chan)) (serialbuf_index (c_sendbuf demo_chan) (b_rpos (c_sendbuf demo_chan)))
    = Some (zero_pack\<lparr>k_timedout := 1000, k_head := zero_head\<lparr>h_type := XPACK_TYPE_MSG, h_len := 2, h_range := 1\<rparr>\<rparr>)"
    by (simp add: demo_chan_def xchannel_create_def serialbuf_index_def Let_def)
qed (simp_all add: demo_msger_def demo_env_def demo_chan_def xchannel_create_def serialbuf_counts demo_late_def NANO_SECONDS_def
    XCHANNEL_TIMEDOUT_LIMIT_def Let_def)

text \<open>C20. Lost packets are sent again: when the time of the oldest unacknowledged packet of a channel is over and the
  channel has not waited for ten seconds, a pass of \<open>xmsger_send_all\<close> over the channel hands exactly that
  packet, with the same number and the same bytes, to the network again and goes on to the next channel; the
  packet stays in the window, counted as resent and with a longer time.\<close>

theorem overdue_packet_is_resent:
  assumes "g_chan M p = Some c" and "serialbuf_recvable (c_sendbuf c) > 0"
    and "rd (b_buf (c_sendbuf c)) (serialbuf_index (c_sendbuf c) (b_rpos (c_sendbuf c))) = Some spack"
    and "unat (h_len (k_head spack)) \<le> length (k_body spack)" and "w_sendok (g_env M) (w_sends (g_env M))"
    and "now = w_clock (g_env M) (w_ticks (g_env M))" and "last_ts = (if c_ack_ts c > 0 then c_ack_ts c else c_send_ts c)"
    and "sint (k_timedout spack - (now - last_ts)) \<le> 0" and "now - last_ts \<le> NANO_SECONDS * XCHANNEL_TIMEDOUT_LIMIT"
  shows "\<exists>M' c' h spack'. check_timeouts p M = Some (M', True) \<and> w_out (g_env M') = w_out (g_env M) @ [(h, pack_bytes spack)]
    \<and> h_sn h = h_sn (k_head spack) \<and> h_cid h = h_cid (k_head spack) \<and> h_type h = h_type (k_head spack)
    \<and> g_chan M' p = Some c' \<and> rd (b_buf (c_sendbuf c')) (serialbuf_index (c_sendbuf c') (b_rpos (c_sendbuf c'))) = Some spack'
    \<and> k_timedout spack' = resend_scaled (k_timedout spack) \<and> h_resend (k_head spack') = h_resend (k_head spack) + 1 \<and> k_body spack' = k_body spack
    \<and> serialbuf_recvable (c_sendbuf c') = serialbuf_recvable (c_sendbuf c)"
proof -
  let ?sb = "c_sendbuf c" and ?w = "(g_env M)\<lparr>w_ticks := w_ticks (g_env M) + 1\<rparr>"
  let ?i = "serialbuf_index ?sb (b_rpos ?sb)"
  have i: "?i < length (b_buf ?sb)" using assms(3) by (auto simp: rd_def split: if_splits)
  define h where "h = (if h_ack_type (k_head spack) \<noteq> 0 then (k_head spack)\<lparr>h_ack_pos := b_wpos (c_recvbuf c)\<rparr> else k_head spack)"
  define spack' where "spack' = spack\<lparr>k_kabuf := now - k_ts spack, k_ts := now, k_timedout := resend_scaled (k_timedout spack), k_head := h\<lparr>h_resend := h_resend h + 1\<rparr>\<rparr>"
  define c' where "c' = c\<lparr>c_sendbuf := ?sb\<lparr>b_buf := (b_buf ?sb)[?i := spack']\<rparr>,
      c_threshold := (if c_threshold c > XCHANNEL_THRESHOLD_MIN then c_threshold c - 1 else c_threshold c)\<rparr>"
  have hl: "h_len h = h_len (k_head spack)" "h_sn h = h_sn (k_head spack)" "h_cid h = h_cid (k_head spack)" "h_type h = h_type (k_head spack)"
    "h_resend h = h_resend (k_head spack)" by (simp_all add: h_def)
  have body: "rd_seg (k_body spack) 0 (unat (h_len h)) = Some (pack_bytes spack)" using assms(4) hl by (simp add: pack_bytes_def)
  have re: "resend_first now (?w\<lparr>w_chan := c\<rparr>) = Some (?w\<lparr>w_sends := w_sends (g_env M) + 1, w_out := w_out (g_env M) @ [(h, pack_bytes spack)], w_chan := c'\<rparr>)"
    using assms(3,5) i body by (cases "h_ack_type (k_head spack) = 0") (simp_all add: resend_first_def udp_sendto_def Let_def h_def c'_def spack'_def)
  let ?M = "M\<lparr>g_env := ?w\<lparr>w_sends := w_sends (g_env M) + 1, w_out := w_out (g_env M) @ [(h, pack_bytes spack)], w_chan := c'\<rparr>, g_chan := (g_chan M)(p \<mapsto> c')\<rparr>"
  have "check_timeouts p M = Some (?M, True)"
    using assms(1-3,6-9) re by (cases "c_ack_ts c > 0") (simp_all add: check_timeouts_def clock_def Let_def signed_delay_def not_less on_chan_def)
  moreover have "rd (b_buf (c_sendbuf c')) (serialbuf_index (c_sendbuf c') (b_rpos (c_sendbuf c'))) = Some spack'"
    using i by (simp add: c'_def serialbuf_index_def)
  ultimately show ?thesis using hl
    by (intro exI[of _ ?M] exI[of _ c'] exI[of _ h] exI[of _ spack']) (simp add: spack'_def c'_def serialbuf_recvable_def)
qed

theorem overdue_packet_is_resent_witness:
  "\<exists>M' h. check_timeouts 10 (demo_msger 2000) = Some (M', True) \<and> w_out (g_env M') = w_out (g_env (demo_msger 2000)) @ [(h, [0, 0])]"
proof -
  let ?s = "zero_pack\<lparr>k_timedout := 1000, k_head := zero_head\<lparr>h_type := XPACK_TYPE_MSG, h_len := 2, h_range := 1\<rparr>\<rparr>"
  have b: "pack_bytes ?s = [0, 0]" by (simp add: pack_bytes_def zero_pack_def XBODY_SIZE_def replicate_2)
  have r: "rd (b_buf (c_sendbuf demo_chan)) (serialbuf_index (c_sendbuf demo_chan) (b_rpos (c_sendbuf demo_chan))) = Some ?s"
    by (simp add: demo_chan_def xchannel_create_def serialbuf_index_def Let_def)
  show ?thesis
    using overdue_packet_is_resent[of "demo_msger 2000" 10 demo_chan ?s, OF _ _ r _ _ refl refl] b
    by (auto simp: demo_msger_def demo_env_def demo_chan_def xchannel_create_def serialbuf_counts NANO_SECONDS_def
      XCHANNEL_TIMEDOUT_LIMIT_def Let_def zero_pack_def XBODY_SIZE_def)
qed

end
