(* ===== verification/Xheap.thy ===== *)
theory Xheap
  imports Prelude
begin

text \<open>
  The binary min-heap of \<open>src/src/xnet/xheap.h\<close>. The array holds pointers to nodes that live elsewhere;
  every node knows its index in the array. Index 0 of the array is the place where a removed node is
  parked, the heap is stored from index 1. \<open>size_t\<close> values are natural numbers (all are bounded by the
  length, which is a \<open>uint32_t\<close>); the \<open>uint32_t\<close> indices of \<open>xheap_pop\<close> and \<open>xheap_remove\<close> are reduced
  modulo \<open>2^32\<close> where the source doubles them.
\<close>

section \<open>Model\<close>

record xheapnode =
  x_pos :: nat
  x_key :: u64
  x_value :: nat

record xheap =
  p_pos :: nat
  p_len :: nat
  p_array :: "nat list"
  p_nodes :: "nat \<Rightarrow> xheapnode option"

definition HEAP_TOP :: nat where "HEAP_TOP = 1"

definition heap_top :: "nat \<Rightarrow> nat" where "heap_top i = i div 2"
definition heap_left :: "nat \<Rightarrow> nat" where "heap_left i = (2 * i) mod 2 ^ 32"
definition heap_right :: "nat \<Rightarrow> nat" where "heap_right i = (heap_left i + 1) mod 2 ^ 32"

definition node_of :: "nat \<Rightarrow> xheap \<Rightarrow> xheapnode option" where
  "node_of p h = (if p = 0 then None else p_nodes h p)"

definition key_at :: "nat \<Rightarrow> xheap \<Rightarrow> u64 option" where
  "key_at i h = do {
     p \<leftarrow> rd (p_array h) i;
     n \<leftarrow> node_of p h;
     Some (x_key n) }"

text \<open>\<open>h->array[i] = p; h->array[i]->pos = i\<close>.\<close>

definition put_at :: "nat \<Rightarrow> nat \<Rightarrow> xheap \<Rightarrow> xheap option" where
  "put_at i p h = do {
     arr \<leftarrow> wr (p_array h) i p;
     n \<leftarrow> node_of p h;
     Some (h\<lparr>p_array := arr, p_nodes := (p_nodes h)(p \<mapsto> n\<lparr>x_pos := i\<rparr>)\<rparr>) }"

definition xheap_create :: "(nat \<Rightarrow> xheapnode option) \<Rightarrow> nat \<Rightarrow> xheap" where
  "xheap_create nodes sz = \<lparr>p_pos = 0, p_len = sz, p_array = replicate (1 + sz) 0, p_nodes = nodes\<rparr>"

lemma heap_top_less [termination_simp]: "0 < heap_top i \<Longrightarrow> heap_top i < i"
  by (simp add: heap_top_def)

text \<open>The loop of \<open>xheap_push\<close>: parents with a larger key move down.\<close>

fun sift_up :: "u64 \<Rightarrow> nat \<Rightarrow> xheap \<Rightarrow> (nat \<times> xheap) option" where
  "sift_up key i h =
     (if heap_top i > 0 then do {
        k \<leftarrow> key_at (heap_top i) h;
        if key < k then do {
          p \<leftarrow> rd (p_array h) (heap_top i);
          h' \<leftarrow> put_at i p h;
          sift_up key (heap_top i) h' }
        else Some (i, h) }
      else Some (i, h))"

declare sift_up.simps [simp del]

definition xheap_push :: "nat \<Rightarrow> xheap \<Rightarrow> (nat \<times> xheap) option" where
  "xheap_push node h =
     (if p_pos h < p_len h then do {
        let h1 = h\<lparr>p_pos := p_pos h + 1\<rparr>;
        n \<leftarrow> node_of node h1;
        (i, h2) \<leftarrow> sift_up (x_key n) (p_pos h1) h1;
        h3 \<leftarrow> put_at i node h2;
        Some (i, h3) }
      else Some (0, h))"

text \<open>
  The loop that \<open>xheap_pop\<close> and \<open>xheap_remove\<close> share: the node at \<open>index\<close> sinks below smaller
  children. \<open>pos\<close> is not yet decreased, so the last place is not compared.
\<close>

definition smaller_child :: "nat \<Rightarrow> nat \<Rightarrow> xheap \<Rightarrow> nat option" where
  "smaller_child smallest child h =
     (if child < p_pos h then do {
        k \<leftarrow> key_at smallest h;
        c \<leftarrow> key_at child h;
        Some (if k > c then child else smallest) }
      else Some smallest)"

partial_function (option) sift_down :: "nat \<Rightarrow> xheap \<Rightarrow> xheap option" where
  "sift_down index h = do {
     s1 \<leftarrow> smaller_child index (heap_left index) h;
     smallest \<leftarrow> smaller_child s1 (heap_right index) h;
     if smallest \<noteq> index then do {
       tmp \<leftarrow> rd (p_array h) index;
       q \<leftarrow> rd (p_array h) smallest;
       h1 \<leftarrow> put_at index q h;
       h2 \<leftarrow> put_at smallest tmp h1;
       sift_down smallest h2 }
     else Some h }"

text \<open>Taking the only node, and moving the last node to the place \<open>i\<close> that becomes free.\<close>

definition take_single :: "xheap \<Rightarrow> (nat \<times> xheap) option" where
  "take_single h = do {
     p \<leftarrow> rd (p_array h) HEAP_TOP;
     arr \<leftarrow> wr (p_array h) 0 p;
     arr' \<leftarrow> wr arr HEAP_TOP 0;
     Some (p, h\<lparr>p_pos := 0, p_array := arr'\<rparr>) }"

definition move_last :: "nat \<Rightarrow> xheap \<Rightarrow> xheap option" where
  "move_last i h = do {
     p \<leftarrow> rd (p_array h) i;
     arr \<leftarrow> wr (p_array h) 0 p;
     q \<leftarrow> rd arr (p_pos h);
     h1 \<leftarrow> put_at i q (h\<lparr>p_array := arr\<rparr>);
     arr' \<leftarrow> wr (p_array h1) (p_pos h) 0;
     Some (h1\<lparr>p_array := arr'\<rparr>) }"

definition finish_take :: "xheap \<Rightarrow> (nat \<times> xheap) option" where
  "finish_take h = do {
     p \<leftarrow> rd (p_array h) 0;
     Some (p, h\<lparr>p_pos := p_pos h - 1\<rparr>) }"

definition xheap_pop :: "xheap \<Rightarrow> (nat \<times> xheap) option" where
  "xheap_pop h =
     (if p_pos h < HEAP_TOP then Some (0, h)
      else if p_pos h = HEAP_TOP then take_single h
      else do {
        h1 \<leftarrow> move_last HEAP_TOP h;
        h2 \<leftarrow> sift_down HEAP_TOP h1;
        finish_take h2 })"

definition xheap_remove :: "nat \<Rightarrow> xheap \<Rightarrow> (nat \<times> xheap) option" where
  "xheap_remove node h = do {
     n \<leftarrow> node_of node h;
     let smallest = x_pos n mod 2 ^ 32;
     if p_pos h < HEAP_TOP then Some (0, h)
     else if p_pos h = HEAP_TOP then take_single h
     else do {
       k \<leftarrow> key_at smallest h;
       if k \<noteq> x_key n then Some (0, h)
       else do {
         h1 \<leftarrow> move_last smallest h;
         h2 \<leftarrow> sift_down smallest h1;
         finish_take h2 } } }"

section \<open>Heap order\<close>

text \<open>
  \<open>slots A n h\<close>: the first \<open>n\<close> places of the array \<open>A\<close> hold live nodes that know their places (so no node
  is there twice). \<open>ordered\<close>: no node has a larger key than its children.
\<close>

definition hkey :: "xheap \<Rightarrow> nat \<Rightarrow> u64" where
  "hkey h p = (case p_nodes h p of None \<Rightarrow> 0 | Some n \<Rightarrow> x_key n)"

definition slots :: "nat \<Rightarrow> xheap \<Rightarrow> bool" where
  "slots n h \<longleftrightarrow> n < length (p_array h)
     \<and> (\<forall>i. 0 < i \<and> i \<le> n \<longrightarrow> p_array h ! i \<noteq> 0 \<and> (\<exists>m. p_nodes h (p_array h ! i) = Some m \<and> x_pos m = i))"

definition ordered :: "nat \<Rightarrow> xheap \<Rightarrow> bool" where
  "ordered n h \<longleftrightarrow> (\<forall>i. 1 < i \<and> i \<le> n \<longrightarrow> hkey h (p_array h ! (i div 2)) \<le> hkey h (p_array h ! i))"

definition members :: "nat \<Rightarrow> xheap \<Rightarrow> nat set" where
  "members n h = (!) (p_array h) ` {1..n}"

definition heap_ok :: "xheap \<Rightarrow> bool" where
  "heap_ok h \<longleftrightarrow> length (p_array h) = p_len h + 1 \<and> p_pos h \<le> p_len h \<and> p_len h < 2 ^ 31
     \<and> slots (p_pos h) h \<and> ordered (p_pos h) h"

lemma put_at_run:
  assumes "i < length (p_array h)" and "p \<noteq> 0" and "p_nodes h p = Some n"
  shows "put_at i p h = Some (h\<lparr>p_array := (p_array h)[i := p], p_nodes := (p_nodes h)(p \<mapsto> n\<lparr>x_pos := i\<rparr>)\<rparr>)"
  using assms by (simp add: put_at_def node_of_def)

lemma slots_node:
  assumes "slots n h" and "0 < j" and "j \<le> n"
  obtains m where "p_array h ! j \<noteq> 0" and "p_nodes h (p_array h ! j) = Some m" and "x_pos m = j"
  using assms unfolding slots_def by metis

lemma key_at_run:
  assumes "slots n h" and "0 < i" and "i \<le> n"
  shows "key_at i h = Some (hkey h (p_array h ! i))"
proof -
  obtain m where "p_array h ! i \<noteq> 0" "p_nodes h (p_array h ! i) = Some m" by (rule slots_node[OF assms])
  moreover have "i < length (p_array h)" using assms(1,3) by (simp add: slots_def)
  ultimately show ?thesis by (simp add: key_at_def node_of_def hkey_def)
qed

lemma hkey_put [simp]: "p_nodes h p = Some n \<Longrightarrow> hkey (h\<lparr>p_array := A, p_nodes := (p_nodes h)(p \<mapsto> n\<lparr>x_pos := i\<rparr>)\<rparr>) q = hkey h q"
  by (auto simp: hkey_def)

lemma slots_inj:
  assumes "slots n h" and "0 < i" and "i \<le> n" and "0 < j" and "j \<le> n" and "p_array h ! i = p_array h ! j"
  shows "i = j"
proof -
  obtain m where m: "p_nodes h (p_array h ! i) = Some m" "x_pos m = i" by (rule slots_node[OF assms(1-3)])
  obtain k where k: "p_nodes h (p_array h ! j) = Some k" "x_pos k = j" by (rule slots_node[OF assms(1,4,5)])
  show ?thesis using m k assms(6) by simp
qed

text \<open>What every rearrangement of the first \<open>n\<close> places keeps.\<close>

definition same_heap :: "nat \<Rightarrow> xheap \<Rightarrow> xheap \<Rightarrow> bool" where
  "same_heap n h h' \<longleftrightarrow> p_pos h' = p_pos h \<and> p_len h' = p_len h \<and> length (p_array h') = length (p_array h)
     \<and> p_array h' ! 0 = p_array h ! 0 \<and> hkey h' = hkey h \<and> members n h' = members n h"

lemma same_heap_refl [simp]: "same_heap n h h"
  by (simp add: same_heap_def)

lemma same_heap_trans: "same_heap n h h' \<Longrightarrow> same_heap n h' h'' \<Longrightarrow> same_heap n h h''"
  by (simp add: same_heap_def)

definition swap_slots :: "nat \<Rightarrow> nat \<Rightarrow> xheap \<Rightarrow> xheap option" where
  "swap_slots i j h = do {
     tmp \<leftarrow> rd (p_array h) i;
     q \<leftarrow> rd (p_array h) j;
     h1 \<leftarrow> put_at i q h;
     put_at j tmp h1 }"

lemma swap_image:
  assumes "0 < i" and "i \<le> n" and "0 < j" and "j \<le> n" and "n < length A"
  shows "(!) (A[i := A ! j, j := A ! i]) ` {1..n} = (!) A ` {1..n}" (is "?L = ?R")
proof -
  let ?f = "\<lambda>k. if k = i then j else if k = j then i else k"
  have "(!) (A[i := A ! j, j := A ! i]) ` {1..n} = (\<lambda>k. A ! (?f k)) ` {1..n}"
    using assms by (intro image_cong) (auto simp: nth_list_update)
  also have "\<dots> = (!) A ` (?f ` {1..n})" by (simp only: image_image)
  also have "?f ` {1..n} = {1..n}"
  proof (intro set_eqI iffI)
    fix k assume "k \<in> {1..n}"
    then show "k \<in> ?f ` {1..n}" using assms by (intro image_eqI[of _ _ "?f k"]) auto
  qed (use assms in auto)
  finally show ?thesis .
qed

lemma swap_run:
  assumes "slots n h" and "0 < i" and "i \<le> n" and "0 < j" and "j \<le> n" and "i \<noteq> j"
  shows "\<exists>h'. swap_slots i j h = Some h' \<and> slots n h' \<and> same_heap n h h'
     \<and> p_array h' = (p_array h)[i := p_array h ! j, j := p_array h ! i]"
proof -
  let ?A = "p_array h" and ?p = "p_array h ! i" and ?q = "p_array h ! j"
  have len: "n < length ?A" using assms(1) by (simp add: slots_def)
  obtain np where np: "?p \<noteq> 0" "p_nodes h ?p = Some np" "x_pos np = i" by (rule slots_node[OF assms(1-3)])
  obtain nq where nq: "?q \<noteq> 0" "p_nodes h ?q = Some nq" "x_pos nq = j" by (rule slots_node[OF assms(1,4,5)])
  have pq: "?p \<noteq> ?q" using slots_inj[OF assms(1-5)] assms(6) by blast
  let ?h = "h\<lparr>p_array := ?A[i := ?q, j := ?p], p_nodes := (p_nodes h)(?q \<mapsto> nq\<lparr>x_pos := i\<rparr>, ?p \<mapsto> np\<lparr>x_pos := j\<rparr>)\<rparr>"
  have "swap_slots i j h = Some ?h"
    using len assms(3,5) np nq pq by (simp add: swap_slots_def put_at_run)
  moreover have "?A ! k \<noteq> ?p \<and> ?A ! k \<noteq> ?q" if "0 < k" "k \<le> n" "k \<noteq> i" "k \<noteq> j" for k
    using slots_inj[OF assms(1) that(1,2)] assms(2-5) that(3,4) by blast
  then have "slots n ?h"
    using assms(1) len np nq pq assms(3,5,6) unfolding slots_def by (auto simp: nth_list_update)
  moreover have "hkey ?h = hkey h" using np nq by (auto simp: hkey_def)
  then have "same_heap n h ?h"
    using swap_image[OF assms(2-5) len] assms(2,4) by (simp add: same_heap_def members_def)
  ultimately show ?thesis by auto
qed

text \<open>The heap order with the exception of the children of place \<open>i\<close>, which respect the node above \<open>i\<close>.\<close>

definition order_except :: "nat \<Rightarrow> nat \<Rightarrow> xheap \<Rightarrow> bool" where
  "order_except i n h \<longleftrightarrow>
     (\<forall>j. 1 < j \<and> j \<le> n \<and> j div 2 \<noteq> i \<longrightarrow> hkey h (p_array h ! (j div 2)) \<le> hkey h (p_array h ! j))
     \<and> (\<forall>j. 1 < j \<and> j \<le> n \<and> j div 2 = i \<and> 1 < i \<longrightarrow> hkey h (p_array h ! (i div 2)) \<le> hkey h (p_array h ! j))"

lemma smaller_child_run:
  assumes "slots n h" and "p_pos h = Suc n" and "0 < i" and "i \<le> n" and "0 < c"
  shows "smaller_child i c h = Some (if c \<le> n \<and> hkey h (p_array h ! i) > hkey h (p_array h ! c) then c else i)"
  using assms key_at_run[OF assms(1)] by (auto simp: smaller_child_def)

lemma child_bounds: "0 < i \<Longrightarrow> i < 2 ^ 31 \<Longrightarrow> heap_left i = 2 * i \<and> heap_right i = 2 * i + 1"
  by (simp add: heap_left_def heap_right_def)

lemma half_cases: "0 < i \<Longrightarrow> j div 2 = i \<longleftrightarrow> j = 2 * i \<or> j = 2 * i + 1" for i j :: nat
  by auto

text \<open>After the swap with the smaller child \<open>m\<close>, only the children of \<open>m\<close> may be out of order.\<close>

lemma swap_order:
  assumes "order_except i n h" and "0 < i" and "m = 2 * i \<or> m = 2 * i + 1" and "m \<le> n" and "n < length (p_array h)"
    and "hkey h (p_array h ! m) \<le> hkey h (p_array h ! i)"
    and "\<forall>j. j div 2 = i \<and> j \<le> n \<longrightarrow> hkey h (p_array h ! m) \<le> hkey h (p_array h ! j)"
    and "p_array h' = (p_array h)[i := p_array h ! m, m := p_array h ! i]" and "hkey h' = hkey h"
  shows "order_except m n h'"
proof -
  let ?A = "p_array h" and ?B = "p_array h'" and ?k = "hkey h"
  have mi: "m div 2 = i" "i < m" "1 < m" using assms(2,3) by auto
  have B: "?B ! i = ?A ! m" "?B ! m = ?A ! i" "\<And>j. j \<noteq> i \<Longrightarrow> j \<noteq> m \<Longrightarrow> ?B ! j = ?A ! j"
    using assms(4,5,8) mi by simp_all
  have ord: "?k (?A ! (j div 2)) \<le> ?k (?A ! j)" if "1 < j" "j \<le> n" "j div 2 \<noteq> i" for j
    using assms(1) that by (simp add: order_except_def)
  have up: "?k (?A ! (i div 2)) \<le> ?k (?A ! j)" if "1 < j" "j \<le> n" "j div 2 = i" "1 < i" for j
    using assms(1) that by (simp add: order_except_def)
  have "?k (?B ! (j div 2)) \<le> ?k (?B ! j)" if j: "1 < j" "j \<le> n" "j div 2 \<noteq> m" for j
  proof -
    consider "j = m" | "j = i" | "j \<noteq> m" "j \<noteq> i" "j div 2 = i" | "j \<noteq> m" "j \<noteq> i" "j div 2 \<noteq> i" by blast
    then show ?thesis
    proof cases
      case 1
      then show ?thesis using assms(6) B mi by simp
    next
      case 2
      then have "j div 2 \<noteq> i" "j div 2 \<noteq> m" using j mi by auto
      then show ?thesis using 2 up[of m] mi B j assms(4) by simp
    next
      case 3
      then show ?thesis using assms(7) j B by simp
    next
      case 4
      then show ?thesis using ord[of j] j B by simp
    qed
  qed
  moreover have "?k (?B ! (m div 2)) \<le> ?k (?B ! j)" if "1 < j" "j \<le> n" "j div 2 = m" "1 < m" for j
  proof -
    have "j \<noteq> m" "j \<noteq> i" "j div 2 \<noteq> i" using that mi by auto
    then show ?thesis using ord[of j] that mi B by simp
  qed
  ultimately show ?thesis using assms(9) by (simp add: order_except_def)
qed

lemma sift_down_unfold:
  "sift_down i h = do {
     s1 \<leftarrow> smaller_child i (heap_left i) h;
     m \<leftarrow> smaller_child s1 (heap_right i) h;
     if m \<noteq> i then Option.bind (swap_slots i m h) (sift_down m) else Some h }"
  by (subst sift_down.simps) (simp add: swap_slots_def Option.bind_assoc cong: if_cong)

lemma sift_down_rep:
  assumes "slots n h" and "p_pos h = Suc n" and "n < 2 ^ 31" and "0 < i" and "i \<le> n"
  shows "\<exists>h'. sift_down i h = Some h' \<and> slots n h' \<and> same_heap n h h' \<and> (order_except i n h \<longrightarrow> ordered n h')"
  using assms
proof (induction "n - i" arbitrary: i h rule: less_induct)
  case less
  let ?A = "p_array h" and ?k = "hkey h"
  have ch: "heap_left i = 2 * i" "heap_right i = 2 * i + 1" using child_bounds less.prems by auto
  define s1 where "s1 = (if 2 * i \<le> n \<and> ?k (?A ! i) > ?k (?A ! (2 * i)) then 2 * i else i)"
  define m where "m = (if 2 * i + 1 \<le> n \<and> ?k (?A ! s1) > ?k (?A ! (2 * i + 1)) then 2 * i + 1 else s1)"
  have s1: "0 < s1" "s1 \<le> n" using less.prems by (auto simp: s1_def)
  have run: "sift_down i h = (if m \<noteq> i then Option.bind (swap_slots i m h) (sift_down m) else Some h)"
  proof -
    have "smaller_child i (2 * i) h = Some s1" "smaller_child s1 (2 * i + 1) h = Some m"
      using smaller_child_run[OF less.prems(1,2,4,5), of "2 * i"] smaller_child_run[OF less.prems(1,2) s1, of "2 * i + 1"] less.prems(4)
      by (simp_all add: s1_def m_def)
    then show ?thesis using ch by (subst sift_down_unfold) simp
  qed
  have kid: "?k (?A ! m) \<le> ?k (?A ! i)" "\<forall>j. j div 2 = i \<and> j \<le> n \<longrightarrow> ?k (?A ! m) \<le> ?k (?A ! j)"
    using less.prems(4) by (auto simp: m_def s1_def half_cases)
  show ?case
  proof (cases "m = i")
    case True
    have "ordered n h" if "order_except i n h"
      unfolding ordered_def
    proof (intro allI impI)
      fix j assume j: "1 < j \<and> j \<le> n"
      show "?k (?A ! (j div 2)) \<le> ?k (?A ! j)"
        using that kid(2) True j by (cases "j div 2 = i") (auto simp: order_except_def)
    qed
    then show ?thesis using True run less.prems(1) by simp
  next
    case False
    then have m: "m = 2 * i \<or> m = 2 * i + 1" "m \<le> n" "i < m" using less.prems(4) by (auto simp: m_def s1_def split: if_splits)
    obtain h1 where h1: "swap_slots i m h = Some h1" "slots n h1" "same_heap n h h1" "p_array h1 = ?A[i := ?A ! m, m := ?A ! i]"
      using swap_run[OF less.prems(1,4,5) _ m(2)] m(3) by auto
    have "order_except m n h1" if "order_except i n h"
      using swap_order[OF that less.prems(4) m(1,2) _ kid h1(4)] less.prems(1) h1(3) by (simp add: slots_def same_heap_def)
    moreover have "\<exists>h'. sift_down m h1 = Some h' \<and> slots n h' \<and> same_heap n h1 h' \<and> (order_except m n h1 \<longrightarrow> ordered n h')"
      using less.hyps[of m h1] h1(2,3) m less.prems(2,3,5) by (simp add: same_heap_def)
    ultimately show ?thesis using run False h1(1,3) same_heap_trans[of n h h1] by auto
  qed
qed

section \<open>Pushing\<close>

text \<open>The heap with a free place \<open>i\<close> into which \<open>p\<close> may go.\<close>

definition gap :: "nat \<Rightarrow> nat \<Rightarrow> nat \<Rightarrow> xheap \<Rightarrow> bool" where
  "gap p i n h \<longleftrightarrow> n < length (p_array h) \<and> 0 < i \<and> i \<le> n
     \<and> (\<forall>j. 0 < j \<and> j \<le> n \<and> j \<noteq> i \<longrightarrow> p_array h ! j \<noteq> 0 \<and> p_array h ! j \<noteq> p
          \<and> (\<exists>m. p_nodes h (p_array h ! j) = Some m \<and> x_pos m = j))"

definition filled :: "nat \<Rightarrow> nat \<Rightarrow> xheap \<Rightarrow> nat \<Rightarrow> u64" where
  "filled p i h j = hkey h (if j = i then p else p_array h ! j)"

definition order_up :: "nat \<Rightarrow> nat \<Rightarrow> nat \<Rightarrow> xheap \<Rightarrow> bool" where
  "order_up p i n h \<longleftrightarrow> (\<forall>j. 1 < j \<and> j \<le> n \<and> j \<noteq> i \<longrightarrow> filled p i h (j div 2) \<le> filled p i h j)
     \<and> (\<forall>j. 1 < j \<and> j \<le> n \<and> j div 2 = i \<and> 1 < i \<longrightarrow> filled p i h (i div 2) \<le> filled p i h j)"

lemma gap_node:
  assumes "gap p i n h" and "0 < j" and "j \<le> n" and "j \<noteq> i"
  obtains m where "p_array h ! j \<noteq> 0" and "p_array h ! j \<noteq> p" and "p_nodes h (p_array h ! j) = Some m" and "x_pos m = j"
  using assms by (auto simp: gap_def)

lemma gap_key:
  assumes "gap p i n h" and "0 < j" and "j \<le> n" and "j \<noteq> i"
  shows "key_at j h = Some (hkey h (p_array h ! j))"
proof -
  have "j < length (p_array h)" using assms(1,3) by (simp add: gap_def)
  moreover obtain m where "p_array h ! j \<noteq> 0" "p_nodes h (p_array h ! j) = Some m" by (rule gap_node[OF assms])
  ultimately show ?thesis by (simp add: key_at_def node_of_def hkey_def)
qed

lemma gap_distinct:
  assumes "gap p i n h" and "0 < a" and "a \<le> n" and "a \<noteq> i" and "0 < b" and "b \<le> n" and "b \<noteq> i" and "p_array h ! a = p_array h ! b"
  shows "a = b"
proof -
  obtain m where m: "p_nodes h (p_array h ! a) = Some m" "x_pos m = a" by (rule gap_node[OF assms(1-4)])
  obtain k where k: "p_nodes h (p_array h ! b) = Some k" "x_pos k = b" by (rule gap_node[OF assms(1,5-7)])
  show ?thesis using m k assms(8) by simp
qed

text \<open>One round: the node above moves down into the free place.\<close>

lemma gap_move:
  assumes "gap p i n h" and "1 < i" and "order_up p i n h" and "hkey h p < hkey h (p_array h ! (i div 2))"
  shows "\<exists>h'. put_at i (p_array h ! (i div 2)) h = Some h' \<and> gap p (i div 2) n h' \<and> order_up p (i div 2) n h'
     \<and> hkey h' = hkey h \<and> p_pos h' = p_pos h \<and> p_len h' = p_len h \<and> length (p_array h') = length (p_array h)
     \<and> p_nodes h' p = p_nodes h p
     \<and> (!) (p_array h') ` ({1..n} - {i div 2}) = (!) (p_array h) ` ({1..n} - {i})"
proof -
  let ?A = "p_array h" and ?t = "i div 2"
  let ?q = "?A ! ?t"
  have t: "0 < ?t" "?t < i" "?t \<le> n" "i \<le> n" "i < length ?A" using assms(1,2) by (auto simp: gap_def)
  obtain m where m: "?q \<noteq> 0" "?q \<noteq> p" "p_nodes h ?q = Some m" "x_pos m = ?t"
    by (rule gap_node[OF assms(1), of ?t]) (use t in auto)
  let ?h = "h\<lparr>p_array := ?A[i := ?q], p_nodes := (p_nodes h)(?q \<mapsto> m\<lparr>x_pos := i\<rparr>)\<rparr>"
  have run: "put_at i ?q h = Some ?h" using t m by (simp add: put_at_run)
  have k: "hkey ?h = hkey h" using m by (auto simp: hkey_def)
  have other: "?A ! j \<noteq> ?q" if "0 < j" "j \<le> n" "j \<noteq> i" "j \<noteq> ?t" for j
    using gap_distinct[OF assms(1), of j ?t] that t by auto
  have gap': "gap p ?t n ?h"
    unfolding gap_def
  proof (intro conjI allI impI)
    fix j assume j: "0 < j \<and> j \<le> n \<and> j \<noteq> ?t"
    let ?B = "p_array ?h"
    have "?B ! j \<noteq> 0 \<and> ?B ! j \<noteq> p \<and> (\<exists>m. p_nodes ?h (?B ! j) = Some m \<and> x_pos m = j)"
    proof (cases "j = i")
      case True
      then show ?thesis using t m by simp
    next
      case False
      then have "?A ! j \<noteq> 0" "?A ! j \<noteq> p" "\<exists>m. p_nodes h (?A ! j) = Some m \<and> x_pos m = j"
        using assms(1) j unfolding gap_def by blast+
      then show ?thesis using False other[of j] j by simp
    qed
    then show "?B ! j \<noteq> 0" "?B ! j \<noteq> p" "\<exists>m. p_nodes ?h (?B ! j) = Some m \<and> x_pos m = j" by blast+
  qed (use assms(1) t in \<open>simp_all add: gap_def\<close>)
  have fl: "filled p ?t ?h j = (if j = i then hkey h ?q else if j = ?t then hkey h p else hkey h (?A ! j))" for j
    using k t by (auto simp: filled_def)
  have f0: "filled p i h j = (if j = i then hkey h p else hkey h (?A ! j))" for j by (auto simp: filled_def)
  have "filled p ?t ?h (j div 2) \<le> filled p ?t ?h j" if j: "1 < j" "j \<le> n" "j \<noteq> ?t" for j
  proof -
    consider "j = i" | "j \<noteq> i" "j div 2 = i" | "j \<noteq> i" "j div 2 = ?t" | "j \<noteq> i" "j div 2 \<noteq> i" "j div 2 \<noteq> ?t" by blast
    then show ?thesis
    proof cases
      case 1
      then show ?thesis using fl assms(4) t by auto
    next
      case 2
      then have "filled p i h ?t \<le> filled p i h j" using assms(2,3) j by (simp add: order_up_def)
      then show ?thesis using 2 fl f0 j t by auto
    next
      case 3
      then have "filled p i h ?t \<le> filled p i h j" using assms(3) j by (auto simp: order_up_def)
      then have "hkey h ?q \<le> hkey h (?A ! j)" using 3 f0 t by auto
      then have "hkey h p \<le> hkey h (?A ! j)" using assms(4) by (meson less_imp_le order.trans)
      then show ?thesis using 3 fl j t by auto
    next
      case 4
      then have "filled p i h (j div 2) \<le> filled p i h j" using assms(3) j by (auto simp: order_up_def)
      then show ?thesis using 4 fl f0 j by auto
    qed
  qed
  moreover have "filled p ?t ?h (?t div 2) \<le> filled p ?t ?h j" if j: "1 < j" "j \<le> n" "j div 2 = ?t" "1 < ?t" for j
  proof -
    have par: "filled p i h (?t div 2) \<le> filled p i h ?t" using assms(3) j t by (auto simp: order_up_def)
    have "?t div 2 \<noteq> ?t" "?t div 2 \<noteq> i" using t by auto
    then have top: "filled p ?t ?h (?t div 2) \<le> hkey h ?q" using par fl f0 t by simp
    show ?thesis
    proof (cases "j = i")
      case True
      then show ?thesis using top fl by simp
    next
      case False
      then have "filled p i h ?t \<le> filled p i h j" using assms(3) j by (auto simp: order_up_def)
      then have "hkey h ?q \<le> filled p ?t ?h j" using False fl f0 t j by auto
      then show ?thesis using top by (rule order.trans[rotated])
    qed
  qed
  ultimately have "order_up p ?t n ?h" by (simp add: order_up_def)
  moreover have "(!) (?A[i := ?q]) ` ({1..n} - {?t}) = (!) ?A ` ({1..n} - {i})"
  proof -
    have s1: "{1..n} - {?t} = insert i ({1..n} - {i, ?t})" and s2: "{1..n} - {i} = insert ?t ({1..n} - {i, ?t})" using t by auto
    have "(!) (?A[i := ?q]) ` ({1..n} - {i, ?t}) = (!) ?A ` ({1..n} - {i, ?t})" by (intro image_cong) auto
    then show ?thesis unfolding s1 s2 using t by simp
  qed
  ultimately show ?thesis using run gap' k m by (intro exI[of _ ?h]) simp
qed

lemma sift_up_rep:
  assumes "gap p i n h" and "order_up p i n h"
  shows "\<exists>i' h'. sift_up (hkey h p) i h = Some (i', h') \<and> gap p i' n h'
     \<and> (\<forall>j. 1 < j \<and> j \<le> n \<longrightarrow> filled p i' h' (j div 2) \<le> filled p i' h' j)
     \<and> hkey h' = hkey h \<and> p_pos h' = p_pos h \<and> p_len h' = p_len h \<and> length (p_array h') = length (p_array h)
     \<and> p_nodes h' p = p_nodes h p
     \<and> (!) (p_array h') ` ({1..n} - {i'}) = (!) (p_array h) ` ({1..n} - {i})"
  using assms
proof (induction i arbitrary: h rule: less_induct)
  case (less i)
  have i: "0 < i" "i \<le> n" "n < length (p_array h)" using less.prems(1) by (auto simp: gap_def)
  show ?case
  proof (cases "1 < i \<and> hkey h p < hkey h (p_array h ! (i div 2))")
    case True
    have ka: "key_at (i div 2) h = Some (hkey h (p_array h ! (i div 2)))"
    proof -
      have "0 < i div 2" "i div 2 \<le> n" "i div 2 \<noteq> i" using True i by auto
      then show ?thesis using gap_key[OF less.prems(1)] by blast
    qed
    from gap_move[OF less.prems(1) _ less.prems(2)] True obtain h1 where
      h1: "put_at i (p_array h ! (i div 2)) h = Some h1" "gap p (i div 2) n h1" "order_up p (i div 2) n h1"
        "hkey h1 = hkey h" "p_pos h1 = p_pos h" "p_len h1 = p_len h" "length (p_array h1) = length (p_array h)"
        "p_nodes h1 p = p_nodes h p" "(!) (p_array h1) ` ({1..n} - {i div 2}) = (!) (p_array h) ` ({1..n} - {i})" by blast
    have "sift_up (hkey h p) i h = sift_up (hkey h1 p) (i div 2) h1"
      using True ka h1(1,4) i by (subst sift_up.simps) (auto simp: heap_top_def)
    then show ?thesis using less.IH[OF _ h1(2,3)] True h1(4-9) by simp
  next
    case False
    have "sift_up (hkey h p) i h = Some (i, h)"
    proof (cases "1 < i")
      case True
      have "0 < i div 2" "i div 2 \<le> n" "i div 2 \<noteq> i" using True i by auto
      then have "key_at (i div 2) h = Some (hkey h (p_array h ! (i div 2)))"
        using gap_key[OF less.prems(1)] by blast
      then show ?thesis using False True by (subst sift_up.simps) (simp add: heap_top_def)
    next
      case one: False
      then have "heap_top i = 0" by (simp add: heap_top_def)
      then show ?thesis by (subst sift_up.simps) simp
    qed
    moreover have "filled p i h (j div 2) \<le> filled p i h j" if j: "1 < j" "j \<le> n" for j
    proof (cases "j = i")
      case True
      then show ?thesis using False j by (auto simp: filled_def)
    next
      case ne: False
      then show ?thesis using less.prems(2) j by (simp add: order_up_def)
    qed
    ultimately show ?thesis using less.prems(1) by blast
  qed
qed

lemma push_run:
  assumes "heap_ok h" and "p_pos h < p_len h" and "p \<noteq> 0" and "p_nodes h p = Some m0" and "p \<notin> members (p_pos h) h"
  shows "\<exists>i h'. xheap_push p h = Some (i, h') \<and> 0 < i \<and> p_array h' ! i = p \<and> heap_ok h' \<and> hkey h' = hkey h
     \<and> p_pos h' = p_pos h + 1 \<and> p_len h' = p_len h \<and> members (p_pos h') h' = insert p (members (p_pos h) h)"
proof -
  let ?n = "p_pos h + 1" and ?h1 = "h\<lparr>p_pos := p_pos h + 1\<rparr>"
  have I: "length (p_array h) = p_len h + 1" "p_len h < 2 ^ 31" "slots (p_pos h) h" "ordered (p_pos h) h"
    using assms(1) by (auto simp: heap_ok_def)
  have out: "p_array h ! j \<noteq> p" if "0 < j" "j \<le> p_pos h" for j
    using assms(5) that by (force simp: members_def)
  have "gap p ?n ?n ?h1"
    using I(1,3) assms(2) out by (auto simp: gap_def slots_def)
  moreover have "order_up p ?n ?n ?h1"
    using I(4) by (auto simp: order_up_def ordered_def filled_def hkey_def)
  ultimately obtain i h2 where s: "sift_up (hkey ?h1 p) ?n ?h1 = Some (i, h2)" "gap p i ?n h2"
      "\<forall>j. 1 < j \<and> j \<le> ?n \<longrightarrow> filled p i h2 (j div 2) \<le> filled p i h2 j" "hkey h2 = hkey ?h1" "p_pos h2 = ?n"
      "p_len h2 = p_len h" "length (p_array h2) = length (p_array h)" "p_nodes h2 p = Some m0"
      "(!) (p_array h2) ` ({1..?n} - {i}) = (!) (p_array h) ` ({1..?n} - {?n})"
    using sift_up_rep[of p ?n ?n ?h1] assms(4) by (auto simp del: atLeastAtMost_iff)
  have i: "0 < i" "i \<le> ?n" "i < length (p_array h2)" using s(2) by (auto simp: gap_def)
  let ?h = "h2\<lparr>p_array := (p_array h2)[i := p], p_nodes := (p_nodes h2)(p \<mapsto> m0\<lparr>x_pos := i\<rparr>)\<rparr>"
  have put: "put_at i p h2 = Some ?h" using put_at_run[OF i(3) assms(3) s(8)] .
  have "hkey ?h1 p = x_key m0" using assms(4) by (simp add: hkey_def)
  then have run: "xheap_push p h = Some (i, ?h)"
    using assms(2,3,4) s(1) put by (simp add: xheap_push_def node_of_def)
  have "hkey ?h1 = hkey h" by (auto simp: hkey_def)
  then have k: "hkey ?h = hkey h" using s(4,8) by auto
  have "slots ?n ?h"
    unfolding slots_def
  proof (intro conjI allI impI)
    fix j assume j: "0 < j \<and> j \<le> ?n"
    have "p_array ?h ! j \<noteq> 0 \<and> (\<exists>m. p_nodes ?h (p_array ?h ! j) = Some m \<and> x_pos m = j)"
    proof (cases "j = i")
      case True
      then show ?thesis using i assms(3) by simp
    next
      case False
      obtain m where "p_array h2 ! j \<noteq> 0" "p_array h2 ! j \<noteq> p" "p_nodes h2 (p_array h2 ! j) = Some m" "x_pos m = j"
        by (rule gap_node[OF s(2), of j]) (use j False in auto)
      then show ?thesis using False by simp
    qed
    then show "p_array ?h ! j \<noteq> 0" "\<exists>m. p_nodes ?h (p_array ?h ! j) = Some m \<and> x_pos m = j" by blast+
  qed (use i s(2) in \<open>simp add: gap_def\<close>)
  moreover have "ordered ?n ?h"
  proof -
    have "hkey ?h (p_array ?h ! j) = filled p i h2 j" for j
      using s(8) i by (simp add: filled_def)
    then show ?thesis using s(3) by (simp add: ordered_def)
  qed
  moreover have "members ?n ?h = insert p (members (p_pos h) h)"
  proof -
    have s1: "{1..?n} = insert i ({1..?n} - {i})" and s2: "{1..?n} - {?n} = {1..p_pos h}" using i by auto
    have "(!) ((p_array h2)[i := p]) ` {1..?n} = insert ((p_array h2)[i := p] ! i) ((!) ((p_array h2)[i := p]) ` ({1..?n} - {i}))"
      by (subst s1) (rule image_insert)
    also have "(p_array h2)[i := p] ! i = p" using i(3) by simp
    also have "(!) ((p_array h2)[i := p]) ` ({1..?n} - {i}) = (!) (p_array h2) ` ({1..?n} - {i})" by (intro image_cong) auto
    finally show ?thesis using s(9) unfolding s2 by (simp add: members_def)
  qed
  ultimately show ?thesis using run k s(5,6,7) I(1,2) assms(2) i
    by (intro exI[of _ i] exI[of _ ?h]) (simp add: heap_ok_def)
qed

section \<open>Taking nodes out\<close>

text \<open>The last node moves to the place \<open>i\<close>, whose node is parked at index 0.\<close>

lemma move_last_run:
  assumes "slots (Suc n) h" and "p_pos h = Suc n" and "0 < i" and "i \<le> Suc n"
  shows "\<exists>h'. move_last i h = Some h' \<and> slots n h' \<and> p_pos h' = Suc n \<and> p_len h' = p_len h \<and> hkey h' = hkey h
     \<and> length (p_array h') = length (p_array h) \<and> p_array h' ! 0 = p_array h ! i
     \<and> members n h' = members (Suc n) h - {p_array h ! i}
     \<and> (\<forall>j. 0 < j \<and> j \<le> n \<longrightarrow> p_array h' ! j = p_array h ! (if j = i then Suc n else j))"
proof -
  let ?A = "p_array h" and ?q = "p_array h ! Suc n"
  have len: "Suc n < length ?A" using assms(1) by (simp add: slots_def)
  obtain m where m: "?q \<noteq> 0" "p_nodes h ?q = Some m" "x_pos m = Suc n" by (rule slots_node[OF assms(1), of "Suc n"]) auto
  let ?B = "?A[0 := ?A ! i, i := ?q, Suc n := 0]"
  let ?h = "h\<lparr>p_array := ?B, p_nodes := (p_nodes h)(?q \<mapsto> m\<lparr>x_pos := i\<rparr>)\<rparr>"
  have il: "i < length ?A" "0 < length ?A" using len assms(4) by linarith+
  then have run: "move_last i h = Some ?h"
    using len assms(2,3) m put_at_run[of i "h\<lparr>p_array := ?A[0 := ?A ! i]\<rparr>" ?q m] by (simp add: move_last_def)
  have B: "?B ! j = ?A ! (if j = i then Suc n else j)" if "0 < j" "j \<le> n" for j
    using that len by (auto simp: nth_list_update)
  have slots: "slots n ?h"
    unfolding slots_def
  proof (intro conjI allI impI)
    fix j assume j: "0 < j \<and> j \<le> n"
    let ?k = "if j = i then Suc n else j"
    obtain m' where m': "?A ! ?k \<noteq> 0" "p_nodes h (?A ! ?k) = Some m'" "x_pos m' = ?k"
      by (rule slots_node[OF assms(1), of ?k]) (use j in auto)
    have "j \<noteq> i \<Longrightarrow> ?A ! j \<noteq> ?q" using slots_inj[OF assms(1), of j "Suc n"] j by auto
    then have "?B ! j \<noteq> 0 \<and> (\<exists>m. p_nodes ?h (?B ! j) = Some m \<and> x_pos m = j)"
      using m' B j by (cases "j = i") auto
    then show "p_array ?h ! j \<noteq> 0" "\<exists>m. p_nodes ?h (p_array ?h ! j) = Some m \<and> x_pos m = j" by simp_all
  qed (use len in simp)
  have mem: "members n ?h = members (Suc n) h - {?A ! i}"
  proof -
    have "members n ?h = (\<lambda>j. ?A ! (if j = i then Suc n else j)) ` {1..n}"
      unfolding members_def using B by (intro image_cong) auto
    also have "\<dots> = (!) ?A ` ({1..Suc n} - {i})"
    proof (cases "i = Suc n")
      case True
      then have "{1..Suc n} - {i} = {1..n}" by auto
      then show ?thesis using True by (intro image_cong) auto
    next
      case False
      have s1: "{1..n} = insert i ({1..n} - {i})" and s2: "{1..Suc n} - {i} = insert (Suc n) ({1..n} - {i})" using False assms(3,4) by auto
      have "(\<lambda>j. ?A ! (if j = i then Suc n else j)) ` {1..n} = insert ?q ((\<lambda>j. ?A ! (if j = i then Suc n else j)) ` ({1..n} - {i}))"
        by (subst s1) (simp only: image_insert if_True simp_thms)
      also have "(\<lambda>j. ?A ! (if j = i then Suc n else j)) ` ({1..n} - {i}) = (!) ?A ` ({1..n} - {i})" by (intro image_cong) auto
      finally show ?thesis unfolding s2 by (simp only: image_insert)
    qed
    also have "\<dots> = members (Suc n) h - {?A ! i}"
    proof -
      have inj: "inj_on ((!) ?A) {1..Suc n}"
      proof (rule inj_onI)
        fix x y assume "x \<in> {1..Suc n}" "y \<in> {1..Suc n}" "?A ! x = ?A ! y"
        then show "x = y" using slots_inj[OF assms(1), of x y] by simp
      qed
      have "{i} \<subseteq> {1..Suc n}" using assms(3,4) by auto
      from inj_on_image_set_diff[OF inj Diff_subset this] show ?thesis by (simp add: members_def)
    qed
    finally show ?thesis .
  qed
  have "hkey ?h = hkey h" using m by (auto simp: hkey_def)
  then show ?thesis using run slots mem B assms(2,3) len il(2) by (intro exI[of _ ?h]) simp
qed

lemma move_last_order:
  assumes "ordered (Suc n) h" and "0 < i" and "i \<le> n" and "hkey h' = hkey h"
    and "\<forall>j. 0 < j \<and> j \<le> n \<longrightarrow> p_array h' ! j = p_array h ! (if j = i then Suc n else j)"
    and "1 < i \<longrightarrow> hkey h (p_array h ! (i div 2)) \<le> hkey h (p_array h ! Suc n)"
  shows "order_except i n h'"
proof -
  let ?k = "hkey h" and ?A = "p_array h"
  have ord: "?k (?A ! (j div 2)) \<le> ?k (?A ! j)" if "1 < j" "j \<le> Suc n" for j using assms(1) that by (simp add: ordered_def)
  have B: "p_array h' ! j = ?A ! j" if "0 < j" "j \<le> n" "j \<noteq> i" for j using assms(5) that by simp
  have "?k (p_array h' ! (j div 2)) \<le> ?k (p_array h' ! j)" if j: "1 < j" "j \<le> n" "j div 2 \<noteq> i" for j
  proof (cases "j = i")
    case True
    then show ?thesis using assms(5,6) B[of "i div 2"] j by auto
  next
    case False
    have "0 < j div 2" "j div 2 \<le> n" using j by auto
    then show ?thesis using ord[of j] B[of j] B[of "j div 2"] False j by simp
  qed
  moreover have "?k (p_array h' ! (i div 2)) \<le> ?k (p_array h' ! j)" if j: "1 < j" "j \<le> n" "j div 2 = i" "1 < i" for j
  proof -
    have "?k (?A ! (i div 2)) \<le> ?k (?A ! i)" "?k (?A ! i) \<le> ?k (?A ! j)" using ord[of i] ord[of j] j assms(3) by auto
    moreover have "j \<noteq> i" "i div 2 \<noteq> i" "0 < i div 2" "i div 2 \<le> n" using j assms(3) by auto
    ultimately show ?thesis using B[of j] B[of "i div 2"] j by (metis order.trans le_trans less_trans zero_less_one)
  qed
  ultimately show ?thesis using assms(4) by (simp add: order_except_def)
qed

text \<open>The root has the least key.\<close>

lemma ordered_root:
  assumes "ordered n h" and "0 < i" and "i \<le> n"
  shows "hkey h (p_array h ! 1) \<le> hkey h (p_array h ! i)"
  using assms(2,3)
proof (induction i rule: less_induct)
  case (less i)
  show ?case
  proof (cases "i = 1")
    case False
    then have "hkey h (p_array h ! 1) \<le> hkey h (p_array h ! (i div 2))" using less by (intro less.IH) auto
    moreover have "hkey h (p_array h ! (i div 2)) \<le> hkey h (p_array h ! i)" using assms(1) False less.prems by (auto simp: ordered_def)
    ultimately show ?thesis by (rule order.trans)
  qed simp
qed

text \<open>Taking out the node at place \<open>i\<close>, as \<open>xheap_pop\<close> and \<open>xheap_remove\<close> do it.\<close>

definition take_out :: "nat \<Rightarrow> xheap \<Rightarrow> (nat \<times> xheap) option" where
  "take_out i h = (if p_pos h = HEAP_TOP then take_single h
     else do { h1 \<leftarrow> move_last i h; h2 \<leftarrow> sift_down i h1; finish_take h2 })"

lemma sift_down_last:
  assumes "p_pos h = i" and "0 < i" and "i < 2 ^ 31"
  shows "sift_down i h = Some h"
  using child_bounds[of i] assms by (subst sift_down.simps) (simp add: smaller_child_def)

lemma take_out_run:
  assumes "heap_ok h" and "0 < i" and "i \<le> p_pos h"
  shows "\<exists>h'. take_out i h = Some (p_array h ! i, h') \<and> p_pos h' = p_pos h - 1 \<and> p_len h' = p_len h
     \<and> length (p_array h') = length (p_array h) \<and> slots (p_pos h') h' \<and> hkey h' = hkey h
     \<and> members (p_pos h') h' = members (p_pos h) h - {p_array h ! i}
     \<and> ((1 < i \<and> i < p_pos h \<longrightarrow> hkey h (p_array h ! (i div 2)) \<le> hkey h (p_array h ! p_pos h)) \<longrightarrow> heap_ok h')"
proof -
  have I: "length (p_array h) = p_len h + 1" "p_pos h \<le> p_len h" "p_len h < 2 ^ 31" "slots (p_pos h) h" "ordered (p_pos h) h"
    using assms(1) by (auto simp: heap_ok_def)
  show ?thesis
  proof (cases "p_pos h = 1")
    case True
    then have i: "i = 1" using assms(2,3) by simp
    let ?h = "h\<lparr>p_pos := 0, p_array := (p_array h)[0 := p_array h ! 1, 1 := 0]\<rparr>"
    have "take_out i h = Some (p_array h ! i, ?h)"
      using True i I(1,2) by (simp add: take_out_def take_single_def HEAP_TOP_def)
    moreover have "heap_ok ?h" using I by (auto simp: heap_ok_def slots_def ordered_def)
    ultimately show ?thesis using True i I by (intro exI[of _ ?h]) (auto simp: members_def slots_def hkey_def fun_eq_iff)
  next
    case False
    then obtain n where n: "p_pos h = Suc n" "0 < n" using assms(2,3) by (cases "p_pos h") auto
    obtain h1 where h1: "move_last i h = Some h1" "slots n h1" "p_pos h1 = Suc n" "p_len h1 = p_len h" "hkey h1 = hkey h"
        "length (p_array h1) = length (p_array h)" "p_array h1 ! 0 = p_array h ! i"
        "members n h1 = members (Suc n) h - {p_array h ! i}"
        "\<forall>j. 0 < j \<and> j \<le> n \<longrightarrow> p_array h1 ! j = p_array h ! (if j = i then Suc n else j)"
      using move_last_run[of n h i] I(4) n(1) assms(2,3) by auto
    have n31: "n < 2 ^ 31" using I(2,3) n by simp
    have "\<exists>h2. sift_down i h1 = Some h2 \<and> slots n h2 \<and> same_heap n h1 h2
        \<and> ((1 < i \<and> i \<le> n \<longrightarrow> hkey h (p_array h ! (i div 2)) \<le> hkey h (p_array h ! Suc n)) \<longrightarrow> ordered n h2)"
    proof (cases "i \<le> n")
      case True
      then show ?thesis using sift_down_rep[OF h1(2,3) n31 assms(2) True] move_last_order[OF _ assms(2) True h1(5,9)] I(5) n(1) by auto
    next
      case last: False
      then have i: "i = Suc n" using assms(3) n(1) by simp
      have "sift_down i h1 = Some h1" using sift_down_last[of h1 i] h1(3) i I(2,3) n(1) by simp
      moreover have "ordered n h1"
        unfolding ordered_def
      proof (intro allI impI)
        fix j assume j: "1 < j \<and> j \<le> n"
        then have "0 < j div 2" "j div 2 \<le> n" by auto
        then show "hkey h1 (p_array h1 ! (j div 2)) \<le> hkey h1 (p_array h1 ! j)"
          using I(5) j h1(5,9) i n(1) by (simp add: ordered_def)
      qed
      ultimately show ?thesis using h1(2) by auto
    qed
    then obtain h2 where h2: "sift_down i h1 = Some h2" "slots n h2" "same_heap n h1 h2"
        "(1 < i \<and> i \<le> n \<longrightarrow> hkey h (p_array h ! (i div 2)) \<le> hkey h (p_array h ! Suc n)) \<longrightarrow> ordered n h2" by blast
    let ?h = "h2\<lparr>p_pos := n\<rparr>"
    have keep: "p_pos h2 = Suc n" "p_len h2 = p_len h" "length (p_array h2) = length (p_array h)" "p_array h2 ! 0 = p_array h ! i"
        "hkey h2 = hkey h" "members n h2 = members (Suc n) h - {p_array h ! i}"
      using h2(3) h1 by (auto simp: same_heap_def)
    have "take_out i h = Some (p_array h ! i, ?h)"
      using False n h1(1) h2(1) keep I(1) by (simp add: take_out_def finish_take_def HEAP_TOP_def rd_def)
    moreover have "hkey ?h = hkey h2" "slots n ?h = slots n h2" "ordered n ?h = ordered n h2" "members n ?h = members n h2"
      by (auto simp: hkey_def slots_def ordered_def members_def fun_eq_iff)
    ultimately show ?thesis using h2(2,4) keep n I
      by (intro exI[of _ ?h]) (auto simp: heap_ok_def)
  qed
qed

section \<open>Properties\<close>

text \<open>
  Priority queue, pushing: on a heap that is not full \<open>xheap_push\<close> terminates, adds exactly the node,
  returns its place and keeps the heap order and the place recorded in every node; on a full heap it
  returns 0 and changes nothing.
\<close>

theorem xheap_push_adds:
  assumes "heap_ok h" and "p \<noteq> 0" and "p_nodes h p = Some nd" and "p \<notin> members (p_pos h) h"
  shows "if p_pos h < p_len h
    then \<exists>i h'. xheap_push p h = Some (i, h') \<and> 0 < i \<and> p_array h' ! i = p \<and> heap_ok h'
       \<and> p_pos h' = p_pos h + 1 \<and> members (p_pos h') h' = insert p (members (p_pos h) h)
    else xheap_push p h = Some (0, h)"
  using push_run[OF assms(1) _ assms(2-4)] by (auto simp: xheap_push_def)

text \<open>A heap of seven nodes; the node at place \<open>i\<close> is at the address \<open>10 * i\<close>.\<close>

definition demo_keys :: "u64 list" where
  "demo_keys = [0, 1, 10, 2, 11, 12, 3, 4, 5]"

definition demo_heap_nodes :: "nat \<Rightarrow> xheapnode option" where
  "demo_heap_nodes p = (if p \<in> {10, 20, 30, 40, 50, 60, 70, 80}
     then Some \<lparr>x_pos = p div 10, x_key = demo_keys ! (p div 10), x_value = 0\<rparr> else None)"

definition demo_heap :: xheap where
  "demo_heap = \<lparr>p_pos = 7, p_len = 8, p_array = [0, 10, 20, 30, 40, 50, 60, 70, 0], p_nodes = demo_heap_nodes\<rparr>"

lemma upto7: "0 < (i::nat) \<and> i \<le> 7 \<longleftrightarrow> i \<in> {1, 2, 3, 4, 5, 6, 7}"
  by auto

lemma demo_heap_ok: "heap_ok demo_heap"
proof -
  have "slots 7 demo_heap"
    unfolding slots_def upto7 by (simp add: demo_heap_def demo_heap_nodes_def)
  moreover have "1 < i \<and> i \<le> 7 \<longleftrightarrow> i \<in> {2, 3, 4, 5, 6, 7}" for i :: nat by auto
  then have "ordered 7 demo_heap"
    unfolding ordered_def by (simp add: demo_heap_def demo_heap_nodes_def hkey_def demo_keys_def)
  ultimately show ?thesis by (simp add: heap_ok_def demo_heap_def)
qed

lemma demo_members: "members 7 demo_heap = {10, 20, 30, 40, 50, 60, 70}"
proof -
  have "{1..7} = {1, 2, 3, 4, 5, 6, 7 :: nat}" by auto
  then show ?thesis by (simp add: members_def demo_heap_def)
qed

theorem xheap_push_adds_witness:
  "if p_pos demo_heap < p_len demo_heap
    then \<exists>i h'. xheap_push 80 demo_heap = Some (i, h') \<and> 0 < i \<and> p_array h' ! i = 80 \<and> heap_ok h'
       \<and> p_pos h' = p_pos demo_heap + 1 \<and> members (p_pos h') h' = insert 80 (members (p_pos demo_heap) demo_heap)
    else xheap_push 80 demo_heap = Some (0, demo_heap)"
  by (rule xheap_push_adds[OF demo_heap_ok, where nd = "\<lparr>x_pos = 8, x_key = 5, x_value = 0\<rparr>"])
     (use demo_members in \<open>simp_all add: demo_heap_def demo_heap_nodes_def demo_keys_def\<close>)

text \<open>
  C24. Priority queue, popping: \<open>xheap_pop\<close> terminates, returns NULL on the empty heap, and otherwise a node
  whose key is least among all nodes of the heap, takes exactly it out and keeps the heap order.
\<close>

theorem xheap_pop_min:
  assumes "heap_ok h"
  shows "if p_pos h = 0 then xheap_pop h = Some (0, h)
    else \<exists>p h'. xheap_pop h = Some (p, h') \<and> p \<in> members (p_pos h) h \<and> (\<forall>q \<in> members (p_pos h) h. hkey h p \<le> hkey h q)
       \<and> heap_ok h' \<and> p_pos h' = p_pos h - 1 \<and> members (p_pos h') h' = members (p_pos h) h - {p}"
proof (cases "p_pos h = 0")
  case False
  have "xheap_pop h = take_out 1 h"
    using False by (simp add: xheap_pop_def take_out_def HEAP_TOP_def)
  moreover have "p_array h ! 1 \<in> members (p_pos h) h" using False by (auto simp: members_def)
  moreover have "\<forall>q \<in> members (p_pos h) h. hkey h (p_array h ! 1) \<le> hkey h q"
    using ordered_root[of "p_pos h" h] assms by (auto simp: members_def heap_ok_def)
  ultimately show ?thesis using take_out_run[OF assms, of 1] False by auto
qed (simp add: xheap_pop_def HEAP_TOP_def)

theorem xheap_pop_min_witness:
  "if p_pos demo_heap = 0 then xheap_pop demo_heap = Some (0, demo_heap)
    else \<exists>p h'. xheap_pop demo_heap = Some (p, h') \<and> p \<in> members (p_pos demo_heap) demo_heap
       \<and> (\<forall>q \<in> members (p_pos demo_heap) demo_heap. hkey demo_heap p \<le> hkey demo_heap q)
       \<and> heap_ok h' \<and> p_pos h' = p_pos demo_heap - 1 \<and> members (p_pos h') h' = members (p_pos demo_heap) demo_heap - {p}"
  by (rule xheap_pop_min[OF demo_heap_ok])

text \<open>
  Removing any node: \<open>xheap_remove\<close> terminates and takes exactly that node out, wherever it is in the
  heap; the heap order survives when the last node's key is not below the key above the free place.
\<close>

theorem xheap_remove_takes:
  assumes "heap_ok h" and "p \<in> members (p_pos h) h"
  shows "\<exists>i h'. p_array h ! i = p \<and> xheap_remove p h = Some (p, h') \<and> members (p_pos h') h' = members (p_pos h) h - {p}
       \<and> ((1 < i \<and> i < p_pos h \<longrightarrow> hkey h (p_array h ! (i div 2)) \<le> hkey h (p_array h ! p_pos h)) \<longrightarrow> heap_ok h')"
proof -
  obtain i where i: "0 < i" "i \<le> p_pos h" "p = p_array h ! i" using assms(2) by (auto simp: members_def Suc_le_eq)
  have s: "slots (p_pos h) h" and lim: "p_pos h < 2 ^ 31" using assms(1) by (auto simp: heap_ok_def)
  obtain m where m: "p \<noteq> 0" "p_nodes h p = Some m" "x_pos m = i"
    by (rule slots_node[OF s i(1,2)]) (auto simp: i(3))
  have "xheap_remove p h = take_out i h"
    using m i lim key_at_run[OF s i(1,2)] by (auto simp: xheap_remove_def take_out_def node_of_def HEAP_TOP_def hkey_def)
  then show ?thesis using take_out_run[OF assms(1) i(1,2)] i(3) by (intro exI[of _ i]) auto
qed

theorem xheap_remove_takes_witness:
  "\<exists>i h'. p_array demo_heap ! i = 70 \<and> xheap_remove 70 demo_heap = Some (70, h')
       \<and> members (p_pos h') h' = members (p_pos demo_heap) demo_heap - {70}
       \<and> ((1 < i \<and> i < p_pos demo_heap \<longrightarrow> hkey demo_heap (p_array demo_heap ! (i div 2)) \<le> hkey demo_heap (p_array demo_heap ! p_pos demo_heap)) \<longrightarrow> heap_ok h')"
  by (rule xheap_remove_takes[OF demo_heap_ok]) (use demo_members in \<open>simp add: demo_heap_def\<close>)

text \<open>
  \<open>xheap_remove\<close> only lets the moved node sink and never rise: removing the node with key 11 from the
  ordered heap of seven nodes above leaves a node with key 4 below one with key 10, so the order is lost.
\<close>

theorem xheap_remove_breaks_order:
  "heap_ok demo_heap \<and> (\<exists>h'. xheap_remove 40 demo_heap = Some (40, h') \<and> \<not> ordered (p_pos h') h')"
proof -
  let ?b = "demo_heap\<lparr>p_array := [40, 10, 20, 30, 70, 50, 60, 0, 0],
     p_nodes := demo_heap_nodes(70 \<mapsto> \<lparr>x_pos = 4, x_key = 4, x_value = 0\<rparr>)\<rparr>"
  have "move_last 4 demo_heap = Some ?b"
    by (simp add: move_last_def demo_heap_def put_at_def node_of_def demo_heap_nodes_def demo_keys_def)
  moreover have "sift_down 4 ?b = Some ?b"
    by (subst sift_down.simps) (simp add: smaller_child_def heap_left_def heap_right_def demo_heap_def)
  ultimately have "xheap_remove 40 demo_heap = Some (40, ?b\<lparr>p_pos := 6\<rparr>)"
    by (simp add: xheap_remove_def node_of_def demo_heap_def demo_heap_nodes_def demo_keys_def key_at_def finish_take_def HEAP_TOP_def)
  moreover have "\<not> ordered 6 (?b\<lparr>p_pos := 6\<rparr>)"
    unfolding ordered_def by (intro notI) (drule spec[of _ 4], simp add: hkey_def demo_heap_nodes_def demo_keys_def demo_heap_def)
  ultimately show ?thesis using demo_heap_ok by auto
qed

end
