(* ===== verification/Sha256.thy ===== *)
theory Sha256
  imports Mem
begin

text \<open>
  The SHA-256 of \<open>src/src/xlib/xsha256.c\<close>: the streaming interface (\<open>sha256_init\<close>, \<open>sha256_update\<close>,
  \<open>sha256_finish\<close>) with its partial-block buffer, and the compression function. The second half gives a
  reference definition in the form of the standard (rotations of the word library, the message schedule
  as a recursive function, padding of the whole message, a fold over its blocks) and proves that the
  code computes it for every way of cutting the input into calls.
\<close>

section \<open>Words\<close>

definition ROL32 :: "u32 \<Rightarrow> nat \<Rightarrow> u32" where
  "ROL32 a n = push_bit n a OR drop_bit (32 - n) (a AND 0xffffffff)"

definition ROR32 :: "u32 \<Rightarrow> nat \<Rightarrow> u32" where
  "ROR32 a n = ROL32 a (32 - n)"

definition Ch :: "u32 \<Rightarrow> u32 \<Rightarrow> u32 \<Rightarrow> u32" where
  "Ch X Y Z = (X AND Y) XOR (NOT X AND Z)"

definition Maj :: "u32 \<Rightarrow> u32 \<Rightarrow> u32 \<Rightarrow> u32" where
  "Maj X Y Z = (X AND Y) XOR (X AND Z) XOR (Y AND Z)"

definition Sigma0 :: "u32 \<Rightarrow> u32" where
  "Sigma0 X = ROR32 X 2 XOR ROR32 X 13 XOR ROR32 X 22"

definition Sigma1 :: "u32 \<Rightarrow> u32" where
  "Sigma1 X = ROR32 X 6 XOR ROR32 X 11 XOR ROR32 X 25"

definition sigma0 :: "u32 \<Rightarrow> u32" where
  "sigma0 X = ROR32 X 7 XOR ROR32 X 18 XOR drop_bit 3 X"

definition sigma1 :: "u32 \<Rightarrow> u32" where
  "sigma1 X = ROR32 X 17 XOR ROR32 X 19 XOR drop_bit 10 X"

definition sha_K :: "u32 list" where
  "sha_K = concat [
    [0x428a2f98, 0x71374491, 0xb5c0fbcf, 0xe9b5dba5],
    [0x3956c25b, 0x59f111f1, 0x923f82a4, 0xab1c5ed5],
    [0xd807aa98, 0x12835b01, 0x243185be, 0x550c7dc3],
    [0x72be5d74, 0x80deb1fe, 0x9bdc06a7, 0xc19bf174],
    [0xe49b69c1, 0xefbe4786, 0x0fc19dc6, 0x240ca1cc],
    [0x2de92c6f, 0x4a7484aa, 0x5cb0a9dc, 0x76f988da],
    [0x983e5152, 0xa831c66d, 0xb00327c8, 0xbf597fc7],
    [0xc6e00bf3, 0xd5a79147, 0x06ca6351, 0x14292967],
    [0x27b70a85, 0x2e1b2138, 0x4d2c6dfc, 0x53380d13],
    [0x650a7354, 0x766a0abb, 0x81c2c92e, 0x92722c85],
    [0xa2bfe8a1, 0xa81a664b, 0xc24b8b70, 0xc76c51a3],
    [0xd192e819, 0xd6990624, 0xf40e3585, 0x106aa070],
    [0x19a4c116, 0x1e376c08, 0x2748774c, 0x34b0bcb5],
    [0x391c0cb3, 0x4ed8aa4a, 0x5b9cca4f, 0x682e6ff3],
    [0x748f82ee, 0x78a5636f, 0x84c87814, 0x8cc70208],
    [0x90befffa, 0xa4506ceb, 0xbef9a3f7, 0xc67178f2]]"

definition GETU32 :: "bytes \<Rightarrow> u32" where
  "GETU32 p = push_bit 24 (ucast (p ! 0)) OR push_bit 16 (ucast (p ! 1)) OR push_bit 8 (ucast (p ! 2)) OR ucast (p ! 3)"

text \<open>The macro is used on 32-bit and on 64-bit values.\<close>

definition PUTU32 :: "'a :: len word \<Rightarrow> bytes" where
  "PUTU32 V = [ucast (drop_bit 24 V), ucast (drop_bit 16 V), ucast (drop_bit 8 V), ucast V]"

section \<open>The compression function\<close>

definition SHA256_BLOCK_SIZE :: nat where "SHA256_BLOCK_SIZE = 64"

record sha256_ctx =
  s_state :: "u32 list"
  s_nblocks :: u64
  s_block :: bytes
  s_num :: nat

text \<open>The first 16 words of the schedule are read, the others computed one after the other.\<close>

definition first_words :: "bytes \<Rightarrow> u32 list" where
  "first_words blk = map (\<lambda>i. GETU32 (drop (4 * i) blk)) [0..<16]"

fun extend_words :: "nat \<Rightarrow> u32 list \<Rightarrow> u32 list" where
  "extend_words 0 W = W"
| "extend_words (Suc n) W =
     (let i = length W in
      extend_words n (W @ [sigma1 (W ! (i - 2)) + W ! (i - 7) + sigma0 (W ! (i - 15)) + W ! (i - 16)]))"

type_synonym regs = "u32 \<times> u32 \<times> u32 \<times> u32 \<times> u32 \<times> u32 \<times> u32 \<times> u32"

definition sha_round :: "u32 list \<Rightarrow> nat \<Rightarrow> regs \<Rightarrow> regs" where
  "sha_round W i = (\<lambda>(A, B, C, D, E, F, G, H).
     let T1 = H + Sigma1 E + Ch E F G + sha_K ! i + W ! i; T2 = Sigma0 A + Maj A B C in
     (T1 + T2, A, B, C, D + T1, E, F, G))"

definition regs_of :: "u32 list \<Rightarrow> regs" where
  "regs_of s = (s ! 0, s ! 1, s ! 2, s ! 3, s ! 4, s ! 5, s ! 6, s ! 7)"

definition compress_block :: "u32 list \<Rightarrow> bytes \<Rightarrow> u32 list" where
  "compress_block s blk =
     (let W = extend_words 48 (first_words blk);
          (A, B, C, D, E, F, G, H) = fold (sha_round W) [0..<64] (regs_of s) in
      [s ! 0 + A, s ! 1 + B, s ! 2 + C, s ! 3 + D, s ! 4 + E, s ! 5 + F, s ! 6 + G, s ! 7 + H])"

fun sha256_compress_blocks :: "u32 list \<Rightarrow> bytes \<Rightarrow> nat \<Rightarrow> nat \<Rightarrow> u32 list option" where
  "sha256_compress_blocks s m a 0 = Some s"
| "sha256_compress_blocks s m a (Suc blocks) = do {
     blk \<leftarrow> rd_seg m a SHA256_BLOCK_SIZE;
     sha256_compress_blocks (compress_block s blk) m (a + SHA256_BLOCK_SIZE) blocks }"

section \<open>The streaming interface\<close>

definition sha256_init :: sha256_ctx where
  "sha256_init = \<lparr>s_state = [0x6a09e667, 0xbb67ae85, 0x3c6ef372, 0xa54ff53a, 0x510e527f, 0x9b05688c, 0x1f83d9ab, 0x5be0cd19],
     s_nblocks = 0, s_block = replicate SHA256_BLOCK_SIZE 0, s_num = 0\<rparr>"

text \<open>The part of \<open>sha256_update\<close> after a partial block was completed: \<open>data + a\<close>, \<open>datalen\<close> bytes.\<close>

definition update_rest :: "sha256_ctx \<Rightarrow> bytes \<Rightarrow> nat \<Rightarrow> nat \<Rightarrow> sha256_ctx option" where
  "update_rest ctx m a datalen = do {
     let blocks = datalen div SHA256_BLOCK_SIZE;
     s \<leftarrow> sha256_compress_blocks (s_state ctx) m a blocks;
     let ctx1 = ctx\<lparr>s_state := s, s_nblocks := s_nblocks ctx + of_nat blocks\<rparr>;
     let rest = datalen - SHA256_BLOCK_SIZE * blocks;
     blk \<leftarrow> (if rest > 0 then mcopy (s_block ctx1) 0 m (a + SHA256_BLOCK_SIZE * blocks) rest else Some (s_block ctx1));
     Some (ctx1\<lparr>s_num := rest, s_block := blk\<rparr>) }"

definition sha256_update :: "sha256_ctx \<Rightarrow> bytes \<Rightarrow> nat \<Rightarrow> sha256_ctx option" where
  "sha256_update ctx0 m datalen =
     (let ctx = ctx0\<lparr>s_num := s_num ctx0 mod 64\<rparr> in
      if s_num ctx \<noteq> 0 then
        let left = SHA256_BLOCK_SIZE - s_num ctx in
        if datalen < left then do {
          blk \<leftarrow> mcopy (s_block ctx) (s_num ctx) m 0 datalen;
          Some (ctx\<lparr>s_block := blk, s_num := s_num ctx + datalen\<rparr>) }
        else do {
          blk \<leftarrow> mcopy (s_block ctx) (s_num ctx) m 0 left;
          s \<leftarrow> sha256_compress_blocks (s_state ctx) blk 0 1;
          update_rest (ctx\<lparr>s_block := blk, s_state := s, s_nblocks := s_nblocks ctx + 1\<rparr>) m left (datalen - left) }
      else update_rest ctx m 0 datalen)"

text \<open>The padding of \<open>sha256_finish\<close>: when the length does not fit, a block is completed with zeros.\<close>

definition finish_pad :: "sha256_ctx \<Rightarrow> sha256_ctx option" where
  "finish_pad ctx0 = do {
     let ctx = ctx0\<lparr>s_num := s_num ctx0 mod 64\<rparr>;
     b1 \<leftarrow> wr (s_block ctx) (s_num ctx) 0x80;
     if s_num ctx \<le> SHA256_BLOCK_SIZE - 9 then do {
       b2 \<leftarrow> mclear b1 (s_num ctx + 1) (SHA256_BLOCK_SIZE - s_num ctx - 9);
       Some (ctx\<lparr>s_block := b2\<rparr>) }
     else do {
       b2 \<leftarrow> mclear b1 (s_num ctx + 1) (SHA256_BLOCK_SIZE - s_num ctx - 1);
       s \<leftarrow> sha256_compress_blocks (s_state ctx) b2 0 1;
       b3 \<leftarrow> mclear b2 0 (SHA256_BLOCK_SIZE - 8);
       Some (ctx\<lparr>s_block := b3, s_state := s\<rparr>) } }"

definition sha256_finish :: "sha256_ctx \<Rightarrow> bytes option" where
  "sha256_finish ctx0 = do {
     ctx \<leftarrow> finish_pad ctx0;
     b1 \<leftarrow> wr_seg (s_block ctx) 56 (PUTU32 (drop_bit 23 (s_nblocks ctx)));
     b2 \<leftarrow> wr_seg b1 60 (PUTU32 (push_bit 9 (s_nblocks ctx) + push_bit 3 (of_nat (s_num ctx))));
     s \<leftarrow> sha256_compress_blocks (s_state ctx) b2 0 1;
     Some (concat (map PUTU32 s)) }"

text \<open>A sequence of calls.\<close>

fun sha256_calls :: "bytes list \<Rightarrow> sha256_ctx \<Rightarrow> sha256_ctx option" where
  "sha256_calls [] ctx = Some ctx"
| "sha256_calls (m # ms) ctx = Option.bind (sha256_update ctx m (length m)) (sha256_calls ms)"

section \<open>Reference\<close>

definition fips_Sigma0 :: "u32 \<Rightarrow> u32" where
  "fips_Sigma0 x = word_rotr 2 x XOR word_rotr 13 x XOR word_rotr 22 x"

definition fips_Sigma1 :: "u32 \<Rightarrow> u32" where
  "fips_Sigma1 x = word_rotr 6 x XOR word_rotr 11 x XOR word_rotr 25 x"

definition fips_sigma0 :: "u32 \<Rightarrow> u32" where
  "fips_sigma0 x = word_rotr 7 x XOR word_rotr 18 x XOR drop_bit 3 x"

definition fips_sigma1 :: "u32 \<Rightarrow> u32" where
  "fips_sigma1 x = word_rotr 17 x XOR word_rotr 19 x XOR drop_bit 10 x"

fun fips_W :: "bytes \<Rightarrow> nat \<Rightarrow> u32" where
  "fips_W blk t = (if t < 16 then GETU32 (drop (4 * t) blk)
     else fips_sigma1 (fips_W blk (t - 2)) + fips_W blk (t - 7) + fips_sigma0 (fips_W blk (t - 15)) + fips_W blk (t - 16))"

declare fips_W.simps [simp del]

definition fips_round :: "bytes \<Rightarrow> nat \<Rightarrow> regs \<Rightarrow> regs" where
  "fips_round blk t = (\<lambda>(a, b, c, d, e, f, g, h).
     let T1 = h + fips_Sigma1 e + Ch e f g + sha_K ! t + fips_W blk t; T2 = fips_Sigma0 a + Maj a b c in
     (T1 + T2, a, b, c, d + T1, e, f, g))"

definition fips_compress :: "u32 list \<Rightarrow> bytes \<Rightarrow> u32 list" where
  "fips_compress H blk =
     (let (a, b, c, d, e, f, g, h) = fold (fips_round blk) [0..<64] (regs_of H) in
      map2 (+) H [a, b, c, d, e, f, g, h])"

text \<open>The message, a 1 bit, zeros and the length in bits as a 64-bit big-endian number.\<close>

definition be64 :: "u64 \<Rightarrow> bytes" where
  "be64 x = map (\<lambda>i. ucast (drop_bit (8 * (7 - i)) x)) [0..<8]"

definition fips_pad :: "bytes \<Rightarrow> bytes" where
  "fips_pad m = m @ [0x80] @ replicate ((119 - length m mod 64) mod 64) 0 @ be64 (of_nat (8 * length m))"

fun blocks64 :: "bytes \<Rightarrow> bytes list" where
  "blocks64 m = (if length m < 64 then [] else take 64 m # blocks64 (drop 64 m))"

declare blocks64.simps [simp del]

definition sha256_ref :: "bytes \<Rightarrow> bytes" where
  "sha256_ref m = concat (map PUTU32 (foldl fips_compress (s_state sha256_init) (blocks64 (fips_pad m))))"

section \<open>The compression function is the standard's\<close>

lemma ROR32_rotr:
  assumes "0 < n" and "n < 32"
  shows "ROR32 x n = word_rotr n x"
proof (rule bit_word_eqI)
  fix k assume k: "k < LENGTH(32)"
  have m: "x AND 0xffffffff = x"
  proof -
    have "(0xffffffff :: u32) = - 1" by simp
    show ?thesis unfolding \<open>(0xffffffff :: u32) = - 1\<close> by simp
  qed
  have "bit (ROR32 x n) k \<longleftrightarrow> (32 - n \<le> k \<and> bit x (k - (32 - n))) \<or> bit x (n + k)"
    using assms k m by (auto simp: ROR32_def ROL32_def bit_or_iff bit_push_bit_iff bit_drop_bit_eq)
  moreover have "bit x (n + k) \<Longrightarrow> n + k < 32" using bit_imp_le_length[of x "n + k"] by auto
  moreover have "(k + n) mod 32 = (if n + k < 32 then n + k else k - (32 - n))"
    using assms k by (auto simp: mod_if)
  ultimately show "bit (ROR32 x n) k = bit (word_rotr n x) k"
    using assms k by (auto simp: bit_word_rotr_iff)
qed

lemma sigmas: "Sigma0 = fips_Sigma0" "Sigma1 = fips_Sigma1" "sigma0 = fips_sigma0" "sigma1 = fips_sigma1"
  by (auto simp: fun_eq_iff Sigma0_def Sigma1_def sigma0_def sigma1_def fips_Sigma0_def fips_Sigma1_def
      fips_sigma0_def fips_sigma1_def ROR32_rotr)

lemma extend_words_eq:
  assumes "16 \<le> k"
  shows "extend_words n (map (fips_W blk) [0..<k]) = map (fips_W blk) [0..<k + n]"
  using assms
proof (induction n arbitrary: k)
  case (Suc n)
  have "fips_W blk k = sigma1 (fips_W blk (k - 2)) + fips_W blk (k - 7) + sigma0 (fips_W blk (k - 15)) + fips_W blk (k - 16)"
    using Suc.prems by (simp add: fips_W.simps[of blk k] sigmas)
  then have "extend_words (Suc n) (map (fips_W blk) [0..<k]) = extend_words n (map (fips_W blk) [0..<Suc k])"
    using Suc.prems by (simp add: nth_append)
  then show ?case using Suc.IH[of "Suc k"] Suc.prems by simp
qed simp

lemma schedule_eq: "extend_words 48 (first_words blk) = map (fips_W blk) [0..<64]"
proof -
  have "first_words blk = map (fips_W blk) [0..<16]"
    by (auto simp: first_words_def fips_W.simps)
  then show ?thesis using extend_words_eq[of 16 48 blk] by simp
qed

lemma compress_block_fips:
  assumes "length s = 8"
  shows "compress_block s blk = fips_compress s blk"
proof -
  let ?W = "map (fips_W blk) [0..<64]"
  have "sha_round ?W i = fips_round blk i" if "i < 64" for i
    using that by (auto simp: sha_round_def fips_round_def sigmas fun_eq_iff)
  then have "fold (sha_round ?W) [0..<64] r = fold (fips_round blk) [0..<64] r" for r
    by (intro fold_cong) auto
  moreover obtain s0 s1 s2 s3 s4 s5 s6 s7 where "s = [s0, s1, s2, s3, s4, s5, s6, s7]"
    using assms by (auto simp: eval_nat_numeral length_Suc_conv)
  ultimately show ?thesis
    by (simp add: compress_block_def fips_compress_def schedule_eq split_def)
qed

lemma length_compress [simp]: "length (compress_block s blk) = 8"
  by (simp add: compress_block_def split_def Let_def)

lemma length_foldl_compress: "length s = 8 \<Longrightarrow> length (foldl compress_block s bs) = 8"
  by (induction bs arbitrary: s) auto

lemma foldl_compress: "length s = 8 \<Longrightarrow> foldl compress_block s bs = foldl fips_compress s bs"
proof (induction bs arbitrary: s)
  case (Cons b bs)
  have "foldl compress_block s (b # bs) = foldl fips_compress (compress_block s b) bs" using Cons.IH by simp
  then show ?case using compress_block_fips[OF Cons.prems] by simp
qed simp

section \<open>Streaming\<close>

lemma blocks64_append:
  assumes "length x mod 64 = 0"
  shows "blocks64 (x @ y) = blocks64 x @ blocks64 y"
  using assms
proof (induction x rule: blocks64.induct)
  case (1 x)
  show ?case
  proof (cases "length x < 64")
    case True
    then have "x = []" using 1 by simp
    then show ?thesis by (simp add: blocks64.simps[of "[]"])
  next
    case False
    then have "length (drop 64 x) mod 64 = 0" using 1(2) by (simp add: mod_if)
    then have "blocks64 (drop 64 x @ y) = blocks64 (drop 64 x) @ blocks64 y" using 1(1)[OF False] by simp
    then show ?thesis using False by (simp add: blocks64.simps[of "x @ y"] blocks64.simps[of x])
  qed
qed

lemma blocks64_short: "length x < 64 \<Longrightarrow> blocks64 x = []"
  by (subst blocks64.simps) simp

lemma blocks64_one: "length x = 64 \<Longrightarrow> blocks64 x = [x]"
  by (subst blocks64.simps) (simp add: blocks64_short)

lemma compress_blocks_eq:
  assumes "a + 64 * n \<le> length m"
  shows "sha256_compress_blocks s m a n = Some (foldl compress_block s (blocks64 (take (64 * n) (drop a m))))"
  using assms
proof (induction n arbitrary: s a)
  case (Suc n)
  have "take (64 * Suc n) (drop a m) = take 64 (drop a m) @ take (64 * n) (drop (a + 64) m)"
    by (simp add: take_drop_add)
  then have "blocks64 (take (64 * Suc n) (drop a m)) = take 64 (drop a m) # blocks64 (take (64 * n) (drop (a + 64) m))"
    using Suc.prems by (simp add: blocks64_append blocks64_one)
  then show ?case using Suc.IH[of "a + 64"] Suc.prems by (simp add: SHA256_BLOCK_SIZE_def)
qed (simp add: blocks64_short)

text \<open>The context after the bytes \<open>m\<close>: the whole blocks are in the state, the rest in the buffer.\<close>

definition whole :: "bytes \<Rightarrow> bytes" where
  "whole m = take (64 * (length m div 64)) m"

definition rest :: "bytes \<Rightarrow> bytes" where
  "rest m = drop (64 * (length m div 64)) m"

definition absorbed :: "sha256_ctx \<Rightarrow> bytes \<Rightarrow> bool" where
  "absorbed ctx m \<longleftrightarrow> s_state ctx = foldl compress_block (s_state sha256_init) (blocks64 (whole m))
     \<and> s_nblocks ctx = of_nat (length m div 64) \<and> s_num ctx = length m mod 64 \<and> length (s_block ctx) = 64
     \<and> take (s_num ctx) (s_block ctx) = rest m"

lemma whole_rest: "whole m @ rest m = m" "length (rest m) = length m mod 64" "length (whole m) = 64 * (length m div 64)"
  by (simp_all add: whole_def rest_def minus_mult_div_eq_mod)

lemma split_at_blocks:
  assumes "length x = 64 * k" and "length y < 64"
  shows "whole (x @ y) = x" and "rest (x @ y) = y"
proof -
  have "(64 * k + length y) div 64 = k" using assms(2) by simp
  then show "whole (x @ y) = x" "rest (x @ y) = y" using assms(1) by (simp_all add: whole_def rest_def)
qed

lemma absorbedI:
  assumes "S = foldl compress_block (s_state sha256_init) (blocks64 (whole m))" and "N = of_nat (length m div 64)"
    and "R = length m mod 64" and "length B = 64" and "take R B = rest m"
  shows "absorbed (ctx\<lparr>s_state := S, s_nblocks := N, s_num := R, s_block := B\<rparr>) m"
  using assms by (simp add: absorbed_def)

lemma update_rest_absorbs:
  assumes "length x mod 64 = 0" and "s_state ctx = foldl compress_block (s_state sha256_init) (blocks64 x)"
    and "s_nblocks ctx = of_nat (length x div 64)" and "length (s_block ctx) = 64" and "a \<le> length d"
  shows "\<exists>ctx'. update_rest ctx d a (length d - a) = Some ctx' \<and> absorbed ctx' (x @ drop a d)"
proof -
  let ?n = "(length d - a) div 64" and ?y = "drop a d"
  have len: "a + 64 * ?n \<le> length d" using assms(5) by (simp add: le_diff_conv2 add.commute)
  have y: "whole ?y = take (64 * ?n) ?y" "rest ?y = drop (64 * ?n) ?y" by (simp_all add: whole_def rest_def)
  obtain k where k: "length x = 64 * k" using assms(1) by (auto elim: dvdE simp: mod_eq_0_iff_dvd)
  have xy: "whole (x @ ?y) = x @ whole ?y" "rest (x @ ?y) = rest ?y"
    using split_at_blocks[of "x @ whole ?y" "k + ?n" "rest ?y"] k whole_rest[of ?y] by (simp_all add: algebra_simps)
  let ?r = "length d - a - 64 * ?n"
  have r: "?r = length (rest ?y)" "?r < 64" using whole_rest(2)[of ?y] by (simp_all add: minus_mult_div_eq_mod)
  let ?s = "foldl compress_block (s_state ctx) (blocks64 (take (64 * ?n) ?y))"
  let ?b = "put_seg (s_block ctx) 0 (rest ?y)"
  have cp: "(if 0 < ?r then mcopy (s_block ctx) 0 d (a + 64 * ?n) ?r else Some (s_block ctx)) = Some ?b"
  proof (cases "0 < ?r")
    case True
    have "take ?r (drop (a + 64 * ?n) d) = rest ?y" using len by (simp add: y add.commute)
    then show ?thesis using True r len assms(4) by (simp add: mcopy_eq)
  next
    case False
    then show ?thesis using r assms(4) by simp
  qed
  let ?c = "ctx\<lparr>s_state := ?s, s_nblocks := s_nblocks ctx + of_nat ?n, s_num := ?r, s_block := ?b\<rparr>"
  have bk: "s_block (c\<lparr>s_state := u, s_nblocks := v\<rparr>) = s_block c" for c u v by simp
  have "update_rest ctx d a (length d - a) = Some ?c"
    unfolding update_rest_def SHA256_BLOCK_SIZE_def Let_def
    by (simp only: compress_blocks_eq[OF len] bind.simps bk cp)
  moreover have "absorbed ?c (x @ ?y)"
  proof -
    have e: "blocks64 (whole (x @ ?y)) = blocks64 x @ blocks64 (take (64 * ?n) ?y)" using assms(1) xy y by (simp add: blocks64_append)
    have L: "length (x @ ?y) = 64 * k + (length d - a)" using k by simp
    have "(64 * k + z) div 64 = k + z div 64" "(64 * k + z) mod 64 = z mod 64" for z by simp_all
    then have n: "length (x @ ?y) div 64 = length x div 64 + ?n" "length (x @ ?y) mod 64 = ?r"
      unfolding L using k r whole_rest(2)[of ?y] by (simp_all only: length_drop) simp
    have t: "take ?r ?b = rest ?y" using r assms(4) take_put_seg_end[of 0 "s_block ctx" "rest ?y"] by simp
    have b: "length ?b = 64" using r assms(4) by simp
    show ?thesis
      by (rule absorbedI) (simp_all only: e n t b xy(2) assms(2,3) foldl_append of_nat_add)
  qed
  ultimately show ?thesis by blast
qed

lemma update_absorbs:
  assumes "absorbed ctx m"
  shows "\<exists>ctx'. sha256_update ctx d (length d) = Some ctx' \<and> absorbed ctx' (m @ d)"
proof -
  have A: "s_state ctx = foldl compress_block (s_state sha256_init) (blocks64 (whole m))" "s_nblocks ctx = of_nat (length m div 64)"
      "s_num ctx = length (rest m)" "length (s_block ctx) = 64" "take (s_num ctx) (s_block ctx) = rest m" "s_num ctx < 64"
    using assms whole_rest(2)[of m] by (auto simp: absorbed_def)
  have num: "ctx\<lparr>s_num := s_num ctx mod 64\<rparr> = ctx" using A(6) by simp
  have wm: "length (whole m) mod 64 = 0" "length (whole m) div 64 = length m div 64" using whole_rest(3)[of m] by simp_all
  let ?left = "64 - s_num ctx"
  consider "s_num ctx = 0" | "s_num ctx \<noteq> 0" "length d < ?left" | "s_num ctx \<noteq> 0" "\<not> length d < ?left" by blast
  then show ?thesis
  proof cases
    case 1
    then have "whole m = m" using A(3) whole_rest(1)[of m] by simp
    moreover have "sha256_update ctx d (length d) = update_rest ctx d 0 (length d)"
      unfolding sha256_update_def Let_def num using 1 by simp
    ultimately show ?thesis using update_rest_absorbs[of m ctx 0 d] A wm by simp
  next
    case 2
    let ?b = "put_seg (s_block ctx) (s_num ctx) d"
    let ?c = "ctx\<lparr>s_block := ?b, s_num := s_num ctx + length d\<rparr>"
    have "sha256_update ctx d (length d) = Some ?c"
      unfolding sha256_update_def Let_def num using 2 A by (simp add: SHA256_BLOCK_SIZE_def mcopy_eq)
    moreover have "whole (m @ d) = whole m" "rest (m @ d) = rest m @ d"
      using split_at_blocks[of "whole m" "length m div 64" "rest m @ d"] whole_rest[of m] 2 A(3) by (simp_all flip: append_assoc)
    moreover have "length (m @ d) div 64 = length m div 64" "length (m @ d) mod 64 = s_num ctx + length d"
    proof -
      obtain q where q: "length m = 64 * q + s_num ctx" "length m div 64 = q"
        using A(3) whole_rest(2)[of m] by (metis mult_div_mod_eq)
      then have "length (m @ d) = 64 * q + (s_num ctx + length d)" by simp
      moreover have "s_num ctx + length d < 64" using 2 by linarith
      ultimately show "length (m @ d) div 64 = length m div 64" "length (m @ d) mod 64 = s_num ctx + length d"
        using q(2) by (simp_all only: ) simp_all
    qed
    moreover have "take (s_num ctx + length d) ?b = rest m @ d"
      using A 2 take_put_seg_end[of "s_num ctx" "s_block ctx" d] by simp
    ultimately show ?thesis using A 2 by (simp add: absorbed_def)
  next
    case 3
    let ?b = "put_seg (s_block ctx) (s_num ctx) (take ?left d)"
    have b: "?b = rest m @ take ?left d" "length ?b = 64"
      using A 3 take_put_seg_end[of "s_num ctx" "s_block ctx" "take ?left d"] by (simp_all add: put_seg_def)
    let ?c = "ctx\<lparr>s_block := ?b, s_state := compress_block (s_state ctx) ?b, s_nblocks := s_nblocks ctx + 1\<rparr>"
    have run: "sha256_update ctx d (length d) = update_rest ?c d ?left (length d - ?left)"
      unfolding sha256_update_def Let_def num using 3 A b(2) by (simp add: SHA256_BLOCK_SIZE_def mcopy_eq)
    let ?x = "whole m @ ?b"
    have "length ?x mod 64 = 0" "length ?x div 64 = length m div 64 + 1" using b(2) whole_rest(3)[of m] by simp_all
    moreover have "blocks64 ?x = blocks64 (whole m) @ [?b]" using wm(1) b(2) by (simp add: blocks64_append blocks64_one)
    ultimately have "\<exists>ctx'. update_rest ?c d ?left (length d - ?left) = Some ctx' \<and> absorbed ctx' (?x @ drop ?left d)"
      using 3 A b(2) by (intro update_rest_absorbs) simp_all
    moreover have "?x @ drop ?left d = m @ d" using b(1) whole_rest(1)[of m] by (metis append.assoc append_take_drop_id)
    ultimately show ?thesis using run by simp
  qed
qed

lemma calls_absorb:
  assumes "absorbed ctx m"
  shows "\<exists>ctx'. sha256_calls ms ctx = Some ctx' \<and> absorbed ctx' (m @ concat ms)"
  using assms
proof (induction ms arbitrary: ctx m)
  case (Cons d ms)
  obtain c where c: "sha256_update ctx d (length d) = Some c" "absorbed c (m @ d)" using update_absorbs[OF Cons.prems] by blast
  then show ?case using Cons.IH[OF c(2)] by simp
qed simp

lemma init_absorbed: "absorbed sha256_init []"
  by (simp add: absorbed_def sha256_init_def whole_def rest_def blocks64_short SHA256_BLOCK_SIZE_def)

section \<open>Padding\<close>

lemma put_seg_at: "length p = a \<Longrightarrow> put_seg (p @ q) a bs = p @ bs @ drop (length bs) q"
  by (simp add: put_seg_def)

lemma word_8_eqI: "(\<And>n. n < 8 \<Longrightarrow> bit x n = bit y n) \<Longrightarrow> x = y" for x y :: u8
  by (rule bit_word_eqI) simp

text \<open>The bit length as the code assembles it from the number of blocks and of bytes left over.\<close>

lemma length_bytes:
  fixes q r :: nat
  assumes "r < 64"
  defines "nb \<equiv> (of_nat q :: u64)" and "x \<equiv> (of_nat (8 * (64 * q + r)) :: u64)"
  shows "PUTU32 (drop_bit 23 nb) @ PUTU32 (push_bit 9 nb + push_bit 3 (of_nat r)) = be64 x"
proof -
  let ?r = "of_nat r :: u64"
  have x: "push_bit 9 nb + push_bit 3 ?r = x" by (simp add: x_def nb_def push_bit_eq_mult algebra_simps)
  have rb: "\<not> bit ?r n" if "6 \<le> n" for n
  proof -
    have "r < 2 ^ n" using assms(1) power_increasing[OF that, of "2 :: nat"] by simp
    then have "\<not> bit r n" by (simp add: bit_iff_odd)
    then show ?thesis by transfer (simp add: bit_simps)
  qed
  have "push_bit 9 nb AND push_bit 3 ?r = 0"
  proof (rule bit_eqI)
    fix n show "bit (push_bit 9 nb AND push_bit 3 ?r) n = bit 0 n"
      using rb[of "n - 3"] by (auto simp: bit_and_iff bit_push_bit_iff)
  qed
  then have "x = push_bit 9 nb OR push_bit 3 ?r" using x by (simp add: disjunctive_add_eq_or)
  then have hi: "bit x n \<longleftrightarrow> n < 64 \<and> bit nb (n - 9)" if "9 \<le> n" for n
    using that rb[of "n - 3"] by (auto simp: bit_or_iff bit_push_bit_iff)
  have "(ucast (drop_bit k (drop_bit 23 nb)) :: u8) = ucast (drop_bit (32 + k) x)" if "k \<le> 24" for k
    using that by (intro word_8_eqI) (auto simp: bit_ucast_iff bit_drop_bit_eq hi ac_simps)
  from this[of 24] this[of 16] this[of 8] this[of 0] show ?thesis
    unfolding x by (simp add: PUTU32_def be64_def upt_rec)
qed

lemma pad_mod: "n \<le> 55 \<Longrightarrow> (119 - n) mod 64 = 55 - n" for n :: nat
  by (simp add: mod_if)

lemma blocks64_last: "length B = 64 \<Longrightarrow> length X = 8 \<Longrightarrow> blocks64 (take 56 B @ X) = [take 56 B @ X]"
  by (simp add: blocks64_one)

lemma finish_pad_run:
  assumes "absorbed ctx m"
  shows "\<exists>ctx'. finish_pad ctx = Some ctx' \<and> s_nblocks ctx' = s_nblocks ctx \<and> s_num ctx' = length m mod 64 \<and> length (s_block ctx') = 64
    \<and> foldl compress_block (s_state sha256_init) (blocks64 (fips_pad m))
      = compress_block (s_state ctx') (take 56 (s_block ctx') @ be64 (of_nat (8 * length m)))"
proof -
  let ?r = "rest m" and ?n = "length m mod 64" and ?x = "be64 (of_nat (8 * length m))" and ?S = "foldl compress_block (s_state sha256_init)"
  have A: "s_state ctx = ?S (blocks64 (whole m))" "s_num ctx = ?n" "length (s_block ctx) = 64" "take ?n (s_block ctx) = ?r"
    using assms by (auto simp: absorbed_def)
  have lr: "length ?r = ?n" "?n < 64" and lw: "length (whole m) mod 64 = 0" and wr: "whole m @ ?r = m"
    using whole_rest[of m] by simp_all
  have lx: "length ?x = 8" by (simp add: be64_def)
  obtain q where blk: "s_block ctx = ?r @ q" "length q = 64 - ?n"
    using A lr by (metis append_take_drop_id length_drop)
  have w1: "wr (s_block ctx) ?n 0x80 = Some (?r @ 0x80 # tl q)"
    using blk lr by (cases q) (auto simp: wr_def list_update_append)
  have clr: "mclear (?r @ 0x80 # tl q) (Suc ?n) k = Some (?r @ 0x80 # replicate k 0 @ drop k (tl q))" if "k \<le> 63 - ?n" for k
    using that blk(2) lr put_seg_at[of "?r @ [0x80]" "?n + 1" "tl q" "replicate k 0"] by (simp add: mclear_eq)
  have pad: "blocks64 (fips_pad m) = blocks64 (whole m) @ blocks64 (?r @ 0x80 # replicate ((119 - ?n) mod 64) 0 @ ?x)"
    using blocks64_append[OF lw, of "?r @ 0x80 # replicate ((119 - ?n) mod 64) 0 @ ?x"] wr by (simp add: fips_pad_def flip: append_assoc)
  have num: "ctx\<lparr>s_num := s_num ctx mod 64\<rparr> = ctx" using A(2) lr(2) by simp
  show ?thesis
  proof (cases "?n \<le> 55")
    case True
    let ?b = "?r @ 0x80 # replicate (55 - ?n) 0 @ drop (55 - ?n) (tl q)"
    have run: "finish_pad ctx = Some (ctx\<lparr>s_block := ?b\<rparr>)"
      using True A(2) unfolding finish_pad_def Let_def num by (simp add: SHA256_BLOCK_SIZE_def w1 clr diff_commute)
    have "take 56 ?b = ?r @ 0x80 # replicate (55 - ?n) 0" "length ?b = 64" using True lr blk(2) by (simp_all add: Suc_diff_le take_Cons')
    then have "take 56 ?b = ?r @ 0x80 # replicate ((119 - ?n) mod 64) 0" "length ?b = 64" using pad_mod[OF True] by (simp_all only:)
    moreover have "blocks64 (take 56 ?b @ ?x) = [take 56 ?b @ ?x]" 
      by (rule blocks64_last[OF \<open>length ?b = 64\<close> lx])
    ultimately have "blocks64 (fips_pad m) = blocks64 (whole m) @ [take 56 ?b @ ?x]" using pad by (simp only: append_assoc append_Cons)
    then have "?S (blocks64 (fips_pad m)) = compress_block (s_state ctx) (take 56 ?b @ ?x)"
      by (simp only: foldl_append foldl_Cons foldl_Nil A(1))
    moreover have "s_nblocks (ctx\<lparr>s_block := B\<rparr>) = s_nblocks ctx" "s_num (ctx\<lparr>s_block := B\<rparr>) = s_num ctx"
      "s_state (ctx\<lparr>s_block := B\<rparr>) = s_state ctx" "s_block (ctx\<lparr>s_block := B\<rparr>) = B" for B by simp_all
    ultimately show ?thesis using A(2) \<open>length ?b = 64\<close> by (intro exI[of _ "ctx\<lparr>s_block := ?b\<rparr>"]) (simp only: run simp_thms)
  next
    case False
    define b where "b = ?r @ 0x80 # replicate (63 - ?n) 0"
    have lb: "length b = 64" and cl: "mclear (?r @ 0x80 # tl q) (Suc ?n) (63 - ?n) = Some b"
      using False lr blk(2) clr[of "63 - ?n"] by (simp_all add: b_def)
    let ?b' = "replicate 56 0 @ drop 56 b"
    have b': "mclear b 0 56 = Some ?b'" using lb put_seg_at[of "[]" 0 b "replicate 56 0"] by (simp add: mclear_eq)
    have run: "finish_pad ctx = Some (ctx\<lparr>s_block := ?b', s_state := compress_block (s_state ctx) b\<rparr>)"
      unfolding finish_pad_def Let_def num using False A(2) lb b' cl by (simp add: SHA256_BLOCK_SIZE_def w1 diff_commute)
    have "(119 - ?n) mod 64 = (63 - ?n) + 56" using False lr(2) by simp
    then have "?r @ 0x80 # replicate ((119 - ?n) mod 64) 0 @ ?x = b @ replicate 56 0 @ ?x"
      by (simp only: b_def replicate_add append_assoc append_Cons)
    moreover have "blocks64 (b @ replicate 56 0 @ ?x) = [b, replicate 56 0 @ ?x]"
      using lb lx blocks64_append[of b] blocks64_one[of b] blocks64_one[of "replicate 56 0 @ ?x"] by simp
    ultimately have "blocks64 (fips_pad m) = blocks64 (whole m) @ [b, replicate 56 0 @ ?x]" using pad by (simp only:)
    then show ?thesis using lb A run by simp
  qed
qed

lemma finish_run:
  assumes "absorbed ctx m"
  shows "sha256_finish ctx = Some (sha256_ref m)"
proof -
  let ?x = "be64 (of_nat (8 * length m))"
  obtain c where c: "finish_pad ctx = Some c" "s_nblocks c = s_nblocks ctx" "s_num c = length m mod 64" "length (s_block c) = 64"
    and S: "foldl compress_block (s_state sha256_init) (blocks64 (fips_pad m)) = compress_block (s_state c) (take 56 (s_block c) @ ?x)"
    using finish_pad_run[OF assms] by blast
  let ?hi = "PUTU32 (drop_bit 23 (s_nblocks c))" and ?lo = "PUTU32 (push_bit 9 (s_nblocks c) + push_bit 3 (of_nat (s_num c)))"
  have l4: "length ?hi = 4" "length ?lo = 4" by (simp_all add: PUTU32_def)
  have len: "8 * (64 * (length m div 64) + length m mod 64) = 8 * length m" by simp
  have nb: "s_nblocks c = of_nat (length m div 64)" using assms c(2) by (simp add: absorbed_def)
  have x: "?hi @ ?lo = ?x"
    unfolding nb c(3) using length_bytes[of "length m mod 64" "length m div 64"] unfolding len by simp
  have seg: "wr_seg (s_block c) 56 ?hi = Some (take 56 (s_block c) @ ?hi @ drop 60 (s_block c))"
    using c(4) l4 by (simp add: wr_seg_def put_seg_def)
  have seg2: "wr_seg (take 56 (s_block c) @ ?hi @ drop 60 (s_block c)) 60 ?lo = Some (take 56 (s_block c) @ ?x)"
    using c(4) l4 put_seg_at[of "take 56 (s_block c) @ ?hi" 60 "drop 60 (s_block c)" ?lo] x by (simp add: wr_seg_def flip: x)
  have "rd_seg (take 56 (s_block c) @ ?x) 0 SHA256_BLOCK_SIZE = Some (take 56 (s_block c) @ ?x)"
    using c(4) by (simp add: be64_def SHA256_BLOCK_SIZE_def)
  then have "sha256_finish ctx = Some (concat (map PUTU32 (compress_block (s_state c) (take 56 (s_block c) @ ?x))))"
    by (simp add: sha256_finish_def c(1) seg seg2 del: of_nat_mult)
  moreover have "length (s_state sha256_init) = 8" by (simp add: sha256_init_def)
  ultimately show ?thesis using S foldl_compress[of "s_state sha256_init"] by (simp add: sha256_ref_def)
qed

text \<open>C15. However a message is cut into calls of \<open>sha256_update\<close>, initialising, updating and
  finishing stays inside the buffers and returns the SHA-256 digest of the whole message as the
  standard defines it: padded with a 1 bit, zeros and the length in bits, and compressed block by block.\<close>

theorem sha256_streaming:
  "Option.bind (sha256_calls ms sha256_init) sha256_finish = Some (sha256_ref (concat ms))"
proof -
  obtain ctx where "sha256_calls ms sha256_init = Some ctx" "absorbed ctx (concat ms)"
    using calls_absorb[OF init_absorbed, of ms] by auto
  then show ?thesis using finish_run by simp
qed

end
