(* ===== verification/Xxhash.thy ===== *)
theory Xxhash
  imports Mem
begin

text \<open>
  The non-cryptographic hashes of \<open>src/src/xlib/xxhash.c\<close>. The input is the object \<open>m\<close> at the address
  \<open>addr\<close>; an aligned address is read by whole machine words in the byte order \<open>le\<close> of the machine
  (\<open>__LITTLE_ENDIAN__\<close>), any other byte by byte. The second half proves that all these variants read
  inside the object, end, and compute the same function of the bytes.
\<close>

section \<open>Reading\<close>

datatype xxh_alignment = XXH_aligned | XXH_unaligned

text \<open>What a load of a 4- or 8-byte word gives on a machine of either byte order.\<close>

definition native32 :: "bool \<Rightarrow> bytes \<Rightarrow> u32" where
  "native32 le p = word_rcat (if le then rev p else p)"

definition native64 :: "bool \<Rightarrow> bytes \<Rightarrow> u64" where
  "native64 le p = word_rcat (if le then rev p else p)"

definition XXH_readLE32 :: "bytes \<Rightarrow> u32" where
  "XXH_readLE32 p = ucast (p ! 0) OR push_bit 8 (ucast (p ! 1)) OR push_bit 16 (ucast (p ! 2)) OR push_bit 24 (ucast (p ! 3))"

definition XXH_swap32 :: "u32 \<Rightarrow> u32" where
  "XXH_swap32 x = (push_bit 24 x AND 0xff000000) OR (push_bit 8 x AND 0x00ff0000)
     OR (drop_bit 8 x AND 0x0000ff00) OR (drop_bit 24 x AND 0x000000ff)"

definition XXH_readLE32_align :: "bool \<Rightarrow> xxh_alignment \<Rightarrow> bytes \<Rightarrow> nat \<Rightarrow> u32 option" where
  "XXH_readLE32_align le align m a = do {
     p \<leftarrow> rd_seg m a 4;
     Some (if align = XXH_unaligned then XXH_readLE32 p
           else if le then native32 le p else XXH_swap32 (native32 le p)) }"

definition XXH_readLE64 :: "bytes \<Rightarrow> u64" where
  "XXH_readLE64 p = ucast (p ! 0) OR push_bit 8 (ucast (p ! 1)) OR push_bit 16 (ucast (p ! 2)) OR push_bit 24 (ucast (p ! 3))
     OR push_bit 32 (ucast (p ! 4)) OR push_bit 40 (ucast (p ! 5)) OR push_bit 48 (ucast (p ! 6)) OR push_bit 56 (ucast (p ! 7))"

definition XXH_swap64 :: "u64 \<Rightarrow> u64" where
  "XXH_swap64 x = (push_bit 56 x AND 0xff00000000000000) OR (push_bit 40 x AND 0x00ff000000000000)
     OR (push_bit 24 x AND 0x0000ff0000000000) OR (push_bit 8 x AND 0x000000ff00000000)
     OR (drop_bit 8 x AND 0x00000000ff000000) OR (drop_bit 24 x AND 0x0000000000ff0000)
     OR (drop_bit 40 x AND 0x000000000000ff00) OR (drop_bit 56 x AND 0x00000000000000ff)"

definition XXH_readLE64_align :: "bool \<Rightarrow> xxh_alignment \<Rightarrow> bytes \<Rightarrow> nat \<Rightarrow> u64 option" where
  "XXH_readLE64_align le align m a = do {
     p \<leftarrow> rd_seg m a 8;
     Some (if align = XXH_unaligned then XXH_readLE64 p
           else if le then native64 le p else XXH_swap64 (native64 le p)) }"

section \<open>32 bits\<close>

definition XXH_PRIME32_1 :: u32 where "XXH_PRIME32_1 = 0x9E3779B1"
definition XXH_PRIME32_2 :: u32 where "XXH_PRIME32_2 = 0x85EBCA77"
definition XXH_PRIME32_3 :: u32 where "XXH_PRIME32_3 = 0xC2B2AE3D"
definition XXH_PRIME32_4 :: u32 where "XXH_PRIME32_4 = 0x27D4EB2F"
definition XXH_PRIME32_5 :: u32 where "XXH_PRIME32_5 = 0x165667B1"

definition XXH_rotl32 :: "u32 \<Rightarrow> nat \<Rightarrow> u32" where
  "XXH_rotl32 x r = push_bit r x OR drop_bit (32 - r) x"

definition XXH32_round :: "u32 \<Rightarrow> u32 \<Rightarrow> u32" where
  "XXH32_round acc inp = XXH_rotl32 (acc + inp * XXH_PRIME32_2) 13 * XXH_PRIME32_1"

definition XXH32_avalanche :: "u32 \<Rightarrow> u32" where
  "XXH32_avalanche hash =
     (let h1 = (hash XOR drop_bit 15 hash) * XXH_PRIME32_2;
          h2 = (h1 XOR drop_bit 13 h1) * XXH_PRIME32_3 in h2 XOR drop_bit 16 h2)"

definition process4_32 :: "u32 \<Rightarrow> u32 \<Rightarrow> u32" where
  "process4_32 hash w = XXH_rotl32 (hash + w * XXH_PRIME32_3) 17 * XXH_PRIME32_4"

definition process1_32 :: "u32 \<Rightarrow> u8 \<Rightarrow> u32" where
  "process1_32 hash c = XXH_rotl32 (hash + ucast c * XXH_PRIME32_5) 11 * XXH_PRIME32_1"

fun finalize32_words :: "bool \<Rightarrow> xxh_alignment \<Rightarrow> bytes \<Rightarrow> nat \<Rightarrow> nat \<Rightarrow> u32 \<Rightarrow> (u32 \<times> nat \<times> nat) option" where
  "finalize32_words le align m a len hash =
     (if len \<ge> 4 then do {
        w \<leftarrow> XXH_readLE32_align le align m a;
        finalize32_words le align m (a + 4) (len - 4) (process4_32 hash w) }
      else Some (hash, a, len))"

declare finalize32_words.simps [simp del]

fun finalize32_bytes :: "bytes \<Rightarrow> nat \<Rightarrow> nat \<Rightarrow> u32 \<Rightarrow> u32 option" where
  "finalize32_bytes m a 0 hash = Some hash"
| "finalize32_bytes m a (Suc len) hash = do {
     c \<leftarrow> rd m a;
     finalize32_bytes m (a + 1) len (process1_32 hash c) }"

definition XXH32_finalize :: "bool \<Rightarrow> xxh_alignment \<Rightarrow> u32 \<Rightarrow> bytes \<Rightarrow> nat \<Rightarrow> nat \<Rightarrow> u32 option" where
  "XXH32_finalize le align hash m a len = do {
     (h1, a1, len1) \<leftarrow> finalize32_words le align m a (len mod 16) hash;
     h2 \<leftarrow> finalize32_bytes m a1 len1 h1;
     Some (XXH32_avalanche h2) }"

text \<open>One pass of the main loop, and the loop itself (a \<open>do\<close>-\<open>while\<close>).\<close>

definition stripe32 :: "bool \<Rightarrow> xxh_alignment \<Rightarrow> bytes \<Rightarrow> nat \<Rightarrow> u32 \<times> u32 \<times> u32 \<times> u32 \<Rightarrow> (u32 \<times> u32 \<times> u32 \<times> u32) option" where
  "stripe32 le align m a v = do {
     w1 \<leftarrow> XXH_readLE32_align le align m a;
     w2 \<leftarrow> XXH_readLE32_align le align m (a + 4);
     w3 \<leftarrow> XXH_readLE32_align le align m (a + 8);
     w4 \<leftarrow> XXH_readLE32_align le align m (a + 12);
     let (v1, v2, v3, v4) = v;
     Some (XXH32_round v1 w1, XXH32_round v2 w2, XXH32_round v3 w3, XXH32_round v4 w4) }"

function stripes32 :: "bool \<Rightarrow> xxh_alignment \<Rightarrow> bytes \<Rightarrow> nat \<Rightarrow> nat \<Rightarrow> u32 \<times> u32 \<times> u32 \<times> u32 \<Rightarrow> ((u32 \<times> u32 \<times> u32 \<times> u32) \<times> nat) option" where
  "stripes32 le align m a limit v = do {
     v' \<leftarrow> stripe32 le align m a v;
     if a + 16 < limit then stripes32 le align m (a + 16) limit v' else Some (v', a + 16) }"
  by pat_completeness auto
termination
  by (relation "measure (\<lambda>(le, align, m, a, limit, v). limit - a)") auto

declare stripes32.simps [simp del]

definition XXH32_endian_align :: "bool \<Rightarrow> xxh_alignment \<Rightarrow> bytes \<Rightarrow> nat \<Rightarrow> u32 \<Rightarrow> u32 option" where
  "XXH32_endian_align le align m len seed = do {
     (h, a) \<leftarrow> (if len \<ge> 16 then do {
        ((v1, v2, v3, v4), a) \<leftarrow> stripes32 le align m 0 (len - 15)
          (seed + XXH_PRIME32_1 + XXH_PRIME32_2, seed + XXH_PRIME32_2, seed, seed - XXH_PRIME32_1);
        Some (XXH_rotl32 v1 1 + XXH_rotl32 v2 7 + XXH_rotl32 v3 12 + XXH_rotl32 v4 18, a) }
      else Some (seed + XXH_PRIME32_5, 0));
     XXH32_finalize le align (h + of_nat len) m a (len mod 16) }"

definition xxhash32 :: "bool \<Rightarrow> nat \<Rightarrow> bytes \<Rightarrow> nat \<Rightarrow> u32 \<Rightarrow> u32 option" where
  "xxhash32 le addr m len seed =
     XXH32_endian_align le (if addr mod 4 = 0 then XXH_aligned else XXH_unaligned) m len seed"

section \<open>64 bits\<close>

definition XXH_PRIME64_1 :: u64 where "XXH_PRIME64_1 = 0x9E3779B185EBCA87"
definition XXH_PRIME64_2 :: u64 where "XXH_PRIME64_2 = 0xC2B2AE3D27D4EB4F"
definition XXH_PRIME64_3 :: u64 where "XXH_PRIME64_3 = 0x165667B19E3779F9"
definition XXH_PRIME64_4 :: u64 where "XXH_PRIME64_4 = 0x85EBCA77C2B2AE63"
definition XXH_PRIME64_5 :: u64 where "XXH_PRIME64_5 = 0x27D4EB2F165667C5"

definition XXH_rotl64 :: "u64 \<Rightarrow> nat \<Rightarrow> u64" where
  "XXH_rotl64 x r = push_bit r x OR drop_bit (64 - r) x"

definition XXH64_round :: "u64 \<Rightarrow> u64 \<Rightarrow> u64" where
  "XXH64_round acc inp = XXH_rotl64 (acc + inp * XXH_PRIME64_2) 31 * XXH_PRIME64_1"

definition XXH64_mergeRound :: "u64 \<Rightarrow> u64 \<Rightarrow> u64" where
  "XXH64_mergeRound acc val = (acc XOR XXH64_round 0 val) * XXH_PRIME64_1 + XXH_PRIME64_4"

definition XXH64_avalanche :: "u64 \<Rightarrow> u64" where
  "XXH64_avalanche hash =
     (let h1 = (hash XOR drop_bit 33 hash) * XXH_PRIME64_2;
          h2 = (h1 XOR drop_bit 29 h1) * XXH_PRIME64_3 in h2 XOR drop_bit 32 h2)"

definition process8_64 :: "u64 \<Rightarrow> u64 \<Rightarrow> u64" where
  "process8_64 hash w = XXH_rotl64 (hash XOR XXH64_round 0 w) 27 * XXH_PRIME64_1 + XXH_PRIME64_4"

definition process4_64 :: "u64 \<Rightarrow> u32 \<Rightarrow> u64" where
  "process4_64 hash w = XXH_rotl64 (hash XOR ucast w * XXH_PRIME64_1) 23 * XXH_PRIME64_2 + XXH_PRIME64_3"

definition process1_64 :: "u64 \<Rightarrow> u8 \<Rightarrow> u64" where
  "process1_64 hash c = XXH_rotl64 (hash XOR ucast c * XXH_PRIME64_5) 11 * XXH_PRIME64_1"

fun finalize64_words :: "bool \<Rightarrow> xxh_alignment \<Rightarrow> bytes \<Rightarrow> nat \<Rightarrow> nat \<Rightarrow> u64 \<Rightarrow> (u64 \<times> nat \<times> nat) option" where
  "finalize64_words le align m a len hash =
     (if len \<ge> 8 then do {
        w \<leftarrow> XXH_readLE64_align le align m a;
        finalize64_words le align m (a + 8) (len - 8) (process8_64 hash w) }
      else Some (hash, a, len))"

declare finalize64_words.simps [simp del]

fun finalize64_bytes :: "bytes \<Rightarrow> nat \<Rightarrow> nat \<Rightarrow> u64 \<Rightarrow> u64 option" where
  "finalize64_bytes m a 0 hash = Some hash"
| "finalize64_bytes m a (Suc len) hash = do {
     c \<leftarrow> rd m a;
     finalize64_bytes m (a + 1) len (process1_64 hash c) }"

definition XXH64_finalize :: "bool \<Rightarrow> xxh_alignment \<Rightarrow> u64 \<Rightarrow> bytes \<Rightarrow> nat \<Rightarrow> nat \<Rightarrow> u64 option" where
  "XXH64_finalize le align hash m a len = do {
     (h1, a1, len1) \<leftarrow> finalize64_words le align m a (len mod 32) hash;
     (h2, a2, len2) \<leftarrow> (if len1 \<ge> 4 then do {
        w \<leftarrow> XXH_readLE32_align le align m a1;
        Some (process4_64 h1 w, a1 + 4, len1 - 4) } else Some (h1, a1, len1));
     h3 \<leftarrow> finalize64_bytes m a2 len2 h2;
     Some (XXH64_avalanche h3) }"

definition stripe64 :: "bool \<Rightarrow> xxh_alignment \<Rightarrow> bytes \<Rightarrow> nat \<Rightarrow> u64 \<times> u64 \<times> u64 \<times> u64 \<Rightarrow> (u64 \<times> u64 \<times> u64 \<times> u64) option" where
  "stripe64 le align m a v = do {
     w1 \<leftarrow> XXH_readLE64_align le align m a;
     w2 \<leftarrow> XXH_readLE64_align le align m (a + 8);
     w3 \<leftarrow> XXH_readLE64_align le align m (a + 16);
     w4 \<leftarrow> XXH_readLE64_align le align m (a + 24);
     let (v1, v2, v3, v4) = v;
     Some (XXH64_round v1 w1, XXH64_round v2 w2, XXH64_round v3 w3, XXH64_round v4 w4) }"

function stripes64 :: "bool \<Rightarrow> xxh_alignment \<Rightarrow> bytes \<Rightarrow> nat \<Rightarrow> nat \<Rightarrow> u64 \<times> u64 \<times> u64 \<times> u64 \<Rightarrow> ((u64 \<times> u64 \<times> u64 \<times> u64) \<times> nat) option" where
  "stripes64 le align m a limit v = do {
     v' \<leftarrow> stripe64 le align m a v;
     if a + 32 < limit then stripes64 le align m (a + 32) limit v' else Some (v', a + 32) }"
  by pat_completeness auto
termination
  by (relation "measure (\<lambda>(le, align, m, a, limit, v). limit - a)") auto

declare stripes64.simps [simp del]

definition XXH64_endian_align :: "bool \<Rightarrow> xxh_alignment \<Rightarrow> bytes \<Rightarrow> nat \<Rightarrow> u64 \<Rightarrow> u64 option" where
  "XXH64_endian_align le align m len seed = do {
     (h, a) \<leftarrow> (if len \<ge> 32 then do {
        ((v1, v2, v3, v4), a) \<leftarrow> stripes64 le align m 0 (len - 31)
          (seed + XXH_PRIME64_1 + XXH_PRIME64_2, seed + XXH_PRIME64_2, seed, seed - XXH_PRIME64_1);
        let h = XXH_rotl64 v1 1 + XXH_rotl64 v2 7 + XXH_rotl64 v3 12 + XXH_rotl64 v4 18;
        Some (XXH64_mergeRound (XXH64_mergeRound (XXH64_mergeRound (XXH64_mergeRound h v1) v2) v3) v4, a) }
      else Some (seed + XXH_PRIME64_5, 0));
     XXH64_finalize le align (h + of_nat len) m a len }"

text \<open>\<open>inp\<close> is \<^term>\<open>None\<close> for a NULL pointer.\<close>

definition xxhash64 :: "bool \<Rightarrow> nat \<Rightarrow> bytes option \<Rightarrow> nat \<Rightarrow> u64 \<Rightarrow> u64 option" where
  "xxhash64 le addr inp len seed = (case inp of None \<Rightarrow> Some 0
     | Some m \<Rightarrow> XXH64_endian_align le (if addr mod 8 = 0 then XXH_aligned else XXH_unaligned) m len seed)"

section \<open>All ways of reading agree\<close>

lemma byte_bit: "bit (c :: u8) j \<longleftrightarrow> j < 8 \<and> bit c j"
  using bit_imp_le_length[of c j] by auto

lemma shifted_byte_bit: "bit (push_bit (8 * k) (ucast (c :: u8)) :: 'a :: len word) n \<longleftrightarrow> n < LENGTH('a) \<and> n div 8 = k \<and> bit c (n mod 8)"
proof (cases "n div 8 = k")
  case True
  then have "n = 8 * k + n mod 8" by auto
  then have "n - 8 * k = n mod 8" "8 * k \<le> n" by auto
  then show ?thesis using True by (auto simp: bit_push_bit_iff bit_ucast_iff)
next
  case False
  then have "8 * k \<le> n \<Longrightarrow> 8 \<le> n - 8 * k" by (auto simp: div_nat_eqI not_less_eq_eq)
  then show ?thesis using False bit_imp_le_length[of c "n - 8 * k"] by (auto simp: bit_push_bit_iff bit_ucast_iff)
qed

lemma rcat_bit:
  "bit (word_rcat ws :: 'a :: len word) n \<longleftrightarrow> n < LENGTH('a) \<and> n div 8 < length ws \<and> bit (rev ws ! (n div 8)) (n mod 8)" for ws :: bytes
proof -
  have "bit (horner_sum uint (2 ^ LENGTH(8)) (rev ws)) n \<longleftrightarrow> n div LENGTH(8) < length (rev ws) \<and> bit (rev ws ! (n div LENGTH(8))) (n mod LENGTH(8))"
    by (rule bit_horner_sum_uint_exp_iff)
  then show ?thesis by (simp add: word_rcat_def bit_word_of_int_iff)
qed

lemma div8_cases:
  "(n :: nat) < 32 \<Longrightarrow> n div 8 = 0 \<or> n div 8 = 1 \<or> n div 8 = 2 \<or> n div 8 = 3"
  by auto

lemma div8_cases64:
  "(n :: nat) < 64 \<Longrightarrow> n div 8 = 0 \<or> n div 8 = 1 \<or> n div 8 = 2 \<or> n div 8 = 3 \<or> n div 8 = 4 \<or> n div 8 = 5 \<or> n div 8 = 6 \<or> n div 8 = 7"
  by auto

lemma readLE32_bit: "bit (XXH_readLE32 p) n \<longleftrightarrow> n < 32 \<and> bit (p ! (n div 8)) (n mod 8)"
proof -
  have "XXH_readLE32 p = push_bit (8 * 0) (ucast (p ! 0)) OR push_bit (8 * 1) (ucast (p ! 1)) OR push_bit (8 * 2) (ucast (p ! 2))
     OR push_bit (8 * 3) (ucast (p ! 3))" by (simp add: XXH_readLE32_def)
  then have "bit (XXH_readLE32 p) n \<longleftrightarrow> n < 32 \<and> (n div 8 = 0 \<and> bit (p ! 0) (n mod 8) \<or> n div 8 = 1 \<and> bit (p ! 1) (n mod 8)
    \<or> n div 8 = 2 \<and> bit (p ! 2) (n mod 8) \<or> n div 8 = 3 \<and> bit (p ! 3) (n mod 8))"
    by (simp only: bit_or_iff shifted_byte_bit) auto
  then show ?thesis using div8_cases[of n] by metis
qed

lemma readLE64_bit: "bit (XXH_readLE64 p) n \<longleftrightarrow> n < 64 \<and> bit (p ! (n div 8)) (n mod 8)"
proof -
  have "XXH_readLE64 p = push_bit (8 * 0) (ucast (p ! 0)) OR push_bit (8 * 1) (ucast (p ! 1)) OR push_bit (8 * 2) (ucast (p ! 2))
     OR push_bit (8 * 3) (ucast (p ! 3)) OR push_bit (8 * 4) (ucast (p ! 4)) OR push_bit (8 * 5) (ucast (p ! 5))
     OR push_bit (8 * 6) (ucast (p ! 6)) OR push_bit (8 * 7) (ucast (p ! 7))" by (simp add: XXH_readLE64_def)
  then have e: "bit (XXH_readLE64 p) n \<longleftrightarrow> n < LENGTH(64) \<and> n div 8 = 0 \<and> bit (p ! 0) (n mod 8) \<or> n < LENGTH(64) \<and> n div 8 = 1 \<and> bit (p ! 1) (n mod 8)
    \<or> n < LENGTH(64) \<and> n div 8 = 2 \<and> bit (p ! 2) (n mod 8) \<or> n < LENGTH(64) \<and> n div 8 = 3 \<and> bit (p ! 3) (n mod 8)
    \<or> n < LENGTH(64) \<and> n div 8 = 4 \<and> bit (p ! 4) (n mod 8) \<or> n < LENGTH(64) \<and> n div 8 = 5 \<and> bit (p ! 5) (n mod 8)
    \<or> n < LENGTH(64) \<and> n div 8 = 6 \<and> bit (p ! 6) (n mod 8) \<or> n < LENGTH(64) \<and> n div 8 = 7 \<and> bit (p ! 7) (n mod 8)"
    by (simp only: bit_or_iff shifted_byte_bit disj_assoc)
  show ?thesis
  proof (cases "n < 64")
    case True
    with div8_cases64[OF this] show ?thesis unfolding e by (elim disjE) simp_all
  next
    case False then show ?thesis unfolding e by simp
  qed
qed

lemma native_le32: "length p = 4 \<Longrightarrow> native32 True p = XXH_readLE32 p"
  by (rule bit_word_eqI) (auto simp: native32_def rcat_bit readLE32_bit)

lemma native_le64: "length p = 8 \<Longrightarrow> native64 True p = XXH_readLE64 p"
  by (rule bit_word_eqI) (auto simp: native64_def rcat_bit readLE64_bit)

lemma mask_byte_bit: "bit (push_bit (8 * k) (mask 8) :: 'a :: len word) n \<longleftrightarrow> n < LENGTH('a) \<and> n div 8 = k"
proof -
  have "8 * k \<le> n \<and> n - 8 * k < 8 \<longleftrightarrow> n div 8 = k" by auto
  then show ?thesis by (auto simp: bit_push_bit_iff bit_mask_iff)
qed

lemma split8:
  fixes n :: nat
  obtains r where "r < 8" "n = 8 * (n div 8) + r" "n mod 8 = r"
  by (rule that[of "n mod 8"]) simp_all

lemma swap32_bit:
  assumes "n < 32"
  shows "bit (XXH_swap32 x) n \<longleftrightarrow> bit x (8 * (3 - n div 8) + n mod 8)"
proof -
  have m: "XXH_swap32 x = (push_bit 24 x AND push_bit (8 * 3) (mask 8)) OR (push_bit 8 x AND push_bit (8 * 2) (mask 8))
     OR (drop_bit 8 x AND push_bit (8 * 1) (mask 8)) OR (drop_bit 24 x AND push_bit (8 * 0) (mask 8))"
    by (simp add: XXH_swap32_def mask_eq_exp_minus_1)
  obtain r where n: "r < 8" "n = 8 * (n div 8) + r" "n mod 8 = r" by (rule split8)
  have e: "bit (XXH_swap32 x) n \<longleftrightarrow> n div 8 = 3 \<and> bit (push_bit 24 x) n \<or> n div 8 = 2 \<and> bit (push_bit 8 x) n
    \<or> n div 8 = 1 \<and> bit (drop_bit 8 x) n \<or> n div 8 = 0 \<and> bit (drop_bit 24 x) n"
    using assms by (auto simp only: m bit_or_iff bit_and_iff mask_byte_bit len_num0 len_bit0 len_bit1 len_num1)
  obtain k where k: "n div 8 = k" by blast
  have "n = 8 * k + r" "k = 0 \<or> k = 1 \<or> k = 2 \<or> k = 3" using div8_cases[OF assms] n k by auto
  with assms n(1) show ?thesis unfolding e k n(3)
    by (elim disjE) (simp_all add: bit_push_bit_iff bit_drop_bit_eq)
qed

lemma swap64_bit:
  assumes "n < 64"
  shows "bit (XXH_swap64 x) n \<longleftrightarrow> bit x (8 * (7 - n div 8) + n mod 8)"
proof -
  have m: "XXH_swap64 x = (push_bit 56 x AND push_bit (8 * 7) (mask 8)) OR (push_bit 40 x AND push_bit (8 * 6) (mask 8))
     OR (push_bit 24 x AND push_bit (8 * 5) (mask 8)) OR (push_bit 8 x AND push_bit (8 * 4) (mask 8))
     OR (drop_bit 8 x AND push_bit (8 * 3) (mask 8)) OR (drop_bit 24 x AND push_bit (8 * 2) (mask 8))
     OR (drop_bit 40 x AND push_bit (8 * 1) (mask 8)) OR (drop_bit 56 x AND push_bit (8 * 0) (mask 8))"
    by (simp add: XXH_swap64_def mask_eq_exp_minus_1)
  obtain r where n: "r < 8" "n = 8 * (n div 8) + r" "n mod 8 = r" by (rule split8)
  have e: "bit (XXH_swap64 x) n \<longleftrightarrow> bit (push_bit 56 x) n \<and> n < LENGTH(64) \<and> n div 8 = 7 \<or> bit (push_bit 40 x) n \<and> n < LENGTH(64) \<and> n div 8 = 6
    \<or> bit (push_bit 24 x) n \<and> n < LENGTH(64) \<and> n div 8 = 5 \<or> bit (push_bit 8 x) n \<and> n < LENGTH(64) \<and> n div 8 = 4
    \<or> bit (drop_bit 8 x) n \<and> n < LENGTH(64) \<and> n div 8 = 3 \<or> bit (drop_bit 24 x) n \<and> n < LENGTH(64) \<and> n div 8 = 2
    \<or> bit (drop_bit 40 x) n \<and> n < LENGTH(64) \<and> n div 8 = 1 \<or> bit (drop_bit 56 x) n \<and> n < LENGTH(64) \<and> n div 8 = 0"
    by (simp only: m bit_or_iff bit_and_iff mask_byte_bit disj_assoc)
  obtain k where k: "n div 8 = k" by blast
  have "n = 8 * k + r" "k = 0 \<or> k = 1 \<or> k = 2 \<or> k = 3 \<or> k = 4 \<or> k = 5 \<or> k = 6 \<or> k = 7"
    using div8_cases64[OF assms] n k by auto
  with assms n(1) show ?thesis unfolding e k n(3)
    by (elim disjE) (simp_all add: bit_push_bit_iff bit_drop_bit_eq)
qed

lemma native_be32:
  assumes "length p = 4"
  shows "XXH_swap32 (native32 False p) = XXH_readLE32 p"
proof (rule bit_word_eqI)
  fix n assume "n < LENGTH(32)"
  then show "bit (XXH_swap32 (native32 False p)) n \<longleftrightarrow> bit (XXH_readLE32 p) n"
    using assms by (auto simp: swap32_bit native32_def rcat_bit readLE32_bit rev_nth)
qed

lemma native_be64:
  assumes "length p = 8"
  shows "XXH_swap64 (native64 False p) = XXH_readLE64 p"
proof (rule bit_word_eqI)
  fix n assume "n < LENGTH(64)"
  then show "bit (XXH_swap64 (native64 False p)) n \<longleftrightarrow> bit (XXH_readLE64 p) n"
    using assms by (auto simp: swap64_bit native64_def rcat_bit readLE64_bit rev_nth)
qed

lemma readLE32_align:
  "XXH_readLE32_align le align m a = map_option XXH_readLE32 (rd_seg m a 4)"
  by (cases le) (auto simp: XXH_readLE32_align_def rd_seg_def native_le32 native_be32)

lemma readLE64_align:
  "XXH_readLE64_align le align m a = map_option XXH_readLE64 (rd_seg m a 8)"
  by (cases le) (auto simp: XXH_readLE64_align_def rd_seg_def native_le64 native_be64)

section \<open>The function that is computed\<close>

text \<open>The hashes as functions of a byte list: whole stripes, then whole words, then single bytes.\<close>

fun lanes32 :: "u32 \<times> u32 \<times> u32 \<times> u32 \<Rightarrow> bytes \<Rightarrow> u32 \<times> u32 \<times> u32 \<times> u32" where
  "lanes32 (v1, v2, v3, v4) p = (if length p < 16 then (v1, v2, v3, v4)
     else lanes32 (XXH32_round v1 (XXH_readLE32 (take 4 p)), XXH32_round v2 (XXH_readLE32 (take 4 (drop 4 p))),
       XXH32_round v3 (XXH_readLE32 (take 4 (drop 8 p))), XXH32_round v4 (XXH_readLE32 (take 4 (drop 12 p)))) (drop 16 p))"

declare lanes32.simps [simp del]

fun tail32 :: "u32 \<Rightarrow> bytes \<Rightarrow> u32" where
  "tail32 h p = (if length p < 4 then foldl process1_32 h p
     else tail32 (process4_32 h (XXH_readLE32 (take 4 p))) (drop 4 p))"

declare tail32.simps [simp del]

definition xxh32_ref :: "u32 \<Rightarrow> bytes \<Rightarrow> u32" where
  "xxh32_ref seed p =
     (let h = (if length p < 16 then seed + XXH_PRIME32_5
               else let (v1, v2, v3, v4) = lanes32 (seed + XXH_PRIME32_1 + XXH_PRIME32_2, seed + XXH_PRIME32_2, seed, seed - XXH_PRIME32_1) p
                    in XXH_rotl32 v1 1 + XXH_rotl32 v2 7 + XXH_rotl32 v3 12 + XXH_rotl32 v4 18)
      in XXH32_avalanche (tail32 (h + of_nat (length p)) (drop (length p - length p mod 16) p)))"

fun lanes64 :: "u64 \<times> u64 \<times> u64 \<times> u64 \<Rightarrow> bytes \<Rightarrow> u64 \<times> u64 \<times> u64 \<times> u64" where
  "lanes64 (v1, v2, v3, v4) p = (if length p < 32 then (v1, v2, v3, v4)
     else lanes64 (XXH64_round v1 (XXH_readLE64 (take 8 p)), XXH64_round v2 (XXH_readLE64 (take 8 (drop 8 p))),
       XXH64_round v3 (XXH_readLE64 (take 8 (drop 16 p))), XXH64_round v4 (XXH_readLE64 (take 8 (drop 24 p)))) (drop 32 p))"

declare lanes64.simps [simp del]

definition half64 :: "u64 \<Rightarrow> bytes \<Rightarrow> u64" where
  "half64 h p = (if length p < 4 then foldl process1_64 h p
     else foldl process1_64 (process4_64 h (XXH_readLE32 (take 4 p))) (drop 4 p))"

fun tail64 :: "u64 \<Rightarrow> bytes \<Rightarrow> u64" where
  "tail64 h p = (if length p < 8 then half64 h p
     else tail64 (process8_64 h (XXH_readLE64 (take 8 p))) (drop 8 p))"

declare tail64.simps [simp del]

definition xxh64_ref :: "u64 \<Rightarrow> bytes \<Rightarrow> u64" where
  "xxh64_ref seed p =
     (let h = (if length p < 32 then seed + XXH_PRIME64_5
               else let (v1, v2, v3, v4) = lanes64 (seed + XXH_PRIME64_1 + XXH_PRIME64_2, seed + XXH_PRIME64_2, seed, seed - XXH_PRIME64_1) p;
                        h = XXH_rotl64 v1 1 + XXH_rotl64 v2 7 + XXH_rotl64 v3 12 + XXH_rotl64 v4 18
                    in XXH64_mergeRound (XXH64_mergeRound (XXH64_mergeRound (XXH64_mergeRound h v1) v2) v3) v4)
      in XXH64_avalanche (tail64 (h + of_nat (length p)) (drop (length p - length p mod 32) p)))"

section \<open>The loops compute it\<close>

lemma rest_step: "a + n \<le> len \<Longrightarrow> len \<le> length m \<Longrightarrow> take n (drop a m) = take n (drop a (take len m))"
  by (simp add: drop_take)

lemma rest_step2: "a + k + n \<le> len \<Longrightarrow> len \<le> length m \<Longrightarrow> take n (drop (a + k) m) = take n (drop k (drop a (take len m)))"
  by (simp add: drop_take add.commute)

lemma finalize32_bytes_run:
  "a + len \<le> length m \<Longrightarrow> finalize32_bytes m a len h = Some (foldl process1_32 h (take len (drop a m)))"
proof (induction len arbitrary: a h)
  case (Suc len)
  then have "take (Suc len) (drop a m) = m ! a # take len (drop (a + 1) m)" by (simp add: Cons_nth_drop_Suc[symmetric])
  then show ?case using Suc by simp
qed simp

lemma finalize64_bytes_run:
  "a + len \<le> length m \<Longrightarrow> finalize64_bytes m a len h = Some (foldl process1_64 h (take len (drop a m)))"
proof (induction len arbitrary: a h)
  case (Suc len)
  then have "take (Suc len) (drop a m) = m ! a # take len (drop (a + 1) m)" by (simp add: Cons_nth_drop_Suc[symmetric])
  then show ?case using Suc by simp
qed simp

lemma finalize32_run:
  "a + len \<le> length m \<Longrightarrow> (case finalize32_words le align m a len h of None \<Rightarrow> None
     | Some (h1, a1, len1) \<Rightarrow> finalize32_bytes m a1 len1 h1) = Some (tail32 h (take len (drop a m)))"
proof (induction le align m a len h rule: finalize32_words.induct)
  case (1 le align m a len h)
  show ?case
  proof (cases "len \<ge> 4")
    case True
    define w where "w = XXH_readLE32 (take 4 (drop a m))"
    have rd: "XXH_readLE32_align le align m a = Some w" using True 1(2) by (simp add: readLE32_align w_def)
    have "finalize32_words le align m a len h = finalize32_words le align m (a + 4) (len - 4) (process4_32 h w)"
      using True by (subst finalize32_words.simps) (simp add: rd)
    moreover have "tail32 h (take len (drop a m)) = tail32 (process4_32 h w) (take (len - 4) (drop (a + 4) m))"
      using True 1(2) by (subst tail32.simps) (auto simp: w_def drop_take min_def add.commute)
    ultimately show ?thesis using 1(1)[OF True rd] True 1(2) by simp
  next
    case False
    then show ?thesis using 1(2)
      by (subst finalize32_words.simps, subst tail32.simps) (simp add: finalize32_bytes_run)
  qed
qed

definition finish64 :: "bool \<Rightarrow> xxh_alignment \<Rightarrow> bytes \<Rightarrow> u64 \<times> nat \<times> nat \<Rightarrow> u64 option" where
  "finish64 le align m x = (case x of (h1, a1, len1) \<Rightarrow> do {
     (h2, a2, len2) \<leftarrow> (if len1 \<ge> 4 then do {
        w \<leftarrow> XXH_readLE32_align le align m a1;
        Some (process4_64 h1 w, a1 + 4, len1 - 4) } else Some (h1, a1, len1));
     finalize64_bytes m a2 len2 h2 })"

lemma finish64_run:
  "a + len \<le> length m \<Longrightarrow> finish64 le align m (h, a, len) = Some (half64 h (take len (drop a m)))"
  by (auto simp: finish64_def half64_def readLE32_align finalize64_bytes_run min_def drop_take add.commute)

lemma finalize64_run:
  "a + len \<le> length m \<Longrightarrow> Option.bind (finalize64_words le align m a len h) (finish64 le align m) = Some (tail64 h (take len (drop a m)))"
proof (induction le align m a len h rule: finalize64_words.induct)
  case (1 le align m a len h)
  show ?case
  proof (cases "len \<ge> 8")
    case True
    define w where "w = XXH_readLE64 (take 8 (drop a m))"
    have rd: "XXH_readLE64_align le align m a = Some w" using True 1(2) by (simp add: readLE64_align w_def)
    have "finalize64_words le align m a len h = finalize64_words le align m (a + 8) (len - 8) (process8_64 h w)"
      using True by (subst finalize64_words.simps) (simp add: rd)
    moreover have "tail64 h (take len (drop a m)) = tail64 (process8_64 h w) (take (len - 8) (drop (a + 8) m))"
      using True 1(2) by (subst tail64.simps) (auto simp: w_def drop_take min_def add.commute)
    ultimately show ?thesis using 1(1)[OF True rd] True 1(2) by simp
  next
    case False
    then show ?thesis using 1(2)
      by (subst finalize64_words.simps, subst tail64.simps) (simp add: finish64_run)
  qed
qed

lemma stripes32_run:
  assumes "a + 16 \<le> len" "len \<le> length m"
  shows "stripes32 le align m a (len - 15) v = Some (lanes32 v (drop a (take len m)), len - (len - a) mod 16)"
  using assms
proof (induction "len - a" arbitrary: a v rule: less_induct)
  case less
  obtain v1 v2 v3 v4 where v: "v = (v1, v2, v3, v4)" by (metis prod_cases4)
  let ?p = "drop a (take len m)"
  let ?v = "(XXH32_round v1 (XXH_readLE32 (take 4 ?p)), XXH32_round v2 (XXH_readLE32 (take 4 (drop 4 ?p))),
    XXH32_round v3 (XXH_readLE32 (take 4 (drop 8 ?p))), XXH32_round v4 (XXH_readLE32 (take 4 (drop 12 ?p))))"
  have st: "stripe32 le align m a v = Some ?v"
    using less(2,3) by (simp add: stripe32_def readLE32_align v rest_step[of a 4 len m] rest_step2[of a _ 4 len m] del: drop_drop)
  have l: "lanes32 v ?p = lanes32 ?v (drop (a + 16) (take len m))"
    using less(2,3) by (subst v, subst lanes32.simps) (auto simp: add.commute)
  show ?case
  proof (cases "a + 16 < len - 15")
    case True
    then have "(len - (a + 16)) mod 16 = (len - a) mod 16" using mod_add_self2[of "len - (a + 16)" 16] by (simp add: algebra_simps)
    then show ?thesis using less(1)[of "a + 16" ?v] less(2,3) True by (subst stripes32.simps) (simp add: st l)
  next
    case False
    then have "len - (len - a) mod 16 = a + 16" using less(2) by (cases "len - a = 16 + (len - a - 16)") (auto simp: mod_if)
    moreover have "lanes32 ?v (drop (a + 16) (take len m)) = ?v" using False less(2,3) by (subst lanes32.simps) auto
    ultimately show ?thesis using False by (subst stripes32.simps) (simp add: st l)
  qed
qed

lemma stripes64_run:
  assumes "a + 32 \<le> len" "len \<le> length m"
  shows "stripes64 le align m a (len - 31) v = Some (lanes64 v (drop a (take len m)), len - (len - a) mod 32)"
  using assms
proof (induction "len - a" arbitrary: a v rule: less_induct)
  case less
  obtain v1 v2 v3 v4 where v: "v = (v1, v2, v3, v4)" by (metis prod_cases4)
  let ?p = "drop a (take len m)"
  let ?v = "(XXH64_round v1 (XXH_readLE64 (take 8 ?p)), XXH64_round v2 (XXH_readLE64 (take 8 (drop 8 ?p))),
    XXH64_round v3 (XXH_readLE64 (take 8 (drop 16 ?p))), XXH64_round v4 (XXH_readLE64 (take 8 (drop 24 ?p))))"
  have st: "stripe64 le align m a v = Some ?v"
    using less(2,3) by (simp add: stripe64_def readLE64_align v rest_step[of a 8 len m] rest_step2[of a _ 8 len m] del: drop_drop)
  have l: "lanes64 v ?p = lanes64 ?v (drop (a + 32) (take len m))"
    using less(2,3) by (subst v, subst lanes64.simps) (auto simp: add.commute)
  show ?case
  proof (cases "a + 32 < len - 31")
    case True
    then have "(len - (a + 32)) mod 32 = (len - a) mod 32" using mod_add_self2[of "len - (a + 32)" 32] by (simp add: algebra_simps)
    then show ?thesis using less(1)[of "a + 32" ?v] less(2,3) True by (subst stripes64.simps) (simp add: st l)
  next
    case False
    then have "len - (len - a) mod 32 = a + 32" using less(2) by (cases "len - a = 32 + (len - a - 32)") (auto simp: mod_if)
    moreover have "lanes64 ?v (drop (a + 32) (take len m)) = ?v" using False less(2,3) by (subst lanes64.simps) auto
    ultimately show ?thesis using False by (subst stripes64.simps) (simp add: st l)
  qed
qed

lemma XXH32_ref:
  assumes "len \<le> length m"
  shows "XXH32_endian_align le align m len seed = Some (xxh32_ref seed (take len m))"
proof -
  have fin: "XXH32_finalize le align h m a (len mod 16) = Some (XXH32_avalanche (tail32 h (drop a (take len m))))"
    if "a = len - len mod 16" for h a
    using that assms finalize32_run[of a "len mod 16" m le align h]
    by (auto simp: XXH32_finalize_def take_drop bind_eq_Some_conv split: option.splits)
  show ?thesis
  proof (cases "len \<ge> 16")
    case True
    then show ?thesis using assms
      by (auto simp: XXH32_endian_align_def xxh32_ref_def stripes32_run fin min_def Let_def split: prod.splits)
  next
    case False
    then show ?thesis using assms fin[of 0] by (simp add: XXH32_endian_align_def xxh32_ref_def min_absorb2)
  qed
qed

lemma XXH64_ref:
  assumes "len \<le> length m"
  shows "XXH64_endian_align le align m len seed = Some (xxh64_ref seed (take len m))"
proof -
  have fin: "XXH64_finalize le align h m a len = Some (XXH64_avalanche (tail64 h (drop a (take len m))))"
    if "a = len - len mod 32" for h a
  proof -
    have "XXH64_finalize le align h m a len = map_option XXH64_avalanche (Option.bind (finalize64_words le align m a (len mod 32) h) (finish64 le align m))"
      by (cases "finalize64_words le align m a (len mod 32) h") (auto simp: XXH64_finalize_def finish64_def map_conv_bind_option comp_def)
    then show ?thesis using that assms finalize64_run[of a "len mod 32" m le align h] by (simp add: take_drop)
  qed
  show ?thesis
  proof (cases "len \<ge> 32")
    case True
    then show ?thesis using assms
      by (auto simp: XXH64_endian_align_def xxh64_ref_def stripes64_run fin min_def Let_def split: prod.splits)
  next
    case False
    then show ?thesis using assms fin[of 0] by (simp add: XXH64_endian_align_def xxh64_ref_def min_absorb2)
  qed
qed

text \<open>C29. The two hashes read only inside the object they are given, return, and their value is the
  reference function of its first \<open>len\<close> bytes and the seed: it depends neither on the address (the
  aligned and the unaligned readers agree) nor on the byte order of the machine.\<close>

theorem xxhash_ref:
  assumes "len \<le> length m"
  shows "xxhash32 le addr m len seed32 = Some (xxh32_ref seed32 (take len m))
    \<and> xxhash64 le addr (Some m) len seed64 = Some (xxh64_ref seed64 (take len m))"
  using assms by (simp add: xxhash32_def xxhash64_def XXH32_ref XXH64_ref)

theorem xxhash_ref_witness:
  "xxhash32 False 8 [1, 2, 3] 3 7 = Some (xxh32_ref 7 [1, 2, 3]) \<and> xxhash64 True 5 (Some [1, 2, 3]) 3 9 = Some (xxh64_ref 9 [1, 2, 3])"
  using xxhash_ref[of 3 "[1, 2, 3]" False 8 7 0] xxhash_ref[of 3 "[1, 2, 3]" True 5 0 9] by simp

end
