(* ===== verification/Xmalloc.thy ===== *)
theory Xmalloc
  imports Prelude
begin

text \<open>
  The memory manager of \<open>src/src/xnet/xmalloc.c\<close> (with \<open>XMALLOC_ENABLE\<close>, without \<open>UNWIND_BACKTRACE\<close>,
  64-bit). A page is a sequence of chunks, each headed by a \<open>struct xpointer\<close>. The \<open>flag\<close> of a chunk
  tells about the chunk before it: its size when that chunk is free, an odd number when it is in use.
  The page keeps one free chunk (\<open>page->ptr\<close>) from which new chunks are cut, and a doubly linked queue of
  the other free chunks between the sentinels \<open>page->head\<close> and \<open>page->end\<close>.

  The four fields of all headers are four partial functions on addresses. Reading a field that was never
  written, writing outside the page and dereferencing NULL are \<^term>\<open>None\<close>. Two headers never overlap
  when chunks have at least \<open>__free_pointer_size\<close> bytes, which is part of the invariant of the theory
  \<open>Xmalloc_Page\<close>. A page lies in the address space, so sizes and addresses inside a page are plain
  numbers; the request of the user is a 64-bit word, since its rounding may wrap.
\<close>

section \<open>Chunks\<close>

record xmem =
  m_flag :: "nat \<Rightarrow> nat option"
  m_size :: "nat \<Rightarrow> nat option"
  m_prev :: "nat \<Rightarrow> nat option"
  m_next :: "nat \<Rightarrow> nat option"

record xptr_list =
  r_lock :: bool
  r_head :: nat
  r_memory_size :: nat

record xmalloc_page =
  g_lock :: bool
  g_id :: nat
  g_size :: nat
  g_start_address :: nat
  g_ptr :: nat
  g_head :: nat
  g_end :: nat
  g_recycle_pool :: "xptr_list list"

definition page_size_default :: nat where
  "page_size_default = 0x1000000"

definition max_pool_number :: nat where
  "max_pool_number = 8"

definition max_page_number :: nat where
  "max_page_number = 1024"

definition max_recycle_pool :: nat where
  "max_recycle_pool = 3"

definition align_size :: nat where
  "align_size = 8"

definition free_pointer_size :: nat where
  "free_pointer_size = 0 + align_size * 4"

definition work_pointer_size :: nat where
  "work_pointer_size = 0 + align_size * 2"

definition req2align :: "u64 \<Rightarrow> u64" where
  "req2align req =
     (if req + of_nat work_pointer_size < of_nat free_pointer_size then of_nat free_pointer_size
      else (req + of_nat work_pointer_size + of_nat (align_size - 1)) AND NOT (of_nat (align_size - 1)))"

definition pointer2address :: "nat \<Rightarrow> nat" where
  "pointer2address p = p + work_pointer_size"

definition address2pointer :: "nat \<Rightarrow> nat" where
  "address2pointer a = a - work_pointer_size"

definition inuse_flag :: "nat \<Rightarrow> nat \<Rightarrow> nat" where
  "inuse_flag pool page = push_bit 11 pool OR push_bit 1 page OR 1"

definition in_page :: "xmalloc_page \<Rightarrow> nat \<Rightarrow> bool" where
  "in_page g p \<longleftrightarrow> g_start_address g \<le> p \<and> p + free_pointer_size \<le> g_start_address g + g_size g"

definition wr_flag :: "xmalloc_page \<Rightarrow> nat \<Rightarrow> nat \<Rightarrow> xmem \<Rightarrow> xmem option" where
  "wr_flag g p v m = (if in_page g p then Some (m\<lparr>m_flag := (m_flag m)(p \<mapsto> v)\<rparr>) else None)"

definition wr_size :: "xmalloc_page \<Rightarrow> nat \<Rightarrow> nat \<Rightarrow> xmem \<Rightarrow> xmem option" where
  "wr_size g p v m = (if in_page g p then Some (m\<lparr>m_size := (m_size m)(p \<mapsto> v)\<rparr>) else None)"

definition wr_prev :: "xmalloc_page \<Rightarrow> nat \<Rightarrow> nat \<Rightarrow> xmem \<Rightarrow> xmem option" where
  "wr_prev g p v m = (if in_page g p then Some (m\<lparr>m_prev := (m_prev m)(p \<mapsto> v)\<rparr>) else None)"

definition wr_next :: "xmalloc_page \<Rightarrow> nat \<Rightarrow> nat \<Rightarrow> xmem \<Rightarrow> xmem option" where
  "wr_next g p v m = (if in_page g p then Some (m\<lparr>m_next := (m_next m)(p \<mapsto> v)\<rparr>) else None)"

definition mergeable :: "nat \<Rightarrow> xmem \<Rightarrow> bool option" where
  "mergeable p m = do { f \<leftarrow> m_flag m p; Some (\<not> odd f) }"

definition prev_pointer :: "nat \<Rightarrow> xmem \<Rightarrow> nat option" where
  "prev_pointer p m = do { f \<leftarrow> m_flag m p; if f \<le> p then Some (p - f) else None }"

definition next_pointer :: "nat \<Rightarrow> xmem \<Rightarrow> nat option" where
  "next_pointer p m = do { s \<leftarrow> m_size m p; Some (p + s) }"

section \<open>Freeing a chunk inside its page\<close>

text \<open>The two orders in which the source takes a chunk out of the queue.\<close>

definition unlink_right :: "xmalloc_page \<Rightarrow> nat \<Rightarrow> xmem \<Rightarrow> xmem option" where
  "unlink_right g p m = do {
     n \<leftarrow> m_next m p; q \<leftarrow> m_prev m p;
     m1 \<leftarrow> wr_prev g n q m;
     n1 \<leftarrow> m_next m1 p; q1 \<leftarrow> m_prev m1 p;
     wr_next g q1 n1 m1 }"

definition unlink_left :: "xmalloc_page \<Rightarrow> nat \<Rightarrow> xmem \<Rightarrow> xmem option" where
  "unlink_left g p m = do {
     q \<leftarrow> m_prev m p; n \<leftarrow> m_next m p;
     m1 \<leftarrow> wr_next g q n m;
     n1 \<leftarrow> m_next m1 p; q1 \<leftarrow> m_prev m1 p;
     wr_prev g n1 q1 m1 }"

text \<open>Merging \<open>ptr\<close> into the free chunk before it, which leaves the queue.\<close>

definition merge_prev :: "xmalloc_page \<Rightarrow> nat \<Rightarrow> xmem \<Rightarrow> (nat \<times> xmem) option" where
  "merge_prev g ptr m = do {
     q \<leftarrow> prev_pointer ptr m;
     sq \<leftarrow> m_size m q; sp \<leftarrow> m_size m ptr;
     m1 \<leftarrow> wr_size g q (sq + sp) m;
     ptr1 \<leftarrow> prev_pointer ptr m1;
     m2 \<leftarrow> unlink_right g ptr1 m1;
     Some (ptr1, m2) }"

text \<open>The same in the branch without the main chunk, where the tag behind the chunk is set first.\<close>

definition merge_prev_tag :: "xmalloc_page \<Rightarrow> nat \<Rightarrow> xmem \<Rightarrow> (nat \<times> xmem) option" where
  "merge_prev_tag g ptr m = do {
     q \<leftarrow> prev_pointer ptr m;
     sq \<leftarrow> m_size m q; sp \<leftarrow> m_size m ptr;
     m1 \<leftarrow> wr_size g q (sq + sp) m;
     ptr1 \<leftarrow> prev_pointer ptr m1;
     e \<leftarrow> next_pointer ptr1 m1; s \<leftarrow> m_size m1 ptr1;
     m2 \<leftarrow> wr_flag g e s m1;
     m3 \<leftarrow> unlink_right g ptr1 m2;
     Some (ptr1, m3) }"

text \<open>\<open>if (__mergeable(__next_pointer(__next_pointer(ptr))))\<close> and its block.\<close>

definition merge_next :: "xmalloc_page \<Rightarrow> nat \<Rightarrow> xmem \<Rightarrow> xmem option" where
  "merge_next g ptr m = do {
     n \<leftarrow> next_pointer ptr m;
     nn \<leftarrow> next_pointer n m;
     mg \<leftarrow> mergeable nn m;
     if mg then do {
       m1 \<leftarrow> unlink_left g n m;
       sp \<leftarrow> m_size m1 ptr; sn \<leftarrow> m_size m1 n;
       wr_size g ptr (sp + sn) m1 }
     else Some m }"

definition queue_front :: "xmalloc_page \<Rightarrow> nat \<Rightarrow> xmem \<Rightarrow> xmem option" where
  "queue_front g ptr m = do {
     f \<leftarrow> m_next m (g_head g);
     m1 \<leftarrow> wr_next g ptr f m;
     m2 \<leftarrow> wr_prev g ptr (g_head g) m1;
     n \<leftarrow> m_next m2 ptr;
     m3 \<leftarrow> wr_prev g n ptr m2;
     q \<leftarrow> m_prev m3 ptr;
     wr_next g q ptr m3 }"

definition queue_back :: "xmalloc_page \<Rightarrow> nat \<Rightarrow> xmem \<Rightarrow> xmem option" where
  "queue_back g ptr m = do {
     m1 \<leftarrow> wr_next g ptr (g_end g) m;
     b \<leftarrow> m_prev m1 (g_end g);
     m2 \<leftarrow> wr_prev g ptr b m1;
     n \<leftarrow> m_next m2 ptr;
     m3 \<leftarrow> wr_prev g n ptr m2;
     q \<leftarrow> m_prev m3 ptr;
     wr_next g q ptr m3 }"

definition free_pointer :: "nat \<Rightarrow> xmalloc_page \<Rightarrow> xmem \<Rightarrow> (xmalloc_page \<times> xmem) option" where
  "free_pointer ptr g m = do {
     n \<leftarrow> next_pointer ptr m;
     if n = g_ptr g then do {
       mg \<leftarrow> mergeable ptr m;
       (ptr1, m1) \<leftarrow> (if mg then merge_prev g ptr m else Some (ptr, m));
       s \<leftarrow> m_size m1 ptr1; sm \<leftarrow> m_size m1 (g_ptr g);
       m2 \<leftarrow> wr_size g ptr1 (s + sm) m1;
       e \<leftarrow> next_pointer ptr1 m2; s2 \<leftarrow> m_size m2 ptr1;
       m3 \<leftarrow> wr_flag g e s2 m2;
       Some (g\<lparr>g_ptr := ptr1\<rparr>, m3) }
     else do {
       nm \<leftarrow> next_pointer (g_ptr g) m;
       if nm = ptr then do {
         m1 \<leftarrow> merge_next g ptr m;
         sm \<leftarrow> m_size m1 (g_ptr g); s \<leftarrow> m_size m1 ptr;
         m2 \<leftarrow> wr_size g (g_ptr g) (sm + s) m1;
         e \<leftarrow> next_pointer (g_ptr g) m2; s2 \<leftarrow> m_size m2 (g_ptr g);
         m3 \<leftarrow> wr_flag g e s2 m2;
         Some (g, m3) }
       else do {
         mg \<leftarrow> mergeable ptr m;
         (ptr1, m1) \<leftarrow> (if mg then merge_prev_tag g ptr m else Some (ptr, m));
         m2 \<leftarrow> merge_next g ptr1 m1;
         e \<leftarrow> next_pointer ptr1 m2; s \<leftarrow> m_size m2 ptr1;
         m3 \<leftarrow> wr_flag g e s m2;
         f \<leftarrow> m_next m3 (g_head g); sf \<leftarrow> m_size m3 f;
         m4 \<leftarrow> (if s \<ge> sf then queue_front g ptr1 m3 else queue_back g ptr1 m3);
         Some (g, m4) } } }"

section \<open>Cutting a chunk\<close>

text \<open>The block \<open>NEW POINTER\<close> of \<open>malloc\<close>: the main chunk goes to the end of the queue and the first of
  the queue becomes the main chunk.\<close>

definition change_main :: "xmalloc_page \<Rightarrow> xmem \<Rightarrow> (xmalloc_page \<times> xmem) option" where
  "change_main g m = do {
     m1 \<leftarrow> queue_back g (g_ptr g) m;
     e \<leftarrow> next_pointer (g_ptr g) m1; s \<leftarrow> m_size m1 (g_ptr g);
     m2 \<leftarrow> wr_flag g e s m1;
     f \<leftarrow> m_next m2 (g_head g);
     let g1 = g\<lparr>g_ptr := f\<rparr>;
     f1 \<leftarrow> m_next m2 (g_head g1); f2 \<leftarrow> m_next m2 f1;
     m3 \<leftarrow> wr_next g1 (g_head g1) f2 m2;
     f3 \<leftarrow> m_next m3 (g_head g1);
     m4 \<leftarrow> wr_prev g1 f3 (g_head g1) m3;
     Some (g1, m4) }"

text \<open>The block after it: a chunk of \<open>sz\<close> bytes is cut from the front of the main chunk; \<open>id\<close> is
  \<open>pool->id\<close> and \<open>i\<close> the index of the page.\<close>

definition cut_chunk :: "nat \<Rightarrow> nat \<Rightarrow> nat \<Rightarrow> xmalloc_page \<Rightarrow> xmem \<Rightarrow> (nat \<times> xmalloc_page \<times> xmem) option" where
  "cut_chunk pid i sz g m = do {
     let ptr = (g_ptr g + sz) mod 2 ^ 64;
     m1 \<leftarrow> wr_flag g ptr (inuse_flag pid i) m;
     sm \<leftarrow> m_size m1 (g_ptr g);
     m2 \<leftarrow> wr_size g ptr ((sm + (2 ^ 64 - sz)) mod 2 ^ 64) m1;
     e \<leftarrow> next_pointer ptr m2; s \<leftarrow> m_size m2 ptr;
     m3 \<leftarrow> wr_flag g e s m2;
     m4 \<leftarrow> wr_prev g ptr (g_ptr g) m3;
     let g1 = g\<lparr>g_ptr := ptr\<rparr>;
     ptr1 \<leftarrow> m_prev m4 (g_ptr g1);
     m5 \<leftarrow> wr_size g1 ptr1 sz m4;
     Some (ptr1, g1, m5) }"

text \<open>
  The body of the page loop of \<open>malloc\<close> with the page locked. The outer option is a fault, the inner one
  tells whether the page could serve the request.
\<close>

definition page_malloc ::
  "nat \<Rightarrow> nat \<Rightarrow> nat \<Rightarrow> nat \<Rightarrow> xmalloc_page \<Rightarrow> xmem \<Rightarrow> ((nat \<times> xmalloc_page \<times> xmem) option) option" where
  "page_malloc pid i sz reserved g m = do {
     sm \<leftarrow> m_size m (g_ptr g);
     if reserved > sm then do {
       f \<leftarrow> m_next m (g_head g); sf \<leftarrow> m_size m f;
       if sf > reserved then do {
         (g1, m1) \<leftarrow> change_main g m;
         r \<leftarrow> cut_chunk pid i sz g1 m1;
         Some (Some r) }
       else Some None }
     else do {
       r \<leftarrow> cut_chunk pid i sz g m;
       Some (Some r) } }"

section \<open>Pages and pools\<close>

text \<open>
  A pool has \<open>__max_page_number + 1\<close> pages, the manager \<open>__max_pool_number + 1\<close> pools. The addresses
  that \<open>mmap\<close> returns are the sequence \<open>mm_mmap\<close>, where \<^term>\<open>None\<close> is \<open>__XAPI_MAP_FAILED\<close>. The locks of
  pages and recycle pools are part of the state: a lock that is set belongs to another thread. The lock of
  the manager itself is taken and released around the initialisation.
\<close>

record xmalloc_pool =
  l_page_number :: nat
  l_id :: nat
  l_aligned_address :: nat
  l_page :: "xmalloc_page list"

record xmalloc =
  mm_init :: bool
  mm_pool_index :: nat
  mm_page_size :: nat
  mm_pool_number :: nat
  mm_preloading_page :: nat
  mm_page_aligned_mask :: nat
  mm_pool :: "xmalloc_pool list"
  mm_mem :: xmem
  mm_mmap :: "nat \<Rightarrow> nat option"
  mm_mmaps :: nat

definition MAP_FAILED :: nat where
  "MAP_FAILED = 2 ^ 64 - 1"

definition round_up :: "nat \<Rightarrow> nat \<Rightarrow> nat" where
  "round_up n msk = unat ((of_nat (n + msk) :: u64) AND NOT (of_nat msk))"

text \<open>The loop around \<open>mmap\<close>: an address that is not aligned is given back and a new one asked for.\<close>

partial_function (option) mmap_loop :: "nat \<Rightarrow> xmalloc \<Rightarrow> (nat option \<times> xmalloc) option" where
  "mmap_loop sz mm =
     (let r = mm_mmap mm (mm_mmaps mm); mm1 = mm\<lparr>mm_mmaps := mm_mmaps mm + 1\<rparr> in
      case r of None \<Rightarrow> Some (None, mm1)
      | Some a \<Rightarrow> if a AND (align_size - 1) \<noteq> 0 then mmap_loop sz mm1 else Some (Some a, mm1))"

text \<open>The headers that \<open>malloc_page\<close> writes into a new page.\<close>

definition format_page :: "nat \<Rightarrow> xmalloc_page \<Rightarrow> xmem \<Rightarrow> (xmalloc_page \<times> xmem) option" where
  "format_page pid page m0 = do {
     let g0 = page\<lparr>g_head := g_start_address page\<rparr>;
     m1 \<leftarrow> wr_flag g0 (g_head g0) (inuse_flag pid (g_id g0)) m0;
     m2 \<leftarrow> wr_size g0 (g_head g0) free_pointer_size m1;
     p \<leftarrow> next_pointer (g_head g0) m2;
     let g1 = g0\<lparr>g_ptr := p\<rparr>;
     m3 \<leftarrow> wr_flag g1 p (inuse_flag pid (g_id g1)) m2;
     m4 \<leftarrow> wr_size g1 p (g_size g1 - push_bit 1 free_pointer_size) m3;
     e \<leftarrow> next_pointer p m4;
     let g2 = g1\<lparr>g_end := e\<rparr>;
     s \<leftarrow> m_size m4 p;
     m5 \<leftarrow> wr_flag g2 e s m4;
     m6 \<leftarrow> wr_size g2 e free_pointer_size m5;
     m7 \<leftarrow> wr_prev g2 (g_head g2) 0 m6;
     m8 \<leftarrow> wr_next g2 (g_head g2) e m7;
     m9 \<leftarrow> wr_prev g2 e (g_head g2) m8;
     m10 \<leftarrow> wr_next g2 e 0 m9;
     Some (g2\<lparr>g_recycle_pool := replicate max_recycle_pool \<lparr>r_lock = False, r_head = 0, r_memory_size = 0\<rparr>\<rparr>, m10) }"

text \<open>\<open>malloc_page(pool, page, page_size)\<close>: the page is \<open>page[k]\<close> of the pool; the flag is \<open>return 0\<close>.\<close>

definition malloc_page :: "nat \<Rightarrow> nat \<Rightarrow> nat \<Rightarrow> xmalloc \<Rightarrow> (bool \<times> xmalloc) option" where
  "malloc_page pi k page_size mm = do {
     pool \<leftarrow> rd (mm_pool mm) pi;
     page \<leftarrow> rd (l_page pool) k;
     let page1 = page\<lparr>g_size := round_up (page_size + free_pointer_size * 4) (mm_page_aligned_mask mm)\<rparr>;
     (r, mm1) \<leftarrow> mmap_loop (g_size page1) mm;
     case r of
       None \<Rightarrow> Some (False, mm1\<lparr>mm_pool := (mm_pool mm1)[pi := pool\<lparr>l_aligned_address := 0,
                 l_page := (l_page pool)[k := page1\<lparr>g_start_address := MAP_FAILED\<rparr>]\<rparr>]\<rparr>)
     | Some a \<Rightarrow> do {
         (g, m) \<leftarrow> format_page (l_id pool) (page1\<lparr>g_start_address := a\<rparr>) (mm_mem mm1);
         Some (True, mm1\<lparr>mm_mem := m, mm_pool := (mm_pool mm1)[pi := pool\<lparr>l_aligned_address := a + g_size g,
                 l_page := (l_page pool)[k := g]\<rparr>]\<rparr>) } }"

text \<open>The two loops of \<open>malloc_pool\<close>, which end at the first page that cannot be made.\<close>

fun pool_pages :: "nat \<Rightarrow> nat list \<Rightarrow> xmalloc \<Rightarrow> (bool \<times> xmalloc) option" where
  "pool_pages pi [] mm = Some (True, mm)"
| "pool_pages pi (k # ks) mm = do {
     pool \<leftarrow> rd (mm_pool mm) pi;
     page \<leftarrow> rd (l_page pool) k;
     let pool1 = pool\<lparr>l_page := (l_page pool)[k := page\<lparr>g_id := k\<rparr>], l_page_number := l_page_number pool + 1\<rparr>;
     (done, mm1) \<leftarrow> malloc_page pi k (mm_page_size mm) (mm\<lparr>mm_pool := (mm_pool mm)[pi := pool1]\<rparr>);
     if done then pool_pages pi ks mm1 else Some (False, mm1) }"

fun pools_init :: "nat list \<Rightarrow> xmalloc \<Rightarrow> (bool \<times> xmalloc) option" where
  "pools_init [] mm = Some (True, mm)"
| "pools_init (pi # pis) mm = do {
     pool \<leftarrow> rd (mm_pool mm) pi;
     (done, mm1) \<leftarrow> pool_pages pi [0..<mm_preloading_page mm] (mm\<lparr>mm_pool := (mm_pool mm)[pi := pool\<lparr>l_id := pi\<rparr>]\<rparr>);
     if done then pools_init pis (mm1\<lparr>mm_pool_number := pi + 1\<rparr>) else Some (False, mm1) }"

definition malloc_pool :: "xmalloc \<Rightarrow> (bool \<times> xmalloc) option" where
  "malloc_pool mm =
     (if mm_init mm then Some (True, mm)
      else do {
        let mm1 = mm\<lparr>mm_page_size := page_size_default, mm_preloading_page := 2,
                     mm_page_aligned_mask := 4096 - 1, mm_pool_number := 0\<rparr>;
        (done, mm2) \<leftarrow> pools_init [0..<max_pool_number] mm1;
        if done then Some (True, mm2\<lparr>mm_init := True\<rparr>) else Some (False, mm2) })"

section \<open>Freeing\<close>

text \<open>Emptying a recycle pool into the page; \<open>memory_size\<close> is kept by \<open>free\<close> and not by \<open>flush_page\<close>.\<close>

partial_function (option) drain :: "bool \<Rightarrow> nat \<Rightarrow> xmalloc_page \<Rightarrow> xmem \<Rightarrow> (xmalloc_page \<times> xmem) option" where
  "drain account i g m = do {
     r \<leftarrow> rd (g_recycle_pool g) i;
     if r_head r = 0 then Some (g, m)
     else do {
       n \<leftarrow> m_next m (r_head r);
       s \<leftarrow> m_size m (r_head r);
       let r1 = r\<lparr>r_head := n, r_memory_size := (if account then r_memory_size r - s else r_memory_size r)\<rparr>;
       (g1, m1) \<leftarrow> free_pointer (r_head r) (g\<lparr>g_recycle_pool := (g_recycle_pool g)[i := r1]\<rparr>) m;
       drain account i g1 m1 } }"

definition flush_page :: "xmalloc_page \<Rightarrow> xmem \<Rightarrow> (xmalloc_page \<times> xmem) option" where
  "flush_page g m = do {
     (g1, m1) \<leftarrow> drain False 0 g m;
     (g2, m2) \<leftarrow> drain False 1 g1 m1;
     drain False 2 g2 m2 }"

fun flush_pages :: "nat \<Rightarrow> nat list \<Rightarrow> xmalloc \<Rightarrow> xmalloc option" where
  "flush_pages pi [] mm = Some mm"
| "flush_pages pi (k # ks) mm = do {
     pool \<leftarrow> rd (mm_pool mm) pi;
     page \<leftarrow> rd (l_page pool) k;
     if g_start_address page \<noteq> 0 then do {
       (g, m) \<leftarrow> flush_page page (mm_mem mm);
       flush_pages pi ks (mm\<lparr>mm_mem := m, mm_pool := (mm_pool mm)[pi := pool\<lparr>l_page := (l_page pool)[k := g]\<rparr>]\<rparr>) }
     else flush_pages pi ks mm }"

fun flush_pools :: "nat list \<Rightarrow> xmalloc \<Rightarrow> xmalloc option" where
  "flush_pools [] mm = Some mm"
| "flush_pools (pi # pis) mm = do {
     pool \<leftarrow> rd (mm_pool mm) pi;
     mm1 \<leftarrow> flush_pages pi [0..<l_page_number pool] mm;
     flush_pools pis mm1 }"

definition flush_cache :: "xmalloc \<Rightarrow> xmalloc option" where
  "flush_cache mm = flush_pools [0..<mm_pool_number mm] mm"

text \<open>
  The \<open>else\<close> branch of \<open>free\<close>, taken when another thread holds the page: the chunk goes to the first
  recycle pool that is not locked (with all of them locked the loop spins). \<open>released\<close> tells whether the
  other thread has released the page before the second test; then the recycle pool is emptied.
\<close>

definition free_recycle :: "bool \<Rightarrow> nat \<Rightarrow> xmalloc_page \<Rightarrow> xmem \<Rightarrow> (xmalloc_page \<times> xmem) option" where
  "free_recycle released ptr g m = do {
     i \<leftarrow> List.find (\<lambda>i. i < length (g_recycle_pool g) \<and> \<not> r_lock (g_recycle_pool g ! i)) [0..<max_recycle_pool];
     r \<leftarrow> rd (g_recycle_pool g) i;
     m1 \<leftarrow> wr_next g ptr (r_head r) m;
     s \<leftarrow> m_size m1 ptr;
     let g1 = g\<lparr>g_recycle_pool := (g_recycle_pool g)[i := r\<lparr>r_head := ptr, r_memory_size := r_memory_size r + s\<rparr>]\<rparr>;
     if released then drain True i g1 m1 else Some (g1, m1) }"

definition free_mm :: "bool \<Rightarrow> nat \<Rightarrow> xmalloc \<Rightarrow> xmalloc option" where
  "free_mm released address mm =
     (if address = 0 then Some mm
      else do {
        let ptr = address2pointer address;
        let m = mm_mem mm;
        _ \<leftarrow> m_size m ptr;
        _ \<leftarrow> m_flag m ptr;
        n \<leftarrow> next_pointer ptr m;
        f \<leftarrow> m_flag m n;
        let pi = drop_bit 11 f AND 0x3FF;
        let k = drop_bit 1 f AND 0x3FF;
        pool \<leftarrow> rd (mm_pool mm) pi;
        page \<leftarrow> rd (l_page pool) k;
        (g, m') \<leftarrow> (if \<not> g_lock page then free_pointer ptr page m else free_recycle released ptr page m);
        Some (mm\<lparr>mm_mem := m', mm_pool := (mm_pool mm)[pi := pool\<lparr>l_page := (l_page pool)[k := g]\<rparr>]\<rparr>) })"

section \<open>Allocating\<close>

text \<open>The loop of \<open>malloc\<close> over the pages of the pool; pages locked by another thread are skipped.\<close>

fun try_pages :: "nat \<Rightarrow> nat \<Rightarrow> nat \<Rightarrow> nat list \<Rightarrow> xmalloc \<Rightarrow> (nat option \<times> xmalloc) option" where
  "try_pages pi sz reserved [] mm = Some (None, mm)"
| "try_pages pi sz reserved (i # is) mm = do {
     pool \<leftarrow> rd (mm_pool mm) pi;
     page \<leftarrow> rd (l_page pool) i;
     if g_lock page then try_pages pi sz reserved is mm
     else do {
       r \<leftarrow> page_malloc (l_id pool) i sz reserved page (mm_mem mm);
       case r of None \<Rightarrow> try_pages pi sz reserved is mm
       | Some (a, g, m) \<Rightarrow>
           Some (Some a, mm\<lparr>mm_mem := m, mm_pool := (mm_pool mm)[pi := pool\<lparr>l_page := (l_page pool)[i := g]\<rparr>]\<rparr>) } }"

text \<open>The search for an unused page slot; the result is the slot taken (and locked), if any.\<close>

function new_slot :: "xmalloc_pool \<Rightarrow> nat option \<times> xmalloc_pool" where
  "new_slot pool =
     (if l_page_number pool < max_page_number then
        let k = l_page_number pool; pool1 = pool\<lparr>l_page_number := k + 1\<rparr> in
        if k < length (l_page pool) \<and> \<not> g_lock (l_page pool ! k) \<and> g_id (l_page pool ! k) = 0
        then (Some k, pool1\<lparr>l_page := (l_page pool)[k := (l_page pool ! k)\<lparr>g_id := k\<rparr>]\<rparr>)
        else new_slot pool1
      else (None, pool))"
  by pat_completeness auto
termination
  by (relation "measure (\<lambda>pool. max_page_number - l_page_number pool)") auto

declare new_slot.simps [simp del]

definition new_page_malloc :: "nat \<Rightarrow> nat \<Rightarrow> xmalloc \<Rightarrow> (nat \<times> xmalloc) option" where
  "new_page_malloc pi sz mm = do {
     pool \<leftarrow> rd (mm_pool mm) pi;
     let (slot, pool1) = new_slot pool;
     let mm1 = mm\<lparr>mm_pool := (mm_pool mm)[pi := pool1]\<rparr>;
     k \<leftarrow> slot;
     if l_page_number pool1 \<ge> max_page_number then Some (0, mm1)
     else do {
       (done, mm2) \<leftarrow> malloc_page pi k (mm_page_size mm1 + sz) mm1;
       if \<not> done then Some (0, mm2)
       else do {
         pool2 \<leftarrow> rd (mm_pool mm2) pi;
         page \<leftarrow> rd (l_page pool2) k;
         (a, g, m) \<leftarrow> cut_chunk (l_id pool2) (g_id page) sz page (mm_mem mm2);
         Some (pointer2address a,
               mm2\<lparr>mm_mem := m, mm_pool := (mm_pool mm2)[pi := pool2\<lparr>l_page := (l_page pool2)[k := g]\<rparr>]\<rparr>) } } }"

text \<open>
  \<open>malloc(size)\<close>; the result 0 is NULL. In \<open>new_page_malloc\<close> a pool whose slots are all taken leaves
  \<open>page\<close> NULL, and \<open>__atom_unlock(page->lock)\<close> dereferences it.
\<close>

definition malloc_mm :: "u64 \<Rightarrow> xmalloc \<Rightarrow> (nat \<times> xmalloc) option" where
  "malloc_mm req mm = do {
     (ready, mm0) \<leftarrow> (if \<not> mm_init mm then malloc_pool mm else Some (True, mm));
     if \<not> ready then Some (0, mm0)
     else do {
       let idx = mm_pool_index mm0 + 1;
       let mm1 = mm0\<lparr>mm_pool_index := idx\<rparr>;
       let pi = idx AND (max_pool_number - 1);
       pool \<leftarrow> rd (mm_pool mm1) pi;
       let sz = req2align req;
       let reserved = sz + of_nat free_pointer_size;
       (r, mm2) \<leftarrow> try_pages pi (unat sz) (unat reserved) [0..<l_page_number pool] mm1;
       case r of Some a \<Rightarrow> Some (pointer2address a, mm2)
       | None \<Rightarrow> new_page_malloc pi (unat sz) mm2 } }"

text \<open>
  \<open>calloc\<close> and \<open>realloc\<close> as far as chunks are concerned: the second component of the result is the number
  of bytes that are cleared or copied, the contents of user memory are not part of the state.
\<close>

definition calloc_mm :: "u64 \<Rightarrow> u64 \<Rightarrow> xmalloc \<Rightarrow> ((nat \<times> u64) \<times> xmalloc) option" where
  "calloc_mm number req mm = do {
     let total = req * number;
     (p, mm1) \<leftarrow> malloc_mm total mm;
     Some ((p, if p \<noteq> 0 then total else 0), mm1) }"

definition realloc_mm :: "bool \<Rightarrow> nat \<Rightarrow> u64 \<Rightarrow> xmalloc \<Rightarrow> ((nat \<times> nat) \<times> xmalloc) option" where
  "realloc_mm released address req mm =
     (if req > 0 then do {
        (new, mm1) \<leftarrow> malloc_mm req mm;
        if new \<noteq> 0 then
          if address \<noteq> 0 then do {
            olds \<leftarrow> m_size (mm_mem mm1) (address2pointer address);
            let n = (if unat req > olds - work_pointer_size then olds - work_pointer_size else unat req);
            mm2 \<leftarrow> free_mm released address mm1;
            Some ((new, n), mm2) }
          else Some ((new, 0), mm1)
        else Some ((0, 0), mm1) }
      else do {
        mm1 \<leftarrow> (if address \<noteq> 0 then free_mm released address mm else Some mm);
        Some ((0, 0), mm1) })"

text \<open>\<open>xmalloc_leak_trace\<close>: the pages that are reported, after the recycle pools have been emptied.\<close>

definition page_leaks :: "xmalloc_page \<Rightarrow> xmem \<Rightarrow> bool option" where
  "page_leaks g m =
     (if g_start_address g = 0 then Some False
      else do { s \<leftarrow> m_size m (g_ptr g); Some (s \<noteq> g_size g - free_pointer_size * 2) })"

end
