(* ===== verification/Xmalloc_Page.thy ===== *)
theory Xmalloc_Page
  imports Xmalloc "HOL-Library.Multiset"
begin

text \<open>
  The invariant of a page of the memory manager: the chunks between the two sentinels lie one behind the
  other and fill the page, tags and sizes are correct, no two free chunks are neighbours, and the queue
  holds exactly the free chunks other than the main one. \<open>free_pointer\<close> and the cutting of a chunk keep
  it and change the set of used chunks by exactly the chunk concerned.
\<close>

section \<open>Chunk lists\<close>

datatype kind = Used | Free | Main

type_synonym chunks = "(nat \<times> kind) list"

definition extent :: "chunks \<Rightarrow> nat" where
  "extent cs = sum_list (map fst cs)"

lemma extent_simps [simp]: "extent [] = 0" "extent (c # cs) = fst c + extent cs"
  "extent (xs @ ys) = extent xs + extent ys"
  by (auto simp: extent_def)

fun marks :: "kind \<Rightarrow> nat \<Rightarrow> chunks \<Rightarrow> nat list" where
  "marks k a [] = []"
| "marks k a (c # cs) = (if snd c = k then [a] else []) @ marks k (a + fst c) cs"

fun useds :: "nat \<Rightarrow> chunks \<Rightarrow> (nat \<times> nat) list" where
  "useds a [] = []"
| "useds a (c # cs) = (if snd c = Used then [(a, fst c)] else []) @ useds (a + fst c) cs"

lemma marks_append [simp]: "marks k a (xs @ ys) = marks k a xs @ marks k (a + extent xs) ys"
  by (induction xs arbitrary: a) (auto simp: add.assoc)

lemma useds_append [simp]: "useds a (xs @ ys) = useds a xs @ useds (a + extent xs) ys"
  by (induction xs arbitrary: a) (auto simp: add.assoc)

fun flag_ok :: "xmem \<Rightarrow> nat \<Rightarrow> nat option \<Rightarrow> bool" where
  "flag_ok m a None \<longleftrightarrow> (\<exists>f. m_flag m a = Some f \<and> odd f)"
| "flag_ok m a (Some s) \<longleftrightarrow> m_flag m a = Some s \<and> even s"

definition tag :: "nat \<times> kind \<Rightarrow> nat option" where
  "tag c = (if snd c = Used then None else Some (fst c))"

fun layout :: "xmem \<Rightarrow> nat \<Rightarrow> nat option \<Rightarrow> chunks \<Rightarrow> nat \<Rightarrow> bool" where
  "layout m a t [] e \<longleftrightarrow> a = e \<and> flag_ok m e t"
| "layout m a t (c # cs) e \<longleftrightarrow> flag_ok m a t \<and> m_size m a = Some (fst c) \<and> free_pointer_size \<le> fst c \<and>
     8 dvd fst c \<and> layout m (a + fst c) (tag c) cs e"

definition last_tag :: "nat option \<Rightarrow> chunks \<Rightarrow> nat option" where
  "last_tag t cs = (if cs = [] then t else tag (last cs))"

lemma last_tag_simps [simp]: "last_tag t [] = t" "last_tag t (xs @ [c]) = tag c"
  by (auto simp: last_tag_def)

lemma layout_append:
  "layout m a t (xs @ ys) e \<longleftrightarrow>
     (\<forall>us c vs. xs = us @ c # vs \<longrightarrow> flag_ok m (a + extent us) (last_tag t us) \<and>
        m_size m (a + extent us) = Some (fst c) \<and> free_pointer_size \<le> fst c \<and> 8 dvd fst c) \<and>
     layout m (a + extent xs) (last_tag t xs) ys e"
proof (induction xs arbitrary: a t)
  case Nil
  then show ?case by simp
next
  case (Cons x xs)
  have lt: "last_tag t (x # us) = last_tag (tag x) us" for us by (simp add: last_tag_def)
  have split: "(\<forall>us c vs. x # xs = us @ c # vs \<longrightarrow> P us c) \<longleftrightarrow> P [] x \<and> (\<forall>us c vs. xs = us @ c # vs \<longrightarrow> P (x # us) c)"
    for P by (cases x) (auto simp: Cons_eq_append_conv)
  show ?case unfolding split using Cons by (simp add: lt add.assoc)
qed

lemma layout_end: "layout m a t cs e \<Longrightarrow> e = a + extent cs"
  by (induction cs arbitrary: a t) (auto simp flip: add.assoc)

lemma layout_tags:
  assumes "layout m a t (xs @ ys) e"
  shows "flag_ok m (a + extent xs) (last_tag t xs)"
  using assms unfolding layout_append by (cases ys) auto

lemma layout_chunk:
  assumes "layout m a t (us @ c # vs) e"
  shows "flag_ok m (a + extent us) (last_tag t us)" and "m_size m (a + extent us) = Some (fst c)"
    and "free_pointer_size \<le> fst c" and "8 dvd fst c"
  using assms unfolding layout_append [of _ _ _ us] by auto

lemma layout_cong:
  assumes "layout m a t cs e" and "\<And>x. a \<le> x \<Longrightarrow> m_size m' x = m_size m x"
    and "\<And>x. a < x \<Longrightarrow> m_flag m' x = m_flag m x" and "flag_ok m' a t'"
  shows "layout m' a t' cs e"
  using assms
proof (induction cs arbitrary: a t t')
  case Nil
  then show ?case by simp
next
  case (Cons c cs)
  have pos: "0 < fst c" using Cons.prems(1) by (auto simp: free_pointer_size_def align_size_def)
  have fo: "flag_ok m' (a + fst c) (tag c)"
    using layout_tags [of m "a + fst c" "tag c" "[]" cs e] Cons.prems(1) Cons.prems(3) [of "a + fst c"] pos
    by (cases "tag c") auto
  have "layout m' (a + fst c) (tag c) cs e"
    by (rule Cons.IH [OF _ _ _ fo]) (use Cons.prems(1-3) in auto)
  then show ?case using Cons.prems by auto
qed

lemma layout_sizes:
  assumes "layout m a t cs e" and "c \<in> set cs"
  shows "free_pointer_size \<le> fst c" and "8 dvd fst c"
  using assms by (induction cs arbitrary: a t) auto

lemma dvd_extent: "(\<And>c. c \<in> set cs \<Longrightarrow> 8 dvd fst c) \<Longrightarrow> 8 dvd extent cs"
  by (induction cs) auto

text \<open>A run of chunks becomes one free chunk.\<close>

lemma layout_merge:
  assumes lay: "layout m a t (xs @ ms @ ys) e" and ms: "ms \<noteq> []" and k: "k \<noteq> Used"
    and b: "b = a + extent xs" and T: "T = extent ms"
    and sb: "m_size m' b = Some T" and so: "\<And>x. x < b \<or> b + T \<le> x \<Longrightarrow> m_size m' x = m_size m x"
    and fb: "m_flag m' (b + T) = Some T" and fo: "\<And>x. x \<le> b \<or> b + T < x \<Longrightarrow> m_flag m' x = m_flag m x"
  shows "layout m' a t (xs @ (T, k) # ys) e"
proof -
  have l2: "layout m b (last_tag t xs) (ms @ ys) e" using lay b unfolding layout_append [of _ _ _ xs] by simp
  then have l3: "layout m (b + T) (last_tag (last_tag t xs) ms) ys e" using T unfolding layout_append [of _ _ _ ms] by simp
  have d: "8 dvd T" unfolding T by (rule dvd_extent) (use layout_sizes(2) [OF l2] in auto)
  obtain c cs where ms': "ms = c # cs" using ms by (cases ms) auto
  have TT: "free_pointer_size \<le> T" using l2 unfolding T ms' by auto
  have small: "x < b" if "xs = us @ c # vs" "x = a + extent us" for us c vs x
  proof -
    have "0 < fst c" using layout_sizes(1) [OF lay, of c] that by (auto simp: free_pointer_size_def align_size_def)
    then show ?thesis using that b by simp
  qed
  have fl: "flag_ok m' x u = flag_ok m x u" if "x \<le> b" for x u using fo [of x] that by (cases u) auto
  have "layout m' (b + T) (Some T) ys e"
    by (rule layout_cong [OF l3]) (use so fo fb d in \<open>auto elim: dvd_trans [rotated]\<close>)
  moreover have "flag_ok m' b (last_tag t xs)" using layout_tags [OF lay] b fl by simp
  moreover have "flag_ok m' (a + extent us) (last_tag t us) \<and> m_size m' (a + extent us) = Some (fst c) \<and>
      free_pointer_size \<le> fst c \<and> 8 dvd fst c" if "xs = us @ c # vs" for us c vs
    using layout_chunk [of m a t us c "vs @ ms @ ys" e] lay that small [OF that refl] fl [of "a + extent us"]
      so [of "a + extent us"] by simp
  ultimately show ?thesis
    unfolding layout_append [of _ _ _ xs] using sb TT d k b by (simp add: tag_def)
qed

section \<open>The queue\<close>

fun dll :: "xmem \<Rightarrow> nat list \<Rightarrow> bool" where
  "dll m (x # y # zs) \<longleftrightarrow> m_next m x = Some y \<and> m_prev m y = Some x \<and> dll m (y # zs)"
| "dll m _ \<longleftrightarrow> True"

lemma dll_append: "dll m (xs @ y # zs) \<longleftrightarrow> dll m (xs @ [y]) \<and> dll m (y # zs)"
proof (induction xs)
  case (Cons x xs)
  then show ?case by (cases xs) auto
qed simp

lemma dll_cong:
  assumes "dll m xs" and "\<And>x. x \<in> set (butlast xs) \<Longrightarrow> m_next m' x = m_next m x"
    and "\<And>x. x \<in> set (tl xs) \<Longrightarrow> m_prev m' x = m_prev m x"
  shows "dll m' xs"
  using assms by (induction m xs rule: dll.induct) auto

definition same_tags :: "xmem \<Rightarrow> xmem \<Rightarrow> bool" where
  "same_tags m m' \<longleftrightarrow> m_size m' = m_size m \<and> m_flag m' = m_flag m"

lemma in_set_tlD: "x \<in> set (tl xs) \<Longrightarrow> x \<in> set xs"
  by (cases xs) auto

lemma dll_outer:
  assumes "dll m (as @ [b])" and "dll m (c # ds)" and "distinct (as @ b # c # ds)"
    and "\<And>y. y \<noteq> b \<Longrightarrow> y \<noteq> x \<Longrightarrow> m_next m' y = m_next m y" and "\<And>y. y \<noteq> c \<Longrightarrow> y \<noteq> x \<Longrightarrow> m_prev m' y = m_prev m y"
    and "x \<notin> set (as @ b # c # ds)"
  shows "dll m' (as @ [b])" and "dll m' (c # ds)"
proof -
  show "dll m' (as @ [b])"
  proof (rule dll_cong [OF assms(1)])
    fix y assume "y \<in> set (butlast (as @ [b]))"
    then have "y \<noteq> b" "y \<noteq> x" using assms(3,6) by auto
    then show "m_next m' y = m_next m y" by (rule assms(4))
  next
    fix y assume "y \<in> set (tl (as @ [b]))"
    then have "y \<in> set (as @ [b])" by (rule in_set_tlD)
    then have "y \<noteq> c" "y \<noteq> x" using assms(3,6) by auto
    then show "m_prev m' y = m_prev m y" by (rule assms(5))
  qed
  show "dll m' (c # ds)"
  proof (rule dll_cong [OF assms(2)])
    fix y assume "y \<in> set (butlast (c # ds))"
    then have "y \<in> set (c # ds)" by (rule in_set_butlastD)
    then have "y \<noteq> b" "y \<noteq> x" using assms(3,6) by auto
    then show "m_next m' y = m_next m y" by (rule assms(4))
  next
    fix y assume "y \<in> set (tl (c # ds))"
    then have "y \<noteq> c" "y \<noteq> x" using assms(3,6) by auto
    then show "m_prev m' y = m_prev m y" by (rule assms(5))
  qed
qed

lemma dll_appendE:
  assumes "dll m (as @ b # x # ds)"
  shows "dll m (as @ [b])" and "m_next m b = Some x" and "m_prev m x = Some b" and "dll m (x # ds)"
  using assms dll_append [of m as b "x # ds"] by auto

lemma dll_appendI:
  assumes "dll m (as @ [b])" and "m_next m b = Some x" and "m_prev m x = Some b" and "dll m (x # ds)"
  shows "dll m (as @ b # x # ds)"
  using assms dll_append [of m as b "x # ds"] by simp

lemma dll_remove:
  assumes "dll m (as @ b # x # c # ds)" and "distinct (as @ b # x # c # ds)"
    and "m_next m' = (m_next m)(b \<mapsto> c)" and "m_prev m' = (m_prev m)(c \<mapsto> b)"
  shows "dll m' (as @ b # c # ds)"
proof -
  have 1: "dll m (as @ [b])" "dll m (c # ds)" using dll_appendE [OF assms(1)] by simp_all
  have d: "distinct (as @ b # c # ds)" "x \<notin> set (as @ b # c # ds)" using assms(2) by auto
  have n: "m_next m' y = m_next m y" if "y \<noteq> b" "y \<noteq> x" for y using assms(3) that by simp
  have p: "m_prev m' y = m_prev m y" if "y \<noteq> c" "y \<noteq> x" for y using assms(4) that by simp
  note o = dll_outer [OF 1 d(1) n p d(2)]
  show ?thesis by (rule dll_appendI) (simp_all add: o assms(3,4))
qed

lemma dll_insert:
  assumes "dll m (as @ b # c # ds)" and "distinct (as @ b # x # c # ds)"
    and "m_next m' = (m_next m)(x \<mapsto> c, b \<mapsto> x)" and "m_prev m' = (m_prev m)(x \<mapsto> b, c \<mapsto> x)"
  shows "dll m' (as @ b # x # c # ds)"
proof -
  have 1: "dll m (as @ [b])" "dll m (c # ds)" using dll_appendE [OF assms(1)] by simp_all
  have d: "distinct (as @ b # c # ds)" "x \<notin> set (as @ b # c # ds)" using assms(2) by auto
  have n: "m_next m' y = m_next m y" if "y \<noteq> b" "y \<noteq> x" for y using assms(3) that by simp
  have p: "m_prev m' y = m_prev m y" if "y \<noteq> c" "y \<noteq> x" for y using assms(4) that by simp
  note o = dll_outer [OF 1 d(1) n p d(2)]
  have "x \<noteq> b" "x \<noteq> c" using d(2) by auto
  then show ?thesis using o by (intro dll_appendI) (simp_all add: assms(3,4))
qed


text \<open>The queue of a page: the sentinels around the list \<open>q\<close>.\<close>

definition queue_ok :: "xmalloc_page \<Rightarrow> xmem \<Rightarrow> nat list \<Rightarrow> bool" where
  "queue_ok g m q \<longleftrightarrow> dll m (g_head g # q @ [g_end g]) \<and> distinct (g_head g # q @ [g_end g]) \<and>
     (\<forall>x \<in> set (g_head g # q @ [g_end g]). in_page g x)"

lemma queue_neighbours:
  assumes "queue_ok g m (q1 @ x # q2)"
  obtains b c where "m_prev m x = Some b" and "m_next m x = Some c" and "in_page g b" and "in_page g c"
    and "b \<noteq> x" and "c \<noteq> x" and "b \<noteq> c"
    and "\<And>m'. m_next m' = (m_next m)(b \<mapsto> c) \<Longrightarrow> m_prev m' = (m_prev m)(c \<mapsto> b) \<Longrightarrow> queue_ok g m' (q1 @ q2)"
proof -
  obtain as b where b: "g_head g # q1 = as @ [b]" by (metis append_butlast_last_id list.distinct(1))
  obtain c ds where c: "q2 @ [g_end g] = c # ds" by (cases q2) auto
  have e: "g_head g # (q1 @ x # q2) @ [g_end g] = as @ b # x # c # ds" using b c by simp
  have e': "g_head g # (q1 @ q2) @ [g_end g] = as @ b # c # ds" using b c by simp
  have d: "dll m (as @ b # x # c # ds)" "distinct (as @ b # x # c # ds)"
    and i: "\<forall>y \<in> set (as @ b # x # c # ds). in_page g y"
    using assms unfolding queue_ok_def e by auto
  have "m_prev m x = Some b" "m_next m x = Some c" using dll_appendE [OF d(1)] by auto
  moreover have "queue_ok g m' (q1 @ q2)"
    if "m_next m' = (m_next m)(b \<mapsto> c)" "m_prev m' = (m_prev m)(c \<mapsto> b)" for m'
    unfolding queue_ok_def e' using dll_remove [OF d that] d(2) i by auto
  ultimately show ?thesis using d(2) i by (intro that [of b c]) auto
qed

lemma unlink_run:
  assumes "queue_ok g m (q1 @ x # q2)"
  shows "\<exists>m'. unlink_right g x m = Some m' \<and> same_tags m m' \<and> queue_ok g m' (q1 @ q2)"
    and "\<exists>m'. unlink_left g x m = Some m' \<and> same_tags m m' \<and> queue_ok g m' (q1 @ q2)"
proof -
  from queue_neighbours [OF assms] obtain b c where
    n: "m_prev m x = Some b" "m_next m x = Some c" "in_page g b" "in_page g c" "b \<noteq> x" "c \<noteq> x" "b \<noteq> c"
    and q: "\<And>m'. m_next m' = (m_next m)(b \<mapsto> c) \<Longrightarrow> m_prev m' = (m_prev m)(c \<mapsto> b) \<Longrightarrow> queue_ok g m' (q1 @ q2)"
    by metis
  show "\<exists>m'. unlink_right g x m = Some m' \<and> same_tags m m' \<and> queue_ok g m' (q1 @ q2)"
    using n q by (auto simp: unlink_right_def wr_prev_def wr_next_def same_tags_def)
  show "\<exists>m'. unlink_left g x m = Some m' \<and> same_tags m m' \<and> queue_ok g m' (q1 @ q2)"
    using n q by (auto simp: unlink_left_def wr_prev_def wr_next_def same_tags_def)
qed

lemma queue_front_run:
  assumes "queue_ok g m q" and "x \<notin> set (g_head g # q @ [g_end g])" and "in_page g x"
  shows "\<exists>m'. queue_front g x m = Some m' \<and> same_tags m m' \<and> queue_ok g m' (x # q)"
proof -
  obtain c ds where c: "q @ [g_end g] = c # ds" by (cases q) auto
  have d: "dll m (g_head g # c # ds)" "distinct (g_head g # x # c # ds)" and i: "in_page g (g_head g)" "in_page g c"
    "\<forall>y \<in> set (g_head g # x # c # ds). in_page g y"
    using assms c unfolding queue_ok_def by auto
  have "queue_ok g m' (x # q)"
    if "m_next m' = (m_next m)(x \<mapsto> c, g_head g \<mapsto> x)" "m_prev m' = (m_prev m)(x \<mapsto> g_head g, c \<mapsto> x)" for m'
    using dll_insert [of m "[]" "g_head g" c ds x m'] d i(3) that c unfolding queue_ok_def by simp
  moreover have "m_next m (g_head g) = Some c" using d(1) by simp
  ultimately show ?thesis
    using d(2) i assms(3) by (auto simp: queue_front_def wr_prev_def wr_next_def same_tags_def fun_upd_twist)
qed

lemma queue_back_run:
  assumes "queue_ok g m q" and "x \<notin> set (g_head g # q @ [g_end g])" and "in_page g x"
  shows "\<exists>m'. queue_back g x m = Some m' \<and> same_tags m m' \<and> queue_ok g m' (q @ [x])"
proof -
  obtain as b where b: "g_head g # q = as @ [b]" by (metis append_butlast_last_id list.distinct(1))
  have e: "g_head g # q @ [g_end g] = as @ b # g_end g # []" "g_head g # (q @ [x]) @ [g_end g] = as @ b # x # g_end g # []"
    using b by auto
  have d: "dll m (as @ b # g_end g # [])" "distinct (as @ b # x # g_end g # [])"
    and i: "\<forall>y \<in> set (as @ b # x # g_end g # []). in_page g y"
    using assms unfolding queue_ok_def e by auto
  have "queue_ok g m' (q @ [x])"
    if "m_next m' = (m_next m)(x \<mapsto> g_end g, b \<mapsto> x)" "m_prev m' = (m_prev m)(x \<mapsto> b, g_end g \<mapsto> x)" for m'
    using dll_insert [OF d that] d(2) i unfolding queue_ok_def e by simp
  moreover have "m_prev m (g_end g) = Some b" using dll_appendE [OF d(1)] by simp
  ultimately show ?thesis
    using d(2) i by (auto simp: queue_back_def wr_prev_def wr_next_def same_tags_def fun_upd_twist)
qed

lemma queue_ok_cong:
  assumes "queue_ok g m q" and "m_next m' = m_next m" and "m_prev m' = m_prev m"
  shows "queue_ok g m' q"
  using assms dll_cong [of m "g_head g # q @ [g_end g]" m'] by (simp add: queue_ok_def)

section \<open>The page invariant\<close>

definition base :: "xmalloc_page \<Rightarrow> nat" where
  "base g = g_start_address g + free_pointer_size"

definition apart :: "chunks \<Rightarrow> bool" where
  "apart cs \<longleftrightarrow> successively (\<lambda>x y. snd x = Used \<or> snd y = Used) cs"

definition page_inv :: "xmalloc_page \<Rightarrow> xmem \<Rightarrow> chunks \<Rightarrow> nat list \<Rightarrow> bool" where
  "page_inv g m cs q \<longleftrightarrow> g_head g = g_start_address g \<and>
     g_start_address g + g_size g = g_end g + free_pointer_size \<and>
     layout m (base g) None cs (g_end g) \<and> m_size m (g_end g) = Some free_pointer_size \<and>
     marks Main (base g) cs = [g_ptr g] \<and> apart cs \<and> cs \<noteq> [] \<and> snd (last cs) \<noteq> Used \<and>
     queue_ok g m q \<and> mset q = mset (marks Free (base g) cs)"

lemma fps [simp]: "free_pointer_size = 32" "work_pointer_size = 16" "align_size = 8"
  by (simp_all add: free_pointer_size_def work_pointer_size_def align_size_def)

lemma page_invD:
  assumes "page_inv g m cs q"
  shows "g_head g = g_start_address g" and "g_start_address g + g_size g = g_end g + 32"
    and "layout m (base g) None cs (g_end g)" and "m_size m (g_end g) = Some 32"
    and "marks Main (base g) cs = [g_ptr g]" and "apart cs" and "cs \<noteq> []" and "snd (last cs) \<noteq> Used"
    and "queue_ok g m q" and "mset q = mset (marks Free (base g) cs)" and "g_end g = base g + extent cs"
  using assms layout_end [of m "base g" None cs "g_end g"] by (auto simp: page_inv_def)

lemma page_chunk:
  assumes "page_inv g m (us @ c # vs) q"
  shows "m_size m (base g + extent us) = Some (fst c)" and "32 \<le> fst c" and "8 dvd fst c"
    and "in_page g (base g + extent us)" and "flag_ok m (base g + extent us) (last_tag None us)"
proof -
  note l = layout_chunk [OF page_invD(3) [OF assms]]
  show "m_size m (base g + extent us) = Some (fst c)" "8 dvd fst c"
    "flag_ok m (base g + extent us) (last_tag None us)" using l by auto
  show c: "32 \<le> fst c" using l(3) by simp
  show "in_page g (base g + extent us)"
    using c page_invD(2,11) [OF assms] by (simp add: in_page_def base_def)
qed

lemma end_in_page: "page_inv g m cs q \<Longrightarrow> in_page g (g_end g)"
  using page_invD(9) [of g m cs q] by (simp add: queue_ok_def)

lemma page_tag:
  assumes "page_inv g m (us @ vs) q"
  shows "flag_ok m (base g + extent us) (last_tag None us)" and "in_page g (base g + extent us)"
proof -
  show "flag_ok m (base g + extent us) (last_tag None us)" using layout_tags [OF page_invD(3) [OF assms]] .
  show "in_page g (base g + extent us)"
  proof (cases vs)
    case Nil
    then show ?thesis using end_in_page [OF assms] page_invD(11) [OF assms] by simp
  next
    case (Cons c ws)
    then show ?thesis using page_chunk(4) [of g m us c ws q] assms by simp
  qed
qed

lemma extent_unique:
  assumes "us @ vs = us' @ vs'" and "\<And>c. c \<in> set (us @ vs) \<Longrightarrow> 0 < fst c" and "extent us = extent us'"
  shows "us = us'"
proof -
  have pos: "ws = []" if "extent ws = 0" "set ws \<subseteq> set (us @ vs)" for ws
    using that assms(2) by (cases ws) fastforce+
  from assms(1) obtain ws where "us = us' @ ws \<and> ws @ vs = vs' \<or> us @ ws = us' \<and> vs = ws @ vs'"
    by (auto simp: append_eq_append_conv2)
  then show ?thesis
  proof
    assume e: "us = us' @ ws \<and> ws @ vs = vs'"
    have "ws = []" by (rule pos) (use e assms(3) in auto)
    then show ?thesis using e by simp
  next
    assume e: "us @ ws = us' \<and> vs = ws @ vs'"
    have "ws = []" by (rule pos) (use e assms(3) in auto)
    then show ?thesis using e by simp
  qed
qed

lemma mark_split:
  assumes "x \<in> set (marks k a cs)"
  obtains us c vs where "cs = us @ c # vs" and "snd c = k" and "x = a + extent us"
  using assms
proof (induction cs arbitrary: a thesis)
  case (Cons c cs)
  show ?case
  proof (cases "snd c = k \<and> x = a")
    case True
    then show ?thesis using Cons.prems(1) [of "[]" c cs] by simp
  next
    case False
    then have "x \<in> set (marks k (a + fst c) cs)" using Cons.prems(2) by (auto split: if_splits)
    then obtain us c' vs where "cs = us @ c' # vs" "snd c' = k" "x = a + fst c + extent us"
      using Cons.IH by blast
    then show ?thesis using Cons.prems(1) [of "c # us" c' vs] by simp
  qed
qed simp

lemma page_pos:
  assumes "page_inv g m cs q" and "c \<in> set cs"
  shows "0 < fst c"
  using layout_sizes(1) [OF page_invD(3) [OF assms(1)] assms(2)] by simp

lemma main_split:
  assumes "page_inv g m (us @ vs) q" and "base g + extent us = g_ptr g"
  obtains sm zs where "vs = (sm, Main) # zs"
proof -
  note inv = page_invD [OF assms(1)]
  have "g_ptr g \<in> set (marks Main (base g) (us @ vs))" unfolding inv(5) by simp
  then obtain us' c vs' where s: "us @ vs = us' @ c # vs'" "snd c = Main" "g_ptr g = base g + extent us'"
    by (rule mark_split)
  have "us = us'" by (rule extent_unique [OF s(1)]) (use page_pos [OF assms(1)] assms(2) s(3) in auto)
  then show ?thesis using s(1,2) that [of "fst c" vs'] by (cases c) auto
qed

lemma main_before:
  assumes "page_inv g m (us @ vs) q" and "m_size m (g_ptr g) = Some sm" and "base g + extent us = g_ptr g + sm"
  obtains ws where "us = ws @ [(sm, Main)]"
proof -
  note inv = page_invD [OF assms(1)]
  have "g_ptr g \<in> set (marks Main (base g) (us @ vs))" unfolding inv(5) by simp
  then obtain us' c vs' where s: "us @ vs = us' @ c # vs'" "snd c = Main" "g_ptr g = base g + extent us'"
    by (rule mark_split)
  have c: "fst c = sm" using page_chunk(1) [of g m us' c vs' q] assms(1,2) s by simp
  have "us = us' @ [c]"
    by (rule extent_unique [where vs = vs and vs' = vs']) (use page_pos [OF assms(1)] assms(3) s c in auto)
  then show ?thesis using s(2) c that by (cases c) auto
qed

lemma base_upd [simp]: "base (g\<lparr>g_ptr := r\<rparr>) = base g"
  by (simp add: base_def)

lemma in_page_upd [simp]: "in_page (g\<lparr>g_ptr := r\<rparr>) x = in_page g x"
  by (simp add: in_page_def)

lemma queue_ok_upd [simp]: "queue_ok (g\<lparr>g_ptr := r\<rparr>) m q = queue_ok g m q"
  by (simp add: queue_ok_def)

lemma page_inv_merge:
  assumes inv: "page_inv g m (xs @ ms @ ys) q" and ms: "ms \<noteq> []" and k: "k \<noteq> Used"
    and b: "b = base g + extent xs" and T: "T = extent ms"
    and sb: "m_size m' b = Some T" and so: "\<And>x. x < b \<or> b + T \<le> x \<Longrightarrow> m_size m' x = m_size m x"
    and fb: "m_flag m' (b + T) = Some T" and fo: "\<And>x. x \<le> b \<or> b + T < x \<Longrightarrow> m_flag m' x = m_flag m x"
    and q: "queue_ok g m' q'" "mset q' + mset (marks Free b ms) = mset q + (if k = Free then {#b#} else {#})"
    and r: "if k = Main then r = b \<and> marks Main b ms \<noteq> [] else r = g_ptr g \<and> marks Main b ms = []"
    and nb: "xs = [] \<or> snd (last xs) = Used" "ys = [] \<or> snd (hd ys) = Used"
  shows "page_inv (g\<lparr>g_ptr := r\<rparr>) m' (xs @ (T, k) # ys) q'"
proof -
  note d = page_invD [OF inv]
  have "layout m' (base g) None (xs @ (T, k) # ys) (g_end g)"
    by (rule layout_merge [OF d(3) ms k b T sb so fb fo]) auto
  moreover have "m_size m' (g_end g) = Some 32" using so [of "g_end g"] d(4,11) b T by simp
  moreover have "marks Main (base g) (xs @ (T, k) # ys) = [r]"
    using d(5) r k b T by (auto simp: append_eq_Cons_conv add.assoc split: if_splits)
  moreover have "apart (xs @ (T, k) # ys)"
    using d(6) nb ms by (cases ys) (auto simp: apart_def successively_append_iff successively_Cons)
  moreover have "snd (last (xs @ (T, k) # ys)) \<noteq> Used" using d(8) k by (cases ys) auto
  moreover have "mset q' = mset (marks Free (base g) (xs @ (T, k) # ys))"
    using q(2) d(10) b T by (auto simp: add.assoc split: if_splits)
  ultimately show ?thesis using d(1,2) q(1) by (simp add: page_inv_def)
qed

text \<open>The optional merge with the chunk before, in both forms.\<close>

lemma queue_split:
  assumes "mset q = mset (marks Free a (xs @ ms @ ys))"
  obtains q' where "mset q' + mset (marks Free (a + extent xs) ms) = mset q"
proof -
  have "mset q = (mset (marks Free a xs) + mset (marks Free (a + extent xs + extent ms) ys))
      + mset (marks Free (a + extent xs) ms)" using assms by (simp add: ac_simps)
  moreover obtain q' where "mset q' = mset (marks Free a xs) + mset (marks Free (a + extent xs + extent ms) ys)"
    by (metis ex_mset)
  ultimately show ?thesis using that by metis
qed

lemma merge_prev_run:
  assumes inv: "page_inv g m (xs @ fs @ (s, Used) # ys) q" and fs: "fs = [] \<or> fs = [(sf, Free)]"
    and xs: "fs = [] \<Longrightarrow> xs = [] \<or> snd (last xs) = Used"
    and b: "b = base g + extent xs" and p: "p = b + extent fs"
  shows "\<exists>mg m1 q1. mergeable p m = Some mg \<and>
      (if mg then merge_prev g p m else Some (p, m)) = Some (b, m1) \<and>
      m_size m1 = (m_size m)(b \<mapsto> extent fs + s) \<and> m_flag m1 = m_flag m \<and> queue_ok g m1 q1 \<and>
      mset q1 + mset (marks Free b fs) = mset q" (is ?plain)
    and "\<exists>mg m1 q1. mergeable p m = Some mg \<and>
      (if mg then merge_prev_tag g p m else Some (p, m)) = Some (b, m1) \<and>
      m_size m1 = (m_size m)(b \<mapsto> extent fs + s) \<and> (\<forall>x. x \<noteq> p + s \<longrightarrow> m_flag m1 x = m_flag m x) \<and>
      queue_ok g m1 q1 \<and> mset q1 + mset (marks Free b fs) = mset q" (is ?tagged)
proof -
  note d = page_invD [OF inv]
  have inv': "page_inv g m ((xs @ fs) @ (s, Used) # ys) q" using inv by simp
  have p': "p = base g + extent (xs @ fs)" using b p by simp
  note ch = page_chunk [OF inv', folded p']
  have "page_inv g m ((xs @ fs @ [(s, Used)]) @ ys) q" using inv by simp
  from page_tag(2) [OF this] have ps: "in_page g (p + s)" by (simp add: p' add.assoc)
  have "?plain \<and> ?tagged"
    using fs
  proof
    assume fs: "fs = []"
    then have "last_tag None xs = None" using xs by (auto simp: last_tag_def tag_def)
    then obtain f where "m_flag m p = Some f" "odd f" using ch(5) fs by auto
    then show ?thesis using fs ch(1) d(9) p by (auto simp: mergeable_def fun_upd_idem)
  next
    assume fs: "fs = [(sf, Free)]"
    then have f: "m_flag m p = Some sf" "even sf" using ch(5) by (auto simp: tag_def simp flip: append_assoc)
    have "page_inv g m (xs @ (sf, Free) # (s, Used) # ys) q" using inv fs by simp
    note cb = page_chunk [OF this, folded b]
    have "b \<in> set q" using mset_eq_setD [OF d(10)] fs b by simp
    then obtain q1 q2 where qq: "q = q1 @ b # q2" by (meson split_list)
    then have ms: "mset (q1 @ q2) + {#b#} = mset q" by simp
    let ?m1 = "m\<lparr>m_size := (m_size m)(b \<mapsto> sf + s)\<rparr>"
    have qk: "queue_ok g ?m1 (q1 @ b # q2)" using queue_ok_cong [OF d(9)] qq by simp
    let ?m2 = "?m1\<lparr>m_flag := (m_flag m)(p + s \<mapsto> sf + s)\<rparr>"
    have qk2: "queue_ok g ?m2 (q1 @ b # q2)" using queue_ok_cong [OF d(9)] qq by simp
    obtain m1 where m1: "unlink_right g b ?m1 = Some m1" "same_tags ?m1 m1" "queue_ok g m1 (q1 @ q2)"
      using unlink_run(1) [OF qk] by blast
    obtain m2 where m2: "unlink_right g b ?m2 = Some m2" "same_tags ?m2 m2" "queue_ok g m2 (q1 @ q2)"
      using unlink_run(1) [OF qk2] by blast
    have pb: "p = b + sf" "p - sf = b" using p fs by auto
    have fb: "sf \<le> p" using pb by simp
    have bs: "b + (sf + s) = p + s" using pb by simp
    have r1: "merge_prev g p m = Some (b, m1)"
      using f(1) cb(1,4) ch(1) m1(1) pb(2) fb by (simp add: merge_prev_def prev_pointer_def wr_size_def)
    have r2: "merge_prev_tag g p m = Some (b, m2)"
      using f(1) cb(1,4) ch(1) m2(1) pb(2) fb ps
      by (simp add: merge_prev_tag_def prev_pointer_def next_pointer_def wr_size_def wr_flag_def bs)
    have mg: "mergeable p m = Some True" using f by (simp add: mergeable_def)
    have ms': "mset (q1 @ q2) + mset (marks Free b fs) = mset q" using ms fs by simp
    have sz: "m_size m1 = (m_size m)(b \<mapsto> extent fs + s)" "m_size m2 = (m_size m)(b \<mapsto> extent fs + s)"
      "m_flag m1 = m_flag m" "\<forall>x. x \<noteq> p + s \<longrightarrow> m_flag m2 x = m_flag m x"
      using m1(2) m2(2) fs by (simp_all add: same_tags_def)
    show ?thesis
      using mg r1 r2 sz m1(3) m2(3) ms'
      by (intro conjI exI [of _ True] exI [of _ m1] exI [of _ m2] exI [of _ "q1 @ q2"]) simp_all
  qed
  then show ?plain and ?tagged by blast+
qed

lemma merge_next_run:
  assumes b: "m_size m b = Some S" "in_page g b" and n: "m_size m (b + S) = Some sn" "b \<noteq> b + S"
    and k: "flag_ok m (b + S + sn) (tag (sn, k))" and q: "queue_ok g m q" "k = Free \<Longrightarrow> b + S \<in> set q"
    and gs: "gs = (if k = Free then [(sn, Free)] else [])" and km: "k \<noteq> Main"
  shows "\<exists>m' q'. merge_next g b m = Some m' \<and> m_size m' = (m_size m)(b \<mapsto> S + extent gs) \<and>
     m_flag m' = m_flag m \<and> queue_ok g m' q' \<and> mset q' + mset (marks Free (b + S) gs) = mset q"
proof (cases "k = Free")
  case True
  then obtain q1 q2 where qq: "q = q1 @ (b + S) # q2" using q(2) by (meson split_list)
  obtain m1 where m1: "unlink_left g (b + S) m = Some m1" "same_tags m m1" "queue_ok g m1 (q1 @ q2)"
    using unlink_run(2) [of g m q1 "b + S" q2] q(1) qq by blast
  let ?m = "m1\<lparr>m_size := (m_size m1)(b \<mapsto> S + sn)\<rparr>"
  have "mergeable (b + S + sn) m = Some True" using k True by (simp add: mergeable_def tag_def)
  then have "merge_next g b m = Some ?m"
    using b n m1(1,2) by (simp add: merge_next_def next_pointer_def wr_size_def same_tags_def)
  moreover have "queue_ok g ?m (q1 @ q2)" using queue_ok_cong [OF m1(3)] by simp
  moreover have "mset (q1 @ q2) + mset (marks Free (b + S) gs) = mset q" using gs True qq by simp
  ultimately show ?thesis using m1(2) gs True by (intro exI [of _ ?m] exI [of _ "q1 @ q2"]) (simp add: same_tags_def)
next
  case False
  then have "k = Used" using km by (cases k) auto
  then have "mergeable (b + S + sn) m = Some False" using k by (auto simp: mergeable_def tag_def)
  then have "merge_next g b m = Some m" using b n by (simp add: merge_next_def next_pointer_def)
  then show ?thesis using q(1) gs False b(1) by (auto simp: fun_upd_idem)
qed

section \<open>Freeing keeps the invariant\<close>

definition back_ok :: "chunks \<Rightarrow> chunks \<Rightarrow> nat \<Rightarrow> bool" where
  "back_ok xs fs sf \<longleftrightarrow> (fs = [] \<or> fs = [(sf, Free)]) \<and> (xs = [] \<or> snd (last xs) = Used)"

lemma split_back:
  assumes "apart (cs @ (s, Used) # ys)" and "cs = [] \<or> snd (last cs) \<noteq> Main"
  obtains xs fs sf where "cs = xs @ fs" and "back_ok xs fs sf"
proof (cases "cs \<noteq> [] \<and> snd (last cs) = Free")
  case True
  then obtain xs sf where cs: "cs = xs @ [(sf, Free)]"
    by (metis append_butlast_last_id prod.collapse)
  have "xs = [] \<or> snd (last xs) = Used"
    using assms(1) unfolding cs apart_def by (auto simp: successively_append_iff)
  then show ?thesis using that [of xs "[(sf, Free)]" sf] cs by (simp add: back_ok_def)
next
  case False
  then have "cs = [] \<or> snd (last cs) = Used" using assms(2) by (metis kind.exhaust)
  then show ?thesis using that [of cs "[]" 0] by (simp add: back_ok_def)
qed

lemma apart_next:
  assumes "apart (xs @ (s, k) # ys)" and "k \<noteq> Used"
  shows "ys = [] \<or> snd (hd ys) = Used"
  using assms by (cases ys) (auto simp: apart_def successively_append_iff successively_Cons)

lemma free_left_of_main:
  assumes inv: "page_inv g m (xs @ fs @ (s, Used) # (sm, Main) # zs) q" and bk: "back_ok xs fs sf"
    and p: "p = base g + extent (xs @ fs)" and b: "b = base g + extent xs"
  shows "\<exists>m' q'. free_pointer p g m = Some (g\<lparr>g_ptr := b\<rparr>, m') \<and>
     page_inv (g\<lparr>g_ptr := b\<rparr>) m' (xs @ (extent fs + s + sm, Main) # zs) q'"
proof -
  note d = page_invD [OF inv]
  have p': "p = b + extent fs" using p b by simp
  from bk have fs: "fs = [] \<or> fs = [(sf, Free)]" and xs: "xs = [] \<or> snd (last xs) = Used"
    by (auto simp: back_ok_def)
  from merge_prev_run(1) [OF inv fs xs b p'] obtain mg m1 q1 where
    m1: "mergeable p m = Some mg" "(if mg then merge_prev g p m else Some (p, m)) = Some (b, m1)"
      "m_size m1 = (m_size m)(b \<mapsto> extent fs + s)" "m_flag m1 = m_flag m" "queue_ok g m1 q1"
      "mset q1 + mset (marks Free b fs) = mset q" by blast
  have s1: "m_size m p = Some s" "32 \<le> s" and s2: "m_size m (p + s) = Some sm" "32 \<le> sm"
    using page_chunk(1,2) [of g m "xs @ fs" "(s, Used)" "(sm, Main) # zs" q]
      page_chunk(1,2) [of g m "xs @ fs @ [(s, Used)]" "(sm, Main)" zs q] inv p by (simp_all add: add.assoc)
  have gp: "g_ptr g = p + s"
    using d(5) p by (auto simp: append_eq_Cons_conv add.assoc)
  have ib: "in_page g b" and ie: "in_page g (b + (extent fs + s + sm))"
    using page_tag(2) [of g m xs "fs @ (s, Used) # (sm, Main) # zs" q]
      page_tag(2) [of g m "xs @ fs @ [(s, Used), (sm, Main)]" zs q] inv b by (simp_all add: add.assoc)
  let ?T = "extent fs + s + sm"
  let ?m' = "m1\<lparr>m_size := (m_size m1)(b \<mapsto> ?T), m_flag := (m_flag m1)(b + ?T \<mapsto> ?T)\<rparr>"
  have bp: "p + s \<noteq> b" using p' s1 by simp
  have run: "free_pointer p g m = Some (g\<lparr>g_ptr := b\<rparr>, ?m')"
    using m1(1-3) s1 s2 gp bp ib ie unfolding free_pointer_def
    by (simp add: next_pointer_def wr_size_def wr_flag_def)
  have "page_inv (g\<lparr>g_ptr := b\<rparr>) ?m' (xs @ (?T, Main) # zs) q1"
  proof (rule page_inv_merge [where ms = "fs @ [(s, Used), (sm, Main)]" and q = q and m = m])
    show "page_inv g m (xs @ (fs @ [(s, Used), (sm, Main)]) @ zs) q" using inv by simp
    show "queue_ok g ?m' q1" using queue_ok_cong [OF m1(5)] by simp
    show "mset q1 + mset (marks Free b (fs @ [(s, Used), (sm, Main)])) = mset q + (if Main = Free then {#b#} else {#})"
      using m1(6) by simp
    show "zs = [] \<or> snd (hd zs) = Used"
      using apart_next [of "xs @ fs @ [(s, Used)]" sm Main zs] d(6) by simp
  qed (use xs b m1(3,4) s1 s2 in \<open>auto simp: add.assoc\<close>)
  then show ?thesis using run by blast
qed

definition fore_ok :: "chunks \<Rightarrow> nat \<Rightarrow> kind \<Rightarrow> chunks \<Rightarrow> chunks \<Rightarrow> bool" where
  "fore_ok gs sn k zs rest \<longleftrightarrow> k \<noteq> Main \<and> gs = (if k = Free then [(sn, Free)] else []) \<and>
     (sn, k) # zs = gs @ rest"

lemma fore_next:
  assumes "apart (us @ (sn, k) # zs)" and "fore_ok gs sn k zs rest"
  shows "rest = [] \<or> snd (hd rest) = Used"
proof (cases "k = Free")
  case True
  then show ?thesis using apart_next [of us sn k zs] assms by (auto simp: fore_ok_def)
next
  case False
  then have "rest = (sn, k) # zs" "k = Used" using assms(2) by (cases k; auto simp: fore_ok_def)+
  then show ?thesis by simp
qed

lemma free_in_queue:
  assumes "mset q = mset (marks Free a (us @ (sn, Free) # vs))"
  shows "a + extent us \<in> set q"
  using mset_eq_setD [OF assms] by simp

lemma free_right_of_main:
  assumes inv: "page_inv g m (xs @ (sm, Main) # (s, Used) # (sn, k) # zs) q" and fk: "fore_ok gs sn k zs rest"
    and p: "p = base g + extent xs + sm"
  shows "\<exists>m' q'. free_pointer p g m = Some (g, m') \<and>
     page_inv g m' (xs @ (sm + s + extent gs, Main) # rest) q'"
proof -
  note d = page_invD [OF inv]
  let ?b = "base g + extent xs"
  have gp: "g_ptr g = ?b" using d(5) by (auto simp: append_eq_Cons_conv)
  have s0: "m_size m ?b = Some sm" "32 \<le> sm" "in_page g ?b"
    using page_chunk(1,2,4) [OF inv] by simp_all
  have s1: "m_size m p = Some s" "32 \<le> s" "in_page g p"
    using page_chunk(1,2,4) [of g m "xs @ [(sm, Main)]" "(s, Used)" "(sn, k) # zs" q] inv p by (simp_all add: add.assoc)
  have s2: "m_size m (p + s) = Some sn" "32 \<le> sn"
    using page_chunk(1,2) [of g m "xs @ [(sm, Main), (s, Used)]" "(sn, k)" zs q] inv p by (simp_all add: add.assoc)
  have ft: "flag_ok m (p + s + sn) (tag (sn, k))"
    using page_tag(1) [of g m "(xs @ [(sm, Main), (s, Used)]) @ [(sn, k)]" zs q] inv p by (simp add: add.assoc last_tag_def)
  have fq: "k = Free \<Longrightarrow> p + s \<in> set q"
    using free_in_queue [of q "base g" "xs @ [(sm, Main), (s, Used)]" sn zs] d(10) p by (simp add: add.assoc)
  from fk have gs: "gs = (if k = Free then [(sn, Free)] else [])" "k \<noteq> Main" "(sn, k) # zs = gs @ rest"
    by (auto simp: fore_ok_def)
  from merge_next_run [OF s1(1,3) s2(1) _ ft d(9) fq gs(1,2)] s1(2) obtain m1 q1 where
    m1: "merge_next g p m = Some m1" "m_size m1 = (m_size m)(p \<mapsto> s + extent gs)" "m_flag m1 = m_flag m"
      "queue_ok g m1 q1" "mset q1 + mset (marks Free (p + s) gs) = mset q" by auto
  let ?T = "sm + s + extent gs"
  have ie: "in_page g (?b + ?T)"
    using page_tag(2) [of g m "xs @ [(sm, Main), (s, Used)] @ gs" rest q] inv gs(3) by (simp add: add.assoc)
  let ?m' = "m1\<lparr>m_size := (m_size m1)(?b \<mapsto> ?T), m_flag := (m_flag m1)(?b + ?T \<mapsto> ?T)\<rparr>"
  have bp: "p \<noteq> ?b" "p + s \<noteq> ?b" "?b + sm = p" using p s0(2) by auto
  have T: "sm + (s + extent gs) = ?T" by simp
  have run: "free_pointer p g m = Some (g, ?m')"
    using m1(1,2) s0 s1 bp ie gp unfolding free_pointer_def
    by (simp add: next_pointer_def wr_size_def wr_flag_def T)
  have "page_inv (g\<lparr>g_ptr := ?b\<rparr>) ?m' (xs @ (?T, Main) # rest) q1"
  proof (rule page_inv_merge [where ms = "[(sm, Main), (s, Used)] @ gs" and q = q and m = m])
    show "page_inv g m (xs @ ([(sm, Main), (s, Used)] @ gs) @ rest) q" using inv gs(3) by simp
    show "queue_ok g ?m' q1" using queue_ok_cong [OF m1(4)] by simp
    show "mset q1 + mset (marks Free ?b ([(sm, Main), (s, Used)] @ gs)) = mset q + (if Main = Free then {#?b#} else {#})"
      using m1(5) bp(3) by (simp flip: add.assoc)
    show "rest = [] \<or> snd (hd rest) = Used"
      using fore_next [of "xs @ [(sm, Main), (s, Used)]" sn k zs gs rest] d(6) fk by simp
    show "xs = [] \<or> snd (last xs) = Used"
      using d(6) by (auto simp: apart_def successively_append_iff)
  qed (use m1(2,3) s0 s1 bp in \<open>auto simp: add.assoc\<close>)
  moreover have "g\<lparr>g_ptr := ?b\<rparr> = g" using gp by simp
  ultimately show ?thesis using run by auto
qed

lemma queue_distinct: "queue_ok g m q \<Longrightarrow> distinct q"
  by (simp add: queue_ok_def)

lemma mark_kind:
  assumes "page_inv g m (us @ c # vs) q" and "base g + extent us \<in> set (marks k (base g) (us @ c # vs))"
  shows "snd c = k"
proof -
  from assms(2) obtain us' c' vs' where s: "us @ c # vs = us' @ c' # vs'" "snd c' = k"
    "base g + extent us = base g + extent us'" by (rule mark_split)
  have "us = us'" by (rule extent_unique [OF s(1)]) (use page_pos [OF assms(1)] s(3) in auto)
  then show ?thesis using s by simp
qed

lemma queue_elem:
  assumes inv: "page_inv g m cs q" and "x \<in> set q"
  obtains sx where "m_size m x = Some sx" and "in_page g x" and "base g \<le> x" and "x < g_end g"
proof -
  have "x \<in> set (marks Free (base g) cs)" using assms(2) mset_eq_setD [OF page_invD(10) [OF inv]] by simp
  then obtain us c vs where s: "cs = us @ c # vs" "x = base g + extent us" by (rule mark_split) auto
  then show ?thesis
    using page_chunk [of g m us c vs q] inv page_invD(11) [OF inv] by (intro that) auto
qed

lemma queue_first:
  assumes "queue_ok g m q"
  obtains f where "m_next m (g_head g) = Some f" and "f \<in> set q \<or> f = g_end g"
  using assms by (cases q) (auto simp: queue_ok_def)

lemma enqueue_run:
  assumes "queue_ok g m q" and "b \<notin> set (g_head g # q @ [g_end g])" and "in_page g b"
  shows "\<exists>m' q'. (if c then queue_front g b m else queue_back g b m) = Some m' \<and> same_tags m m' \<and>
    queue_ok g m' q' \<and> mset q' = mset q + {#b#}"
  using queue_front_run [OF assms] queue_back_run [OF assms] by (cases c) fastforce+

lemma main_size:
  assumes inv: "page_inv g m cs q"
  obtains sm where "m_size m (g_ptr g) = Some sm" and "32 \<le> sm" and "in_page g (g_ptr g)"
proof -
  have "g_ptr g \<in> set (marks Main (base g) cs)" using page_invD(5) [OF inv] by simp
  then obtain us c vs where s: "cs = us @ c # vs" "g_ptr g = base g + extent us" by (rule mark_split) auto
  then show ?thesis using page_chunk [of g m us c vs q] inv by (intro that) auto
qed

lemma coalesce_run:
  assumes inv: "page_inv g m (xs @ fs @ (s, Used) # (sn, k) # zs) q" and bk: "back_ok xs fs sf"
    and fk: "fore_ok gs sn k zs rest" and b: "b = base g + extent xs" and p: "p = b + extent fs"
  shows "\<exists>mg m1 m2 q2. mergeable p m = Some mg \<and>
    (if mg then merge_prev_tag g p m else Some (p, m)) = Some (b, m1) \<and> merge_next g b m1 = Some m2 \<and>
    m_size m2 = (m_size m)(b \<mapsto> extent fs + s + extent gs) \<and> (\<forall>x. x \<noteq> p + s \<longrightarrow> m_flag m2 x = m_flag m x) \<and>
    queue_ok g m2 q2 \<and> mset q2 + mset (marks Free b (fs @ [(s, Used)] @ gs)) = mset q"
proof -
  note d = page_invD [OF inv]
  from bk have fs: "fs = [] \<or> fs = [(sf, Free)]" and xs: "xs = [] \<or> snd (last xs) = Used"
    by (auto simp: back_ok_def)
  from fk have gs: "gs = (if k = Free then [(sn, Free)] else [])" "k \<noteq> Main" by (auto simp: fore_ok_def)
  have s1: "32 \<le> s" using page_chunk(2) [of g m "xs @ fs" "(s, Used)" "(sn, k) # zs" q] inv by simp
  have s2: "m_size m (p + s) = Some sn" "32 \<le> sn"
    using page_chunk(1,2) [of g m "xs @ fs @ [(s, Used)]" "(sn, k)" zs q] inv p b by (simp_all add: add.assoc)
  have ft: "flag_ok m (p + s + sn) (tag (sn, k))"
    using page_tag(1) [of g m "(xs @ fs @ [(s, Used)]) @ [(sn, k)]" zs q] inv p b by (simp add: add.assoc last_tag_def)
  have fq: "k = Free \<Longrightarrow> p + s \<in> set q"
    using free_in_queue [of q "base g" "xs @ fs @ [(s, Used)]" sn zs] d(10) p b by (simp add: add.assoc)
  have ib: "in_page g b" using page_tag(2) [OF inv] b by simp
  obtain mg m1 q1 where
    m1: "mergeable p m = Some mg" "(if mg then merge_prev_tag g p m else Some (p, m)) = Some (b, m1)"
      "m_size m1 = (m_size m)(b \<mapsto> extent fs + s)" "\<And>x. x \<noteq> p + s \<Longrightarrow> m_flag m1 x = m_flag m x"
      "queue_ok g m1 q1" "mset q1 + mset (marks Free b fs) = mset q"
    using merge_prev_run(2) [OF inv fs xs b p] by blast
  let ?S = "extent fs + s"
  have bS: "b + ?S = p + s" using p by simp
  have f1: "flag_ok m1 (b + ?S + sn) (tag (sn, k))"
    unfolding bS using ft m1(4) [of "p + s + sn"] s2(2) by (cases "tag (sn, k)") auto
  have inq: "b + ?S \<in> set q1" if "k = Free"
  proof -
    have "p + s \<in># mset q1 + mset (marks Free b fs)" using fq [OF that] m1(6) by simp
    then show ?thesis unfolding bS using fs s1 p by auto
  qed
  have bne: "b \<noteq> b + ?S" using s1 by simp
  then have sz: "m_size m1 b = Some ?S" "m_size m1 (b + ?S) = Some sn" using m1(3) s2(1) by (simp_all add: bS)
  obtain m2 q2 where m2: "merge_next g b m1 = Some m2" "m_size m2 = (m_size m1)(b \<mapsto> ?S + extent gs)"
    "m_flag m2 = m_flag m1" "queue_ok g m2 q2" "mset q2 + mset (marks Free (b + ?S) gs) = mset q1"
    using merge_next_run [OF sz(1) ib sz(2) bne f1 m1(5) inq gs] by blast
  have "mset q2 + mset (marks Free b (fs @ [(s, Used)] @ gs)) = mset q"
    using m2(5) m1(6) by (simp add: ac_simps flip: m1(6) m2(5))
  moreover have "m_size m2 = (m_size m)(b \<mapsto> extent fs + s + extent gs)" using m2(2) m1(3) by simp
  ultimately show ?thesis using m1(1,2,4) m2(1,3,4) by metis
qed

lemma free_alone:
  assumes inv: "page_inv g m (xs @ fs @ (s, Used) # (sn, k) # zs) q" and bk: "back_ok xs fs sf"
    and fk: "fore_ok gs sn k zs rest" and p: "p = base g + extent (xs @ fs)"
    and far: "p + s \<noteq> g_ptr g" "\<And>sm. m_size m (g_ptr g) = Some sm \<Longrightarrow> g_ptr g + sm \<noteq> p"
  shows "\<exists>m' q'. free_pointer p g m = Some (g, m') \<and>
     page_inv g m' (xs @ (extent fs + s + extent gs, Free) # rest) q'"
proof -
  note d = page_invD [OF inv]
  define b where "b = base g + extent xs"
  define T where "T = extent fs + s + extent gs"
  have p': "p = b + extent fs" using p b_def by simp
  from fk have gs: "(sn, k) # zs = gs @ rest" "gs = (if k = Free then [(sn, Free)] else [])" by (auto simp: fore_ok_def)
  have s1: "m_size m p = Some s" "32 \<le> s"
    using page_chunk(1,2) [of g m "xs @ fs" "(s, Used)" "(sn, k) # zs" q] inv p by (simp_all add: add.assoc)
  have ib: "in_page g b" and ie: "in_page g (b + T)"
    using page_tag(2) [of g m xs "fs @ (s, Used) # (sn, k) # zs" q]
      page_tag(2) [of g m "xs @ fs @ [(s, Used)] @ gs" rest q] inv gs(1) by (simp_all add: add.assoc b_def T_def)
  obtain sm where sm: "m_size m (g_ptr g) = Some sm" using main_size [OF inv] by blast
  obtain mg m1 m2 q2 where
    m2: "mergeable p m = Some mg" "(if mg then merge_prev_tag g p m else Some (p, m)) = Some (b, m1)"
      "merge_next g b m1 = Some m2" "m_size m2 = (m_size m)(b \<mapsto> T)" "\<And>x. x \<noteq> p + s \<Longrightarrow> m_flag m2 x = m_flag m x"
      "queue_ok g m2 q2" "mset q2 + mset (marks Free b (fs @ [(s, Used)] @ gs)) = mset q"
    using coalesce_run [OF inv bk fk b_def p'] unfolding T_def by blast
  let ?m3 = "m2\<lparr>m_flag := (m_flag m2)(b + T \<mapsto> T)\<rparr>"
  have q3: "queue_ok g ?m3 q2" using queue_ok_cong [OF m2(6)] by simp
  obtain f where f: "m_next m2 (g_head g) = Some f" "f \<in> set q2 \<or> f = g_end g" using queue_first [OF m2(6)] .
  have sub: "x \<in> set q" if "x \<in> set q2" for x
    using that m2(7) by (metis set_mset_mset mset_subset_eq_add_left set_mset_mono subsetD)
  have "\<exists>sf. m_size m f = Some sf" using f(2) sub queue_elem [OF inv] d(4) by metis
  then obtain sf' where sf': "m_size m2 f = Some sf'" using m2(4) by (cases "f = b") auto
  have nq: "b \<notin> set q2"
  proof
    assume bq: "b \<in> set q2"
    show False
    proof (cases fs)
      case Nil
      then have "snd (s, Used) = Free"
        using mark_kind [of g m xs "(s, Used)" "(sn, k) # zs" q Free] inv sub [OF bq] mset_eq_setD [OF d(10)]
        by (simp add: b_def)
      then show False by simp
    next
      case (Cons c cs)
      then have "mset q = mset q2 + {#b#} + mset (marks Free (b + extent fs + s) gs)"
        using m2(7) bk by (auto simp: back_ok_def)
      then have "count (mset q) b \<ge> 2" using bq by (simp add: count_greater_zero_iff Suc_le_eq)
      then show False using queue_distinct [OF d(9)] by (simp add: distinct_count_atmost_1 split: if_splits)
    qed
  qed
  have bn: "b \<notin> set (g_head g # q2 @ [g_end g])"
    using nq d(1,11) s1(2) by (auto simp: b_def base_def)
  obtain m4 q4 where m4: "(if T \<ge> sf' then queue_front g b ?m3 else queue_back g b ?m3) = Some m4"
    "same_tags ?m3 m4" "queue_ok g m4 q4" "mset q4 = mset q2 + {#b#}"
    using enqueue_run [OF q3 bn ib] by metis
  have run: "free_pointer p g m = Some (g, m4)"
    using m2(1-4) s1 sm far f(1) sf' ib ie m4(1) unfolding free_pointer_def
    by (simp add: next_pointer_def wr_flag_def)
  have "page_inv (g\<lparr>g_ptr := g_ptr g\<rparr>) m4 (xs @ (T, Free) # rest) q4"
  proof (rule page_inv_merge [where ms = "fs @ [(s, Used)] @ gs" and q = q and m = m])
    show "page_inv g m (xs @ (fs @ [(s, Used)] @ gs) @ rest) q" using inv gs(1) by simp
    show "mset q4 + mset (marks Free b (fs @ [(s, Used)] @ gs)) = mset q + (if Free = Free then {#b#} else {#})"
      using m4(4) m2(7) by (simp add: ac_simps flip: m2(7))
    show "rest = [] \<or> snd (hd rest) = Used"
      using fore_next [of "xs @ fs @ [(s, Used)]" sn k zs gs rest] d(6) fk by simp
    show "xs = [] \<or> snd (last xs) = Used" using bk by (simp add: back_ok_def)
    show "if Free = Main then g_ptr g = b \<and> marks Main b (fs @ [(s, Used)] @ gs) \<noteq> []
          else g_ptr g = g_ptr g \<and> marks Main b (fs @ [(s, Used)] @ gs) = []"
      using bk gs(2) by (auto simp: back_ok_def)
    show "m_flag m4 x = m_flag m x" if "x \<le> b \<or> b + T < x" for x
    proof -
      have "x \<noteq> p + s" "x \<noteq> b + T" using that p' s1(2) by (auto simp: T_def)
      then show ?thesis using m4(2) m2(5) by (simp add: same_tags_def)
    qed
  qed (use m2(4) m4(2,3) s1(2) in \<open>auto simp: same_tags_def T_def b_def\<close>)
  then show ?thesis using run by (auto simp: T_def)
qed

lemma free_pointer_run:
  assumes inv: "page_inv g m (xs @ (s, Used) # ys) q" and p: "p = base g + extent xs"
  shows "\<exists>g' m' cs' q'. free_pointer p g m = Some (g', m') \<and> page_inv g' m' cs' q' \<and> g' = g\<lparr>g_ptr := g_ptr g'\<rparr> \<and>
     useds (base g) cs' = useds (base g) xs @ useds (p + s) ys"
proof -
  note d = page_invD [OF inv]
  have "ys \<noteq> []" using d(8) by auto
  then obtain sn k zs where ys: "ys = (sn, k) # zs" by (cases ys) auto
  have e: "base g + extent (xs @ [(s, Used)]) = p + s" using p by simp
  show ?thesis
  proof (cases "p + s = g_ptr g")
    case True
    then obtain zs' sm where m: "ys = (sm, Main) # zs'"
      using main_split [of g m "xs @ [(s, Used)]" ys q] inv e by auto
    have "xs = [] \<or> snd (last xs) \<noteq> Main"
      using d(5) m by (cases xs rule: rev_cases) (auto simp: append_eq_Cons_conv)
    then obtain xs' fs sf where x: "xs = xs' @ fs" "back_ok xs' fs sf" using split_back d(6) by blast
    have i: "page_inv g m (xs' @ fs @ (s, Used) # (sm, Main) # zs') q" using inv x(1) m by simp
    have "useds a fs = []" for a using x(2) by (auto simp: back_ok_def)
    then show ?thesis
      using free_left_of_main [OF i x(2) _ refl, of p] p x(1) m by (fastforce simp: add.assoc)
  next
    case far: False
    have km: "k \<noteq> Main"
    proof
      assume "k = Main"
      then have "p + s = g_ptr g" using d(5) ys p by (auto simp: append_eq_Cons_conv)
      then show False using far by simp
    qed
    define gs where "gs = (if k = Free then [(sn, Free)] else [])"
    define rest where "rest = (if k = Free then zs else ys)"
    have fk: "fore_ok gs sn k zs rest" using km ys by (simp add: fore_ok_def gs_def rest_def)
    have ug: "useds a gs = []" for a by (simp add: gs_def)
    have yr: "ys = gs @ rest" using ys by (simp add: gs_def rest_def)
    show ?thesis
    proof (cases "\<exists>sm. m_size m (g_ptr g) = Some sm \<and> g_ptr g + sm = p")
      case True
      then obtain ws sm where x: "xs = ws @ [(sm, Main)]"
        using main_before [of g m xs "(s, Used) # ys" q] inv p by metis
      have i: "page_inv g m (ws @ (sm, Main) # (s, Used) # (sn, k) # zs) q" using inv x ys by simp
      show ?thesis
        using free_right_of_main [OF i fk, of p] p x yr ug by (fastforce simp: add.assoc)
    next
      case False
      have "xs = [] \<or> snd (last xs) \<noteq> Main"
      proof (rule ccontr)
        assume "\<not> ?thesis"
        then obtain ws sm where x: "xs = ws @ [(sm, Main)]" by (metis append_butlast_last_id prod.collapse)
        then have "g_ptr g = base g + extent ws" using d(5) by (auto simp: append_eq_Cons_conv)
        then show False using False page_chunk(1) [of g m ws "(sm, Main)" "(s, Used) # ys" q] inv x p by simp
      qed
      then obtain xs' fs sf where x: "xs = xs' @ fs" "back_ok xs' fs sf" using split_back d(6) by blast
      have i: "page_inv g m (xs' @ fs @ (s, Used) # (sn, k) # zs) q" using inv x(1) ys by simp
      have "useds a fs = []" for a using x(2) by (auto simp: back_ok_def)
      then show ?thesis
        using free_alone [OF i x(2) fk, of p] p x(1) far False yr ug by (fastforce simp: add.assoc)
    qed
  qed
qed

end
