(* ===== verification/Xmalloc_Cut.thy ===== *)
theory Xmalloc_Cut
  imports Xmalloc_Page
begin

text \<open>
  Cutting a chunk from the main chunk of a page, and exchanging the main chunk with the first of the
  queue, keep the page invariant; the chunk handed out is new and the other used chunks stay.
\<close>

section \<open>Cutting\<close>

lemma layout_suffix:
  assumes lay: "layout m a t (xs @ ys) e" and b: "b = a + extent xs"
    and s: "\<And>x. x < b \<Longrightarrow> m_size m' x = m_size m x" and f: "\<And>x. x < b \<Longrightarrow> m_flag m' x = m_flag m x"
    and lay': "layout m' b (last_tag t xs) ys' e'"
  shows "layout m' a t (xs @ ys') e'"
proof -
  have "flag_ok m' (a + extent us) (last_tag t us) \<and> m_size m' (a + extent us) = Some (fst c) \<and>
      free_pointer_size \<le> fst c \<and> 8 dvd fst c" if "xs = us @ c # vs" for us c vs
  proof -
    note l = layout_chunk [of m a t us c "vs @ ys" e]
    have "a + extent us < b" using l(3) lay that b by simp
    then show ?thesis using l lay that s f by (cases "last_tag t us") auto
  qed
  then show ?thesis using lay' b unfolding layout_append [of _ _ _ xs] by blast
qed

lemma odd_inuse: "odd (inuse_flag pid i)"
proof -
  have "bit (inuse_flag pid i) 0" unfolding inuse_flag_def bit_or_iff by (simp add: bit_0)
  then show ?thesis by (simp add: bit_0)
qed

lemma extent_gap:
  assumes "us @ vs = xs @ c # ys"
  shows "extent us \<le> extent xs \<or> extent xs + fst c \<le> extent us"
proof -
  from assms obtain ws where "us = xs @ ws \<and> ws @ vs = c # ys \<or> us @ ws = xs \<and> vs = ws @ c # ys"
    by (auto simp: append_eq_append_conv2)
  then show ?thesis by (auto simp: append_eq_Cons_conv)
qed

lemma queue_ok_prev:
  assumes "queue_ok g m q" and "x \<notin> set q" and "x \<noteq> g_end g"
    and "m_next m' = m_next m" and "m_prev m' = (m_prev m)(x \<mapsto> v)"
  shows "queue_ok g m' q"
proof -
  have "dll m (g_head g # q @ [g_end g])" using assms(1) by (simp add: queue_ok_def)
  then have "dll m' (g_head g # q @ [g_end g])"
  proof (rule dll_cong)
    fix y assume "y \<in> set (tl (g_head g # q @ [g_end g]))"
    then have "y \<noteq> x" using assms(2,3) by auto
    then show "m_prev m' y = m_prev m y" using assms(5) by simp
  qed (simp add: assms(4))
  then show ?thesis using assms(1) by (simp add: queue_ok_def)
qed

lemma cut_chunk_run:
  assumes inv: "page_inv g m (xs @ (sm, Main) # ys) q" and sz: "32 \<le> sz" "8 dvd sz" "sz + 32 \<le> sm"
    and a: "a = base g + extent xs" and sp: "g_end g < 2 ^ 64"
  shows "\<exists>m'. cut_chunk pid i sz g m = Some (a, g\<lparr>g_ptr := a + sz\<rparr>, m') \<and>
     page_inv (g\<lparr>g_ptr := a + sz\<rparr>) m' (xs @ (sz, Used) # (sm - sz, Main) # ys) q"
proof -
  note d = page_invD [OF inv] and ch = page_chunk [OF inv, folded a]
  have gp: "g_ptr g = a" using d(5) a by (auto simp: append_eq_Cons_conv)
  have ie: "in_page g (a + sm)"
    using page_tag(2) [of g m "xs @ [(sm, Main)]" ys q] inv a by (simp add: add.assoc)
  have ip: "in_page g (a + sz)" using ch(4) ie sz by (auto simp: in_page_def)
  have wrap: "(a + sz) mod 2 ^ 64 = a + sz" using sp sz d(11) a by simp
  have "sm < 2 ^ 64" using sp d(11) by simp
  then have rest: "(sm + (18446744073709551616 - sz)) mod 18446744073709551616 = sm - sz"
    using sz by (simp add: mod_if)
  let ?m' = "m\<lparr>m_flag := (m_flag m)(a + sz \<mapsto> inuse_flag pid i, a + sm \<mapsto> sm - sz),
      m_size := (m_size m)(a + sz \<mapsto> sm - sz, a \<mapsto> sz), m_prev := (m_prev m)(a + sz \<mapsto> a)\<rparr>"
  have run: "cut_chunk pid i sz g m = Some (a, g\<lparr>g_ptr := a + sz\<rparr>, ?m')"
    using ch(1,4) ie ip sz gp unfolding cut_chunk_def Let_def gp wrap
    by (simp add: wr_flag_def wr_size_def wr_prev_def next_pointer_def rest)
  have lay: "layout m (base g) None (xs @ (sm, Main) # ys) (g_end g)" using d(3) .
  have l2: "layout m (a + sm) (Some sm) ys (g_end g)"
    using lay a unfolding layout_append [of _ _ _ xs] by (simp add: tag_def)
  have "layout ?m' (a + sm) (Some (sm - sz)) ys (g_end g)"
    by (rule layout_cong [OF l2]) (use sz ch(3) in \<open>auto elim: dvd_trans [rotated] simp: dvd_diff_nat\<close>)
  moreover have "flag_ok ?m' a (last_tag None xs)" using ch(5) sz by (cases "last_tag None xs") auto
  ultimately have "layout ?m' a (last_tag None xs) ((sz, Used) # (sm - sz, Main) # ys) (g_end g)"
    using sz ch(3) odd_inuse by (auto simp: tag_def dvd_diff_nat)
  then have "layout ?m' (base g) None (xs @ (sz, Used) # (sm - sz, Main) # ys) (g_end g)"
    by (rule layout_suffix [OF lay a, rotated 2]) (use sz in auto)
  moreover have "queue_ok g ?m' q"
  proof -
    have "a + sz \<notin> set q"
    proof
      assume "a + sz \<in> set q"
      then have "a + sz \<in> set (marks Free (base g) (xs @ (sm, Main) # ys))" using mset_eq_setD [OF d(10)] by simp
      then obtain us c vs where s: "xs @ (sm, Main) # ys = us @ c # vs" "a + sz = base g + extent us"
        by (rule mark_split) auto
      then show False using extent_gap [OF s(1) [symmetric]] sz a by auto
    qed
    moreover have "a + sz \<noteq> g_end g" using ch sz d(11) a by simp
    ultimately show ?thesis using queue_ok_prev [OF d(9), of "a + sz" ?m' a] by simp
  qed
  moreover have "marks Main (base g) (xs @ (sz, Used) # (sm - sz, Main) # ys) = [a + sz]"
    using d(5) a sz by (auto simp: append_eq_Cons_conv)
  moreover have "apart (xs @ (sz, Used) # (sm - sz, Main) # ys)"
    using d(6) by (auto simp: apart_def successively_append_iff successively_Cons)
  moreover have "mset q = mset (marks Free (base g) (xs @ (sz, Used) # (sm - sz, Main) # ys))"
    using d(10) sz by (simp add: add.assoc)
  moreover have "m_size ?m' (g_end g) = Some 32" using d(4,11) sz a by simp
  moreover have lst: "snd (last (xs @ (sz, Used) # (sm - sz, Main) # ys)) \<noteq> Used" using d(8) by (cases ys) auto
  ultimately have "page_inv (g\<lparr>g_ptr := a + sz\<rparr>) ?m' (xs @ (sz, Used) # (sm - sz, Main) # ys) q"
    using d(1,2) lst by (simp add: page_inv_def)
  then show ?thesis using run by blast
qed

section \<open>Exchanging the main chunk\<close>

text \<open>All free chunks but the one at \<open>f\<close> are in the queue.\<close>

fun relabel :: "nat \<Rightarrow> nat \<Rightarrow> chunks \<Rightarrow> chunks" where
  "relabel f a [] = []"
| "relabel f a (c # cs) = (fst c, if snd c = Used then Used else if a = f then Main else Free) # relabel f (a + fst c) cs"

lemma relabel_simps:
  "extent (relabel f a cs) = extent cs" "useds a (relabel f a cs) = useds a cs"
  "layout m a t (relabel f a cs) e = layout m a t cs e"
  by (induction cs arbitrary: a t) (auto simp: tag_def)

lemma relabel_map: "map (\<lambda>c. snd c = Used) (relabel f a cs) = map (\<lambda>c. snd c = Used) cs"
  by (induction cs arbitrary: a) auto

lemma apart_map: "apart cs \<longleftrightarrow> successively (\<lambda>x y. x \<or> y) (map (\<lambda>c. snd c = Used) cs)"
  by (simp add: apart_def successively_map)

lemma relabel_apart: "apart (relabel f a cs) = apart cs"
  by (simp only: apart_map relabel_map)

lemma relabel_last:
  assumes "cs \<noteq> []"
  shows "relabel f a cs \<noteq> []" and "snd (last (relabel f a cs)) = Used \<longleftrightarrow> snd (last cs) = Used"
proof -
  have l: "length (relabel f a cs) = length cs" using arg_cong [OF relabel_map, of length] by simp
  then show ne: "relabel f a cs \<noteq> []" using assms by auto
  have "last (map (\<lambda>c. snd c = Used) (relabel f a cs)) = last (map (\<lambda>c. snd c = Used) cs)" by (simp add: relabel_map)
  then show "snd (last (relabel f a cs)) = Used \<longleftrightarrow> snd (last cs) = Used" using ne assms by (simp add: last_map)
qed

lemma relabel_marks:
  "mset (marks Free a (relabel f a cs)) = filter_mset (\<lambda>x. x \<noteq> f) (mset (marks Free a cs) + mset (marks Main a cs))"
  "mset (marks Main a (relabel f a cs)) = filter_mset (\<lambda>x. x = f) (mset (marks Free a cs) + mset (marks Main a cs))"
proof (induction cs arbitrary: a)
  case (Cons c cs)
  { case 1 show ?case using Cons by (cases "snd c") auto }
  { case 2 show ?case using Cons by (cases "snd c") auto }
qed simp_all

lemma change_main_run:
  assumes inv: "page_inv g m cs (f # q)"
  shows "\<exists>m'. change_main g m = Some (g\<lparr>g_ptr := f\<rparr>, m') \<and>
    page_inv (g\<lparr>g_ptr := f\<rparr>) m' (relabel f (base g) cs) (q @ [g_ptr g]) \<and> same_tags m m'"
proof -
  note d = page_invD [OF inv]
  obtain sm where sm: "m_size m (g_ptr g) = Some sm" "32 \<le> sm" "in_page g (g_ptr g)" using main_size [OF inv] .
  have "g_ptr g \<in> set (marks Main (base g) cs)" using d(5) by simp
  then obtain us c vs where s: "cs = us @ c # vs" "snd c = Main" "g_ptr g = base g + extent us" by (rule mark_split)
  have inv1: "page_inv g m (us @ c # vs) (f # q)" using inv s(1) by simp
  have sc: "fst c = sm" using page_chunk(1) [OF inv1] s(3) sm(1) by simp
  have inv2: "page_inv g m ((us @ [c]) @ vs) (f # q)" using inv s(1) by simp
  have tg: "flag_ok m (g_ptr g + sm) (Some sm)" "in_page g (g_ptr g + sm)"
    using page_tag [OF inv2] s(2,3) sc by (simp_all add: tag_def add.assoc)
  have "g_ptr g \<notin> set (f # q)"
  proof
    assume "g_ptr g \<in> set (f # q)"
    then have "base g + extent us \<in> set (marks Free (base g) (us @ c # vs))"
      using mset_eq_setD [OF d(10)] s(3) unfolding s(1) [symmetric] by auto
    from mark_kind [OF inv1 this] show False using s(2) by simp
  qed
  moreover have "g_ptr g \<noteq> g_head g" "g_ptr g \<noteq> g_end g"
    using d(1,11) s sc sm(2) by (auto simp: base_def)
  ultimately obtain m1 where m1: "queue_back g (g_ptr g) m = Some m1" "same_tags m m1"
    "queue_ok g m1 ((f # q) @ [g_ptr g])"
    using queue_back_run [OF d(9), of "g_ptr g"] sm(3) by auto
  have q1: "queue_ok g m1 ([] @ f # (q @ [g_ptr g]))" using m1(3) by simp
  let ?m2 = "m1\<lparr>m_flag := (m_flag m1)(g_ptr g + sm \<mapsto> sm)\<rparr>"
  have same2: "same_tags m ?m2" using m1(2) tg(1) by (simp add: same_tags_def fun_upd_idem)
  have q2: "queue_ok g ?m2 ([] @ f # (q @ [g_ptr g]))" using queue_ok_cong [OF q1] by simp
  have hd: "m_next ?m2 (g_head g) = Some f" "m_prev ?m2 f = Some (g_head g)" "in_page g (g_head g)"
    using q2 by (simp_all add: queue_ok_def)
  obtain b n where n: "m_prev ?m2 f = Some b" "m_next ?m2 f = Some n" "in_page g n" "n \<noteq> f" "b \<noteq> n"
    and rm: "\<And>m'. m_next m' = (m_next ?m2)(b \<mapsto> n) \<Longrightarrow> m_prev m' = (m_prev ?m2)(n \<mapsto> b) \<Longrightarrow> queue_ok g m' ([] @ (q @ [g_ptr g]))"
    using queue_neighbours [OF q2] by metis
  have b: "b = g_head g" using n(1) hd(2) by simp
  let ?m4 = "?m2\<lparr>m_next := (m_next ?m2)(g_head g \<mapsto> n), m_prev := (m_prev ?m2)(n \<mapsto> g_head g)\<rparr>"
  have run: "change_main g m = Some (g\<lparr>g_ptr := f\<rparr>, ?m4)"
    using m1(1,2) sm(1) tg(2) hd n unfolding change_main_def
    by (simp add: next_pointer_def wr_flag_def wr_next_def wr_prev_def same_tags_def Let_def)
  have "queue_ok g ?m4 (q @ [g_ptr g])" using rm [of ?m4] b by simp
  moreover have "layout ?m4 (base g) None cs (g_end g)"
    by (rule layout_cong [OF d(3)]) (use same2 layout_tags [of m "base g" None "[]" cs "g_end g"] d(3) in \<open>auto simp: same_tags_def\<close>)
  moreover have "m_size ?m4 (g_end g) = Some 32" using d(4) same2 by (simp add: same_tags_def)
  moreover have "marks Main (base g) (relabel f (base g) cs) = [f]"
  proof -
    have fq: "mset (marks Free (base g) cs) = add_mset f (mset q)" using d(10) by simp
    have "f \<notin> set q" "f \<noteq> g_ptr g" using q1 by (auto simp: queue_ok_def)
    then have "mset (marks Main (base g) (relabel f (base g) cs)) = {#f#}"
      unfolding relabel_marks d(5) fq by (auto simp: multiset_eq_iff count_eq_zero_iff)
    then show ?thesis by simp
  qed
  moreover have "mset (q @ [g_ptr g]) = mset (marks Free (base g) (relabel f (base g) cs))"
  proof -
    have fq: "mset (marks Free (base g) cs) = add_mset f (mset q)" using d(10) by simp
    have "f \<notin> set q" "f \<noteq> g_ptr g" using q1 by (auto simp: queue_ok_def)
    then have "filter_mset (\<lambda>x. x \<noteq> f) (mset q) = mset q" by (auto simp: filter_mset_eq_conv)
    then show ?thesis unfolding relabel_marks d(5) fq using \<open>f \<noteq> g_ptr g\<close> by simp
  qed
  ultimately have "page_inv (g\<lparr>g_ptr := f\<rparr>) ?m4 (relabel f (base g) cs) (q @ [g_ptr g])"
    using d(1,2,6,7,8) relabel_last [OF d(7)] by (simp add: page_inv_def relabel_simps relabel_apart)
  moreover have "same_tags m ?m4" using same2 by (simp add: same_tags_def)
  ultimately show ?thesis using run by blast
qed

section \<open>A request to a page\<close>

lemma main_here:
  assumes inv: "page_inv g m cs q" and sm: "m_size m (g_ptr g) = Some sm"
  obtains us vs where "cs = us @ (sm, Main) # vs" and "g_ptr g = base g + extent us"
proof -
  have "g_ptr g \<in> set (marks Main (base g) cs)" using page_invD(5) [OF inv] by simp
  then obtain us c vs where c: "cs = us @ c # vs" "snd c = Main" "g_ptr g = base g + extent us" by (rule mark_split)
  have "fst c = sm" using page_chunk(1) [of g m us c vs q] inv sm c by simp
  then show ?thesis using c by (cases c) (auto intro: that)
qed

lemma cut_main:
  assumes inv: "page_inv g m cs q" and sz: "32 \<le> sz" "8 dvd sz" and sp: "g_end g < 2 ^ 64"
    and sm: "m_size m (g_ptr g) = Some sm" "sz + 32 \<le> sm"
  shows "\<exists>a g' m' cs' us vs. cut_chunk pid i sz g m = Some (a, g', m') \<and> page_inv g' m' cs' q \<and>
      g' = g\<lparr>g_ptr := g_ptr g'\<rparr> \<and> useds (base g) cs = us @ vs \<and> useds (base g) cs' = us @ (a, sz) # vs"
proof -
  obtain xs ys where cs: "cs = xs @ (sm, Main) # ys" "g_ptr g = base g + extent xs"
    using main_here [OF inv sm(1)] .
  let ?a = "base g + extent xs" and ?cs = "xs @ (sz, Used) # (sm - sz, Main) # ys"
  have "page_inv g m (xs @ (sm, Main) # ys) q" using inv cs(1) by simp
  from cut_chunk_run [OF this sz sm(2) refl sp, of pid i] obtain m' where
    m': "cut_chunk pid i sz g m = Some (?a, g\<lparr>g_ptr := ?a + sz\<rparr>, m')" "page_inv (g\<lparr>g_ptr := ?a + sz\<rparr>) m' ?cs q"
    by blast
  have "useds (base g) cs = useds (base g) xs @ useds (?a + sm) ys" using cs(1) by simp
  moreover have "useds (base g) ?cs = useds (base g) xs @ (?a, sz) # useds (?a + sm) ys"
    using sm(2) by (simp add: add.assoc)
  ultimately show ?thesis using m' by force
qed

lemma page_malloc_run:
  assumes inv: "page_inv g m cs q" and sz: "32 \<le> sz" "8 dvd sz" and sp: "g_end g < 2 ^ 64"
  shows "page_malloc pid i sz (sz + 32) g m = Some None \<or>
    (\<exists>a g' m' cs' q' us vs. page_malloc pid i sz (sz + 32) g m = Some (Some (a, g', m')) \<and> page_inv g' m' cs' q' \<and>
       g' = g\<lparr>g_ptr := g_ptr g'\<rparr> \<and> useds (base g) cs = us @ vs \<and> useds (base g) cs' = us @ (a, sz) # vs)"
proof -
  obtain sm where sm: "m_size m (g_ptr g) = Some sm" using main_size [OF inv] by blast
  show ?thesis
  proof (cases "sz + 32 \<le> sm")
    case True
    from cut_main [OF inv sz sp sm True, of pid i] show ?thesis using sm True by (fastforce simp: page_malloc_def)
  next
    case False
    obtain f where f: "m_next m (g_head g) = Some f" "f \<in> set q \<or> f = g_end g"
      using queue_first [OF page_invD(9) [OF inv]] .
    then obtain sf where sf: "m_size m f = Some sf" using queue_elem [OF inv] page_invD(4) [OF inv] by metis
    show ?thesis
    proof (cases "sf > sz + 32")
      case big: True
      have "f \<noteq> g_end g" using big sf page_invD(4) [OF inv] by auto
      then obtain q' where q: "q = f # q'"
        using f page_invD(9) [OF inv] by (cases q) (auto simp: queue_ok_def)
      from change_main_run [of g m cs f q'] inv q obtain m1 where
        m1: "change_main g m = Some (g\<lparr>g_ptr := f\<rparr>, m1)"
          "page_inv (g\<lparr>g_ptr := f\<rparr>) m1 (relabel f (base g) cs) (q' @ [g_ptr g])" "same_tags m m1" by blast
      have sf1: "m_size m1 (g_ptr (g\<lparr>g_ptr := f\<rparr>)) = Some sf" using m1(3) sf by (simp add: same_tags_def)
      have "sz + 32 \<le> sf" "g_end (g\<lparr>g_ptr := f\<rparr>) < 2 ^ 64" using big sp by simp_all
      from cut_main [OF m1(2) sz this(2) sf1 this(1), of pid i] show ?thesis
        using m1(1) sm f(1) sf big \<open>\<not> sz + 32 \<le> sm\<close> by (fastforce simp: page_malloc_def relabel_simps)
    next
      case False
      then show ?thesis using sm f(1) sf \<open>\<not> sz + 32 \<le> sm\<close> by (simp add: page_malloc_def)
    qed
  qed
qed

end
