(* ===== verification/Xmalloc_Store.thy ===== *)
theory Xmalloc_Store
  imports Xmalloc_Cut
begin

text \<open>
  A page as a store of disjoint blocks: a new page, the interface that its users rely on, and what
  follows for any sequence of requests and releases.
\<close>

section \<open>A new page\<close>

lemma format_page_run:
  assumes sz: "g_size page = 64 + n" "32 \<le> n" "8 dvd n" and a: "g_start_address page = a"
  shows "\<exists>m. format_page pid page m0
    = Some (page\<lparr>g_head := a, g_ptr := a + 32, g_end := a + 32 + n,
        g_recycle_pool := replicate max_recycle_pool \<lparr>r_lock = False, r_head = 0, r_memory_size = 0\<rparr>\<rparr>, m) \<and>
    page_inv (page\<lparr>g_head := a, g_ptr := a + 32, g_end := a + 32 + n,
        g_recycle_pool := replicate max_recycle_pool \<lparr>r_lock = False, r_head = 0, r_memory_size = 0\<rparr>\<rparr>)
      m [(n, Main)] []"
proof -
  have pb: "push_bit 1 (32::nat) = 64" by (simp add: push_bit_eq_mult)
  have "even n" using sz(3) by (auto elim: dvd_trans [rotated])
  then show ?thesis
    using sz a odd_inuse
    by (simp add: format_page_def Let_def wr_flag_def wr_size_def wr_prev_def wr_next_def in_page_def
        next_pointer_def pb page_inv_def base_def apart_def queue_ok_def tag_def)
qed

section \<open>Blocks\<close>

lemma useds_bounds:
  assumes "(x, s) \<in> set (useds a cs)"
  shows "a \<le> x" and "x + s \<le> a + extent cs"
  using assms by (induction cs arbitrary: a) (fastforce split: if_splits)+

lemma useds_apart: "sorted_wrt (\<lambda>u v. fst u + snd u \<le> fst v) (useds a cs)"
proof (induction cs arbitrary: a)
  case (Cons c cs)
  then show ?case using useds_bounds(1) [of _ _ "a + fst c" cs] by fastforce
qed simp

lemma apart_distinct:
  "sorted_wrt (\<lambda>u v. fst u + snd u \<le> fst v) us \<Longrightarrow> (\<And>u. u \<in> set us \<Longrightarrow> 0 < snd u) \<Longrightarrow> distinct us"
  for us :: "(nat \<times> nat) list"
  by (induction us) fastforce+

lemma useds_split:
  assumes "(x, s) \<in> set (useds a cs)"
  obtains xs ys where "cs = xs @ (s, Used) # ys" and "x = a + extent xs"
  using assms
proof (induction cs arbitrary: a thesis)
  case (Cons c cs)
  show ?case
  proof (cases "snd c = Used \<and> x = a \<and> s = fst c")
    case True
    then show ?thesis using Cons.prems(1) [of "[]" cs] by (cases c) simp
  next
    case False
    then have "(x, s) \<in> set (useds (a + fst c) cs)" using Cons.prems(2) by (auto split: if_splits)
    then obtain xs ys where "cs = xs @ (s, Used) # ys" "x = a + fst c + extent xs" using Cons.IH by blast
    then show ?thesis using Cons.prems(1) [of "c # xs" ys] by simp
  qed
qed simp

section \<open>Rounding a request\<close>

lemma unat_and_not_mask: "unat (x AND NOT (mask k)) = unat x - unat x mod 2 ^ k" for x :: "'a::len word"
proof -
  have "x = (x AND mask k) OR (x AND NOT (mask k))" by (rule bit_word_eqI) (auto simp: bit_simps)
  moreover have "(x AND mask k) AND (x AND NOT (mask k)) = 0" by (rule bit_word_eqI) (auto simp: bit_simps)
  ultimately have "x - (x AND mask k) = x AND NOT (mask k)"
    by (metis add_diff_cancel_left' disjunctive_add_eq_or)
  moreover have "(x AND mask k) \<le> x" by (simp add: word_le_nat_alt unat_and_mask)
  ultimately show ?thesis by (metis unat_sub unat_and_mask)
qed

lemma req2align_exact:
  assumes "unat req + 23 < 2 ^ 64"
  shows "unat (req2align req) = (if unat req < 16 then 32 else (unat req + 23) div 8 * 8)"
proof -
  have m: "(of_nat (align_size - 1) :: u64) = mask 3" by (simp add: mask_eq_exp_minus_1)
  have u16: "unat (req + 16) = unat req + 16" and u: "unat (req + 23) = unat req + 23"
    using assms by (simp_all add: unat_word_ariths)
  have c: "req + of_nat work_pointer_size < of_nat free_pointer_size \<longleftrightarrow> unat req < 16"
    using u16 by (simp add: word_less_nat_alt)
  have "unat (req + of_nat work_pointer_size + of_nat (align_size - 1)) = unat req + 23" using u by (simp add: add.commute)
  then show ?thesis
    unfolding req2align_def c unfolding m by (simp add: unat_and_not_mask minus_mod_eq_div_mult)
qed

lemma req2align_bounds:
  assumes "unat req \<le> 2 ^ 63"
  shows "32 \<le> unat (req2align req)" and "8 dvd unat (req2align req)"
    and "unat req + 16 \<le> unat (req2align req)" and "unat (req2align req) \<le> unat req + 32"
    and "unat (req2align req + 32) = unat (req2align req) + 32"
proof -
  have e: "unat (req2align req) = (if unat req < 16 then 32 else (unat req + 23) div 8 * 8)"
    using assms by (intro req2align_exact) simp
  show "32 \<le> unat (req2align req)" "8 dvd unat (req2align req)" "unat req + 16 \<le> unat (req2align req)"
    "unat (req2align req) \<le> unat req + 32" unfolding e by auto
  then show "unat (req2align req + 32) = unat (req2align req) + 32"
    using assms by (simp add: unat_word_ariths)
qed

section \<open>The interface\<close>

text \<open>
  A client of a store asks for memory, gives back the block at some position of its list and overwrites
  the first two words of a block, which is where the link fields of the chunk header are. It makes only
  requests that are admissible in the present state, and gives back or writes only blocks that it holds.
\<close>

datatype store_op = Get u64 | Put nat | Write nat nat nat

fun client :: "(u64 \<Rightarrow> 's \<Rightarrow> bool) \<Rightarrow> (u64 \<Rightarrow> 's \<Rightarrow> (nat option \<times> 's) option) \<Rightarrow> (nat \<Rightarrow> 's \<Rightarrow> 's option) \<Rightarrow>
  (nat \<Rightarrow> nat \<Rightarrow> nat \<Rightarrow> 's \<Rightarrow> 's) \<Rightarrow> store_op list \<Rightarrow> 's \<Rightarrow> (nat \<times> nat) list \<Rightarrow> ('s \<times> (nat \<times> nat) list) option" where
  "client adm get put wrt [] s bs = Some (s, bs)"
| "client adm get put wrt (Get req # ops) s bs =
     (if adm req s then do {
        (r, s') \<leftarrow> get req s;
        client adm get put wrt ops s' (case r of None \<Rightarrow> bs | Some a \<Rightarrow> bs @ [(a, unat req)]) }
      else client adm get put wrt ops s bs)"
| "client adm get put wrt (Put i # ops) s bs =
     (if i < length bs then do {
        s' \<leftarrow> put (fst (bs ! i)) s;
        client adm get put wrt ops s' (take i bs @ drop (Suc i) bs) }
      else client adm get put wrt ops s bs)"
| "client adm get put wrt (Write i v w # ops) s bs =
     client adm get put wrt ops (if i < length bs then wrt (fst (bs ! i)) v w s else s) bs"

fun gets :: "store_op list \<Rightarrow> nat" where
  "gets [] = 0"
| "gets (Get req # ops) = Suc (gets ops)"
| "gets (_ # ops) = gets ops"

lemma client_append:
  "client adm get put wrt (xs @ ys) s bs
     = Option.bind (client adm get put wrt xs s bs) (\<lambda>(s', bs'). client adm get put wrt ys s' bs')"
  by (induction adm get put wrt xs s bs rule: client.induct) (auto split: bind_splits)

lemma client_length:
  "client adm get put wrt ops s bs = Some (s', bs') \<Longrightarrow> length bs' \<le> length bs + gets ops"
  by (induction adm get put wrt ops s bs rule: client.induct)
     (fastforce split: option.splits bind_splits if_splits)+

lemma client_drop:
  "client adm get put wrt (replicate k (Put 0)) s bs = Some (s', bs') \<Longrightarrow> bs' = drop k bs"
proof (induction k arbitrary: s bs)
  case (Suc k)
  then show ?case using Suc.IH [of s "[]"] by (cases bs) (auto split: bind_splits)
qed simp

text \<open>
  \<open>ok s bs\<close>: the store \<open>s\<close> has handed out the blocks \<open>bs\<close>, each given by its address and the length asked
  for. A request is refused, or it is served by a block that joins the others.
\<close>

locale block_store =
  fixes ok :: "'s \<Rightarrow> (nat \<times> nat) list \<Rightarrow> bool"
    and adm :: "u64 \<Rightarrow> 's \<Rightarrow> bool"
    and get :: "u64 \<Rightarrow> 's \<Rightarrow> (nat option \<times> 's) option"
    and put :: "nat \<Rightarrow> 's \<Rightarrow> 's option"
    and wrt :: "nat \<Rightarrow> nat \<Rightarrow> nat \<Rightarrow> 's \<Rightarrow> 's"
  assumes get_law: "ok s bs \<Longrightarrow> adm req s \<Longrightarrow>
      \<exists>r s'. get req s = Some (r, s') \<and> ok s' (case r of None \<Rightarrow> bs | Some a \<Rightarrow> bs @ [(a, unat req)])"
    and put_law: "ok s bs \<Longrightarrow> i < length bs \<Longrightarrow>
      \<exists>s'. put (fst (bs ! i)) s = Some s' \<and> ok s' (take i bs @ drop (Suc i) bs)"
    and write_law: "ok s bs \<Longrightarrow> i < length bs \<Longrightarrow> ok (wrt (fst (bs ! i)) v w s) bs"
    and apart_law: "ok s bs \<Longrightarrow> i < j \<Longrightarrow> j < length bs \<Longrightarrow>
      fst (bs ! i) + snd (bs ! i) \<le> fst (bs ! j) \<or> fst (bs ! j) + snd (bs ! j) \<le> fst (bs ! i)"
begin

lemma client_run:
  assumes "ok s bs"
  shows "\<exists>s' bs'. client adm get put wrt ops s bs = Some (s', bs') \<and> ok s' bs'"
  using assms
proof (induction ops arbitrary: s bs)
  case (Cons x ops)
  show ?case
  proof (cases x)
    case (Get req)
    show ?thesis
    proof (cases "adm req s")
      case True
      with get_law [OF Cons.prems] obtain r s' where
        "get req s = Some (r, s')" "ok s' (case r of None \<Rightarrow> bs | Some a \<Rightarrow> bs @ [(a, unat req)])" by blast
      then show ?thesis using Get True Cons.IH [of s'] by simp
    next
      case False
      then show ?thesis using Get Cons.IH [OF Cons.prems] by simp
    qed
  next
    case (Put i)
    show ?thesis
    proof (cases "i < length bs")
      case True
      with put_law [OF Cons.prems] obtain s' where
        "put (fst (bs ! i)) s = Some s'" "ok s' (take i bs @ drop (Suc i) bs)" by blast
      then show ?thesis using Put True Cons.IH [of s'] by simp
    next
      case False
      then show ?thesis using Put Cons.IH [OF Cons.prems] by simp
    qed
  next
    case (Write i v w)
    then show ?thesis
      using write_law [OF Cons.prems, of i v w] Cons by (cases "i < length bs") simp_all
  qed
qed simp

text \<open>Blocks stay apart through every run.\<close>

lemma client_apart:
  assumes "ok s bs" and "client adm get put wrt ops s bs = Some (s', bs')" and "i < j" and "j < length bs'"
  shows "fst (bs' ! i) + snd (bs' ! i) \<le> fst (bs' ! j) \<or> fst (bs' ! j) + snd (bs' ! j) \<le> fst (bs' ! i)"
  using client_run [OF assms(1), of ops] assms(2) apart_law [OF _ assms(3,4)] by auto

text \<open>Whatever a client did, it can give everything back.\<close>

lemma client_release:
  assumes "ok s []"
  shows "\<exists>s'. client adm get put wrt (ops @ replicate (gets ops) (Put 0)) s [] = Some (s', []) \<and> ok s' []"
proof -
  obtain s1 bs1 where r1: "client adm get put wrt ops s [] = Some (s1, bs1)" "ok s1 bs1"
    using client_run [OF assms] by blast
  obtain s2 bs2 where r2: "client adm get put wrt (replicate (gets ops) (Put 0)) s1 bs1 = Some (s2, bs2)" "ok s2 bs2"
    using client_run [OF r1(2)] by blast
  have "bs2 = []" using client_drop [OF r2(1)] client_length [OF r1(1)] by simp
  then show ?thesis using r1 r2 by (simp add: client_append)
qed

end

section \<open>The page as a store\<close>

definition page_get :: "nat \<Rightarrow> nat \<Rightarrow> u64 \<Rightarrow> xmalloc_page \<times> xmem \<Rightarrow> (nat option \<times> xmalloc_page \<times> xmem) option" where
  "page_get pid i req s = do {
     let sz = req2align req;
     r \<leftarrow> page_malloc pid i (unat sz) (unat (sz + of_nat free_pointer_size)) (fst s) (snd s);
     Some (case r of None \<Rightarrow> (None, s) | Some (a, s') \<Rightarrow> (Some (pointer2address a), s')) }"

definition page_put :: "nat \<Rightarrow> xmalloc_page \<times> xmem \<Rightarrow> (xmalloc_page \<times> xmem) option" where
  "page_put address s = free_pointer (address2pointer address) (fst s) (snd s)"

definition page_write :: "nat \<Rightarrow> nat \<Rightarrow> nat \<Rightarrow> xmalloc_page \<times> xmem \<Rightarrow> xmalloc_page \<times> xmem" where
  "page_write address v w s = (let p = address2pointer address; m = snd s in
     (fst s, m\<lparr>m_prev := (m_prev m)(p \<mapsto> v), m_next := (m_next m)(p \<mapsto> w)\<rparr>))"

definition fits :: "nat \<times> nat \<Rightarrow> nat \<times> nat \<Rightarrow> bool" where
  "fits b u \<longleftrightarrow> fst b = fst u + 16 \<and> snd b + 16 \<le> snd u"

definition page_store :: "nat \<Rightarrow> nat \<Rightarrow> xmalloc_page \<times> xmem \<Rightarrow> (nat \<times> nat) list \<Rightarrow> bool" where
  "page_store st e s bs \<longleftrightarrow> g_start_address (fst s) = st \<and> g_end (fst s) = e \<and> e < 2 ^ 64 \<and>
     (\<exists>cs q us. page_inv (fst s) (snd s) cs q \<and> mset us = mset (useds (st + 32) cs) \<and> list_all2 fits bs us)"

lemma base_eq: "base g = g_start_address g + 32"
  by (simp add: base_def)

lemma page_storeI:
  assumes "g_start_address g = st" and "g_end g = e" and "e < 2 ^ 64" and "page_inv g m cs q"
    and "mset us = mset (useds (st + 32) cs)" and "list_all2 fits bs us"
  shows "page_store st e (g, m) bs"
  unfolding page_store_def fst_conv snd_conv using assms by blast

lemma same_frame:
  assumes "g' = g\<lparr>g_ptr := p\<rparr>"
  shows "g_start_address g' = g_start_address g" and "g_end g' = g_end g"
  using assms by simp_all

lemma page_get_law:
  assumes "page_store st e s bs" and "unat req \<le> 2 ^ 63"
  shows "\<exists>r s'. page_get pid i req s = Some (r, s') \<and>
    page_store st e s' (case r of None \<Rightarrow> bs | Some a \<Rightarrow> bs @ [(a, unat req)])"
proof -
  obtain g m where s: "s = (g, m)" by (cases s)
  from assms(1) obtain cs q us where g: "g_start_address g = st" "g_end g = e" "e < 2 ^ 64" and inv: "page_inv g m cs q"
    and us: "mset us = mset (useds (base g) cs)" "list_all2 fits bs us"
    unfolding page_store_def s by (auto simp: base_eq)
  note r = req2align_bounds [OF assms(2)]
  let ?sz = "unat (req2align req)"
  have sp: "g_end g < 2 ^ 64" using g by simp
  from page_malloc_run [OF inv r(1,2) sp, of pid i] show ?thesis
  proof (elim disjE exE conjE)
    assume "page_malloc pid i ?sz (?sz + 32) g m = Some None"
    then show ?thesis using r(5) assms(1) by (simp add: page_get_def s)
  next
    fix a g' m' cs' q' xs ys
    assume run: "page_malloc pid i ?sz (?sz + 32) g m = Some (Some (a, g', m'))" and inv': "page_inv g' m' cs' q'"
      and g': "g' = g\<lparr>g_ptr := g_ptr g'\<rparr>"
      and u: "useds (base g) cs = xs @ ys" "useds (base g) cs' = xs @ (a, ?sz) # ys"
    have fr: "g_start_address g' = st" "g_end g' = e" using g same_frame [OF g'] by simp_all
    have "mset (us @ [(a, ?sz)]) = mset (useds (st + 32) cs')" using us(1) u g(1) by (simp add: base_eq)
    moreover have "list_all2 fits (bs @ [(a + 16, unat req)]) (us @ [(a, ?sz)])"
      using us(2) r(3) by (simp add: list_all2_appendI fits_def)
    ultimately have "page_store st e (g', m') (bs @ [(a + 16, unat req)])"
      by (intro page_storeI [OF fr g(3) inv'])
    then show ?thesis using run r(5) by (simp add: page_get_def s pointer2address_def)
  qed
qed

lemma store_nth:
  assumes "list_all2 fits bs us" and "i < length bs"
  shows "fst (bs ! i) = fst (us ! i) + 16" and "snd (bs ! i) + 16 \<le> snd (us ! i)" and "us ! i \<in> set us"
  using assms list_all2_nthD [OF assms] list_all2_lengthD [OF assms(1)] by (auto simp: fits_def)

lemma page_put_law:
  assumes "page_store st e s bs" and "i < length bs"
  shows "\<exists>s'. page_put (fst (bs ! i)) s = Some s' \<and> page_store st e s' (take i bs @ drop (Suc i) bs)"
proof -
  obtain g m where s: "s = (g, m)" by (cases s)
  from assms(1) obtain cs q us where g: "g_start_address g = st" "g_end g = e" "e < 2 ^ 64" and inv: "page_inv g m cs q"
    and us: "mset us = mset (useds (base g) cs)" "list_all2 fits bs us"
    unfolding page_store_def s by (auto simp: base_eq)
  note n = store_nth [OF us(2) assms(2)]
  obtain p c where pc: "us ! i = (p, c)" by (cases "us ! i")
  have "(p, c) \<in> set (useds (base g) cs)" using n(3) us(1) pc by (metis set_mset_mset)
  then obtain xs ys where cs: "cs = xs @ (c, Used) # ys" "p = base g + extent xs" by (rule useds_split)
  from free_pointer_run [of g m xs c ys q p] inv cs obtain g' m' cs' q' where
    run: "free_pointer p g m = Some (g', m')" and inv': "page_inv g' m' cs' q'" and g': "g' = g\<lparr>g_ptr := g_ptr g'\<rparr>"
    and u: "useds (base g) cs' = useds (base g) xs @ useds (p + c) ys" by blast
  have fr: "g_start_address g' = st" "g_end g' = e" using g same_frame [OF g'] by simp_all
  have il: "i < length us" using assms(2) us(2) by (simp add: list_all2_lengthD)
  have "mset us = add_mset (p, c) (mset (take i us @ drop (Suc i) us))"
    using arg_cong [OF id_take_nth_drop [OF il], of mset] pc by simp
  moreover have "mset (useds (base g) cs) = add_mset (p, c) (mset (useds (base g) cs'))"
    using u cs by (simp add: add.assoc)
  ultimately have "mset (take i us @ drop (Suc i) us) = mset (useds (st + 32) cs')"
    using us(1) g(1) by (simp add: base_eq)
  moreover have "list_all2 fits (take i bs @ drop (Suc i) bs) (take i us @ drop (Suc i) us)"
    by (intro list_all2_appendI list_all2_takeI list_all2_dropI us(2))
  ultimately have "page_store st e (g', m') (take i bs @ drop (Suc i) bs)"
    by (intro page_storeI [OF fr g(3) inv'])
  then show ?thesis using run n(1) pc by (simp add: page_put_def s address2pointer_def)
qed

lemma user_write:
  assumes inv: "page_inv g m cs q" and x: "(x, c) \<in> set (useds (base g) cs)"
  shows "page_inv g (m\<lparr>m_prev := (m_prev m)(x \<mapsto> v), m_next := (m_next m)(x \<mapsto> w)\<rparr>) cs q"
proof -
  obtain xs ys where cs: "cs = xs @ (c, Used) # ys" "x = base g + extent xs" using x by (rule useds_split)
  note d = page_invD [OF inv]
  have "x \<notin> set (marks Free (base g) cs)"
  proof
    assume "x \<in> set (marks Free (base g) cs)"
    then have "snd (c, Used) = Free"
      using mark_kind [of g m xs "(c, Used)" ys q Free] inv cs by simp
    then show False by simp
  qed
  then have "x \<notin> set q" using mset_eq_setD [OF d(10)] by simp
  moreover have "0 < c" using page_chunk(2) [of g m xs "(c, Used)" ys q] inv cs(1) by simp
  then have "x \<noteq> g_head g" "x \<noteq> g_end g" using d(1,11) cs by (auto simp: base_eq)
  ultimately have n: "x \<notin> set (g_head g # q @ [g_end g])" by auto
  let ?m = "m\<lparr>m_prev := (m_prev m)(x \<mapsto> v), m_next := (m_next m)(x \<mapsto> w)\<rparr>"
  have "dll ?m (g_head g # q @ [g_end g])"
    by (rule dll_cong [of m]) (use d(9) n in \<open>auto simp: queue_ok_def dest: in_set_butlastD\<close>)
  then have "queue_ok g ?m q" using d(9) by (simp add: queue_ok_def)
  moreover have "layout ?m (base g) None cs (g_end g)" 
    by (rule layout_cong [OF d(3)]) (use layout_tags [of m "base g" None "[]" cs] d(3) in auto)
  ultimately show ?thesis using inv by (simp add: page_inv_def)
qed

lemma page_write_law:
  assumes "page_store st e s bs" and "i < length bs"
  shows "page_store st e (page_write (fst (bs ! i)) v w s) bs"
proof -
  obtain g m where s: "s = (g, m)" by (cases s)
  from assms(1) obtain cs q us where g: "g_start_address g = st" "g_end g = e" "e < 2 ^ 64" and inv: "page_inv g m cs q"
    and us: "mset us = mset (useds (base g) cs)" "list_all2 fits bs us"
    unfolding page_store_def s by (auto simp: base_eq)
  note n = store_nth [OF us(2) assms(2)]
  have "(fst (us ! i), snd (us ! i)) \<in> set (useds (base g) cs)" using n(3) us(1) by (metis prod.collapse set_mset_mset)
  from user_write [OF inv this] show ?thesis
    using n(1) g us unfolding page_store_def page_write_def s
    by (auto simp: address2pointer_def base_eq Let_def)
qed

lemma page_store_blocks:
  assumes "page_store st e s bs" and "i < length bs"
  shows "st + 48 \<le> fst (bs ! i)" and "fst (bs ! i) + snd (bs ! i) \<le> e"
    and "\<And>j. i < j \<Longrightarrow> j < length bs \<Longrightarrow> fst (bs ! i) + snd (bs ! i) \<le> fst (bs ! j) \<or> fst (bs ! j) + snd (bs ! j) \<le> fst (bs ! i)"
proof -
  obtain g m where s: "s = (g, m)" by (cases s)
  from assms(1) obtain cs q us where g: "g_start_address g = st" "g_end g = e" "e < 2 ^ 64" and inv: "page_inv g m cs q"
    and us: "mset us = mset (useds (base g) cs)" "list_all2 fits bs us"
    unfolding page_store_def s by (auto simp: base_eq)
  have mem: "us ! j \<in> set (useds (base g) cs)" if "j < length bs" for j
    using store_nth(3) [OF us(2) that] us(1) by (metis set_mset_mset)
  note n = store_nth [OF us(2)]
  have b: "base g \<le> fst (us ! i)" "fst (us ! i) + snd (us ! i) \<le> g_end g"
    using useds_bounds [of "fst (us ! i)" "snd (us ! i)" "base g" cs] mem [OF assms(2)] page_invD(11) [OF inv] by simp_all
  show "st + 48 \<le> fst (bs ! i)" "fst (bs ! i) + snd (bs ! i) \<le> e"
    using n [OF assms(2)] b g by (simp_all add: base_eq)
  fix j assume j: "i < j" "j < length bs"
  have pos: "0 < snd u" if "u \<in> set (useds (base g) cs)" for u
  proof -
    obtain x c where u: "u = (x, c)" by (cases u)
    have "(x, c) \<in> set (useds (base g) cs)" using that u by simp
    then obtain xs ys where "cs = xs @ (c, Used) # ys" by (rule useds_split)
    then show ?thesis using page_chunk(2) [of g m xs "(c, Used)" ys q] inv u by simp
  qed
  have sw: "sorted_wrt (\<lambda>u v. fst u + snd u \<le> fst v) (useds (base g) cs)" by (rule useds_apart)
  then have "distinct (useds (base g) cs)" using pos by (intro apart_distinct) auto
  then have "distinct us" using us(1) by (metis mset_eq_imp_distinct_iff)
  then have ne: "us ! i \<noteq> us ! j" using j list_all2_lengthD [OF us(2)] by (simp add: nth_eq_iff_index_eq)
  have "fst (us ! i) + snd (us ! i) \<le> fst (us ! j) \<or> fst (us ! j) + snd (us ! j) \<le> fst (us ! i)"
  proof -
    obtain k l where "useds (base g) cs ! k = us ! i" "useds (base g) cs ! l = us ! j" "k < length (useds (base g) cs)"
      "l < length (useds (base g) cs)" using mem [OF assms(2)] mem [OF j(2)] by (auto simp: in_set_conv_nth)
    then show ?thesis using sw ne unfolding sorted_wrt_iff_nth_less by (metis linorder_neqE_nat)
  qed
  then show "fst (bs ! i) + snd (bs ! i) \<le> fst (bs ! j) \<or> fst (bs ! j) + snd (bs ! j) \<le> fst (bs ! i)"
    using n [OF assms(2)] n [OF j(2)] by linarith
qed

definition request_ok :: "u64 \<Rightarrow> xmalloc_page \<times> xmem \<Rightarrow> bool" where
  "request_ok req s \<longleftrightarrow> unat req \<le> 2 ^ 63"

interpretation page: block_store "page_store st e" request_ok "page_get pid i" page_put page_write
  for st e pid i
  by unfold_locales (use page_get_law page_put_law page_write_law page_store_blocks(3) in \<open>auto simp: request_ok_def\<close>)

end
