(* ===== verification/Xmalloc_Frame.thy ===== *)
theory Xmalloc_Frame
  imports Xmalloc_Store
begin

text \<open>
  What an operation on one page leaves alone: everything outside the page, and the kind of the flags. All
  sizes are even, so an odd flag can only be the mark of a used chunk, which names its pool and page.
\<close>

section \<open>Writes stay inside the page\<close>

definition all_even :: "xmem \<Rightarrow> bool" where
  "all_even m \<longleftrightarrow> (\<forall>x s. m_size m x = Some s \<longrightarrow> even s)"

definition same_at :: "nat \<Rightarrow> xmem \<Rightarrow> xmem \<Rightarrow> bool" where
  "same_at x m m' \<longleftrightarrow> m_flag m' x = m_flag m x \<and> m_size m' x = m_size m x \<and> m_prev m' x = m_prev m x \<and> m_next m' x = m_next m x"

definition page_touch :: "xmalloc_page \<Rightarrow> nat \<Rightarrow> xmem \<Rightarrow> xmem \<Rightarrow> bool" where
  "page_touch g v m m' \<longleftrightarrow> (\<forall>x. \<not> in_page g x \<longrightarrow> same_at x m m') \<and>
     (all_even m \<longrightarrow> all_even m' \<and> (\<forall>x f. m_flag m' x = Some f \<longrightarrow> odd f \<longrightarrow> m_flag m x = Some f \<or> f = v))"

lemma touch_refl [simp]: "page_touch g v m m"
  by (simp add: page_touch_def same_at_def)

lemma touch_trans [trans]: "page_touch g v m1 m2 \<Longrightarrow> page_touch g v m2 m3 \<Longrightarrow> page_touch g v m1 m3"
  unfolding page_touch_def same_at_def by metis

lemma touch_ptr [simp]: "page_touch (g\<lparr>g_ptr := p\<rparr>) v m m' = page_touch g v m m'"
  by (simp add: page_touch_def in_page_def)

lemma touch_links:
  shows "wr_prev g p x m = Some m' \<Longrightarrow> page_touch g v m m'" and "wr_next g p x m = Some m' \<Longrightarrow> page_touch g v m m'"
  by (auto simp: wr_prev_def wr_next_def page_touch_def same_at_def all_even_def split: if_splits)

lemma touch_size:
  assumes "wr_size g p s m = Some m'" and "all_even m \<Longrightarrow> even s"
  shows "page_touch g v m m'"
  using assms by (auto simp: wr_size_def page_touch_def same_at_def all_even_def split: if_splits)

lemma touch_flag:
  assumes "wr_flag g p s m = Some m'" and "all_even m \<Longrightarrow> even s \<or> s = v"
  shows "page_touch g v m m'"
  using assms by (auto simp: wr_flag_def page_touch_def same_at_def all_even_def split: if_splits)

lemmas evenI = all_even_def [THEN iffD1, rule_format]

lemma touch_even: "page_touch g v m m' \<Longrightarrow> all_even m \<Longrightarrow> all_even m'"
  by (simp add: page_touch_def)

lemma touch_unlink:
  shows "unlink_right g p m = Some m' \<Longrightarrow> page_touch g v m m'" and "unlink_left g p m = Some m' \<Longrightarrow> page_touch g v m m'"
  unfolding unlink_right_def unlink_left_def
  by (auto simp: bind_eq_Some_conv intro: touch_trans [OF touch_links(1) touch_links(2)] touch_trans [OF touch_links(2) touch_links(1)])

lemma touch_queue:
  shows "queue_front g p m = Some m' \<Longrightarrow> page_touch g v m m'" and "queue_back g p m = Some m' \<Longrightarrow> page_touch g v m m'"
  unfolding queue_front_def queue_back_def
  by (auto simp: bind_eq_Some_conv intro!: touch_trans [OF touch_links(2) touch_trans [OF touch_links(1)
        touch_trans [OF touch_links(1) touch_links(2)]]])

lemma even_sum: "m_size m p = Some s \<Longrightarrow> m_size m q = Some t \<Longrightarrow> all_even m \<Longrightarrow> even (s + t)"
  by (auto simp: all_even_def)

lemma touch_merge_prev:
  assumes "merge_prev g p m = Some (q, m')"
  shows "page_touch g v m m'"
proof -
  from assms obtain q0 sq sp m1 where r: "m_size m q0 = Some sq" "m_size m p = Some sp"
    "wr_size g q0 (sq + sp) m = Some m1" "unlink_right g q m1 = Some m'"
    by (auto simp: merge_prev_def bind_eq_Some_conv)
  show ?thesis by (rule touch_trans [OF touch_size [OF r(3) even_sum [OF r(1,2)]] touch_unlink(1) [OF r(4)]])
qed

lemma touch_merge_prev_tag:
  assumes "merge_prev_tag g p m = Some (q, m')"
  shows "page_touch g v m m'"
proof -
  from assms obtain q0 sq sp m1 e s m2 where r: "m_size m q0 = Some sq" "m_size m p = Some sp"
    "wr_size g q0 (sq + sp) m = Some m1" "m_size m1 q = Some s" "wr_flag g e s m1 = Some m2" "unlink_right g q m2 = Some m'"
    by (auto simp: merge_prev_tag_def bind_eq_Some_conv)
  have "page_touch g v m m1" by (rule touch_size [OF r(3) even_sum [OF r(1,2)]])
  also have "page_touch g v m1 m2" by (rule touch_flag [OF r(5)]) (use evenI [OF _ r(4)] in simp)
  also have "page_touch g v m2 m'" by (rule touch_unlink(1) [OF r(6)])
  finally show ?thesis .
qed

lemma touch_merge_next:
  assumes "merge_next g p m = Some m'"
  shows "page_touch g v m m'"
proof -
  from assms consider "m' = m" | n m1 s t where "unlink_left g n m = Some m1" "m_size m1 p = Some s" "m_size m1 n = Some t"
      "wr_size g p (s + t) m1 = Some m'"
    by (auto simp: merge_next_def bind_eq_Some_conv split: if_splits)
  then show ?thesis
  proof cases
    case 2
    show ?thesis by (rule touch_trans [OF touch_unlink(2) [OF 2(1)] touch_size [OF 2(4) even_sum [OF 2(2,3)]]])
  qed simp
qed

lemma touch_grow:
  assumes "m_size m p = Some s" and "m_size m q = Some t" and "wr_size g r (s + t) m = Some m1"
    and "m_size m1 u = Some x" and "wr_flag g e x m1 = Some m2"
  shows "page_touch g v m m2"
proof -
  have "page_touch g v m m1" by (rule touch_size [OF assms(3) even_sum [OF assms(1,2)]])
  also have "page_touch g v m1 m2" by (rule touch_flag [OF assms(5)]) (use assms(4) in \<open>auto simp: all_even_def\<close>)
  finally show ?thesis .
qed

lemma touch_free_pointer:
  assumes "free_pointer p g m = Some (g', m')"
  shows "page_touch g v m m'"
proof -
  from assms obtain n where n: "next_pointer p m = Some n" by (auto simp: free_pointer_def bind_eq_Some_conv)
  show ?thesis
  proof (cases "n = g_ptr g")
    case True
    from assms n True obtain mg q m1 s t m2 x e where r: "mergeable p m = Some mg"
      "(if mg then merge_prev g p m else Some (p, m)) = Some (q, m1)"
      "m_size m1 q = Some s" "m_size m1 (g_ptr g) = Some t" "wr_size g q (s + t) m1 = Some m2" "m_size m2 q = Some x"
      "wr_flag g e x m2 = Some m'"
      unfolding free_pointer_def by (simp add: bind_eq_Some_conv split: prod.splits) blast
    have "page_touch g v m m1" using r(2) touch_merge_prev by (cases mg) auto
    then show ?thesis using touch_grow [OF r(3-7)] touch_trans by blast
  next
    case False
    from assms n False obtain nm where nm: "next_pointer (g_ptr g) m = Some nm"
      by (auto simp: free_pointer_def bind_eq_Some_conv)
    show ?thesis
    proof (cases "nm = p")
      case True
      from assms n False nm True obtain m1 s t m2 x e where r: "merge_next g p m = Some m1"
        "m_size m1 (g_ptr g) = Some s" "m_size m1 p = Some t"
        "wr_size g (g_ptr g) (s + t) m1 = Some m2" "m_size m2 (g_ptr g) = Some x" "wr_flag g e x m2 = Some m'"
        unfolding free_pointer_def by (simp add: bind_eq_Some_conv) blast
      show ?thesis by (rule touch_trans [OF touch_merge_next [OF r(1)] touch_grow [OF r(2-6)]])
    next
      case alone: False
      from assms n False nm alone obtain mg q m1 m2 x e m3 sf where r: "mergeable p m = Some mg"
        "(if mg then merge_prev_tag g p m else Some (p, m)) = Some (q, m1)" "merge_next g q m1 = Some m2"
        "m_size m2 q = Some x" "wr_flag g e x m2 = Some m3"
        "(if x \<ge> sf then queue_front g q m3 else queue_back g q m3) = Some m'"
        unfolding free_pointer_def by (simp add: bind_eq_Some_conv split: prod.splits) blast
      have "page_touch g v m m1" using r(2) touch_merge_prev_tag by (cases mg) auto
      also have "page_touch g v m1 m2" by (rule touch_merge_next [OF r(3)])
      also have "page_touch g v m2 m3" by (rule touch_flag [OF r(5)]) (use evenI [OF _ r(4)] in blast)
      also have "page_touch g v m3 m'" using r(6) touch_queue by (auto split: if_splits)
      finally show ?thesis .
    qed
  qed
qed

lemma touch_cut_chunk:
  assumes "cut_chunk pid i sz g m = Some (a, g', m')" and "even sz" and "sz \<le> 2 ^ 64"
  shows "page_touch g (inuse_flag pid i) m m'"
proof -
  let ?v = "inuse_flag pid i"
  from assms(1) obtain m1 sm m2 e s m3 m4 where r: "wr_flag g ((g_ptr g + sz) mod 2 ^ 64) ?v m = Some m1"
    "m_size m1 (g_ptr g) = Some sm" "wr_size g ((g_ptr g + sz) mod 2 ^ 64) ((sm + (2 ^ 64 - sz)) mod 2 ^ 64) m1 = Some m2"
    "m_size m2 ((g_ptr g + sz) mod 2 ^ 64) = Some s" "wr_flag g e s m2 = Some m3"
    "wr_prev g ((g_ptr g + sz) mod 2 ^ 64) (g_ptr g) m3 = Some m4"
    "wr_size (g\<lparr>g_ptr := (g_ptr g + sz) mod 2 ^ 64\<rparr>) a sz m4 = Some m'"
    unfolding cut_chunk_def by (simp add: bind_eq_Some_conv Let_def) blast
  have ev: "even ((sm + (2 ^ 64 - sz)) mod 2 ^ 64)" if "even sm"
  proof -
    have "even (2 ^ 64 - sz)" using assms(2) by simp
    then have "even (sm + (2 ^ 64 - sz))" using that by simp
    then show ?thesis by (simp add: dvd_mod)
  qed
  have "page_touch g ?v m m1" by (rule touch_flag [OF r(1)]) simp
  also have "page_touch g ?v m1 m2" by (rule touch_size [OF r(3)]) (use evenI [OF _ r(2)] ev in blast)
  also have "page_touch g ?v m2 m3" by (rule touch_flag [OF r(5)]) (use evenI [OF _ r(4)] in blast)
  also have "page_touch g ?v m3 m4" by (rule touch_links(1) [OF r(6)])
  also have "page_touch g ?v m4 m'" using touch_size [OF r(7), of ?v] assms(2) by simp
  finally show ?thesis .
qed

lemma touch_change_main:
  assumes "change_main g m = Some (g', m')"
  shows "page_touch g v m m'" and "\<exists>p. g' = g\<lparr>g_ptr := p\<rparr>"
proof -
  from assms obtain m1 e s m2 f f2 m3 f3 where r: "queue_back g (g_ptr g) m = Some m1" "m_size m1 (g_ptr g) = Some s"
    "wr_flag g e s m1 = Some m2" "g' = g\<lparr>g_ptr := f\<rparr>"
    "wr_next (g\<lparr>g_ptr := f\<rparr>) (g_head g) f2 m2 = Some m3" "wr_prev (g\<lparr>g_ptr := f\<rparr>) f3 (g_head g) m3 = Some m'"
    unfolding change_main_def by (auto simp: bind_eq_Some_conv Let_def)
  have "page_touch g v m m1" by (rule touch_queue(2) [OF r(1)])
  also have "page_touch g v m1 m2" by (rule touch_flag [OF r(3)]) (use evenI [OF _ r(2)] in blast)
  also have "page_touch g v m2 m3" using touch_links(2) [OF r(5), of v] by simp
  also have "page_touch g v m3 m'" using touch_links(1) [OF r(6), of v] by simp
  finally show "page_touch g v m m'" .
  show "\<exists>p. g' = g\<lparr>g_ptr := p\<rparr>" using r(4) by blast
qed

lemma touch_page_malloc:
  assumes "page_malloc pid i sz reserved g m = Some (Some (a, g', m'))" and "even sz" and "sz \<le> 2 ^ 64"
  shows "page_touch g (inuse_flag pid i) m m'"
proof -
  from assms(1) consider "cut_chunk pid i sz g m = Some (a, g', m')"
    | g1 m1 where "change_main g m = Some (g1, m1)" "cut_chunk pid i sz g1 m1 = Some (a, g', m')"
    unfolding page_malloc_def by (auto simp: bind_eq_Some_conv split: if_splits)
  then show ?thesis
  proof cases
    case 1
    then show ?thesis using touch_cut_chunk assms(2,3) by blast
  next
    case 2
    obtain p where p: "g1 = g\<lparr>g_ptr := p\<rparr>" using touch_change_main(2) [OF 2(1)] by blast
    have "page_touch g (inuse_flag pid i) m1 m'" using touch_cut_chunk [OF 2(2) assms(2,3)] unfolding p by simp
    with touch_change_main(1) [OF 2(1)] show ?thesis by (rule touch_trans)
  qed
qed

section \<open>Other pages\<close>

lemma layout_local:
  assumes "layout m a t cs e" and "\<And>x. a \<le> x \<Longrightarrow> x \<le> e \<Longrightarrow> m_size m' x = m_size m x \<and> m_flag m' x = m_flag m x"
  shows "layout m' a t cs e"
  using assms
proof (induction cs arbitrary: a t)
  case Nil
  then show ?case by (cases t) auto
next
  case (Cons c cs)
  have le: "a + fst c \<le> e" using layout_end [OF Cons.prems(1)] by simp
  then have "a \<le> e" by simp
  then have f: "flag_ok m' a t = flag_ok m a t" and z: "m_size m' a = m_size m a" using Cons.prems(2) [of a] by (cases t; simp)+
  have "layout m' (a + fst c) (tag c) cs e" using Cons.IH [of "a + fst c" "tag c"] Cons.prems by auto
  then show ?case using Cons.prems(1) f z by simp
qed

lemma page_inv_local:
  assumes inv: "page_inv g m cs q" and eq: "\<And>x. in_page g x \<Longrightarrow> same_at x m m'"
  shows "page_inv g m' cs q"
proof -
  note d = page_invD [OF inv]
  have "layout m' (base g) None cs (g_end g)"
    by (rule layout_local [OF d(3)]) (use eq d(2) in \<open>auto simp: same_at_def in_page_def base_eq\<close>)
  moreover have "m_size m' (g_end g) = Some 32" using eq [OF end_in_page [OF inv]] d(4) by (simp add: same_at_def)
  moreover have "queue_ok g m' q"
  proof -
    have "dll m' (g_head g # q @ [g_end g])"
    proof (rule dll_cong)
      show "dll m (g_head g # q @ [g_end g])" using d(9) by (simp add: queue_ok_def)
      show "m_next m' x = m_next m x" if "x \<in> set (butlast (g_head g # q @ [g_end g]))" for x
        using eq [of x] d(9) in_set_butlastD [OF that] by (auto simp: queue_ok_def same_at_def)
      show "m_prev m' x = m_prev m x" if "x \<in> set (tl (g_head g # q @ [g_end g]))" for x
        using eq [of x] d(9) in_set_tlD [OF that] by (auto simp: queue_ok_def same_at_def)
    qed
    then show ?thesis using d(9) by (simp add: queue_ok_def)
  qed
  ultimately show ?thesis using inv by (simp add: page_inv_def)
qed

end
