(* ===== verification/Xmalloc_Manager.thy ===== *)
theory Xmalloc_Manager
  imports Xmalloc_Frame
begin

text \<open>
  The whole memory manager: its pages lie apart from each other, every page satisfies the page invariant,
  and every mark of a used chunk names the pool and the page it is in, which is how \<open>free\<close> finds them. So
  \<open>malloc\<close> and \<open>free\<close> implement the interface of a block store.
\<close>

section \<open>Pages of the manager\<close>

type_synonym page_id = "nat \<times> nat"

definition live :: "xmalloc \<Rightarrow> page_id \<Rightarrow> bool" where
  "live mm p \<longleftrightarrow> fst p < max_pool_number \<and> snd p < l_page_number (mm_pool mm ! fst p)"

definition page_at :: "xmalloc \<Rightarrow> page_id \<Rightarrow> xmalloc_page" where
  "page_at mm p = l_page (mm_pool mm ! fst p) ! snd p"

definition put_page :: "page_id \<Rightarrow> xmalloc_page \<Rightarrow> xmem \<Rightarrow> xmalloc \<Rightarrow> xmalloc" where
  "put_page p g m mm = (let pool = mm_pool mm ! fst p in
     mm\<lparr>mm_mem := m, mm_pool := (mm_pool mm)[fst p := pool\<lparr>l_page := (l_page pool)[snd p := g]\<rparr>]\<rparr>)"

text \<open>What is relied on of \<open>mmap\<close> for its first \<open>M\<close> calls: aligned addresses, none of them NULL, so far apart
  that mappings of up to \<open>L\<close> bytes do not overlap.\<close>

definition mmap_ok :: "nat \<Rightarrow> nat \<Rightarrow> (nat \<Rightarrow> nat option) \<Rightarrow> bool" where
  "mmap_ok L M f \<longleftrightarrow> (\<forall>n < M. \<exists>a. f n = Some a \<and> a \<noteq> 0 \<and> a AND (align_size - 1) = 0 \<and> a + L < 2 ^ 64) \<and>
     (\<forall>i < M. \<forall>j < M. \<forall>a b. i \<noteq> j \<longrightarrow> f i = Some a \<longrightarrow> f j = Some b \<longrightarrow> a + L \<le> b \<or> b + L \<le> a)"

definition page_good :: "page_id \<Rightarrow> xmalloc_page \<Rightarrow> xmem \<Rightarrow> chunks \<Rightarrow> nat list \<Rightarrow> bool" where
  "page_good p g m cs q \<longleftrightarrow> \<not> g_lock g \<and> g_end g < 2 ^ 64 \<and> page_inv g m cs q \<and>
     (\<forall>x f. in_page g x \<longrightarrow> m_flag m x = Some f \<longrightarrow> odd f \<longrightarrow> f = inuse_flag (fst p) (snd p))"

definition origin :: "nat \<Rightarrow> nat \<Rightarrow> xmalloc \<Rightarrow> xmalloc_page \<Rightarrow> bool" where
  "origin L M mm g \<longleftrightarrow> g_size g \<le> L \<and> (\<exists>n < M. n < mm_mmaps mm \<and> mm_mmap mm n = Some (g_start_address g))"

definition pool_shape :: "xmalloc_pool \<Rightarrow> bool" where
  "pool_shape P \<longleftrightarrow> length (l_page P) = max_page_number + 1 \<and> l_page_number P < max_page_number \<and>
     (\<forall>k. l_page_number P \<le> k \<longrightarrow> k < max_page_number \<longrightarrow> \<not> g_lock (l_page P ! k) \<and> g_id (l_page P ! k) = 0)"

definition mm_inv :: "nat \<Rightarrow> nat \<Rightarrow> xmalloc \<Rightarrow> (page_id \<Rightarrow> chunks) \<Rightarrow> (page_id \<Rightarrow> nat list) \<Rightarrow> bool" where
  "mm_inv L M mm C Q \<longleftrightarrow> mmap_ok L M (mm_mmap mm) \<and>
     mm_page_aligned_mask mm = 4095 \<and> length (mm_pool mm) = max_pool_number + 1 \<and>
     (\<forall>pi < max_pool_number. pool_shape (mm_pool mm ! pi)) \<and> all_even (mm_mem mm) \<and>
     (\<forall>x f. m_flag (mm_mem mm) x = Some f \<longrightarrow> (\<exists>p. live mm p \<and> in_page (page_at mm p) x)) \<and>
     (\<forall>p. live mm p \<longrightarrow> page_good p (page_at mm p) (mm_mem mm) (C p) (Q p) \<and> origin L M mm (page_at mm p)) \<and>
     (\<forall>p p'. live mm p \<longrightarrow> live mm p' \<longrightarrow> p \<noteq> p' \<longrightarrow> g_start_address (page_at mm p) \<noteq> g_start_address (page_at mm p'))"

lemma mm_invD:
  assumes "mm_inv L M mm C Q"
  shows "mmap_ok L M (mm_mmap mm)" and "mm_page_aligned_mask mm = 4095" and "length (mm_pool mm) = 9"
    and "pi < 8 \<Longrightarrow> pool_shape (mm_pool mm ! pi)" and "all_even (mm_mem mm)"
    and "m_flag (mm_mem mm) x = Some f \<Longrightarrow> \<exists>p. live mm p \<and> in_page (page_at mm p) x"
    and "live mm p \<Longrightarrow> page_good p (page_at mm p) (mm_mem mm) (C p) (Q p)"
    and "live mm p \<Longrightarrow> origin L M mm (page_at mm p)"
    and "live mm p \<Longrightarrow> live mm p' \<Longrightarrow> p \<noteq> p' \<Longrightarrow> g_start_address (page_at mm p) \<noteq> g_start_address (page_at mm p')"
  using assms by (simp_all add: mm_inv_def max_pool_number_def del: split_paired_All split_paired_Ex)

lemma live_bounds:
  assumes "mm_inv L M mm C Q" and "live mm p"
  shows "fst p < 8" and "snd p < 1024" and "fst p < length (mm_pool mm)" and "snd p < length (l_page (mm_pool mm ! fst p))"
proof -
  show 1: "fst p < 8" using assms(2) by (simp add: live_def max_pool_number_def)
  then show "fst p < length (mm_pool mm)" using mm_invD(3) [OF assms(1)] by simp
  show "snd p < 1024" "snd p < length (l_page (mm_pool mm ! fst p))"
    using mm_invD(4) [OF assms(1) 1] assms(2) by (simp_all add: live_def pool_shape_def max_page_number_def)
qed

lemma put_page_simps:
  assumes "fst p < length (mm_pool mm)" and "snd p < length (l_page (mm_pool mm ! fst p))"
  shows "live (put_page p g m mm) = live mm"
    and "page_at (put_page p g m mm) p' = (if p' = p then g else page_at mm p')"
    and "mm_mem (put_page p g m mm) = m" and "mm_mmap (put_page p g m mm) = mm_mmap mm"
    and "mm_mmaps (put_page p g m mm) = mm_mmaps mm" and "mm_page_aligned_mask (put_page p g m mm) = mm_page_aligned_mask mm"
    and "mm_page_size (put_page p g m mm) = mm_page_size mm" and "mm_init (put_page p g m mm) = mm_init mm"
    and "length (mm_pool (put_page p g m mm)) = length (mm_pool mm)"
    and "l_id (mm_pool (put_page p g m mm) ! j) = l_id (mm_pool mm ! j)"
    and "l_page_number (mm_pool (put_page p g m mm) ! j) = l_page_number (mm_pool mm ! j)"
  using assms
  by (cases p; cases p'; auto simp: put_page_def live_def page_at_def Let_def nth_list_update fun_eq_iff)+

lemma pages_disjoint:
  assumes inv: "mm_inv L M mm C Q" and p: "live mm p" "live mm p'" "p \<noteq> p'"
  shows "g_start_address (page_at mm p) + g_size (page_at mm p) \<le> g_start_address (page_at mm p') \<or>
      g_start_address (page_at mm p') + g_size (page_at mm p') \<le> g_start_address (page_at mm p)"
proof -
  obtain i j where i: "i < M" "mm_mmap mm i = Some (g_start_address (page_at mm p))"
    and j: "j < M" "mm_mmap mm j = Some (g_start_address (page_at mm p'))"
    using mm_invD(8) [OF inv] p(1,2) unfolding origin_def by blast
  have s: "g_size (page_at mm p) \<le> L" "g_size (page_at mm p') \<le> L"
    using mm_invD(8) [OF inv] p(1,2) unfolding origin_def by blast+
  have "i \<noteq> j" using mm_invD(9) [OF inv p] i j by auto
  then have "g_start_address (page_at mm p) + L \<le> g_start_address (page_at mm p') \<or>
      g_start_address (page_at mm p') + L \<le> g_start_address (page_at mm p)"
    using mm_invD(1) [OF inv] i j unfolding mmap_ok_def by blast
  then show ?thesis using s by linarith
qed

lemma pages_apart:
  assumes "mm_inv L M mm C Q" and "live mm p" "live mm p'" "p \<noteq> p'" and "in_page (page_at mm p) x"
  shows "\<not> in_page (page_at mm p') x"
  using pages_disjoint [OF assms(1-4)] assms(5) by (auto simp: in_page_def)

lemma mm_invI:
  assumes "mmap_ok L M (mm_mmap mm)" and "mm_page_aligned_mask mm = 4095" and "length (mm_pool mm) = 9"
    and "\<And>pi. pi < 8 \<Longrightarrow> pool_shape (mm_pool mm ! pi)" and "all_even (mm_mem mm)"
    and "\<And>x f. m_flag (mm_mem mm) x = Some f \<Longrightarrow> \<exists>p. live mm p \<and> in_page (page_at mm p) x"
    and "\<And>p. live mm p \<Longrightarrow> page_good p (page_at mm p) (mm_mem mm) (C p) (Q p)"
    and "\<And>p. live mm p \<Longrightarrow> origin L M mm (page_at mm p)"
    and "\<And>p p'. live mm p \<Longrightarrow> live mm p' \<Longrightarrow> p \<noteq> p' \<Longrightarrow> g_start_address (page_at mm p) \<noteq> g_start_address (page_at mm p')"
  shows "mm_inv L M mm C Q"
  unfolding mm_inv_def max_pool_number_def using assms by (simp del: split_paired_All split_paired_Ex)

text \<open>A page that is good stays good when only other pages are written.\<close>

lemma page_good_other:
  assumes "page_good p g m cs q" and "\<And>x. in_page g x \<Longrightarrow> same_at x m m'"
  shows "page_good p g m' cs q"
  using assms page_inv_local [of g m cs q m'] unfolding page_good_def by (auto simp: same_at_def)

lemma page_good_touch:
  assumes "page_good p g m cs q" and "page_touch g (inuse_flag (fst p) (snd p)) m m'" and "all_even m"
    and "page_inv g' m' cs' q'" and "g' = g\<lparr>g_ptr := a\<rparr>"
  shows "page_good p g' m' cs' q'"
  using assms unfolding page_good_def page_touch_def by (fastforce simp: in_page_def)

lemma update_page:
  assumes inv: "mm_inv L M mm C Q" and p: "live mm p" and t: "page_touch (page_at mm p) (inuse_flag (fst p) (snd p)) (mm_mem mm) m'"
    and inv': "page_inv g' m' cs' q'" and g': "g' = (page_at mm p)\<lparr>g_ptr := a\<rparr>"
  shows "mm_inv L M (put_page p g' m' mm) (C(p := cs')) (Q(p := q'))"
proof -
  note d = mm_invD [OF inv]
  note b = live_bounds [OF inv p]
  note s = put_page_simps [OF b(3,4), of g' m']
  let ?mm = "put_page p g' m' mm"
  have same: "same_at x (mm_mem mm) m'" if "live mm p'" "p' \<noteq> p" "in_page (page_at mm p') x" for p' x
    using pages_apart [OF inv that(1) p that(2,3)] t unfolding page_touch_def by blast
  have st: "g_start_address g' = g_start_address (page_at mm p)" "in_page g' = in_page (page_at mm p)"
    using g' by (simp_all add: in_page_def fun_eq_iff)
  show ?thesis
  proof (rule mm_invI)
    show "pool_shape (mm_pool ?mm ! pi)" if "pi < 8" for pi
      using d(4) [OF that] d(7) [OF p] b g' that
      by (cases "pi = fst p") (auto simp: put_page_def pool_shape_def Let_def nth_list_update page_good_def page_at_def live_def
          dest: live_def [THEN iffD1])
    show "\<exists>p. live ?mm p \<and> in_page (page_at ?mm p) x" if "m_flag (mm_mem ?mm) x = Some f" for x f
    proof (cases "in_page (page_at mm p) x")
      case True
      then show ?thesis using p s(1,2) st by (intro exI [of _ p]) simp
    next
      case False
      then have "m_flag (mm_mem mm) x = Some f" using that t s(3) by (simp add: page_touch_def same_at_def)
      then obtain p' where "live mm p'" "in_page (page_at mm p') x" using d(6) by blast
      then show ?thesis using s st by (intro exI [of _ p']) auto
    qed
    show "page_good p' (page_at ?mm p') (mm_mem ?mm) ((C(p := cs')) p') ((Q(p := q')) p')" if "live ?mm p'" for p'
    proof (cases "p' = p")
      case True
      then show ?thesis using page_good_touch [OF d(7) [OF p] t d(5) inv' g'] s by simp
    next
      case False
      then show ?thesis using page_good_other [OF d(7), of p' m'] same that s by auto
    qed
    show "origin L M ?mm (page_at ?mm p')" if "live ?mm p'" for p'
      using d(8) [of p'] that g' s by (auto simp: origin_def)
    show "g_start_address (page_at ?mm p1) \<noteq> g_start_address (page_at ?mm p2)" if "live ?mm p1" "live ?mm p2" "p1 \<noteq> p2" for p1 p2
      using d(9) [of p1 p2] that s st by auto
  qed (use d(1-3,5) t s touch_even in auto)
qed


section \<open>Blocks\<close>

definition mm_holds :: "xmalloc \<Rightarrow> (page_id \<Rightarrow> chunks) \<Rightarrow> nat \<times> nat \<Rightarrow> bool" where
  "mm_holds mm C b \<longleftrightarrow> (\<exists>p u. live mm p \<and> u \<in> set (useds (base (page_at mm p)) (C p)) \<and> fits b u)"

definition mm_ids :: "xmalloc \<Rightarrow> bool" where
  "mm_ids mm \<longleftrightarrow> (\<forall>pi < max_pool_number. l_id (mm_pool mm ! pi) = pi)"

definition mm_ready :: "nat \<Rightarrow> nat \<Rightarrow> xmalloc \<Rightarrow> (nat \<times> nat) list \<Rightarrow> bool" where
  "mm_ready L M mm bs \<longleftrightarrow> mm_init mm \<and> mm_page_size mm = page_size_default \<and> mm_ids mm \<and> distinct (map fst bs) \<and>
     (\<exists>C Q. mm_inv L M mm C Q \<and> (\<forall>b \<in> set bs. mm_holds mm C b))"

lemma mm_readyI:
  assumes "mm_init mm" and "mm_page_size mm = page_size_default" and "mm_ids mm" and "distinct (map fst bs)"
    and "mm_inv L M mm C Q" and "\<And>b. b \<in> set bs \<Longrightarrow> mm_holds mm C b"
  shows "mm_ready L M mm bs"
  using assms unfolding mm_ready_def by blast

lemma inuse_decode:
  assumes "pi < 8" and "k < 1024"
  shows "drop_bit 11 (inuse_flag pi k) AND 0x3FF = pi" and "drop_bit 1 (inuse_flag pi k) AND 0x3FF = k"
proof -
  have m: "(0x3FF :: nat) = mask 10" by (simp add: mask_eq_exp_minus_1)
  have "take_bit 10 pi = pi" "take_bit 10 k = k" using assms by (simp_all add: take_bit_nat_eq_self_iff)
  then have n: "\<not> bit pi n" "\<not> bit k n" if "10 \<le> n" for n using that by (metis bit_take_bit_iff not_le)+
  show "drop_bit 11 (inuse_flag pi k) AND 0x3FF = pi"
    unfolding m inuse_flag_def by (rule bit_eqI) (auto simp: bit_simps n not_le [symmetric] bit_1_iff mult.commute [of _ 2] bit_double_iff dest: n)
  show "drop_bit 1 (inuse_flag pi k) AND 0x3FF = k"
    unfolding m inuse_flag_def by (rule bit_eqI) (auto simp: bit_simps n not_le [symmetric] bit_1_iff mult.commute [of _ 2] bit_double_iff dest: n)
qed

lemma mm_ready_update:
  assumes st: "mm_init mm" "mm_page_size mm = page_size_default" "mm_ids mm" and d: "distinct (map fst bs)"
    and inv: "mm_inv L M mm C Q" and p: "live mm p" and t: "page_touch (page_at mm p) (inuse_flag (fst p) (snd p)) (mm_mem mm) m'"
    and inv': "page_inv g' m' cs' q'" and g': "g' = (page_at mm p)\<lparr>g_ptr := a\<rparr>"
    and h: "\<And>b. b \<in> set bs \<Longrightarrow> (\<exists>u. u \<in> set (useds (base (page_at mm p)) cs') \<and> fits b u) \<or>
      (\<exists>p' u. p' \<noteq> p \<and> live mm p' \<and> u \<in> set (useds (base (page_at mm p')) (C p')) \<and> fits b u)"
  shows "mm_ready L M (put_page p g' m' mm) bs"
proof (rule mm_readyI)
  note b = live_bounds [OF inv p]
  note s = put_page_simps [OF b(3,4), of g' m']
  have bg: "base g' = base (page_at mm p)" using same_frame [OF g'] by (simp add: base_eq)
  show "mm_inv L M (put_page p g' m' mm) (C(p := cs')) (Q(p := q'))" by (rule update_page [OF inv p t inv' g'])
  show "mm_holds (put_page p g' m' mm) (C(p := cs')) b" if "b \<in> set bs" for b
    using h [OF that]
  proof (elim disjE exE conjE)
    fix u assume "u \<in> set (useds (base (page_at mm p)) cs')" "fits b u"
    then show ?thesis using p s(1,2) bg unfolding mm_holds_def by (intro exI [of _ p] exI [of _ u]) simp
  next
    fix p' u assume "p' \<noteq> p" "live mm p'" "u \<in> set (useds (base (page_at mm p')) (C p'))" "fits b u"
    then show ?thesis using s(1,2) unfolding mm_holds_def by (intro exI [of _ p'] exI [of _ u]) simp
  qed
  show "mm_ids (put_page p g' m' mm)" using st(3) s(10) by (simp add: mm_ids_def)
qed (use st d put_page_simps [OF live_bounds(3,4) [OF inv p], of g' m'] in auto)

lemma block_stays:
  assumes "live mm p'" and "w \<in> set (useds (base (page_at mm p')) (C p'))" and "fits b w" and "p' = p \<Longrightarrow> w \<in> set us"
  shows "(\<exists>u. u \<in> set us \<and> fits b u) \<or>
    (\<exists>p' u. p' \<noteq> p \<and> live mm p' \<and> u \<in> set (useds (base (page_at mm p')) (C p')) \<and> fits b u)"
proof (cases "p' = p")
  case True
  show ?thesis by (rule disjI1, rule exI [of _ w]) (use assms True in simp)
next
  case False
  show ?thesis by (rule disjI2, rule exI [of _ p'], rule exI [of _ w]) (use assms False in simp)
qed

lemma remove_nth:
  assumes "distinct (map fst bs)" and "i < length bs"
  shows "distinct (map fst (take i bs @ drop (Suc i) bs))"
    and "y \<in> set (take i bs @ drop (Suc i) bs) \<Longrightarrow> y \<in> set bs \<and> fst y \<noteq> fst (bs ! i)"
proof -
  have e: "bs = take i bs @ bs ! i # drop (Suc i) bs" using assms(2) by (rule id_take_nth_drop)
  have d: "distinct (map fst (take i bs @ bs ! i # drop (Suc i) bs))" using assms(1) e by simp
  then show "distinct (map fst (take i bs @ drop (Suc i) bs))" by auto
  show "y \<in> set (take i bs @ drop (Suc i) bs) \<Longrightarrow> y \<in> set bs \<and> fst y \<noteq> fst (bs ! i)"
    using d by (auto dest: in_set_takeD in_set_dropD simp: image_iff)
qed

lemma mm_put_law:
  assumes ok: "mm_ready L M mm bs" and i: "i < length bs"
  shows "\<exists>mm'. free_mm False (fst (bs ! i)) mm = Some mm' \<and> mm_ready L M mm' (take i bs @ drop (Suc i) bs)"
proof -
  from ok obtain C Q where inv: "mm_inv L M mm C Q" and bs: "\<forall>b \<in> set bs. mm_holds mm C b"
    and st: "mm_init mm" "mm_page_size mm = page_size_default" "mm_ids mm" and dist: "distinct (map fst bs)"
    unfolding mm_ready_def by blast
  obtain p x c where p: "live mm p" and u: "(x, c) \<in> set (useds (base (page_at mm p)) (C p))" and f: "fits (bs ! i) (x, c)"
    using bs i unfolding mm_holds_def by (metis nth_mem prod.collapse)
  let ?g = "page_at mm p" and ?m = "mm_mem mm"
  note b = live_bounds [OF inv p]
  have good: "page_good p ?g ?m (C p) (Q p)" by (rule mm_invD(7) [OF inv p])
  then have pinv: "page_inv ?g ?m (C p) (Q p)" and lock: "\<not> g_lock ?g" unfolding page_good_def by blast+
  obtain xs ys where cs: "C p = xs @ (c, Used) # ys" and x: "x = base ?g + extent xs" using u by (rule useds_split)
  have pinv1: "page_inv ?g ?m (xs @ (c, Used) # ys) (Q p)" using pinv cs by simp
  have sx: "m_size ?m x = Some c" using page_chunk(1) [OF pinv1] x by simp
  obtain fx where fx: "m_flag ?m x = Some fx"
    using page_chunk(5) [OF pinv1] x by (cases "last_tag None xs") auto
  have tg: "flag_ok ?m (x + c) None" "in_page ?g (x + c)"
    using page_tag [of ?g ?m "xs @ [(c, Used)]" ys "Q p"] pinv1 x by (simp_all add: tag_def add.assoc)
  then have fl: "m_flag ?m (x + c) = Some (inuse_flag (fst p) (snd p))" using good unfolding page_good_def by auto
  obtain g' m' cs' q' where run: "free_pointer x ?g ?m = Some (g', m')" and inv': "page_inv g' m' cs' q'"
    and g': "g' = ?g\<lparr>g_ptr := g_ptr g'\<rparr>" and u': "useds (base ?g) cs' = useds (base ?g) xs @ useds (x + c) ys"
    using free_pointer_run [OF pinv1 x] by blast
  have x0: "fst (bs ! i) = x + 16" using f by (simp add: fits_def)
  have fr: "free_mm False (fst (bs ! i)) mm = Some (put_page p g' m' mm)"
    using sx fx fl run lock b inuse_decode [OF b(1,2)]
    by (simp add: free_mm_def x0 address2pointer_def next_pointer_def put_page_def page_at_def Let_def)
  have "mm_ready L M (put_page p g' m' mm) (take i bs @ drop (Suc i) bs)"
  proof (rule mm_ready_update [OF st remove_nth(1) [OF dist i] inv p touch_free_pointer [OF run] inv' g'])
    fix y assume "y \<in> set (take i bs @ drop (Suc i) bs)"
    then have y: "y \<in> set bs" "fst y \<noteq> x + 16" using remove_nth(2) [OF dist i] x0 by auto
    then obtain p' u1 where p': "live mm p'" "u1 \<in> set (useds (base (page_at mm p')) (C p'))" "fits y u1"
      using bs unfolding mm_holds_def by blast
    have "u1 \<noteq> (x, c)" using p'(3) y(2) by (auto simp: fits_def)
    then have "u1 \<in> set (useds (base ?g) cs')" if "p' = p" using p'(2) that cs x u' by (auto simp: add.assoc)
    from block_stays [where C = C, OF p' this] show "(\<exists>u. u \<in> set (useds (base ?g) cs') \<and> fits y u) \<or>
      (\<exists>p' u. p' \<noteq> p \<and> live mm p' \<and> u \<in> set (useds (base (page_at mm p')) (C p')) \<and> fits y u)" .
  qed
  then show ?thesis using fr by blast
qed

text \<open>A user writes the link fields of a block.\<close>

definition mm_write :: "nat \<Rightarrow> nat \<Rightarrow> nat \<Rightarrow> xmalloc \<Rightarrow> xmalloc" where
  "mm_write address v w mm = (let p = address2pointer address; m = mm_mem mm in
     mm\<lparr>mm_mem := m\<lparr>m_prev := (m_prev m)(p \<mapsto> v), m_next := (m_next m)(p \<mapsto> w)\<rparr>\<rparr>)"

lemma mm_write_law:
  assumes ok: "mm_ready L M mm bs" and i: "i < length bs"
  shows "mm_ready L M (mm_write (fst (bs ! i)) v w mm) bs"
proof -
  from ok obtain C Q where inv: "mm_inv L M mm C Q" and bs: "\<forall>b \<in> set bs. mm_holds mm C b"
    and st: "mm_init mm" "mm_page_size mm = page_size_default" "mm_ids mm" and dist: "distinct (map fst bs)"
    unfolding mm_ready_def by blast
  obtain p x c where p: "live mm p" and u: "(x, c) \<in> set (useds (base (page_at mm p)) (C p))" and f: "fits (bs ! i) (x, c)"
    using bs i unfolding mm_holds_def by (metis nth_mem prod.collapse)
  let ?g = "page_at mm p" and ?m = "mm_mem mm"
  let ?m' = "?m\<lparr>m_prev := (m_prev ?m)(x \<mapsto> v), m_next := (m_next ?m)(x \<mapsto> w)\<rparr>"
  note b = live_bounds [OF inv p]
  have pinv: "page_inv ?g ?m (C p) (Q p)" using mm_invD(7) [OF inv p] unfolding page_good_def by blast
  obtain xs ys where cs: "C p = xs @ (c, Used) # ys" and x: "x = base ?g + extent xs" using u by (rule useds_split)
  have "in_page ?g x" using page_chunk(4) [of ?g ?m xs "(c, Used)" ys "Q p"] pinv cs x by simp
  then have t: "page_touch ?g (inuse_flag (fst p) (snd p)) ?m ?m'" by (auto simp: page_touch_def same_at_def all_even_def)
  have "mm_write (fst (bs ! i)) v w mm = put_page p ?g ?m' mm"
    using f b by (simp add: mm_write_def put_page_def fits_def address2pointer_def page_at_def Let_def)
  moreover have "mm_ready L M (put_page p ?g ?m' mm) bs"
  proof (rule mm_ready_update [OF st dist inv p t user_write [OF pinv u]])
    show "?g = ?g\<lparr>g_ptr := g_ptr ?g\<rparr>" by simp
    show "(\<exists>u. u \<in> set (useds (base ?g) (C p)) \<and> fits y u) \<or>
      (\<exists>p' u. p' \<noteq> p \<and> live mm p' \<and> u \<in> set (useds (base (page_at mm p')) (C p')) \<and> fits y u)" if "y \<in> set bs" for y
    proof -
      have "mm_holds mm C y" using bs that by blast
      then obtain p' u1 where p': "live mm p'" "u1 \<in> set (useds (base (page_at mm p')) (C p'))" "fits y u1"
        unfolding mm_holds_def by blast
      show ?thesis by (rule block_stays [where C = C, OF p']) (use p' in simp)
    qed
  qed
  ultimately show ?thesis by simp
qed

lemma mm_apart_law:
  assumes ok: "mm_ready L M mm bs" and ij: "i < j" "j < length bs"
  shows "fst (bs ! i) + snd (bs ! i) \<le> fst (bs ! j) \<or> fst (bs ! j) + snd (bs ! j) \<le> fst (bs ! i)"
proof -
  from ok obtain C Q where inv: "mm_inv L M mm C Q" and bs: "\<forall>b \<in> set bs. mm_holds mm C b" and dist: "distinct (map fst bs)"
    unfolding mm_ready_def by blast
  obtain p u where p: "live mm p" "u \<in> set (useds (base (page_at mm p)) (C p))" "fits (bs ! i) u"
    using bs ij unfolding mm_holds_def by (meson less_trans nth_mem)
  obtain p' u' where p': "live mm p'" "u' \<in> set (useds (base (page_at mm p')) (C p'))" "fits (bs ! j) u'"
    using bs ij unfolding mm_holds_def by (meson nth_mem)
  have "fst (bs ! i) \<noteq> fst (bs ! j)" using dist ij by (simp add: distinct_conv_nth)
  then have ne: "u \<noteq> u'" using p(3) p'(3) by (auto simp: fits_def)
  have "fst u + snd u \<le> fst u' \<or> fst u' + snd u' \<le> fst u"
  proof (cases "p = p'")
    case True
    then obtain k l where "useds (base (page_at mm p)) (C p) ! k = u" "useds (base (page_at mm p)) (C p) ! l = u'"
      "k < length (useds (base (page_at mm p)) (C p))" "l < length (useds (base (page_at mm p)) (C p))"
      using p(2) p'(2) by (auto simp: in_set_conv_nth)
    then show ?thesis using useds_apart [of "base (page_at mm p)" "C p"] ne unfolding sorted_wrt_iff_nth_less
      by (metis linorder_neqE_nat)
  next
    case False
    have "g_start_address (page_at mm r) \<le> fst y \<and> fst y + snd y \<le> g_start_address (page_at mm r) + g_size (page_at mm r)"
      if "live mm r" "y \<in> set (useds (base (page_at mm r)) (C r))" for r y
    proof -
      have "page_inv (page_at mm r) (mm_mem mm) (C r) (Q r)"
        using mm_invD(7) [OF inv that(1)] unfolding page_good_def by blast
      from page_invD(2,11) [OF this] useds_bounds [of "fst y" "snd y" "base (page_at mm r)" "C r"] that(2)
      show ?thesis by (simp add: base_eq)
    qed
    from this [OF p(1,2)] this [OF p'(1,2)] pages_disjoint [OF inv p(1) p'(1) False] show ?thesis by linarith
  qed
  then show ?thesis using p(3) p'(3) by (auto simp: fits_def)
qed


section \<open>Requests\<close>

lemma mm_ready_cut:
  assumes st: "mm_init mm" "mm_page_size mm = page_size_default" "mm_ids mm" and dist: "distinct (map fst bs)"
    and inv: "mm_inv L M mm C Q" and bs: "\<forall>b \<in> set bs. mm_holds mm C b"
    and p: "live mm p" and t: "page_touch (page_at mm p) (inuse_flag (fst p) (snd p)) (mm_mem mm) m'"
    and inv': "page_inv g' m' cs' q'" and g': "g' = (page_at mm p)\<lparr>g_ptr := ptr\<rparr>"
    and u: "useds (base (page_at mm p)) (C p) = us @ vs" "useds (base (page_at mm p)) cs' = us @ (a, sz) # vs"
    and n: "n + 16 \<le> sz"
  shows "mm_ready L M (put_page p g' m' mm) (bs @ [(a + 16, n)])"
proof (rule mm_ready_update [OF st _ inv p t inv' g'])
  let ?B = "base (page_at mm p)"
  have bg: "base g' = ?B" "in_page g' = in_page (page_at mm p)"
    using same_frame [OF g'] g' by (simp_all add: base_eq in_page_def fun_eq_iff)
  have sw: "sorted_wrt (\<lambda>u v. fst u + snd u \<le> fst v) (us @ (a, sz) # vs)" using useds_apart [of ?B cs'] u(2) by simp
  have pos: "32 \<le> d \<and> in_page r x" if "page_inv r mr cr qr" "(x, d) \<in> set (useds (base r) cr)" for r mr cr qr x d
  proof -
    from that(2) obtain xs ys where "cr = xs @ (d, Used) # ys" "x = base r + extent xs" by (rule useds_split)
    then show ?thesis using page_chunk(2,4) [of r mr xs "(d, Used)" ys qr] that(1) by simp
  qed
  have pinv: "page_inv (page_at mm r) (mm_mem mm) (C r) (Q r)" if "live mm r" for r
    using mm_invD(7) [OF inv that] unfolding page_good_def by blast
  have new: "32 \<le> sz" "in_page (page_at mm p) a" using pos [OF inv', of a sz] u(2) bg by simp_all
  have "fst b \<noteq> a + 16" if "b \<in> set bs" for b
  proof
    assume "fst b = a + 16"
    moreover have "mm_holds mm C b" using bs that by blast
    ultimately obtain r d where r: "live mm r" "(a, d) \<in> set (useds (base (page_at mm r)) (C r))"
      unfolding mm_holds_def fits_def by auto
    have "32 \<le> d" "in_page (page_at mm r) a" using pos [OF pinv [OF r(1)] r(2)] by simp_all
    then show False
      using pages_apart [OF inv p r(1) _ new(2)] r(2) u(1) sw new(1) by (cases "r = p") (fastforce simp: sorted_wrt_append)+
  qed
  then have "a + 16 \<notin> fst ` set bs" by force
  then show "distinct (map fst (bs @ [(a + 16, n)]))" using dist by simp
  fix b assume "b \<in> set (bs @ [(a + 16, n)])"
  then consider "b \<in> set bs" | "b = (a + 16, n)" by auto
  then show "(\<exists>u. u \<in> set (useds ?B cs') \<and> fits b u) \<or>
      (\<exists>p' u. p' \<noteq> p \<and> live mm p' \<and> u \<in> set (useds (base (page_at mm p')) (C p')) \<and> fits b u)"
  proof cases
    case 1
    then obtain p' w where p': "live mm p'" "w \<in> set (useds (base (page_at mm p')) (C p'))" "fits b w"
      using bs unfolding mm_holds_def by blast
    show ?thesis by (rule block_stays [where C = C, OF p']) (use p' u in auto)
  next
    case 2
    then show ?thesis using u(2) n by (intro disjI1 exI [of _ "(a, sz)"]) (simp add: fits_def)
  qed
qed

lemma try_pages_run:
  assumes ok: "mm_ready L M mm bs" and pi: "pi < 8" and sz: "32 \<le> sz" "8 dvd sz" "sz \<le> 2 ^ 64" and n: "n + 16 \<le> sz"
    and ks: "\<forall>k \<in> set ks. k < l_page_number (mm_pool mm ! pi)"
  shows "\<exists>r mm'. try_pages pi sz (sz + 32) ks mm = Some (r, mm') \<and>
    (case r of None \<Rightarrow> mm' = mm | Some a \<Rightarrow> mm_ready L M mm' (bs @ [(a + 16, n)]))"
  using ks
proof (induction ks)
  case Nil
  then show ?case by simp
next
  case (Cons k ks)
  from ok obtain C Q where inv: "mm_inv L M mm C Q" and bs: "\<forall>b \<in> set bs. mm_holds mm C b"
    and st: "mm_init mm" "mm_page_size mm = page_size_default" "mm_ids mm" and dist: "distinct (map fst bs)"
    unfolding mm_ready_def by blast
  let ?p = "(pi, k)" and ?g = "page_at mm (pi, k)"
  have p: "live mm ?p" using pi Cons.prems by (simp add: live_def max_pool_number_def)
  note b = live_bounds [OF inv p]
  have good: "\<not> g_lock ?g" "g_end ?g < 2 ^ 64" "page_inv ?g (mm_mem mm) (C ?p) (Q ?p)"
    using mm_invD(7) [OF inv p] unfolding page_good_def by blast+
  have id: "l_id (mm_pool mm ! pi) = pi" using st(3) pi by (simp add: mm_ids_def max_pool_number_def)
  have ev: "even sz" using sz(2) by (auto elim: dvd_trans [rotated])
  from page_malloc_run [OF good(3) sz(1,2) good(2), of pi k] show ?case
  proof (elim disjE exE conjE)
    assume "page_malloc pi k sz (sz + 32) ?g (mm_mem mm) = Some None"
    then show ?thesis using Cons b good(1) id by (simp add: page_at_def)
  next
    fix a g' m' cs' q' us vs
    assume run: "page_malloc pi k sz (sz + 32) ?g (mm_mem mm) = Some (Some (a, g', m'))" and inv': "page_inv g' m' cs' q'"
      and g': "g' = ?g\<lparr>g_ptr := g_ptr g'\<rparr>"
      and u: "useds (base ?g) (C ?p) = us @ vs" "useds (base ?g) cs' = us @ (a, sz) # vs"
    have t: "page_touch ?g (inuse_flag (fst ?p) (snd ?p)) (mm_mem mm) m'" using touch_page_malloc [OF run ev sz(3)] by simp
    have "mm_ready L M (put_page ?p g' m' mm) (bs @ [(a + 16, n)])"
      by (rule mm_ready_cut [OF st dist inv bs p t inv' g' u n])
    moreover have "try_pages pi sz (sz + 32) (k # ks) mm = Some (Some a, put_page ?p g' m' mm)"
      using run b good(1) id by (simp add: page_at_def put_page_def Let_def)
    ultimately show ?thesis by auto
  qed
qed


section \<open>New pages\<close>

lemma round_up_page:
  assumes "n + 4095 < 2 ^ 64"
  shows "4096 dvd round_up n 4095" and "n \<le> round_up n 4095" and "round_up n 4095 \<le> n + 4095"
proof -
  have m: "(of_nat 4095 :: u64) = mask 12" by (simp add: mask_eq_exp_minus_1)
  have "round_up n 4095 = (n + 4095) - (n + 4095) mod 4096"
    using assms unfolding round_up_def m by (simp add: unat_and_not_mask unat_of_nat_small del: of_nat_add)
  then have e: "round_up n 4095 = (n + 4095) div 4096 * 4096" by (simp add: minus_mod_eq_div_mult)
  show "4096 dvd round_up n 4095" "n \<le> round_up n 4095" "round_up n 4095 \<le> n + 4095" unfolding e by auto
qed

lemma touch_fields [simp]:
  "page_touch (g\<lparr>g_head := x\<rparr>) v m m' = page_touch g v m m'" "page_touch (g\<lparr>g_end := x\<rparr>) v m m' = page_touch g v m m'"
  by (simp_all add: page_touch_def in_page_def)

lemma touch_format:
  assumes run: "format_page pid page m0 = Some (g, m)" and ev: "even (g_size page)"
  shows "page_touch page (inuse_flag pid (g_id page)) m0 m"
proof -
  let ?v = "inuse_flag pid (g_id page)"
  have pb: "push_bit 1 free_pointer_size = 64" by (simp add: push_bit_eq_mult)
  let ?g = "page\<lparr>g_head := g_start_address page\<rparr>"
  from run obtain m1 m2 p m3 m4 e s m5 m6 m7 m8 m9 where
    r: "wr_flag ?g (g_start_address page) ?v m0 = Some m1" "wr_size ?g (g_start_address page) free_pointer_size m1 = Some m2"
      "wr_flag (?g\<lparr>g_ptr := p\<rparr>) p ?v m2 = Some m3" "wr_size (?g\<lparr>g_ptr := p\<rparr>) p (g_size page - 64) m3 = Some m4"
      "m_size m4 p = Some s" "wr_flag (?g\<lparr>g_ptr := p, g_end := e\<rparr>) e s m4 = Some m5"
      "wr_size (?g\<lparr>g_ptr := p, g_end := e\<rparr>) e free_pointer_size m5 = Some m6"
      "wr_prev (?g\<lparr>g_ptr := p, g_end := e\<rparr>) (g_start_address page) 0 m6 = Some m7"
      "wr_next (?g\<lparr>g_ptr := p, g_end := e\<rparr>) (g_start_address page) e m7 = Some m8"
      "wr_prev (?g\<lparr>g_ptr := p, g_end := e\<rparr>) e (g_start_address page) m8 = Some m9"
      "wr_next (?g\<lparr>g_ptr := p, g_end := e\<rparr>) e 0 m9 = Some m"
    unfolding format_page_def pb by (auto simp: bind_eq_Some_conv Let_def)
  have "page_touch page ?v m0 m1" using touch_flag [OF r(1), of ?v] by simp
  also have "page_touch page ?v m1 m2" using touch_size [OF r(2), of ?v] by simp
  also have "page_touch page ?v m2 m3" using touch_flag [OF r(3), of ?v] by simp
  also have "page_touch page ?v m3 m4" using touch_size [OF r(4), of ?v] ev by simp
  also have "page_touch page ?v m4 m5" using touch_flag [OF r(6), of ?v] evenI [OF _ r(5)] by simp
  also have "page_touch page ?v m5 m6" using touch_size [OF r(7), of ?v] by simp
  also have "page_touch page ?v m6 m7" using touch_links(1) [OF r(8), of ?v] by simp
  also have "page_touch page ?v m7 m8" using touch_links(2) [OF r(9), of ?v] by simp
  also have "page_touch page ?v m8 m9" using touch_links(1) [OF r(10), of ?v] by simp
  also have "page_touch page ?v m9 m" using touch_links(2) [OF r(11), of ?v] by simp
  finally show ?thesis .
qed

definition add_page :: "page_id \<Rightarrow> nat \<Rightarrow> xmalloc_page \<Rightarrow> xmem \<Rightarrow> xmalloc \<Rightarrow> xmalloc" where
  "add_page p al g m mm = (let pool = mm_pool mm ! fst p in
     mm\<lparr>mm_mmaps := mm_mmaps mm + 1, mm_mem := m,
        mm_pool := (mm_pool mm)[fst p := pool\<lparr>l_page_number := snd p + 1, l_aligned_address := al,
          l_page := (l_page pool)[snd p := g]\<rparr>]\<rparr>)"

lemma add_page_simps:
  assumes "fst p < 8" and "length (mm_pool mm) = 9" and "snd p < length (l_page (mm_pool mm ! fst p))"
    and "snd p = l_page_number (mm_pool mm ! fst p)"
  shows "live (add_page p al g m mm) p' \<longleftrightarrow> live mm p' \<or> p' = p"
    and "page_at (add_page p al g m mm) p' = (if p' = p then g else page_at mm p')"
    and "mm_mem (add_page p al g m mm) = m" and "mm_mmap (add_page p al g m mm) = mm_mmap mm"
    and "mm_mmaps (add_page p al g m mm) = mm_mmaps mm + 1" and "mm_page_aligned_mask (add_page p al g m mm) = mm_page_aligned_mask mm"
    and "mm_page_size (add_page p al g m mm) = mm_page_size mm" and "mm_init (add_page p al g m mm) = mm_init mm"
    and "length (mm_pool (add_page p al g m mm)) = length (mm_pool mm)"
    and "l_id (mm_pool (add_page p al g m mm) ! j) = l_id (mm_pool mm ! j)"
    and "l_page_number (mm_pool (add_page p al g m mm) ! j) = (if j = fst p then snd p + 1 else l_page_number (mm_pool mm ! j))"
  using assms
  by (cases p; cases p'; auto simp: add_page_def live_def page_at_def Let_def nth_list_update max_pool_number_def)+


lemma fresh_range:
  assumes inv: "mm_inv L M mm C Q" and n: "mm_mmaps mm < M" "mm_mmap mm (mm_mmaps mm) = Some a"
    and p: "live mm p" and x: "a \<le> x" "x + 32 \<le> a + L"
  shows "\<not> in_page (page_at mm p) x" and "g_start_address (page_at mm p) \<noteq> a"
proof -
  obtain i where i: "i < M" "i < mm_mmaps mm" "mm_mmap mm i = Some (g_start_address (page_at mm p))"
    and s: "g_size (page_at mm p) \<le> L" using mm_invD(8) [OF inv p] unfolding origin_def by blast
  have ne: "i \<noteq> mm_mmaps mm" using i by simp
  have "g_start_address (page_at mm p) + L \<le> a \<or> a + L \<le> g_start_address (page_at mm p)"
    using mm_invD(1) [OF inv] i n ne unfolding mmap_ok_def by blast
  then show "\<not> in_page (page_at mm p) x" "g_start_address (page_at mm p) \<noteq> a" using s x by (auto simp: in_page_def)
qed

lemma add_page_inv:
  assumes inv: "mm_inv L M mm C Q" and p: "fst p < 8" "snd p = l_page_number (mm_pool mm ! fst p)" "snd p + 1 < max_page_number"
    and n: "mm_mmaps mm < M" "mm_mmap mm (mm_mmaps mm) = Some (g_start_address g)"
    and g: "\<not> g_lock g" "g_size g \<le> L" "g_end g < 2 ^ 64" "page_inv g m cs q"
    and t: "page_touch g (inuse_flag (fst p) (snd p)) (mm_mem mm) m"
  shows "mm_inv L M (add_page p al g m mm) (C(p := cs)) (Q(p := q))"
proof -
  note d = mm_invD [OF inv]
  have ps: "pool_shape (mm_pool mm ! fst p)" using d(4) p(1) by blast
  have len: "snd p < length (l_page (mm_pool mm ! fst p))" using ps p(3) by (simp add: pool_shape_def)
  note s = add_page_simps [OF p(1) d(3) len p(2), of al g m]
  let ?mm = "add_page p al g m mm"
  have nl: "\<not> live mm p" using p(2) by (simp add: live_def)
  note fr = fresh_range [OF inv n]
  have rng: "g_start_address g \<le> x \<and> x + 32 \<le> g_start_address g + L" if "in_page g x" for x
    using that g(2) by (simp add: in_page_def)
  have "in_page g (g_start_address g)" using page_invD(1,9) [OF g(4)] by (simp add: queue_ok_def)
  then have st: "g_start_address (page_at mm p') \<noteq> g_start_address g" if "live mm p'" for p'
    using fr(2) [OF that] rng by blast
  have same: "same_at x (mm_mem mm) m" if "live mm p'" "in_page (page_at mm p') x" for p' x
    using t fr(1) [OF that(1), of x] rng [of x] that(2) unfolding page_touch_def by blast
  show ?thesis
  proof (rule mm_invI)
    show "pool_shape (mm_pool ?mm ! pi)" if "pi < 8" for pi
      using d(4) [OF that] p d(3) len
      by (cases "pi = fst p") (auto simp: add_page_def pool_shape_def Let_def nth_list_update)
    show "\<exists>p. live ?mm p \<and> in_page (page_at ?mm p) x" if "m_flag (mm_mem ?mm) x = Some f" for x f
    proof (cases "in_page g x")
      case True
      then show ?thesis using s(1,2) by (intro exI [of _ p]) simp
    next
      case False
      then have "m_flag (mm_mem mm) x = Some f" using that t s(3) by (simp add: page_touch_def same_at_def)
      then obtain p' where "live mm p'" "in_page (page_at mm p') x" using d(6) by blast
      then show ?thesis using s(1,2) nl by (intro exI [of _ p']) auto
    qed
    have tags: "f = inuse_flag (fst p) (snd p)" if "in_page g x" "m_flag m x = Some f" "odd f" for x f
    proof -
      have "m_flag (mm_mem mm) x \<noteq> Some f" using d(6) [of x f] fr(1) [of _ x] rng [OF that(1)] by blast
      then show ?thesis using t d(5) that(2,3) unfolding page_touch_def by blast
    qed
    show "page_good p' (page_at ?mm p') (mm_mem ?mm) ((C(p := cs)) p') ((Q(p := q)) p')" if "live ?mm p'" for p'
    proof (cases "p' = p")
      case True
      then show ?thesis using g tags s(2,3) by (simp add: page_good_def)
    next
      case False
      then have "live mm p'" using that s(1) by simp
      then show ?thesis using page_good_other [OF d(7), of p' m] same s(2,3) False by simp
    qed
    show "origin L M ?mm (page_at ?mm p')" if "live ?mm p'" for p'
      using d(8) [of p'] that s(1,2,4,5) g(2) n by (cases "p' = p") (auto simp: origin_def less_Suc_eq)
    show "g_start_address (page_at ?mm p1) \<noteq> g_start_address (page_at ?mm p2)" if "live ?mm p1" "live ?mm p2" "p1 \<noteq> p2" for p1 p2
      using that d(9) [of p1 p2] st [of p1] st [of p2] s(1) [of p1] s(1) [of p2] s(2) [of p1] s(2) [of p2]
      by (cases "p1 = p"; cases "p2 = p") simp_all
  qed (use d(1-3,5) t s touch_even in auto)
qed

lemma malloc_page_run:
  assumes inv: "mm_inv L M mm C Q" and p: "pi < 8" "k = l_page_number (mm_pool mm ! pi)" "k + 1 < max_page_number"
    and id: "l_id (mm_pool mm ! pi) = pi" and n: "mm_mmaps mm < M" and L: "psz + 4223 \<le> L"
  defines "pool \<equiv> mm_pool mm ! pi"
  shows "\<exists>al g m c. malloc_page pi k psz (mm\<lparr>mm_pool := (mm_pool mm)[pi := pool\<lparr>l_page_number := k + 1,
      l_page := (l_page pool)[k := (l_page pool ! k)\<lparr>g_id := k\<rparr>]\<rparr>]\<rparr>) = Some (True, add_page (pi, k) al g m mm) \<and>
    mm_inv L M (add_page (pi, k) al g m mm) (C((pi, k) := [(c, Main)])) (Q((pi, k) := [])) \<and> psz + 64 \<le> c \<and> g_id g = k"
proof -
  note d = mm_invD [OF inv]
  have ps: "pool_shape pool" using d(4) p(1) pool_def by blast
  have len: "k < length (l_page pool)" using ps p(3) by (simp add: pool_shape_def)
  have fr: "\<not> g_lock (l_page pool ! k)" using ps p unfolding pool_shape_def pool_def by auto
  obtain a where a: "mm_mmap mm (mm_mmaps mm) = Some a" "a \<noteq> 0" "a AND (align_size - 1) = 0" "a + L < 2 ^ 64"
    using d(1) n unfolding mmap_ok_def by blast
  define sz where "sz = round_up (psz + 128) 4095"
  have "psz + 128 + 4095 < 2 ^ 64" using L a(4) by simp
  from round_up_page [OF this] have sz: "4096 dvd sz" "psz + 128 \<le> sz" "sz \<le> L" using L unfolding sz_def by simp_all
  then have sz8: "8 dvd sz" and sz2: "even sz" by (auto elim: dvd_trans [rotated])
  define page where "page = (l_page pool ! k)\<lparr>g_id := k, g_size := sz, g_start_address := a\<rparr>"
  have pre: "g_size page = 64 + (sz - 64)" "32 \<le> sz - 64" using sz(2) by (simp_all add: page_def)
  have e8: "8 dvd sz - 64" using dvd_diff_nat [OF sz8, of 64] by simp
  obtain m where fm: "format_page pi page (mm_mem mm) = Some (page\<lparr>g_head := a, g_ptr := a + 32, g_end := a + 32 + (sz - 64),
        g_recycle_pool := replicate max_recycle_pool \<lparr>r_lock = False, r_head = 0, r_memory_size = 0\<rparr>\<rparr>, m)"
    and pinv: "page_inv (page\<lparr>g_head := a, g_ptr := a + 32, g_end := a + 32 + (sz - 64),
        g_recycle_pool := replicate max_recycle_pool \<lparr>r_lock = False, r_head = 0, r_memory_size = 0\<rparr>\<rparr>) m [(sz - 64, Main)] []"
    using format_page_run [OF pre e8, of a pi "mm_mem mm"] by (auto simp: page_def)
  define g where "g = page\<lparr>g_head := a, g_ptr := a + 32, g_end := a + 32 + (sz - 64),
        g_recycle_pool := replicate max_recycle_pool \<lparr>r_lock = False, r_head = 0, r_memory_size = 0\<rparr>\<rparr>"
  have t: "page_touch g (inuse_flag pi k) (mm_mem mm) m"
    using touch_format [OF fm] sz2 by (simp add: g_def page_def page_touch_def in_page_def)
  have run: "malloc_page pi k psz (mm\<lparr>mm_pool := (mm_pool mm)[pi := pool\<lparr>l_page_number := k + 1,
      l_page := (l_page pool)[k := (l_page pool ! k)\<lparr>g_id := k\<rparr>]\<rparr>]\<rparr>) = Some (True, add_page (pi, k) (a + g_size g) g m mm)"
    using p(1) d(2,3) len a(1,3) fm id
    by (simp add: malloc_page_def mmap_loop.simps Let_def add_page_def g_def page_def sz_def pool_def)
  have "mm_inv L M (add_page (pi, k) (a + g_size g) g m mm) (C((pi, k) := [(sz - 64, Main)])) (Q((pi, k) := []))"
    by (rule add_page_inv [OF inv]) (use p n a fr sz t pinv in \<open>auto simp: g_def page_def\<close>)
  moreover have "psz + 64 \<le> sz - 64" "g_id g = k" using sz(2) by (simp_all add: g_def page_def)
  ultimately show ?thesis using run by blast
qed

end
