(* ===== verification/Xmalloc_Heap.thy ===== *)
theory Xmalloc_Heap
  imports Xmalloc_Manager
begin

text \<open>
  \<open>malloc\<close> and \<open>free\<close> of the whole manager, from its zero-initialised state on, as a block store.
\<close>

section \<open>Serving a request\<close>

lemma mm_inv_cong:
  assumes inv: "mm_inv L M mm C Q" and eq: "mm_mmap mm' = mm_mmap mm" "mm_mmaps mm' = mm_mmaps mm"
    "mm_page_aligned_mask mm' = mm_page_aligned_mask mm" "mm_mem mm' = mm_mem mm" "length (mm_pool mm') = length (mm_pool mm)"
    "\<And>pi. pi < 8 \<Longrightarrow> l_page (mm_pool mm' ! pi) = l_page (mm_pool mm ! pi)"
    "\<And>pi. pi < 8 \<Longrightarrow> l_page_number (mm_pool mm' ! pi) = l_page_number (mm_pool mm ! pi)"
  shows "mm_inv L M mm' C Q" and "live mm' p = live mm p" and "live mm p \<Longrightarrow> page_at mm' p = page_at mm p"
proof -
  have lv: "live mm' p = live mm p" for p using eq(7) [of "fst p"] by (auto simp: live_def max_pool_number_def)
  have pa: "page_at mm' p = page_at mm p" if "live mm p" for p
    using eq(6) [of "fst p"] that by (simp add: live_def max_pool_number_def page_at_def)
  note d = mm_invD [OF inv]
  show "mm_inv L M mm' C Q"
  proof (rule mm_invI)
    show "pool_shape (mm_pool mm' ! pi)" if "pi < 8" for pi
      using d(4) [OF that] eq(6,7) [OF that] by (simp add: pool_shape_def)
    show "\<exists>p. live mm' p \<and> in_page (page_at mm' p) x" if x: "m_flag (mm_mem mm') x = Some f" for x f
    proof -
      have "m_flag (mm_mem mm) x = Some f" using x eq(4) by simp
      from d(6) [OF this] obtain p where "live mm p" "in_page (page_at mm p) x" by blast
      then show ?thesis using lv pa by (intro exI [of _ p]) simp
    qed
    show "origin L M mm' (page_at mm' p)" if "live mm' p" for p
      using d(8) [of p] that lv pa eq(1,2) by (simp add: origin_def)
  qed (use d eq lv pa in simp_all)
  show "live mm' p = live mm p" by (rule lv)
  show "live mm p \<Longrightarrow> page_at mm' p = page_at mm p" by (rule pa)
qed

lemma mm_ready_index:
  assumes "mm_ready L M mm bs"
  shows "mm_ready L M (mm\<lparr>mm_pool_index := x\<rparr>) bs"
proof -
  from assms obtain C Q where inv: "mm_inv L M mm C Q" and bs: "\<forall>b \<in> set bs. mm_holds mm C b" unfolding mm_ready_def by blast
  let ?mm = "mm\<lparr>mm_pool_index := x\<rparr>"
  have 1: "live ?mm = live mm" "page_at ?mm = page_at mm" by (simp_all add: live_def page_at_def fun_eq_iff)
  have "mm_inv L M ?mm C Q" by (rule mm_inv_cong(1) [OF inv]) simp_all
  then show ?thesis using assms bs unfolding mm_ready_def mm_holds_def mm_ids_def 1 by auto
qed

definition mm_request_ok :: "nat \<Rightarrow> nat \<Rightarrow> u64 \<Rightarrow> xmalloc \<Rightarrow> bool" where
  "mm_request_ok L M req mm \<longleftrightarrow> unat req \<le> 2 ^ 63 \<and> page_size_default + unat req + 4255 \<le> L \<and> mm_mmaps mm + 16 < M \<and>
     list_all (\<lambda>pool. l_page_number pool + 1 < max_page_number) (take max_pool_number (mm_pool mm))"

lemma new_page_malloc_run:
  assumes ok: "mm_ready L M mm bs" and pi: "pi < 8" and sz: "32 \<le> sz" "8 dvd sz" "sz \<le> 2 ^ 64" and n: "n + 16 \<le> sz"
    and room: "l_page_number (mm_pool mm ! pi) + 1 < max_page_number" "mm_mmaps mm < M" "page_size_default + sz + 4223 \<le> L"
  shows "\<exists>a mm'. new_page_malloc pi sz mm = Some (a + 16, mm') \<and> mm_ready L M mm' (bs @ [(a + 16, n)])"
proof -
  from ok obtain C Q where inv: "mm_inv L M mm C Q" and bs: "\<forall>b \<in> set bs. mm_holds mm C b"
    and st: "mm_init mm" "mm_page_size mm = page_size_default" "mm_ids mm" and dist: "distinct (map fst bs)"
    unfolding mm_ready_def by blast
  define pool where "pool = mm_pool mm ! pi"
  define k where "k = l_page_number pool"
  note d = mm_invD [OF inv]
  have id: "l_id pool = pi" using st(3) pi by (simp add: pool_def mm_ids_def max_pool_number_def)
  have ps: "pool_shape pool" using d(4) pi pool_def by blast
  have kp: "k + 1 < max_page_number" using room(1) by (simp add: k_def pool_def)
  have slot0: "\<not> g_lock (l_page pool ! k)" "g_id (l_page pool ! k) = 0" "k < length (l_page pool)"
    using ps kp unfolding pool_shape_def k_def by auto
  have slot: "new_slot pool = (Some k, pool\<lparr>l_page_number := k + 1,
      l_page := (l_page pool)[k := (l_page pool ! k)\<lparr>g_id := k\<rparr>]\<rparr>)"
    using slot0 kp by (subst new_slot.simps) (simp add: Let_def k_def)
  obtain al g m c where run: "malloc_page pi k (page_size_default + sz) (mm\<lparr>mm_pool := (mm_pool mm)[pi := pool\<lparr>l_page_number := k + 1,
      l_page := (l_page pool)[k := (l_page pool ! k)\<lparr>g_id := k\<rparr>]\<rparr>]\<rparr>) = Some (True, add_page (pi, k) al g m mm)"
    and inv2: "mm_inv L M (add_page (pi, k) al g m mm) (C((pi, k) := [(c, Main)])) (Q((pi, k) := []))"
    and c: "page_size_default + sz + 64 \<le> c" and gid: "g_id g = k"
    using malloc_page_run [OF inv pi, of k "page_size_default + sz"] id kp room(2,3)
    unfolding pool_def [symmetric] k_def [symmetric] by auto
  let ?p = "(pi, k)" and ?mm = "add_page (pi, k) al g m mm"
  have nl: "\<not> live mm ?p" by (simp add: live_def k_def pool_def)
  have s: "live ?mm p' \<longleftrightarrow> live mm p' \<or> p' = ?p" "page_at ?mm p' = (if p' = ?p then g else page_at mm p')"
      "mm_mem ?mm = m" "mm_page_size ?mm = mm_page_size mm" "mm_init ?mm = mm_init mm"
      "length (mm_pool ?mm) = 9" "l_id (mm_pool ?mm ! j) = l_id (mm_pool mm ! j)" for p' j
    using add_page_simps [of ?p mm al g m] pi d(3) slot0(3) by (simp_all add: pool_def [symmetric] k_def)
  have p: "live ?mm ?p" and pg: "page_at ?mm ?p = g" using s by simp_all
  have good: "g_end g < 2 ^ 64" "page_inv g m ([] @ (c, Main) # []) []"
    using mm_invD(7) [OF inv2 p] s by (simp_all add: page_good_def)
  have c32: "sz + 32 \<le> c" using c by simp
  obtain m' where cut: "cut_chunk pi k sz g m = Some (base g, g\<lparr>g_ptr := base g + sz\<rparr>, m')"
    and inv3: "page_inv (g\<lparr>g_ptr := base g + sz\<rparr>) m' ([] @ (sz, Used) # (c - sz, Main) # []) []"
    using cut_chunk_run [OF good(2) sz(1,2) c32 _ good(1), of "base g" pi k] by auto
  have ev: "even sz" using sz(2) by (auto elim: dvd_trans [rotated])
  have t: "page_touch (page_at ?mm ?p) (inuse_flag (fst ?p) (snd ?p)) (mm_mem ?mm) m'"
    using touch_cut_chunk [OF cut ev sz(3)] s(3) pg by simp
  have st': "mm_init ?mm" "mm_page_size ?mm = page_size_default" "mm_ids ?mm" using st s by (simp_all add: mm_ids_def)
  have bs': "\<forall>b \<in> set bs. mm_holds ?mm (C(?p := [(c, Main)])) b"
  proof
    fix b assume "b \<in> set bs"
    then obtain p' u where "live mm p'" "u \<in> set (useds (base (page_at mm p')) (C p'))" "fits b u"
      using bs unfolding mm_holds_def by blast
    then show "mm_holds ?mm (C(?p := [(c, Main)])) b"
      unfolding mm_holds_def using nl s(1,2) by (intro exI [of _ p'] exI [of _ u]) auto
  qed
  have u: "useds (base (page_at ?mm ?p)) ((C(?p := [(c, Main)])) ?p) = [] @ []"
    "useds (base (page_at ?mm ?p)) ([] @ (sz, Used) # (c - sz, Main) # []) = [] @ (base g, sz) # []" using pg by simp_all
  have g': "g\<lparr>g_ptr := base g + sz\<rparr> = (page_at ?mm ?p)\<lparr>g_ptr := base g + sz\<rparr>" using pg by simp
  have "mm_ready L M (put_page ?p (g\<lparr>g_ptr := base g + sz\<rparr>) m' ?mm) (bs @ [(base g + 16, n)])"
    by (rule mm_ready_cut [OF st' dist inv2 bs' p t inv3 g' u n])
  moreover have "new_page_malloc pi sz mm = Some (base g + 16, put_page ?p (g\<lparr>g_ptr := base g + sz\<rparr>) m' ?mm)"
    using run cut slot d(3) pi st(2) kp gid id s(3,7) pg slot0(3) s(6)
    by (simp add: new_page_malloc_def pool_def [symmetric] put_page_def page_at_def Let_def pointer2address_def)
       (simp add: add_page_def Let_def pool_def)
  ultimately show ?thesis by blast
qed


lemma malloc_mm_run:
  assumes ok: "mm_ready L M mm bs" and r: "unat req \<le> 2 ^ 63" "page_size_default + unat req + 4255 \<le> L" "mm_mmaps mm < M"
    and req: "\<And>i. i < 8 \<Longrightarrow> l_page_number (mm_pool mm ! i) + 1 < max_page_number"
  shows "\<exists>a mm'. malloc_mm req mm = Some (a, mm') \<and> a \<noteq> 0 \<and> mm_ready L M mm' (bs @ [(a, unat req)])"
proof -
  let ?mm = "mm\<lparr>mm_pool_index := mm_pool_index mm + 1\<rparr>"
  define pi where "pi = (mm_pool_index mm + 1) AND (max_pool_number - 1)"
  have "pi = (mm_pool_index mm + 1) mod 2 ^ 3"
    unfolding pi_def max_pool_number_def using take_bit_eq_mask [of 3 "mm_pool_index mm + 1"]
    by (simp add: take_bit_eq_mod mask_eq_exp_minus_1)
  then have pi: "pi < 8" by simp
  have ok1: "mm_ready L M ?mm bs" by (rule mm_ready_index [OF ok])
  have init: "mm_init mm" and len: "length (mm_pool mm) = 9"
    using ok mm_invD(3) unfolding mm_ready_def by blast+
  have pg: "l_page_number (mm_pool mm ! pi) + 1 < max_page_number" by (rule req [OF pi])
  let ?sz = "unat (req2align req)"
  note b = req2align_bounds [OF r(1)]
  have sz: "?sz \<le> 2 ^ 64" using unat64_less [of "req2align req"] by simp
  have n: "unat req + 16 \<le> ?sz" using b(3) by simp
  have room: "page_size_default + ?sz + 4223 \<le> L" using r(2) b(4) by simp
  have pool: "rd (mm_pool ?mm) pi = Some (mm_pool mm ! pi)" using pi len by simp
  obtain x mm2 where t: "try_pages pi ?sz (?sz + 32) [0..<l_page_number (mm_pool mm ! pi)] ?mm = Some (x, mm2)"
    and t2: "case x of None \<Rightarrow> mm2 = ?mm | Some a \<Rightarrow> mm_ready L M mm2 (bs @ [(a + 16, unat req)])"
    using try_pages_run [OF ok1 pi b(1,2) sz n, of "[0..<l_page_number (mm_pool mm ! pi)]"] by auto
  have run: "malloc_mm req mm = (case x of Some a \<Rightarrow> Some (pointer2address a, mm2) | None \<Rightarrow> new_page_malloc pi ?sz mm2)"
    using init pool t b(5) unfolding malloc_mm_def pi_def by (cases x) (simp_all add: Let_def)
  show ?thesis
  proof (cases x)
    case (Some a)
    then show ?thesis using run t2 by (simp add: pointer2address_def)
  next
    case None
    then show ?thesis
      using run t2 new_page_malloc_run [OF ok1 pi b(1,2) sz n] pg r(3) room by fastforce
  qed
qed

section \<open>Initialisation\<close>

definition zero_page :: xmalloc_page where
  "zero_page = \<lparr>g_lock = False, g_id = 0, g_size = 0, g_start_address = 0, g_ptr = 0, g_head = 0, g_end = 0,
     g_recycle_pool = replicate max_recycle_pool \<lparr>r_lock = False, r_head = 0, r_memory_size = 0\<rparr>\<rparr>"

definition zero_pool :: xmalloc_pool where
  "zero_pool = \<lparr>l_page_number = 0, l_id = 0, l_aligned_address = 0, l_page = replicate (max_page_number + 1) zero_page\<rparr>"

definition no_mem :: xmem where
  "no_mem = \<lparr>m_flag = \<lambda>_. None, m_size = \<lambda>_. None, m_prev = \<lambda>_. None, m_next = \<lambda>_. None\<rparr>"

definition memory_manager :: "(nat \<Rightarrow> nat option) \<Rightarrow> xmalloc" where
  "memory_manager mmap = \<lparr>mm_init = False, mm_pool_index = 0, mm_page_size = 0, mm_pool_number = 0, mm_preloading_page = 0,
     mm_page_aligned_mask = 0, mm_pool = replicate (max_pool_number + 1) zero_pool, mm_mem = no_mem, mm_mmap = mmap, mm_mmaps = 0\<rparr>"

definition same_rest :: "xmalloc \<Rightarrow> xmalloc \<Rightarrow> bool" where
  "same_rest mm mm' \<longleftrightarrow> mm_init mm' = mm_init mm \<and> mm_page_size mm' = mm_page_size mm \<and>
     mm_preloading_page mm' = mm_preloading_page mm \<and> (\<forall>j. l_id (mm_pool mm' ! j) = l_id (mm_pool mm ! j))"

lemma pool_commute: "P\<lparr>l_page := a, l_page_number := b\<rparr> = P\<lparr>l_page_number := b, l_page := a\<rparr>"
  by (cases P) simp

lemma pool_pages_run:
  assumes "mm_inv L M mm C Q" and "pi < 8" and "l_id (mm_pool mm ! pi) = pi" and "l_page_number (mm_pool mm ! pi) = k"
    and "k + j + 1 < max_page_number" and "mm_mmaps mm + j \<le> M" and "mm_page_size mm + 4223 \<le> L"
  shows "\<exists>mm' C' Q'. pool_pages pi [k..<k + j] mm = Some (True, mm') \<and> mm_inv L M mm' C' Q' \<and> same_rest mm mm' \<and>
    mm_mmaps mm' = mm_mmaps mm + j \<and>
    (\<forall>i. l_page_number (mm_pool mm' ! i) = (if i = pi then k + j else l_page_number (mm_pool mm ! i)))"
  using assms
proof (induction j arbitrary: k mm C Q)
  case 0
  then show ?case by (auto simp: same_rest_def)
next
  case (Suc j)
  define pool where "pool = mm_pool mm ! pi"
  note inv = Suc.prems(1)
  have ps: "pool_shape pool" and len: "length (mm_pool mm) = 9" using mm_invD(3,4) [OF inv] Suc.prems(2) pool_def by blast+
  then have kl: "k < length (l_page pool)" using Suc.prems(5) by (simp add: pool_shape_def)
  have k: "k = l_page_number (mm_pool mm ! pi)" "k + 1 < max_page_number" "mm_mmaps mm < M"
    using Suc.prems(4-6) by simp_all
  obtain al g m c where run: "malloc_page pi k (mm_page_size mm) (mm\<lparr>mm_pool := (mm_pool mm)[pi := pool\<lparr>l_page_number := k + 1,
      l_page := (l_page pool)[k := (l_page pool ! k)\<lparr>g_id := k\<rparr>]\<rparr>]\<rparr>) = Some (True, add_page (pi, k) al g m mm)"
    and inv2: "mm_inv L M (add_page (pi, k) al g m mm) (C((pi, k) := [(c, Main)])) (Q((pi, k) := []))"
    using malloc_page_run [OF inv Suc.prems(2) k(1,2) Suc.prems(3) k(3) Suc.prems(7)] unfolding pool_def by blast
  let ?mm = "add_page (pi, k) al g m mm"
  have s: "mm_page_size ?mm = mm_page_size mm" "mm_init ?mm = mm_init mm" "mm_mmaps ?mm = mm_mmaps mm + 1"
    "mm_preloading_page ?mm = mm_preloading_page mm" "l_id (mm_pool ?mm ! i) = l_id (mm_pool mm ! i)"
    "l_page_number (mm_pool ?mm ! i) = (if i = pi then k + 1 else l_page_number (mm_pool mm ! i))" for i
    using Suc.prems(2) len by (auto simp: add_page_def Let_def nth_list_update)
  have e: "pool\<lparr>l_page := X, l_page_number := Suc k\<rparr> = pool\<lparr>l_page_number := Suc k, l_page := X\<rparr>" for X
    by (rule pool_commute)
  have up: "[k..<k + Suc j] = k # [k + 1..<k + 1 + j]" by (simp add: upt_rec del: upt_Suc)
  have step: "pool_pages pi [k..<k + Suc j] mm = pool_pages pi [k + 1..<k + 1 + j] ?mm"
    unfolding up using run len Suc.prems(2) kl k(1) [folded pool_def, symmetric]
    by (simp add: e Let_def pool_def [symmetric] del: upt_Suc)
  have "\<exists>mm' C' Q'. pool_pages pi [k + 1..<k + 1 + j] ?mm = Some (True, mm') \<and> mm_inv L M mm' C' Q' \<and> same_rest ?mm mm' \<and>
    mm_mmaps mm' = mm_mmaps ?mm + j \<and>
    (\<forall>i. l_page_number (mm_pool mm' ! i) = (if i = pi then k + 1 + j else l_page_number (mm_pool ?mm ! i)))"
    by (rule Suc.IH [OF inv2]) (use Suc.prems s in auto)
  then obtain mm' C' Q' where r: "pool_pages pi [k + 1..<k + 1 + j] ?mm = Some (True, mm')" "mm_inv L M mm' C' Q'"
    "same_rest ?mm mm'" "mm_mmaps mm' = mm_mmaps ?mm + j"
    "\<forall>i. l_page_number (mm_pool mm' ! i) = (if i = pi then k + 1 + j else l_page_number (mm_pool ?mm ! i))" by blast
  have "same_rest mm mm'" "mm_mmaps mm' = mm_mmaps mm + Suc j"
    "\<forall>i. l_page_number (mm_pool mm' ! i) = (if i = pi then k + Suc j else l_page_number (mm_pool mm ! i))"
    using r(3-5) s by (simp_all add: same_rest_def)
  then show ?case unfolding step using r(1,2) by blast
qed

lemma set_id_inv:
  assumes "mm_inv L M mm C Q"
  shows "mm_inv L M (mm\<lparr>mm_pool := (mm_pool mm)[pi := (mm_pool mm ! pi)\<lparr>l_id := pi\<rparr>]\<rparr>) C Q"
proof (rule mm_inv_cong(1) [OF assms])
  fix i :: nat assume "i < 8"
  then show "l_page (mm_pool (mm\<lparr>mm_pool := (mm_pool mm)[pi := (mm_pool mm ! pi)\<lparr>l_id := pi\<rparr>]\<rparr>) ! i) = l_page (mm_pool mm ! i)"
    "l_page_number (mm_pool (mm\<lparr>mm_pool := (mm_pool mm)[pi := (mm_pool mm ! pi)\<lparr>l_id := pi\<rparr>]\<rparr>) ! i) = l_page_number (mm_pool mm ! i)"
    using mm_invD(3) [OF assms] by (cases "i = pi"; simp add: nth_list_update)+
qed simp_all

lemma pools_init_run:
  assumes "mm_inv L M mm C Q" and "pi + j = 8" and "mm_preloading_page mm = 2" and "mm_mmaps mm + 2 * j \<le> M"
    and "mm_page_size mm + 4223 \<le> L" and "\<forall>i < pi. l_id (mm_pool mm ! i) = i \<and> l_page_number (mm_pool mm ! i) = 2"
    and "\<forall>i. pi \<le> i \<longrightarrow> i < 8 \<longrightarrow> l_page_number (mm_pool mm ! i) = 0"
  shows "\<exists>mm' C' Q'. pools_init [pi..<8] mm = Some (True, mm') \<and> mm_inv L M mm' C' Q' \<and> mm_page_size mm' = mm_page_size mm \<and>
    mm_mmaps mm' = mm_mmaps mm + 2 * j \<and>
    (\<forall>i < 8. l_id (mm_pool mm' ! i) = i \<and> l_page_number (mm_pool mm' ! i) = 2)"
  using assms
proof (induction j arbitrary: pi mm C Q)
  case 0
  then show ?case by auto
next
  case (Suc j)
  note inv = Suc.prems(1)
  have pi: "pi < 8" and len: "length (mm_pool mm) = 9" using Suc.prems(2) mm_invD(3) [OF inv] by simp_all
  let ?mm = "mm\<lparr>mm_pool := (mm_pool mm)[pi := (mm_pool mm ! pi)\<lparr>l_id := pi\<rparr>]\<rparr>"
  have s: "l_id (mm_pool ?mm ! i) = (if i = pi then pi else l_id (mm_pool mm ! i))"
    "l_page_number (mm_pool ?mm ! i) = l_page_number (mm_pool mm ! i)" for i
    using pi len by (auto simp: nth_list_update)
  have "\<exists>mm' C' Q'. pool_pages pi [0..<0 + 2] ?mm = Some (True, mm') \<and> mm_inv L M mm' C' Q' \<and> same_rest ?mm mm' \<and>
    mm_mmaps mm' = mm_mmaps ?mm + 2 \<and>
    (\<forall>i. l_page_number (mm_pool mm' ! i) = (if i = pi then 0 + 2 else l_page_number (mm_pool ?mm ! i)))"
    by (rule pool_pages_run [OF set_id_inv [OF inv] pi]) (use Suc.prems s pi len in \<open>auto simp: max_page_number_def\<close>)
  then obtain mm1 C1 Q1 where r: "pool_pages pi [0..<0 + 2] ?mm = Some (True, mm1)" and inv1: "mm_inv L M mm1 C1 Q1"
    and rest: "same_rest ?mm mm1" and mm1: "mm_mmaps mm1 = mm_mmaps ?mm + 2"
    and pn: "\<forall>i. l_page_number (mm_pool mm1 ! i) = (if i = pi then 0 + 2 else l_page_number (mm_pool ?mm ! i))" by blast
  let ?mm1 = "mm1\<lparr>mm_pool_number := pi + 1\<rparr>"
  have inv2: "mm_inv L M ?mm1 C1 Q1" by (rule mm_inv_cong(1) [OF inv1]) simp_all
  have r1: "mm_page_size mm1 = mm_page_size mm" "mm_preloading_page mm1 = 2"
    "\<And>i. l_id (mm_pool mm1 ! i) = (if i = pi then pi else l_id (mm_pool mm ! i))"
    using rest Suc.prems(3) s by (simp_all add: same_rest_def)
  have "\<exists>mm' C' Q'. pools_init [pi + 1..<8] ?mm1 = Some (True, mm') \<and> mm_inv L M mm' C' Q' \<and> mm_page_size mm' = mm_page_size ?mm1 \<and>
    mm_mmaps mm' = mm_mmaps ?mm1 + 2 * j \<and> (\<forall>i < 8. l_id (mm_pool mm' ! i) = i \<and> l_page_number (mm_pool mm' ! i) = 2)"
    by (rule Suc.IH [OF inv2]) (use Suc.prems r1 pn s(2) mm1 in \<open>auto simp: less_Suc_eq\<close>)
  moreover have "pools_init [pi..<8] mm = pools_init [pi + 1..<8] ?mm1"
    using r [unfolded add_0] pi len Suc.prems(3) by (simp add: upt_conv_Cons [OF pi] del: upt_Suc pool_pages.simps)
  ultimately show ?case using mm1 r1(1) by auto
qed

lemma malloc_pool_run:
  assumes "mmap_ok L M mmap" and "16 \<le> M" and "page_size_default + 4223 \<le> L"
  shows "\<exists>mm. malloc_pool (memory_manager mmap) = Some (True, mm) \<and> mm_ready L M mm [] \<and> mm_mmaps mm = 16 \<and>
    (\<forall>i < 8. l_page_number (mm_pool mm ! i) = 2)"
proof -
  let ?mm = "(memory_manager mmap)\<lparr>mm_page_size := page_size_default, mm_preloading_page := 2,
                     mm_page_aligned_mask := 4096 - 1, mm_pool_number := 0\<rparr>"
  have pools: "mm_pool ?mm ! i = zero_pool" if "i < 9" for i using that by (simp add: memory_manager_def max_pool_number_def)
  have nl: "\<not> live ?mm p" for p using pools [of "fst p"] by (auto simp: live_def zero_pool_def max_pool_number_def)
  have "mm_inv L M ?mm (\<lambda>_. []) (\<lambda>_. [])"
  proof (rule mm_invI)
    show "pool_shape (mm_pool ?mm ! pi)" if "pi < 8" for pi
      using pools [of pi] that by (simp add: pool_shape_def zero_pool_def zero_page_def max_page_number_def)
  qed (use nl assms(1) in \<open>simp_all add: memory_manager_def no_mem_def all_even_def max_pool_number_def\<close>)
  then obtain mm C Q where r: "pools_init [0..<8] ?mm = Some (True, mm)" "mm_inv L M mm C Q" "mm_page_size mm = page_size_default"
    "mm_mmaps mm = 16" "\<forall>i < 8. l_id (mm_pool mm ! i) = i \<and> l_page_number (mm_pool mm ! i) = 2"
    using pools_init_run [of L M ?mm "\<lambda>_. []" "\<lambda>_. []" 0 8] assms pools by (auto simp: memory_manager_def zero_pool_def)
  have "malloc_pool (memory_manager mmap) = Some (True, mm\<lparr>mm_init := True\<rparr>)"
    using r(1) by (simp add: malloc_pool_def max_pool_number_def memory_manager_def)
  moreover have "mm_inv L M (mm\<lparr>mm_init := True\<rparr>) C Q" by (rule mm_inv_cong(1) [OF r(2)]) simp_all
  then have "mm_ready L M (mm\<lparr>mm_init := True\<rparr>) []" using r by (auto simp: mm_ready_def mm_ids_def max_pool_number_def)
  ultimately show ?thesis using r by auto
qed

section \<open>The manager as a store\<close>

definition mm_get :: "u64 \<Rightarrow> xmalloc \<Rightarrow> (nat option \<times> xmalloc) option" where
  "mm_get req mm = do { (a, mm') \<leftarrow> malloc_mm req mm; Some (if a = 0 then None else Some a, mm') }"

definition mm_store :: "nat \<Rightarrow> nat \<Rightarrow> xmalloc \<Rightarrow> (nat \<times> nat) list \<Rightarrow> bool" where
  "mm_store L M mm bs \<longleftrightarrow> mm_ready L M mm bs \<or> bs = [] \<and> (\<exists>mmap. mmap_ok L M mmap \<and> mm = memory_manager mmap)"

lemma malloc_first:
  assumes "mmap_ok L M mmap" and "mm_request_ok L M req (memory_manager mmap)"
  shows "\<exists>a mm'. malloc_mm req (memory_manager mmap) = Some (a, mm') \<and> a \<noteq> 0 \<and> mm_ready L M mm' [(a, unat req)]"
proof -
  have r: "unat req \<le> 2 ^ 63" "page_size_default + unat req + 4255 \<le> L" "16 < M"
    using assms(2) by (simp_all add: mm_request_ok_def memory_manager_def)
  obtain mm where mm: "malloc_pool (memory_manager mmap) = Some (True, mm)" "mm_ready L M mm []" "mm_mmaps mm = 16"
    "\<forall>i < 8. l_page_number (mm_pool mm ! i) = 2" using malloc_pool_run [OF assms(1)] r(2,3) by auto
  have "\<exists>a mm'. malloc_mm req mm = Some (a, mm') \<and> a \<noteq> 0 \<and> mm_ready L M mm' ([] @ [(a, unat req)])"
    by (rule malloc_mm_run [OF mm(2) r(1,2)]) (use mm r(3) in \<open>auto simp: max_page_number_def\<close>)
  moreover have "malloc_mm req (memory_manager mmap) = malloc_mm req mm"
    using mm(1,2) unfolding malloc_mm_def mm_ready_def by (simp add: memory_manager_def)
  ultimately show ?thesis by simp
qed

lemma mm_get_law:
  assumes ok: "mm_store L M mm bs" and req: "mm_request_ok L M req mm"
  shows "\<exists>a mm'. mm_get req mm = Some (Some a, mm') \<and> mm_store L M mm' (bs @ [(a, unat req)])"
proof -
  have "\<exists>a mm'. malloc_mm req mm = Some (a, mm') \<and> a \<noteq> 0 \<and> mm_ready L M mm' (bs @ [(a, unat req)])"
    using ok unfolding mm_store_def
  proof (elim disjE exE conjE)
    assume ready: "mm_ready L M mm bs"
    then have "length (mm_pool mm) = 9" using mm_invD(3) unfolding mm_ready_def by blast
    then show ?thesis
      by (intro malloc_mm_run [OF ready]) (use req in \<open>auto simp: mm_request_ok_def list_all_length max_pool_number_def\<close>)
  next
    fix mmap assume "bs = []" "mmap_ok L M mmap" "mm = memory_manager mmap"
    then show ?thesis using malloc_first [of L M mmap req] req by simp
  qed
  then show ?thesis by (fastforce simp: mm_get_def mm_store_def)
qed

interpretation heap: block_store "mm_store L M" "mm_request_ok L M" mm_get "free_mm False" mm_write for L M
proof
  fix s bs req assume "mm_store L M s bs" "mm_request_ok L M req s"
  then show "\<exists>r s'. mm_get req s = Some (r, s') \<and> mm_store L M s' (case r of None \<Rightarrow> bs | Some a \<Rightarrow> bs @ [(a, unat req)])"
    using mm_get_law by fastforce
next
  fix s bs i assume "mm_store L M s bs" "i < length bs"
  then show "\<exists>s'. free_mm False (fst (bs ! i)) s = Some s' \<and> mm_store L M s' (take i bs @ drop (Suc i) bs)"
    using mm_put_law [of L M s bs i] unfolding mm_store_def by auto
next
  fix s bs i v w assume "mm_store L M s bs" "i < length bs"
  then show "mm_store L M (mm_write (fst (bs ! i)) v w s) bs"
    using mm_write_law [of L M s bs i] unfolding mm_store_def by auto
next
  fix s bs i j assume "mm_store L M s bs" "i < j" "j < length bs"
  then show "fst (bs ! i) + snd (bs ! i) \<le> fst (bs ! j) \<or> fst (bs ! j) + snd (bs ! j) \<le> fst (bs ! i)"
    using mm_apart_law [of L M s bs i j] unfolding mm_store_def by auto
qed

end
