(* ===== verification/Xmalloc_Props.thy ===== *)
theory Xmalloc_Props
  imports Xmalloc_Heap
begin

text \<open>
  Properties of the memory manager: a page serves any sequence of requests and releases, the leak check is
  exact, and what happens at the two limits that the code does not check.
\<close>

section \<open>The leak check\<close>

lemma useds_Nil: "useds a cs = [] \<longleftrightarrow> (\<forall>c \<in> set cs. snd c \<noteq> Used)"
  by (induction cs arbitrary: a) auto

lemma apart_no_used:
  assumes "apart cs" and "\<forall>c \<in> set cs. snd c \<noteq> Used" and "cs = us @ c # vs"
  shows "us = []" and "vs = []"
  using assms by (cases us rule: rev_cases; cases vs; auto simp: apart_def successively_append_iff)+

lemma extent_pos:
  assumes "\<And>c. c \<in> set cs \<Longrightarrow> 0 < fst c"
  shows "extent cs = 0 \<longleftrightarrow> cs = []"
  using assms by (cases cs) auto

lemma page_leaks_exact:
  assumes inv: "page_inv g m cs q" and "g_start_address g \<noteq> 0"
  shows "page_leaks g m = Some (useds (base g) cs \<noteq> [])"
proof -
  note d = page_invD [OF inv]
  obtain sm where sm: "m_size m (g_ptr g) = Some sm" using main_size [OF inv] by blast
  obtain us vs where cs: "cs = us @ (sm, Main) # vs" using main_here [OF inv sm] by blast
  have z: "g_size g - 64 = extent cs" using d(2,11) by (simp add: base_eq)
  have pos: "extent us = 0 \<longleftrightarrow> us = []" "extent vs = 0 \<longleftrightarrow> vs = []"
    by (rule extent_pos; use page_pos [OF inv] cs in simp)+
  have e: "extent cs = extent us + sm + extent vs" using cs by simp
  have "sm = extent cs \<longleftrightarrow> us = [] \<and> vs = []" unfolding e using pos by linarith
  also have "\<dots> \<longleftrightarrow> useds (base g) cs = []"
  proof
    assume "us = [] \<and> vs = []"
    then show "useds (base g) cs = []" using cs by simp
  next
    assume "useds (base g) cs = []"
    then show "us = [] \<and> vs = []" using apart_no_used [OF d(6) _ cs] unfolding useds_Nil by blast
  qed
  finally show ?thesis using sm z assms(2) by (simp add: page_leaks_def)
qed

section \<open>A page under any sequence of operations\<close>

lemma store_leaks:
  assumes "page_store st e s bs" and "st \<noteq> 0"
  shows "page_leaks (fst s) (snd s) = Some (bs \<noteq> [])"
proof -
  from assms(1) obtain cs q us where g: "g_start_address (fst s) = st" and inv: "page_inv (fst s) (snd s) cs q"
    and us: "mset us = mset (useds (st + 32) cs)" "list_all2 fits bs us" unfolding page_store_def by blast
  have b: "base (fst s) = st + 32" using g by (simp add: base_eq)
  have "bs = [] \<longleftrightarrow> us = []" using us(2) by auto
  also have "\<dots> \<longleftrightarrow> useds (st + 32) cs = []" using us(1) by (metis mset_zero_iff)
  finally show ?thesis using page_leaks_exact [OF inv] g assms(2) b by simp
qed

lemma new_page_store:
  assumes "g_size page = 64 + n" and "32 \<le> n" and "8 dvd n" and "g_start_address page = st" and "st + 32 + n < 2 ^ 64"
  shows "\<exists>s. format_page pid page m0 = Some s \<and> page_store st (st + 32 + n) s []"
proof -
  from format_page_run [OF assms(1-4), of pid m0] obtain m where
    run: "format_page pid page m0 = Some (page\<lparr>g_head := st, g_ptr := st + 32, g_end := st + 32 + n,
        g_recycle_pool := replicate max_recycle_pool \<lparr>r_lock = False, r_head = 0, r_memory_size = 0\<rparr>\<rparr>, m)"
    and inv: "page_inv (page\<lparr>g_head := st, g_ptr := st + 32, g_end := st + 32 + n,
        g_recycle_pool := replicate max_recycle_pool \<lparr>r_lock = False, r_head = 0, r_memory_size = 0\<rparr>\<rparr>)
      m [(n, Main)] []" by blast
  show ?thesis
    by (rule exI, rule conjI, rule run, rule page_storeI [OF _ _ assms(5) inv, of st "[]"]) (simp_all add: assms(4))
qed

text \<open>
  C22. A new page survives any sequence of requests, releases and user writes: no operation reads
  unwritten memory or writes outside the page, the blocks in use lie inside the page, between the
  sentinels, and are pairwise disjoint, and the leak check reports the page exactly when some block is still in use. User
  data written over the link fields of a block does no harm.
\<close>

theorem xmalloc_page_safe:
  assumes "g_size page = 64 + n" and "32 \<le> n" and "8 dvd n"
    and "g_start_address page = st" and "st \<noteq> 0" and "st + 32 + n < 2 ^ 64"
  shows "\<exists>s s' bs. format_page pid page m0 = Some s \<and>
    client request_ok (page_get pid i) page_put page_write ops s [] = Some (s', bs) \<and>
    (\<forall>k < length bs. st + 48 \<le> fst (bs ! k) \<and> fst (bs ! k) + snd (bs ! k) \<le> st + 32 + n) \<and>
    (\<forall>k l. k < l \<longrightarrow> l < length bs \<longrightarrow>
       fst (bs ! k) + snd (bs ! k) \<le> fst (bs ! l) \<or> fst (bs ! l) + snd (bs ! l) \<le> fst (bs ! k)) \<and>
    page_leaks (fst s') (snd s') = Some (bs \<noteq> [])"
proof -
  obtain s where s: "format_page pid page m0 = Some s" "page_store st (st + 32 + n) s []"
    using new_page_store [OF assms(1-4,6)] by blast
  obtain s' bs where r: "client request_ok (page_get pid i) page_put page_write ops s [] = Some (s', bs)"
    and ok: "page_store st (st + 32 + n) s' bs" using page.client_run [OF s(2)] by blast
  show ?thesis
    by (intro exI conjI, rule s(1), rule r, use page_store_blocks [OF ok] store_leaks [OF ok assms(5)] in simp_all)
qed

definition demo_page :: xmalloc_page where
  "demo_page = \<lparr>g_lock = False, g_id = 1, g_size = 4096, g_start_address = 0x10000, g_ptr = 0, g_head = 0, g_end = 0,
     g_recycle_pool = []\<rparr>"

theorem xmalloc_page_safe_witness:
  "\<exists>s s' bs. format_page 0 demo_page no_mem = Some s \<and>
    client request_ok (page_get 0 1) page_put page_write [Get 100, Get 24, Write 0 7 7, Put 0, Get 8, Get 5000, Get 60] s [] = Some (s', bs) \<and>
    (\<forall>k < length bs. 0x10000 + 48 \<le> fst (bs ! k) \<and> fst (bs ! k) + snd (bs ! k) \<le> 0x10000 + 32 + 4032) \<and>
    (\<forall>k l. k < l \<longrightarrow> l < length bs \<longrightarrow>
       fst (bs ! k) + snd (bs ! k) \<le> fst (bs ! l) \<or> fst (bs ! l) + snd (bs ! l) \<le> fst (bs ! k)) \<and>
    page_leaks (fst s') (snd s') = Some (bs \<noteq> [])"
  by (rule xmalloc_page_safe) (simp_all add: demo_page_def)

lemma empty_store_serves:
  assumes ok: "page_store st (st + 32 + n) s []" and "unat req \<le> 2 ^ 63" and "unat (req2align req) + 32 \<le> n"
  shows "\<exists>s'. page_get pid i req s = Some (Some (st + 48), s')"
proof -
  obtain g m where s: "s = (g, m)" by (cases s)
  from ok obtain cs q where g: "g_start_address g = st" "g_end g = st + 32 + n" "g_end g < 2 ^ 64"
    and inv: "page_inv g m cs q" and u: "\<forall>c \<in> set cs. snd c \<noteq> Used"
    unfolding page_store_def s by (auto simp: useds_Nil)
  have b: "base g = st + 32" using g by (simp add: base_eq)
  note d = page_invD [OF inv]
  obtain sm where sm: "m_size m (g_ptr g) = Some sm" using main_size [OF inv] by blast
  obtain xs ys where c: "cs = xs @ (sm, Main) # ys" "g_ptr g = base g + extent xs" using main_here [OF inv sm] .
  have cs: "cs = [(sm, Main)]" using apart_no_used [OF d(6) u c(1)] c(1) by simp
  have sn: "sm = n" using d(11) cs g b by simp
  note r = req2align_bounds [OF assms(2)]
  have inv1: "page_inv g m ([] @ (sm, Main) # []) q" using inv cs by simp
  obtain m' where "cut_chunk pid i (unat (req2align req)) g m
      = Some (base g, g\<lparr>g_ptr := base g + unat (req2align req)\<rparr>, m')"
    using cut_chunk_run [OF inv1 r(1,2) _ _ g(3), of "base g" pid i] assms(3) sn by auto
  then show ?thesis
    using sm sn assms(3) r(5) b by (simp add: page_get_def page_malloc_def s pointer2address_def)
qed

text \<open>
  C23. Nothing is lost to fragmentation: after any sequence of operations a client can return all
  its blocks, and then the page serves every request that a new page of that size serves, at the same address.
\<close>

theorem xmalloc_page_reusable:
  assumes "g_size page = 64 + n" and "32 \<le> n" and "8 dvd n"
    and "g_start_address page = st" and "st + 32 + n < 2 ^ 64"
    and "unat req \<le> 2 ^ 63" and "unat (req2align req) + 32 \<le> n"
  shows "\<exists>s s' s''. format_page pid page m0 = Some s \<and>
    client request_ok (page_get pid i) page_put page_write (ops @ replicate (gets ops) (Put 0)) s [] = Some (s', []) \<and>
    page_get pid i req s' = Some (Some (st + 48), s'')"
proof -
  obtain s where s: "format_page pid page m0 = Some s" "page_store st (st + 32 + n) s []"
    using new_page_store [OF assms(1-5), of pid m0] by blast
  obtain s' where r: "client request_ok (page_get pid i) page_put page_write (ops @ replicate (gets ops) (Put 0)) s [] = Some (s', [])"
    and ok: "page_store st (st + 32 + n) s' []" using page.client_release [OF s(2)] by blast
  show ?thesis using s(1) r empty_store_serves [OF ok assms(6,7), of pid i] by blast
qed

theorem xmalloc_page_reusable_witness:
  "\<exists>s s' s''. format_page 0 demo_page no_mem = Some s \<and>
    client request_ok (page_get 0 1) page_put page_write ([Get 100, Get 24, Put 0, Get 60] @ replicate 3 (Put 0)) s [] = Some (s', []) \<and>
    page_get 0 1 3984 s' = Some (Some (0x10000 + 48), s'')"
proof -
  have z: "unat (req2align 3984) = 4000" using req2align_exact [of 3984] by simp
  show ?thesis
    using xmalloc_page_reusable [of demo_page 4032 "0x10000" 3984 0 no_mem 1 "[Get 100, Get 24, Put 0, Get 60]"] z
    by (simp add: demo_page_def numeral_3_eq_3)
qed

section \<open>The whole manager\<close>

lemma mm_store_blocks:
  assumes "mm_store L M mm bs" and b: "b \<in> set bs"
  shows "8 dvd fst b" and "fst b + snd b < 2 ^ 64"
proof -
  have "mm_ready L M mm bs" using assms unfolding mm_store_def by auto
  then obtain C Q where inv: "mm_inv L M mm C Q" and h: "mm_holds mm C b" unfolding mm_ready_def using b by blast
  obtain p x c where p: "live mm p" and u: "(x, c) \<in> set (useds (base (page_at mm p)) (C p))" and f: "fits b (x, c)"
    using h unfolding mm_holds_def by (metis prod.collapse)
  let ?g = "page_at mm p"
  have good: "g_end ?g < 2 ^ 64" "page_inv ?g (mm_mem mm) (C p) (Q p)"
    using mm_invD(7) [OF inv p] unfolding page_good_def by blast+
  obtain n where "n < M" "mm_mmap mm n = Some (g_start_address ?g)" using mm_invD(8) [OF inv p] unfolding origin_def by blast
  then have "g_start_address ?g AND (align_size - 1) = 0" using mm_invD(1) [OF inv] unfolding mmap_ok_def by (metis option.inject)
  moreover have "g_start_address ?g AND (align_size - 1) = g_start_address ?g mod 8"
    using take_bit_eq_mask [of 3 "g_start_address ?g"] by (simp add: take_bit_eq_mod mask_eq_exp_minus_1)
  ultimately have al: "8 dvd g_start_address ?g" by auto
  obtain xs ys where cs: "C p = xs @ (c, Used) # ys" and x: "x = base ?g + extent xs" using u by (rule useds_split)
  have "8 dvd extent xs" by (rule dvd_extent) (use layout_sizes(2) [OF page_invD(3) [OF good(2)]] cs in auto)
  then show "8 dvd fst b" using f x al by (auto simp: fits_def base_eq)
  have "x + c \<le> g_end ?g" using useds_bounds(2) [OF u] page_invD(11) [OF good(2)] by simp
  then show "fst b + snd b < 2 ^ 64" using f good(1) by (simp add: fits_def)
qed

text \<open>
  C6. \<open>malloc\<close> and \<open>free\<close> from the start of the program: for any sequence of requests, releases
  and user writes no operation faults, the blocks in use are pairwise disjoint, aligned and in the
  address space, and the next request is served, as long as \<open>mmap\<close> returns aligned mappings that do not overlap and no
  pool has used up its page slots. A release finds the pool and the page of a block from the mark behind it.
\<close>

theorem malloc_free_safe:
  assumes "mmap_ok L M mmap"
  shows "\<exists>mm bs. client (mm_request_ok L M) mm_get (free_mm False) mm_write ops (memory_manager mmap) [] = Some (mm, bs) \<and>
    (\<forall>k l. k < l \<longrightarrow> l < length bs \<longrightarrow>
       fst (bs ! k) + snd (bs ! k) \<le> fst (bs ! l) \<or> fst (bs ! l) + snd (bs ! l) \<le> fst (bs ! k)) \<and>
    (\<forall>b \<in> set bs. 8 dvd fst b \<and> fst b + snd b < 2 ^ 64) \<and>
    (\<forall>req. mm_request_ok L M req mm \<longrightarrow> (\<exists>a mm'. mm_get req mm = Some (Some a, mm')))"
proof -
  have "mm_store L M (memory_manager mmap) []" using assms unfolding mm_store_def by blast
  then obtain mm bs where r: "client (mm_request_ok L M) mm_get (free_mm False) mm_write ops (memory_manager mmap) [] = Some (mm, bs)"
    and ok: "mm_store L M mm bs" using heap.client_run by blast
  have d: "fst (bs ! k) + snd (bs ! k) \<le> fst (bs ! l) \<or> fst (bs ! l) + snd (bs ! l) \<le> fst (bs ! k)"
    if "k < l" "l < length bs" for k l using heap.apart_law [OF ok that] .
  have g: "\<exists>a mm'. mm_get req mm = Some (Some a, mm')" if "mm_request_ok L M req mm" for req
    using mm_get_law [OF ok that] by blast
  show ?thesis
    by (rule exI [of _ mm], rule exI [of _ bs], intro conjI allI impI ballI)
       (rule r d g mm_store_blocks [OF ok]; assumption)+
qed

definition demo_mmap :: "nat \<Rightarrow> nat option" where
  "demo_mmap n = Some ((n + 1) * 2 ^ 25)"

lemma demo_mmap_ok: "mmap_ok (2 ^ 25) 4096 demo_mmap"
proof -
  have "(n + 1) * 2 ^ 25 AND (align_size - 1) = (n + 1) * 2 ^ 25 mod 2 ^ 3" for n :: nat
    using take_bit_eq_mask [of 3 "(n + 1) * 2 ^ 25"] by (simp add: take_bit_eq_mod mask_eq_exp_minus_1)
  moreover have "(n + 1) * 2 ^ 25 mod 2 ^ 3 = 0" for n :: nat by (simp add: mod_eq_0_iff_dvd)
  moreover have "(i + 1) * 2 ^ 25 + 2 ^ 25 \<le> (j + 1) * 2 ^ 25" if "i < j" for i j :: nat using that by simp
  ultimately show ?thesis unfolding mmap_ok_def demo_mmap_def
    by (auto simp del: One_nat_def mult_Suc)
qed

theorem malloc_free_safe_witness:
  "\<exists>mm bs. client (mm_request_ok (2 ^ 25) 4096) mm_get (free_mm False) mm_write
      [Get 100, Get 24, Get 1000000, Write 1 7 7, Put 0, Get 8, Put 1] (memory_manager demo_mmap) [] = Some (mm, bs) \<and>
    (\<forall>k l. k < l \<longrightarrow> l < length bs \<longrightarrow>
       fst (bs ! k) + snd (bs ! k) \<le> fst (bs ! l) \<or> fst (bs ! l) + snd (bs ! l) \<le> fst (bs ! k)) \<and>
    (\<forall>b \<in> set bs. 8 dvd fst b \<and> fst b + snd b < 2 ^ 64) \<and>
    (\<forall>req. mm_request_ok (2 ^ 25) 4096 req mm \<longrightarrow> (\<exists>a mm'. mm_get req mm = Some (Some a, mm')))"
  by (rule malloc_free_safe [OF demo_mmap_ok])

section \<open>Limits\<close>

text \<open>
  C32. Rounding a request: every request up to \<open>2 ^ 64 - 24\<close> becomes a chunk that holds the request
  and its header, a multiple of 8 of at least 32 bytes with less than 16 + 16 bytes of overhead; above that
  limit the sum wraps around and the chunk has 32 bytes or is smaller than a header.
\<close>

theorem req2align_limit:
  "(if unat req < 2 ^ 64 - 23
    then unat req + 16 \<le> unat (req2align req) \<and> unat (req2align req) \<le> unat req + 32 \<and>
         32 \<le> unat (req2align req) \<and> 8 dvd unat (req2align req)
    else unat (req2align req) \<le> 32)"
proof (cases "unat req < 2 ^ 64 - 23")
  case True
  then have "unat (req2align req) = (if unat req < 16 then 32 else (unat req + 23) div 8 * 8)"
    by (intro req2align_exact) simp
  then show ?thesis using True by auto
next
  case False
  have m: "(of_nat (align_size - 1) :: u64) = mask 3" by (simp add: mask_eq_exp_minus_1)
  have le: "unat (x AND NOT (mask 3)) \<le> unat x" for x :: u64 by (simp add: unat_and_not_mask)
  have lt: "unat req < 2 ^ 64" by (rule unat64_less)
  then have "unat (req + 23) = unat req + 23 - 2 ^ 64"
    using False by (simp add: unat_word_ariths mod_if)
  then have "unat (req + of_nat work_pointer_size + of_nat (align_size - 1)) \<le> 32" using lt by (simp add: add.commute)
  then show ?thesis using False le order_trans unfolding req2align_def m [symmetric] by (auto simp: m intro: order_trans [OF le])
qed

text \<open>
  C39. Running out of memory is not survived: when \<open>mmap\<close> fails for a new page, \<open>malloc\<close> returns
  NULL, but the page stays counted in \<open>page_number\<close> with \<open>page->ptr\<close> NULL, and the next request that gets as far as
  this page dereferences it, whatever its size.
\<close>

theorem malloc_after_oom:
  assumes "rd (mm_pool mm) pi = Some pool" and "l_page_number pool = k" and "k + 1 < max_page_number"
    and "k < length (l_page pool)" and "\<not> g_lock (l_page pool ! k)" and "g_id (l_page pool ! k) = 0"
    and "g_ptr (l_page pool ! k) = 0" and "mm_mmap mm (mm_mmaps mm) = None" and "m_size (mm_mem mm) 0 = None"
  shows "\<exists>mm' pool'. new_page_malloc pi sz mm = Some (0, mm') \<and>
    rd (mm_pool mm') pi = Some pool' \<and> l_page_number pool' = k + 1 \<and>
    (\<forall>sz' reserved. try_pages pi sz' reserved [k] mm' = None)"
proof -
  have slot: "new_slot pool = (Some k, pool\<lparr>l_page_number := k + 1,
      l_page := (l_page pool)[k := (l_page pool ! k)\<lparr>g_id := k\<rparr>]\<rparr>)"
    using assms by (subst new_slot.simps) (simp add: Let_def)
  have pi: "pi < length (mm_pool mm)" using assms(1) by (auto simp: rd_def split: if_splits)
  show ?thesis
    using assms pi
    by (simp add: new_page_malloc_def slot malloc_page_def mmap_loop.simps Let_def page_malloc_def)
qed

definition small_pool :: xmalloc_pool where
  "small_pool = \<lparr>l_page_number = 1, l_id = 0, l_aligned_address = 0,
     l_page = replicate 3 (demo_page\<lparr>g_id := 0\<rparr>)\<rparr>"

definition full_mm :: xmalloc where
  "full_mm = \<lparr>mm_init = True, mm_pool_index = 0, mm_page_size = 4096, mm_pool_number = 1, mm_preloading_page = 1,
     mm_page_aligned_mask = 4095, mm_pool = [small_pool], mm_mem = no_mem, mm_mmap = (\<lambda>_. None), mm_mmaps = 0\<rparr>"

theorem malloc_after_oom_witness:
  "\<exists>mm' pool'. new_page_malloc 0 64 full_mm = Some (0, mm') \<and>
    rd (mm_pool mm') 0 = Some pool' \<and> l_page_number pool' = 1 + 1 \<and>
    (\<forall>sz' reserved. try_pages 0 sz' reserved [1] mm' = None)"
  by (rule malloc_after_oom [of full_mm 0 small_pool])
     (simp_all add: full_mm_def small_pool_def demo_page_def no_mem_def max_page_number_def)

end
