(* ===== verification/Xltp.thy ===== *)
theory Xltp
  imports Channel Xtree_Map
begin

text \<open>
  The protocol above the messenger, \<open>src/src/xnet/xltp.c\<close>: one thread takes messages out of a pipe and
  hands each to the handler it belongs to. A request names its handler by the field \<open>api\<close>, which is looked up
  in a radix tree; a reply goes to the callback stored in the request of its channel.

  Messages are frames in a heap; a frame that has been freed is no longer there, and touching it is
  \<^term>\<open>None\<close>. The messenger is what is handed to it (\<open>x_out\<close>), the pipe the sequence of the messages in it, which is what
  the theory \<open>Pipe\<close> proves of pointers written whole. The results of the socket, of the pipe and of memory
  allocation are streams of the state. A call through a function pointer is the argument \<open>call\<close>; the file
  streams of \<open>xlio.c\<close> are the argument \<open>io\<close>. Output for debugging (\<open>xl_printf\<close>, logs) is left out.
\<close>

section \<open>State\<close>

datatype local_msg = Connect nat | Disconnect nat | Flush nat

datatype io_call = Stream_write nat nat | Stream_resave nat nat | Stream_close nat
  | Start_downloader nat bool | Start_uploader nat bool

record xltp =
  x_runnig :: bool
  x_api :: nat
  x_parser :: "xparser option"
  x_pipe :: "nat list"
  x_frames :: "nat \<Rightarrow> xframe option"
  x_trees :: xtrees
  x_req :: "nat \<Rightarrow> nat"
  x_ctx :: "nat \<Rightarrow> nat"
  x_out :: "local_msg list"
  x_sendok :: "nat \<Rightarrow> bool"
  x_sends :: nat
  x_writeok :: "nat \<Rightarrow> bool"
  x_writes :: nat
  x_malloc :: "nat \<Rightarrow> nat"
  x_mallocs :: nat
  x_junk :: "nat \<Rightarrow> u8"
  x_raw :: xframe

type_synonym calls = "nat \<Rightarrow> nat \<Rightarrow> xltp \<Rightarrow> (bool \<times> xltp) option"
type_synonym ios = "io_call \<Rightarrow> xltp \<Rightarrow> (bool \<times> xltp) option"

definition XMSG_FLAG_RECV :: u8 where "XMSG_FLAG_RECV = 0x00"
definition XMSG_FLAG_POST :: u8 where "XMSG_FLAG_POST = 0x01"
definition XMSG_FLAG_BACK :: u8 where "XMSG_FLAG_BACK = 0x02"
definition XMSG_FLAG_TIMEDOUT :: u8 where "XMSG_FLAG_TIMEDOUT = 0x03"

definition xmsg_get_cb :: "xframe \<Rightarrow> nat" where "xmsg_get_cb f = f_args f ! 0"
definition xmsg_get_ctx :: "xframe \<Rightarrow> nat" where "xmsg_get_ctx f = f_args f ! 1"
definition xmsg_get_ipaddr :: "xframe \<Rightarrow> nat" where "xmsg_get_ipaddr f = f_args f ! 2"
definition xmsg_get_channel :: "xframe \<Rightarrow> nat" where "xmsg_get_channel f = f_args f ! 3"

definition xmsg_set_cb :: "nat \<Rightarrow> xframe \<Rightarrow> xframe" where "xmsg_set_cb v f = f\<lparr>f_args := (f_args f)[0 := v]\<rparr>"
definition xmsg_set_ctx :: "nat \<Rightarrow> xframe \<Rightarrow> xframe" where "xmsg_set_ctx v f = f\<lparr>f_args := (f_args f)[1 := v]\<rparr>"
definition xmsg_set_ipaddr :: "nat \<Rightarrow> xframe \<Rightarrow> xframe" where "xmsg_set_ipaddr v f = f\<lparr>f_args := (f_args f)[2 := v]\<rparr>"
definition xmsg_set_channel :: "nat \<Rightarrow> xframe \<Rightarrow> xframe" where "xmsg_set_channel v f = f\<lparr>f_args := (f_args f)[3 := v]\<rparr>"

definition upd_frame :: "nat \<Rightarrow> (xframe \<Rightarrow> xframe) \<Rightarrow> xltp \<Rightarrow> xltp option" where
  "upd_frame p h x = do { f \<leftarrow> x_frames x p; Some (x\<lparr>x_frames := (x_frames x)(p \<mapsto> h f)\<rparr>) }"

text \<open>\<open>xl_free(&msg)\<close> and \<open>xl_maker()\<close> on the heap; the address 0 is NULL.\<close>

definition free_frame :: "nat \<Rightarrow> xltp \<Rightarrow> xltp option" where
  "free_frame p x = (if p = 0 then Some x else do { f \<leftarrow> x_frames x p; Some (x\<lparr>x_frames := (x_frames x)(p := xl_free f)\<rparr>) })"

definition make_frame :: "xltp \<Rightarrow> nat \<times> xltp" where
  "make_frame x =
     (let a = x_malloc x (x_mallocs x); x1 = x\<lparr>x_mallocs := x_mallocs x + 1\<rparr> in
      case xl_maker (a \<noteq> 0) (x_junk x) (x_raw x) of
        None \<Rightarrow> (0, x1) | Some f \<Rightarrow> (a, x1\<lparr>x_frames := (x_frames x)(a \<mapsto> f)\<rparr>))"

text \<open>An \<open>xl_add_*\<close> on the frame at \<open>p\<close>: a frame that grows moves to a new address. The result is the
  address of the frame and whether the call returned something else than \<open>XEOF\<close>.\<close>

definition add_field :: "(bool \<Rightarrow> (nat \<Rightarrow> u8) \<Rightarrow> xframe \<Rightarrow> (xframe \<times> u64) option) \<Rightarrow> nat \<Rightarrow> xltp \<Rightarrow> (nat \<times> bool \<times> xltp) option" where
  "add_field add p x = do {
     f \<leftarrow> x_frames x p;
     let a = x_malloc x (x_mallocs x);
     (f', r) \<leftarrow> add (a \<noteq> 0) (x_junk x) f;
     if f_size f' = f_size f then Some (p, r \<noteq> XEOF, x\<lparr>x_frames := (x_frames x)(p \<mapsto> f')\<rparr>)
     else if r = XEOF then Some (p, False, x\<lparr>x_mallocs := x_mallocs x + 1, x_frames := (x_frames x)(p \<mapsto> f')\<rparr>)
     else Some (a, True, x\<lparr>x_mallocs := x_mallocs x + 1, x_frames := (x_frames x)(p := None, a \<mapsto> f')\<rparr>) }"

section \<open>Calls of the messenger and the pipe\<close>

definition local_send :: "local_msg \<Rightarrow> xltp \<Rightarrow> bool \<times> xltp" where
  "local_send d x = (let ok = x_sendok x (x_sends x) in
     (ok, x\<lparr>x_sends := x_sends x + 1, x_out := (if ok then x_out x @ [d] else x_out x)\<rparr>))"

definition send_flush :: "nat \<Rightarrow> xltp \<Rightarrow> bool \<times> xltp" where
  "send_flush ch x = (if ch = 0 then (False, x) else local_send (Flush ch) x)"

definition send_disconnect :: "nat \<Rightarrow> xltp \<Rightarrow> bool \<times> xltp" where
  "send_disconnect msg x = (if msg = 0 then (False, x) else local_send (Disconnect msg) x)"

definition send_connect :: "nat \<Rightarrow> xltp \<Rightarrow> bool \<times> xltp" where
  "send_connect msg x = (if msg = 0 then (False, x) else local_send (Connect msg) x)"

definition pipe_post :: "nat \<Rightarrow> xltp \<Rightarrow> bool \<times> xltp" where
  "pipe_post msg x = (let ok = x_writeok x (x_writes x) in
     (ok, x\<lparr>x_writes := x_writes x + 1, x_pipe := (if ok then x_pipe x @ [msg] else x_pipe x)\<rparr>))"

definition chan_field :: "(nat \<Rightarrow> nat) \<Rightarrow> nat \<Rightarrow> nat option" where
  "chan_field h ch = (if ch = 0 then None else Some (h ch))"

section \<open>Callbacks of the messenger\<close>

definition post_back :: "u8 \<Rightarrow> nat \<Rightarrow> nat \<Rightarrow> xltp \<Rightarrow> (bool \<times> xltp) option" where
  "post_back flag ch msg x = do {
     x1 \<leftarrow> upd_frame msg (\<lambda>f. xmsg_set_channel ch (f\<lparr>f_flag := flag\<rparr>)) x;
     let (ok, x2) = pipe_post msg x1;
     if ok then Some (True, x2) else do { x3 \<leftarrow> free_frame msg x2; Some (False, x3) } }"

definition on_message_to_peer :: "nat \<Rightarrow> nat \<Rightarrow> xltp \<Rightarrow> (bool \<times> xltp) option" where
  "on_message_to_peer ch msg x = post_back XMSG_FLAG_BACK ch msg x"

definition on_message_from_peer :: "nat \<Rightarrow> nat \<Rightarrow> xltp \<Rightarrow> (bool \<times> xltp) option" where
  "on_message_from_peer ch msg x = post_back XMSG_FLAG_RECV ch msg x"

definition on_message_timedout :: "nat \<Rightarrow> nat \<Rightarrow> xltp \<Rightarrow> (bool \<times> xltp) option" where
  "on_message_timedout ch msg x =
     (if ch = 0 then do { x1 \<leftarrow> free_frame msg x; Some (False, x1) } else post_back XMSG_FLAG_TIMEDOUT ch msg x)"

section \<open>Sending\<close>

definition xltp_make_api :: "bytes \<Rightarrow> nat \<Rightarrow> xltp \<Rightarrow> (bool \<times> xltp) option" where
  "xltp_make_api api cb x = do {
     n \<leftarrow> slength (Some api);
     (a, h) \<leftarrow> xtree_add (x_api x) api (of_nat n) cb (x_trees x);
     Some (a \<noteq> 0, x\<lparr>x_trees := h\<rparr>) }"

definition xltp_send_req :: "nat \<Rightarrow> xltp \<Rightarrow> (bool \<times> xltp) option" where
  "xltp_send_req msg x =
     (if msg = 0 then Some (False, x)
      else do {
        x1 \<leftarrow> upd_frame msg (f_type_update (\<lambda>_. XPACK_TYPE_REQ)) x;
        Some (True, snd (send_connect msg x1)) })"

definition xltp_send_res :: "nat \<Rightarrow> xltp \<Rightarrow> (bool \<times> xltp) option" where
  "xltp_send_res msg x =
     (if msg = 0 then Some (False, x)
      else do {
        x1 \<leftarrow> upd_frame msg (f_type_update (\<lambda>_. XPACK_TYPE_RES)) x;
        Some (True, snd (send_disconnect msg x1)) })"

section \<open>Receiving\<close>

definition key_api :: bytes where "key_api = [0x61, 0x70, 0x69, 0]"

definition xltp_recv_req :: "calls \<Rightarrow> nat \<Rightarrow> xltp \<Rightarrow> (bool \<times> xltp) option" where
  "xltp_recv_req call msg x = do {
     f \<leftarrow> x_frames x msg;
     q \<leftarrow> xl_parser (f_obj f) 0;
     (q1, _, w) \<leftarrow> xl_find_word q (Some key_api);
     let x1 = x\<lparr>x_parser := Some q1\<rparr>;
     case w of None \<Rightarrow> Some (False, x1)
     | Some a \<Rightarrow> do {
         let api = drop a (q_mem q1);
         n \<leftarrow> slength (Some api);
         cb \<leftarrow> xtree_find (x_api x1) api (of_nat n) (x_trees x1);
         if cb = 0 then Some (False, x1) else call cb msg x1 } }"

definition xltp_recv_msg :: "calls \<Rightarrow> nat \<Rightarrow> xltp \<Rightarrow> (bool \<times> xltp) option" where
  "xltp_recv_msg call msg x = do {
     f \<leftarrow> x_frames x msg;
     req \<leftarrow> chan_field (x_req x) (xmsg_get_channel f);
     if req = 0 then Some (False, x)
     else do {
       r \<leftarrow> x_frames x req;
       if xmsg_get_cb r = 0 then Some (False, x) else call (xmsg_get_cb r) msg x } }"

definition xltp_recv_res :: "calls \<Rightarrow> nat \<Rightarrow> xltp \<Rightarrow> (bool \<times> xltp) option" where
  "xltp_recv_res call msg x = do {
     f \<leftarrow> x_frames x msg;
     let channel = xmsg_get_channel f;
     (taken, x1) \<leftarrow> (if f_wpos f > 0 then xltp_recv_msg call msg x else Some (False, x));
     let (ok, x2) = send_flush channel x1;
     if \<not> ok then Some (False, x2)
     else if taken then Some (True, x2)
     else do { x3 \<leftarrow> free_frame msg x2; Some (True, x3) } }"

text \<open>The three receivers free the message when they report an error.\<close>

definition or_free :: "nat \<Rightarrow> bool \<times> xltp \<Rightarrow> (bool \<times> xltp) option" where
  "or_free msg r = (if fst r then Some r else do { x1 \<leftarrow> free_frame msg (snd r); Some (False, x1) })"

definition xltp_recv :: "calls \<Rightarrow> ios \<Rightarrow> nat \<Rightarrow> xltp \<Rightarrow> (bool \<times> xltp) option" where
  "xltp_recv call io msg x = do {
     f \<leftarrow> x_frames x msg;
     ios \<leftarrow> chan_field (x_ctx x) (xmsg_get_channel f);
     r \<leftarrow> (if ios \<noteq> 0 then io (Stream_write ios msg) x
           else if f_type f = XPACK_TYPE_REQ then xltp_recv_req call msg x
           else if f_type f = XPACK_TYPE_MSG then xltp_recv_msg call msg x
           else if f_type f = XPACK_TYPE_RES then xltp_recv_res call msg x
           else Some (True, x));
     or_free msg r }"

definition xltp_back :: "ios \<Rightarrow> nat \<Rightarrow> xltp \<Rightarrow> (bool \<times> xltp) option" where
  "xltp_back io msg x = do {
     f \<leftarrow> x_frames x msg;
     ios \<leftarrow> chan_field (x_ctx x) (xmsg_get_channel f);
     if ios \<noteq> 0 then do { r \<leftarrow> io (Stream_resave ios msg) x; or_free msg r }
     else do {
       let (ok, x1) = (if f_type f = XPACK_TYPE_RES then send_flush (xmsg_get_channel f) x else (True, x));
       x2 \<leftarrow> free_frame msg x1;
       Some (ok, x2) } }"

definition xltp_timedout :: "ios \<Rightarrow> nat \<Rightarrow> xltp \<Rightarrow> (bool \<times> xltp) option" where
  "xltp_timedout io msg x = do {
     f \<leftarrow> x_frames x msg;
     ios \<leftarrow> chan_field (x_ctx x) (xmsg_get_channel f);
     if ios \<noteq> 0 then do { (_, x1) \<leftarrow> io (Stream_close ios) x; Some (True, x1) }
     else Some (True, snd (send_flush (xmsg_get_channel f) x)) }"

text \<open>One turn of \<open>xltp_loop\<close> with a message in the pipe; the flag tells whether the loop goes on.\<close>

definition xltp_turn :: "calls \<Rightarrow> ios \<Rightarrow> xltp \<Rightarrow> (bool \<times> xltp) option" where
  "xltp_turn call io x =
     (case x_pipe x of [] \<Rightarrow> Some (True, x)
      | msg # rest \<Rightarrow> do {
          let x1 = x\<lparr>x_pipe := rest\<rparr>;
          f \<leftarrow> x_frames x1 msg;
          if f_flag f = XMSG_FLAG_RECV then do { (_, x2) \<leftarrow> xltp_recv call io msg x1; Some (True, x2) }
          else if f_flag f = XMSG_FLAG_BACK then do { (_, x2) \<leftarrow> xltp_back io msg x1; Some (True, x2) }
          else if f_flag f = XMSG_FLAG_TIMEDOUT then do { (_, x2) \<leftarrow> xltp_timedout io msg x1; Some (True, x2) }
          else if f_flag f = XMSG_FLAG_POST then
            (if xmsg_get_cb f = 0 then Some (False, x1) else call (xmsg_get_cb f) msg x1)
          else Some (True, x1) })"

section \<open>Handlers\<close>

text \<open>The functions whose addresses are stored in requests and in the tree; \<open>fn\<close> gives their addresses.\<close>

datatype handler = Api_echo | Api_boot | Api_put | Api_get | Res_put | Res_get | Req_put | Req_get | Req_boot

definition key_path :: bytes where "key_path = [0x70, 0x61, 0x74, 0x68, 0]"
definition key_uri :: bytes where "key_uri = [0x75, 0x72, 0x69, 0]"
definition key_ip :: bytes where "key_ip = [0x69, 0x70, 0]"
definition key_port :: bytes where "key_port = [0x70, 0x6F, 0x72, 0x74, 0]"
definition key_uuid :: bytes where "key_uuid = [0x75, 0x75, 0x69, 0x64, 0]"
definition key_code :: bytes where "key_code = [0x63, 0x6F, 0x64, 0x65, 0]"
definition word_echo :: bytes where "word_echo = [0x65, 0x63, 0x68, 0x6F, 0]"
definition word_boot :: bytes where "word_boot = [0x62, 0x6F, 0x6F, 0x74, 0]"
definition word_put :: bytes where "word_put = [0x70, 0x75, 0x74, 0]"
definition word_get :: bytes where "word_get = [0x67, 0x65, 0x74, 0]"

definition find_word_in :: "bytes \<Rightarrow> nat \<Rightarrow> xltp \<Rightarrow> (bytes option \<times> xltp) option" where
  "find_word_in key msg x = do {
     f \<leftarrow> x_frames x msg;
     q \<leftarrow> xl_parser (f_obj f) 0;
     (q1, _, w) \<leftarrow> xl_find_word q (Some key);
     Some (map_option (\<lambda>a. drop a (q_mem q1)) w, x\<lparr>x_parser := Some q1\<rparr>) }"

definition fail_free :: "nat list \<Rightarrow> xltp \<Rightarrow> (bool \<times> xltp) option" where
  "fail_free ps x = do { x1 \<leftarrow> foldl (\<lambda>s p. Option.bind s (free_frame p)) (Some x) ps; Some (False, x1) }"

text \<open>\<open>udp_addr_ip\<close> and \<open>udp_addr_port\<close> are arguments, the uninitialised \<open>uuid\<close> is \<open>junk\<close>.\<close>

definition api_boot :: "(nat \<Rightarrow> bytes) \<Rightarrow> (nat \<Rightarrow> u64) \<Rightarrow> bytes \<Rightarrow> nat \<Rightarrow> xltp \<Rightarrow> (bool \<times> xltp) option" where
  "api_boot ip port junk msg x = do {
     x1 \<leftarrow> upd_frame msg (\<lambda>f. xmsg_set_ctx 0 (xl_clear f)) x;
     f \<leftarrow> x_frames x1 msg;
     let ad = xmsg_get_ipaddr f;
     (p1, ok1, x2) \<leftarrow> add_field (\<lambda>ok j f. xl_add_word ok j f (Some key_ip) (ip ad)) msg x1;
     if \<not> ok1 then fail_free [p1] x2 else do {
     (p2, ok2, x3) \<leftarrow> add_field (\<lambda>ok j f. xl_add_uint ok j f (Some key_port) (port ad)) p1 x2;
     if \<not> ok2 then fail_free [p2] x3 else do {
     (p3, ok3, x4) \<leftarrow> add_field (\<lambda>ok j f. xl_add_bin ok j f (Some key_uuid) (Some junk) 32) p2 x3;
     if \<not> ok3 then fail_free [p3] x4 else do {
     (p4, ok4, x5) \<leftarrow> add_field (\<lambda>ok j f. xl_add_uint ok j f (Some key_code) 200) p3 x4;
     if \<not> ok4 then fail_free [p4] x5 else do {
     (sent, x6) \<leftarrow> xltp_send_res p4 x5;
     if sent then Some (True, x6) else fail_free [p4] x6 } } } } }"

definition res_boot :: "nat \<Rightarrow> xltp \<Rightarrow> (bool \<times> xltp) option" where
  "res_boot res x = do {
     f \<leftarrow> x_frames x res;
     q \<leftarrow> xl_parser (f_obj f) 0;
     x1 \<leftarrow> free_frame res (x\<lparr>x_parser := Some q\<rparr>);
     Some (True, x1) }"

text \<open>The error path of \<open>api_put\<close> and \<open>api_get\<close>: the request itself becomes the reply.\<close>

definition refuse :: "nat \<Rightarrow> xltp \<Rightarrow> (bool \<times> xltp) option" where
  "refuse req x = do {
     x1 \<leftarrow> upd_frame req xl_clear x;
     (p, _, x2) \<leftarrow> add_field (\<lambda>ok j f. xl_add_uint ok j f (Some key_code) 400) req x1;
     (_, x3) \<leftarrow> xltp_send_res p x2;
     Some (False, x3) }"

definition api_put :: "ios \<Rightarrow> nat \<Rightarrow> xltp \<Rightarrow> (bool \<times> xltp) option" where
  "api_put io req x = do {
     (ok, x1) \<leftarrow> io (Start_downloader req True) x;
     if ok then Some (True, x1) else refuse req x1 }"

definition api_get :: "ios \<Rightarrow> nat \<Rightarrow> xltp \<Rightarrow> (bool \<times> xltp) option" where
  "api_get io req x = do {
     (ok, x1) \<leftarrow> io (Start_uploader req True) x;
     if ok then Some (True, x1) else refuse req x1 }"

text \<open>\<open>res_put\<close> and \<open>res_get\<close> differ in the stream they start; \<open>x\<close> has the parser already set in the first.\<close>

definition res_start :: "ios \<Rightarrow> (nat \<Rightarrow> io_call) \<Rightarrow> nat \<Rightarrow> xltp \<Rightarrow> (bool \<times> xltp) option" where
  "res_start io start res x = do {
     f \<leftarrow> x_frames x res;
     req \<leftarrow> chan_field (x_req x) (xmsg_get_channel f);
     if req = 0 then fail_free [res] x
     else do {
       r \<leftarrow> x_frames x req;
       let msg = xmsg_get_ctx r;
       if msg = 0 then fail_free [res, req] x
       else do {
         x1 \<leftarrow> upd_frame msg (xmsg_set_channel (xmsg_get_channel f)) x;
         (ok, x2) \<leftarrow> io (start msg) x1;
         if \<not> ok then fail_free [res, req, msg] x2
         else do { x3 \<leftarrow> free_frame res x2; Some (True, x3) } } } }"

definition res_put :: "ios \<Rightarrow> nat \<Rightarrow> xltp \<Rightarrow> (bool \<times> xltp) option" where
  "res_put io res x = do {
     f \<leftarrow> x_frames x res;
     q \<leftarrow> xl_parser (f_obj f) 0;
     res_start io (\<lambda>msg. Start_uploader msg False) res (x\<lparr>x_parser := Some q\<rparr>) }"

definition res_get :: "ios \<Rightarrow> nat \<Rightarrow> xltp \<Rightarrow> (bool \<times> xltp) option" where
  "res_get io res x = res_start io (\<lambda>msg. Start_downloader msg False) res x"

definition set_req :: "nat \<Rightarrow> nat \<Rightarrow> nat \<Rightarrow> xframe \<Rightarrow> xframe" where
  "set_req cb msg ad f = xmsg_set_ipaddr ad (xmsg_set_ctx msg (xmsg_set_cb cb f))"

definition req_put :: "(handler \<Rightarrow> nat) \<Rightarrow> nat \<Rightarrow> xltp \<Rightarrow> (bool \<times> xltp) option" where
  "req_put fn msg x = do {
     f \<leftarrow> x_frames x msg;
     (path, x1) \<leftarrow> find_word_in key_path msg x;
     case path of None \<Rightarrow> fail_free [0, msg] x1
     | Some w \<Rightarrow> do {
         let (req, x2) = make_frame x1;
         if req = 0 then fail_free [0, msg] x2 else do {
         x3 \<leftarrow> upd_frame req (set_req (fn Res_put) msg (xmsg_get_ipaddr f)) x2;
         (r1, ok1, x4) \<leftarrow> add_field (\<lambda>ok j f. xl_add_word ok j f (Some key_api) word_put) req x3;
         if \<not> ok1 then fail_free [r1, msg] x4 else do {
         (r2, ok2, x5) \<leftarrow> add_field (\<lambda>ok j f. xl_add_word ok j f (Some key_path) w) r1 x4;
         if \<not> ok2 then fail_free [r2, msg] x5 else do {
         (sent, x6) \<leftarrow> xltp_send_req r2 x5;
         if sent then Some (True, x6) else fail_free [r2, msg] x6 } } } } }"

text \<open>In \<open>req_get\<close> a message without \<open>uri\<close> leaves the variable unset, which is then read.\<close>

definition req_get :: "(handler \<Rightarrow> nat) \<Rightarrow> nat \<Rightarrow> xltp \<Rightarrow> (bool \<times> xltp) option" where
  "req_get fn msg x = do {
     f \<leftarrow> x_frames x msg;
     (uri, x1) \<leftarrow> find_word_in key_uri msg x;
     w \<leftarrow> uri;
     let (req, x2) = make_frame x1;
     if req = 0 then fail_free [0, msg] x2 else do {
     (r1, _, x3) \<leftarrow> add_field (\<lambda>ok j f. xl_add_word ok j f (Some key_api) word_get) req x2;
     x4 \<leftarrow> upd_frame r1 (set_req (fn Res_get) msg (xmsg_get_ipaddr f)) x3;
     (r2, _, x5) \<leftarrow> add_field (\<lambda>ok j f. xl_add_word ok j f (Some key_uri) w) r1 x4;
     (sent, x6) \<leftarrow> xltp_send_req r2 x5;
     if sent then Some (True, x6) else fail_free [r2, msg] x6 } }"

section \<open>The interface\<close>

definition xltp_put :: "(handler \<Rightarrow> nat) \<Rightarrow> bytes \<Rightarrow> bytes \<Rightarrow> nat \<Rightarrow> xltp \<Rightarrow> (bool \<times> xltp) option" where
  "xltp_put fn local_uri remote_path ad x = do {
     let (msg, x1) = make_frame x;
     if msg = 0 then Some (False, x1) else do {
     x2 \<leftarrow> upd_frame msg (\<lambda>f. xmsg_set_cb (fn Req_put) (xmsg_set_ipaddr ad (f\<lparr>f_flag := XMSG_FLAG_POST\<rparr>))) x1;
     (p1, _, x3) \<leftarrow> add_field (\<lambda>ok j f. xl_add_word ok j f (Some key_uri) local_uri) msg x2;
     (p2, _, x4) \<leftarrow> add_field (\<lambda>ok j f. xl_add_word ok j f (Some key_path) remote_path) p1 x3;
     Some (pipe_post p2 x4) } }"

definition xltp_get :: "(handler \<Rightarrow> nat) \<Rightarrow> bytes \<Rightarrow> bytes \<Rightarrow> nat \<Rightarrow> nat \<Rightarrow> xltp \<Rightarrow> (bool \<times> xltp) option" where
  "xltp_get fn local_path remote_uri ad ctx x = do {
     let (msg, x1) = make_frame x;
     if msg = 0 then Some (False, x1) else do {
     x2 \<leftarrow> upd_frame msg (\<lambda>f. set_req (fn Req_get) ctx ad (f\<lparr>f_flag := XMSG_FLAG_POST\<rparr>)) x1;
     (p1, _, x3) \<leftarrow> add_field (\<lambda>ok j f. xl_add_word ok j f (Some key_path) local_path) msg x2;
     (p2, _, x4) \<leftarrow> add_field (\<lambda>ok j f. xl_add_word ok j f (Some key_uri) remote_uri) p1 x3;
     let (ok, x5) = pipe_post p2 x4;
     if ok then Some (True, x5) else fail_free [p2] x5 } }"

definition xltp_bootstrap :: "(handler \<Rightarrow> nat) \<Rightarrow> xltp \<Rightarrow> (bool \<times> xltp) option" where
  "xltp_bootstrap fn x = do {
     let (msg, x1) = make_frame x;
     if msg = 0 then Some (False, x1) else do {
     x2 \<leftarrow> upd_frame msg (\<lambda>f. xmsg_set_cb (fn Req_boot) (f\<lparr>f_flag := XMSG_FLAG_POST\<rparr>)) x1;
     let (ok, x3) = pipe_post msg x2;
     if ok then Some (True, x3) else fail_free [msg] x3 } }"

text \<open>The tree of handlers that \<open>xltp_create\<close> builds.\<close>

definition make_apis :: "(handler \<Rightarrow> nat) \<Rightarrow> xltp \<Rightarrow> (bool \<times> xltp) option" where
  "make_apis fn x = do {
     let (r, h) = xtree_create (x_trees x);
     let x1 = x\<lparr>x_api := r, x_trees := h\<rparr>;
     if r = 0 then Some (False, x1) else do {
     (ok1, x2) \<leftarrow> xltp_make_api word_echo (fn Api_echo) x1;
     if \<not> ok1 then Some (False, x2) else do {
     (ok2, x3) \<leftarrow> xltp_make_api word_boot (fn Api_boot) x2;
     if \<not> ok2 then Some (False, x3) else do {
     (ok3, x4) \<leftarrow> xltp_make_api word_put (fn Api_put) x3;
     if \<not> ok3 then Some (False, x4) else xltp_make_api word_get (fn Api_get) x4 } } } }"

text \<open>The end of \<open>xltp_free\<close>: the messages still in the pipe and the tree of handlers are released.\<close>

fun drop_pipe :: "nat list \<Rightarrow> xltp \<Rightarrow> xltp option" where
  "drop_pipe [] x = Some x"
| "drop_pipe (msg # rest) x = do { x1 \<leftarrow> free_frame msg (x\<lparr>x_pipe := rest\<rparr>); drop_pipe rest x1 }"

definition xltp_release :: "xltp \<Rightarrow> xltp option" where
  "xltp_release x = do {
     x1 \<leftarrow> drop_pipe (x_pipe x) (x\<lparr>x_runnig := False\<rparr>);
     if x_api x1 = 0 then Some x1
     else do {
       (_, h) \<leftarrow> xtree_clear (x_api x1) (x_trees x1);
       (r, h1) \<leftarrow> xtree_free (x_api x1) h;
       Some (x1\<lparr>x_api := r, x_trees := h1\<rparr>) } }"

end
