(* ===== verification/Xltp_Props.thy ===== *)
theory Xltp_Props
  imports Xltp Xline_Frame Xtree_Props
begin

text \<open>
  The handler of a request, from the bytes of the frame through the parser and the radix tree; and who owns
  a message when a handler fails.
\<close>

section \<open>Registering handlers\<close>

definition api_map :: "(handler \<Rightarrow> nat) \<Rightarrow> bytes \<Rightarrow> nat" where
  "api_map fn = (\<lambda>_. 0)(cstr word_echo := fn Api_echo, cstr word_boot := fn Api_boot, cstr word_put := fn Api_put,
     cstr word_get := fn Api_get)"

lemma make_api_run:
  assumes ok: "tree_ok (x_api x) (Suc b) (x_trees x) M" and z: "0 \<in> set api" and v: "key_valid (cstr api)"
  shows "\<exists>h. xltp_make_api api cb x = Some (True, x\<lparr>x_trees := h\<rparr>) \<and> tree_ok (x_api x) b h (M(cstr api := cb))"
proof -
  have n: "slength (Some api) = Some (length (cstr api))" using z by (simp add: slength_eq)
  obtain rest where api: "api = cstr api @ rest" unfolding cstr_def by (metis takeWhile_dropWhile_id)
  from ok obtain K M' where rep: "trie_rep (x_trees x) (x_api x) K M'" and M: "M = M' \<circ> nibs"
    and sz: "size K + Suc b < 2 ^ 64" and al: "\<And>m. alloc_ok m (x_trees x)" and kv: "\<forall>k. M k \<noteq> 0 \<longrightarrow> key_valid k"
    by (auto simp: tree_ok_def)
  note len = key_valid_len [OF v]
  have tk: "take (length (cstr api)) api = cstr api" using api by (metis append_eq_conv_conj)
  have le: "length (cstr api) \<le> length api" using api by (metis length_append le_add1)
  have run: "\<exists>h' a. xtree_add (x_api x) api (of_nat (length (cstr api))) cb (x_trees x) = Some (a, h') \<and> a \<noteq> 0 \<and>
      trie_rep h' (x_api x) (add_mset (nibs (cstr api)) K) (M'(nibs (cstr api) := cb)) \<and> alloc_ok y h'" for y
    using xtree_add_run [OF rep, of "of_nat (length (cstr api))" api y "nibs (cstr api)" cb] len al tk le by auto
  from run [of 0] obtain h' a where h': "xtree_add (x_api x) api (of_nat (length (cstr api))) cb (x_trees x) = Some (a, h')" "a \<noteq> 0"
    "trie_rep h' (x_api x) (add_mset (nibs (cstr api)) K) (M'(nibs (cstr api) := cb))" by blast
  have "alloc_ok y h'" for y using run [of y] h'(1) by auto
  moreover have "M(cstr api := cb) = (M'(nibs (cstr api) := cb)) \<circ> nibs" unfolding M by (auto simp: fun_eq_iff)
  ultimately have "tree_ok (x_api x) b h' (M(cstr api := cb))"
    using h' sz kv [unfolded M] v unfolding tree_ok_def by (auto intro!: exI)
  then show ?thesis using h'(1,2) n by (auto simp: xltp_make_api_def)
qed

lemma words:
  "cstr word_echo = [0x65, 0x63, 0x68, 0x6F]" "cstr word_boot = [0x62, 0x6F, 0x6F, 0x74]"
  "cstr word_put = [0x70, 0x75, 0x74]" "cstr word_get = [0x67, 0x65, 0x74]"
  by (simp_all add: cstr_def word_echo_def word_boot_def word_put_def word_get_def)

lemma word_put_split: "word_put = cstr word_put @ [0]"
  unfolding words by (simp add: word_put_def)

lemma word_keys:
  "0 \<in> set word_echo" "0 \<in> set word_boot" "0 \<in> set word_put" "0 \<in> set word_get"
  "key_valid (cstr word_echo)" "key_valid (cstr word_boot)" "key_valid (cstr word_put)" "key_valid (cstr word_get)"
  by (simp_all add: words key_valid_def) (simp_all add: word_echo_def word_boot_def word_put_def word_get_def)

lemma make_apis_run:
  assumes c: "xtree_create (x_trees x) = (r, h0)" "r \<noteq> 0" "h_nodes (x_trees x) r = None" "\<forall>m. alloc_ok m h0"
  shows "\<exists>h b. make_apis fn x = Some (True, x\<lparr>x_api := r, x_trees := h\<rparr>) \<and> tree_ok r b h (api_map fn)"
proof -
  let ?x = "x\<lparr>x_api := r, x_trees := h0\<rparr>"
  have "tree_ok r 4 h0 (\<lambda>_. 0)"
    using xtree_create_rep [OF c(1-3)] c(4) unfolding tree_ok_def by (auto intro!: exI)
  then have t0: "tree_ok (x_api ?x) (Suc 3) (x_trees ?x) (\<lambda>_. 0)" by simp
  obtain h1 where m1: "xltp_make_api word_echo (fn Api_echo) ?x = Some (True, ?x\<lparr>x_trees := h1\<rparr>)"
    and t1: "tree_ok r 3 h1 ((\<lambda>_. 0)(cstr word_echo := fn Api_echo))"
    using make_api_run [OF t0 word_keys(1,5), of "fn Api_echo"] by auto
  obtain h2 where m2: "xltp_make_api word_boot (fn Api_boot) (?x\<lparr>x_trees := h1\<rparr>) = Some (True, ?x\<lparr>x_trees := h2\<rparr>)"
    and t2: "tree_ok r 2 h2 ((\<lambda>_. 0)(cstr word_echo := fn Api_echo, cstr word_boot := fn Api_boot))"
    using make_api_run [of "?x\<lparr>x_trees := h1\<rparr>" 2, OF _ word_keys(2,6), of _ "fn Api_boot"] t1 by (auto simp: numeral_3_eq_3)
  obtain h3 where m3: "xltp_make_api word_put (fn Api_put) (?x\<lparr>x_trees := h2\<rparr>) = Some (True, ?x\<lparr>x_trees := h3\<rparr>)"
    and t3: "tree_ok r 1 h3 ((\<lambda>_. 0)(cstr word_echo := fn Api_echo, cstr word_boot := fn Api_boot, cstr word_put := fn Api_put))"
    using make_api_run [of "?x\<lparr>x_trees := h2\<rparr>" 1, OF _ word_keys(3,7), of _ "fn Api_put"] t2 by (auto simp: numeral_2_eq_2)
  obtain h4 where m4: "xltp_make_api word_get (fn Api_get) (?x\<lparr>x_trees := h3\<rparr>) = Some (True, ?x\<lparr>x_trees := h4\<rparr>)"
    and t4: "tree_ok r 0 h4 (api_map fn)"
    using make_api_run [of "?x\<lparr>x_trees := h3\<rparr>" 0, OF _ word_keys(4,8), of _ "fn Api_get"] t3 by (auto simp: api_map_def)
  have "make_apis fn x = Some (True, ?x\<lparr>x_trees := h4\<rparr>)"
    using c(1,2) m1 m2 m3 m4 by (simp add: make_apis_def)
  then show ?thesis using t4 by auto
qed

section \<open>Dispatching requests\<close>

lemma key_api: "key_obj key_api (cstr key_api)" "length (cstr key_api) < 2 ^ 63"
  by (simp_all add: key_obj_def key_api_def cstr_def)

lemma recv_req_run:
  assumes t: "tree_ok (x_api x) b (x_trees x) M" and f: "x_frames x msg = Some f" "frame_holds f fs" "line_ok f"
  shows "\<exists>q. (map_of fs (cstr key_api) = None \<longrightarrow> xltp_recv_req call msg x = Some (False, x\<lparr>x_parser := Some q\<rparr>)) \<and>
    (\<forall>name. map_of fs (cstr key_api) = Some (XStr (name @ [0])) \<longrightarrow> 0 \<notin> set name \<longrightarrow> key_valid name \<longrightarrow>
        xltp_recv_req call msg x = (if M name = 0 then Some (False, x\<lparr>x_parser := Some q\<rparr>)
          else call (M name) msg (x\<lparr>x_parser := Some q\<rparr>)))"
proof -
  obtain q where q: "xl_parser (f_obj f) 0 = Some q" "at_fields q [] fs" "q_mem q = f_obj f"
    using frame_holds_parser [OF f(2,3)] by blast
  obtain q' r where r: "xl_find q (Some key_api) = Some (q', r)" "q_mem q' = q_mem q"
    "case map_of fs (cstr key_api) of None \<Rightarrow> r = None | Some v \<Rightarrow> \<exists>a. r = Some a \<and> holds_at (q_mem q) a (enc_val v)"
    using xl_find_run [OF q(2) key_api] by auto
  have none: "xltp_recv_req call msg x = Some (False, x\<lparr>x_parser := Some q'\<rparr>)" if "map_of fs (cstr key_api) = None"
    using that f(1) q(1) r by (simp add: xltp_recv_req_def xl_find_word_def)
  have named: "xltp_recv_req call msg x = (if M name = 0 then Some (False, x\<lparr>x_parser := Some q'\<rparr>)
          else call (M name) msg (x\<lparr>x_parser := Some q'\<rparr>))"
    if v: "map_of fs (cstr key_api) = Some (XStr (name @ [0]))" "0 \<notin> set name" "key_valid name" for name
  proof -
    obtain a where a: "r = Some a" "holds_at (f_obj f) a (enc_val (XStr (name @ [0])))" using r(3) q(3) v(1) by auto
    have len: "length (XLINE_TYPE_STR # obj_le (of_nat (length (name @ [0])))) = 9" by simp
    have "holds_at (f_obj f) (a + 9) (name @ [0])"
      using a(2) holds_at_append [of "f_obj f" a "XLINE_TYPE_STR # obj_le (of_nat (length (name @ [0])))" "name @ [0]"] len
      by (simp add: enc_block_def)
    then obtain rest where rest: "drop (a + 9) (f_obj f) = name @ 0 # rest"
      unfolding holds_at_def by (metis append.assoc append_Cons append_Nil append_take_drop_id)
    have sl: "slength (Some (drop (a + 9) (f_obj f))) = Some (length name)"
      unfolding rest using v(2) by (simp add: slength_eq)
    note kl = key_valid_len [OF v(3)]
    from t obtain K M' where rep: "trie_rep (x_trees x) (x_api x) K M'" and M: "M = M' \<circ> nibs" by (auto simp: tree_ok_def)
    have "xtree_find (x_api x) (drop (a + 9) (f_obj f)) (of_nat (length name)) (x_trees x) = Some (M name)"
      using xtree_find_shape [of "x_trees x" "x_api x" _ M' "of_nat (length name)" "drop (a + 9) (f_obj f)"] rep kl
      unfolding rest by (auto simp: trie_rep_def M)
    then show ?thesis
      using f(1) q(1,3) r(1,2) a(1) sl by (simp add: xltp_recv_req_def xl_find_word_def Let_def)
  qed
  show ?thesis by (rule exI [of _ q'], intro conjI impI allI; erule none named; assumption)
qed


section \<open>Who owns a request that failed\<close>

lemma key_code: "key_obj key_code [0x63, 0x6F, 0x64, 0x65]" "wf_key [0x63, 0x6F, 0x64, 0x65]"
  by (simp_all add: key_obj_def key_code_def cstr_def wf_key_def)

lemma add_code_run:
  assumes ok: "frame_ok f" and z: "f_wpos f = 0" and sz: "15 \<le> unat (f_size f)" "2 * unat (f_size f) + 24 < 2 ^ 64"
  shows "\<exists>f' r. xl_add_uint ok' junk f (Some key_code) n = Some (f', r) \<and> f_size f' = f_size f \<and> f_ref f' = f_ref f"
proof -
  have room: "\<not> f_size f - f_wpos f < of_nat (length (cstr key_code)) + 2 + 9"
    using sz(1) z by (simp add: word_less_nat_alt key_code_def cstr_def)
  have sl: "slength (Some key_code) = Some (length (cstr key_code))" by (simp add: slength_eq key_code_def)
  obtain f' where f': "xl_add_uint True junk f (Some key_code) n = Some (f', f_wpos f')"
    using uint_adder.add_appends [OF ok key_code, of n junk] sz(2) by (auto simp: enc_val.simps)
  moreover have "xl_add_uint ok' junk f (Some key_code) n = xl_add_uint True junk f (Some key_code) n"
    using room sl by (simp add: xl_add_uint_def xl_add_num_def xl_reserve_def)
  moreover have "f_size f' = f_size f \<and> f_ref f' = f_ref f"
    using f' room sl
    by (auto simp: xl_add_uint_def xl_add_num_def xl_reserve_def xl_fill_key_def xl_put_line_def xl_set_objline_def
        bind_eq_Some_conv Let_def split: if_splits option.splits)
  ultimately show ?thesis by auto
qed

lemma refuse_run:
  assumes f: "x_frames x msg = Some f" "frame_ok f" "f_ref f = 1" and msg: "msg \<noteq> 0"
    and sz: "15 \<le> unat (f_size f)" "2 * unat (f_size f) + 24 < 2 ^ 64" and s: "x_sendok x (x_sends x)"
  shows "\<exists>y f'. refuse msg x = Some (False, y) \<and> x_out y = x_out x @ [Disconnect msg] \<and> x_frames y msg = Some f' \<and> f_ref f' = 1"
proof -
  let ?x = "x\<lparr>x_frames := (x_frames x)(msg \<mapsto> xl_clear f)\<rparr>"
  have c: "frame_ok (xl_clear f)" "f_wpos (xl_clear f) = 0" "f_size (xl_clear f) = f_size f" "f_ref (xl_clear f) = 1"
    using f(2,3) by (simp_all add: xl_clear_def frame_ok_def)
  obtain f' r where r: "xl_add_uint (x_malloc ?x (x_mallocs ?x) \<noteq> 0) (x_junk ?x) (xl_clear f) (Some key_code) 400 = Some (f', r)"
    "f_size f' = f_size f" "f_ref f' = 1"
    using add_code_run [OF c(1,2), of "x_malloc ?x (x_mallocs ?x) \<noteq> 0" "x_junk ?x" 400] sz c by auto
  show ?thesis
    using f(1) msg s r c
    by (simp add: refuse_def upd_frame_def add_field_def Let_def xltp_send_res_def send_disconnect_def local_send_def)
qed

text \<open>
  C40. A request to store a file that the receiver cannot start is answered with the request frame itself:
  \<open>api_put\<close> hands it to the messenger for sending and reports an error, whereupon \<open>xltp_recv\<close> frees it.
  The messenger is left with a pointer to freed memory.
\<close>

theorem refused_put_dangles:
  assumes "xtree_create (x_trees x) = (r, h0)" and "r \<noteq> 0" and "h_nodes (x_trees x) r = None" and "\<forall>m. alloc_ok m h0"
    and "fn Api_put \<noteq> 0" and "x_frames x msg = Some f" and "frame_holds f fs" and "line_ok f" and "msg \<noteq> 0" and "f_ref f = 1"
    and "15 \<le> unat (f_size f)" and "2 * unat (f_size f) + 24 < 2 ^ 64"
    and "f_type f = XPACK_TYPE_REQ" and "map_of fs (cstr key_api) = Some (XStr word_put)"
    and "xmsg_get_channel f \<noteq> 0" and "x_ctx x (xmsg_get_channel f) = 0"
    and "\<forall>y. call (fn Api_put) msg y = api_put io msg y" and "\<forall>y. io (Start_downloader msg True) y = Some (False, y)"
    and "x_sendok x (x_sends x)"
  shows "\<exists>y z. make_apis fn x = Some (True, y) \<and> xltp_recv call io msg y = Some (False, z) \<and>
    Disconnect msg \<in> set (x_out z) \<and> x_frames z msg = None"
proof -
  obtain h b where mk: "make_apis fn x = Some (True, x\<lparr>x_api := r, x_trees := h\<rparr>)" and t: "tree_ok r b h (api_map fn)"
    using make_apis_run [OF assms(1-4)] by blast
  let ?y = "x\<lparr>x_api := r, x_trees := h\<rparr>"
  have y0: "tree_ok (x_api ?y) b (x_trees ?y) (api_map fn)" "x_frames ?y msg = Some f" using t assms(6) by simp_all
  have am: "api_map fn (cstr word_put) = fn Api_put" by (simp add: api_map_def words)
  obtain q where q: "xltp_recv_req call msg ?y = call (fn Api_put) msg (?y\<lparr>x_parser := Some q\<rparr>)"
    using recv_req_run [OF y0 assms(7,8), of call] assms(5,14) word_put_split am word_keys(7) cstr_nonzero [of word_put] by metis
  have ok: "frame_ok f" using assms(7) by (simp add: frame_holds_def)
  obtain z f' where z: "refuse msg (?y\<lparr>x_parser := Some q\<rparr>) = Some (False, z)" "x_out z = x_out x @ [Disconnect msg]"
    "x_frames z msg = Some f'" "f_ref f' = 1"
    using refuse_run [of "?y\<lparr>x_parser := Some q\<rparr>" msg f] assms(6,9-12,19) ok by auto
  have "xltp_recv_req call msg ?y = Some (False, z)" using q assms(17,18) z(1) by (simp add: api_put_def)
  then have "xltp_recv call io msg ?y = Some (False, z\<lparr>x_frames := (x_frames z)(msg := None)\<rparr>)"
    using assms(6,9,13,15,16) z by (simp add: xltp_recv_def chan_field_def or_free_def free_frame_def xl_free_def)
  then show ?thesis using mk z(2) by auto
qed

section \<open>A small instance\<close>

definition put_frame :: xframe where
  "put_frame = demo_frame\<lparr>f_ref := 1, f_type := XPACK_TYPE_REQ, f_args := [0, 0, 0, 7], f_size := 64, f_wpos := 18,
     f_data := enc_fields [(cstr key_api, XStr word_put)] @ replicate 46 0, f_line := xl_n2b 18 XLINE_TYPE_OBJ\<rparr>"

definition demo_fn :: "handler \<Rightarrow> nat" where
  "demo_fn h = (case h of Api_echo \<Rightarrow> 1 | Api_boot \<Rightarrow> 2 | Api_put \<Rightarrow> 3 | Api_get \<Rightarrow> 4 | Res_put \<Rightarrow> 5 | Res_get \<Rightarrow> 6
     | Req_put \<Rightarrow> 7 | Req_get \<Rightarrow> 8 | Req_boot \<Rightarrow> 9)"

definition demo_io :: ios where
  "demo_io c x = Some (False, x)"

definition demo_call :: calls where
  "demo_call cb msg x = (if cb = 3 then api_put demo_io msg x else Some (True, x))"

definition demo_xltp :: xltp where
  "demo_xltp = \<lparr>x_runnig = True, x_api = 0, x_parser = None, x_pipe = [], x_frames = Map.empty(5 \<mapsto> put_frame),
     x_trees = empty_store, x_req = (\<lambda>_. 0), x_ctx = (\<lambda>_. 0), x_out = [], x_sendok = (\<lambda>_. True), x_sends = 0,
     x_writeok = (\<lambda>_. True), x_writes = 0, x_malloc = (\<lambda>n. n + 100), x_mallocs = 0, x_junk = (\<lambda>_. 0), x_raw = demo_frame\<rparr>"

lemma put_frame_holds: "frame_holds put_frame [(cstr key_api, XStr word_put)]" "line_ok put_frame"
proof -
  have len: "length (enc_fields [(cstr key_api, XStr word_put)]) = 18"
    by (simp add: enc_field_def length_enc_field key_api_def word_put_def cstr_def)
  show "line_ok put_frame" by (simp add: line_ok_def put_frame_def)
  show "frame_holds put_frame [(cstr key_api, XStr word_put)]"
    using len unfolding frame_holds_def frame_ok_def frame_bytes_def put_frame_def
    by (simp add: wf_fields_def wf_key_def key_api_def cstr_def)
qed

lemma demo_tree: "xtree_create (x_trees demo_xltp) = (tree_demo_root, demo0)" "tree_demo_root \<noteq> 0"
  "h_nodes (x_trees demo_xltp) tree_demo_root = None" "\<forall>m. alloc_ok m demo0"
  using demo_create demo0_alloc by (simp_all add: demo_xltp_def tree_demo_root empty_store_def)


theorem refused_put_dangles_witness:
  "\<exists>y z. make_apis demo_fn demo_xltp = Some (True, y) \<and> xltp_recv demo_call demo_io 5 y = Some (False, z) \<and>
    Disconnect 5 \<in> set (x_out z) \<and> x_frames z 5 = None"
  by (rule refused_put_dangles [OF demo_tree _ _ put_frame_holds])
     (simp_all add: demo_fn_def demo_xltp_def demo_call_def demo_io_def put_frame_def xmsg_get_channel_def)

end
