(* ===== verification/Spec2Isabelle.thy ===== *)
theory Spec2Isabelle
  imports Prelude Mem Pipe Xline Xline_Codec Xline_Frame Channel Channel_Recv Channel_Send Avl Avl_Shape Avl_Tree Index Ring Xtree Xtree_Map Xtree_Order Xtree_Clear Xtree_Props Msger Msger_Channels Msger_Props Xheap Sha256 Xxhash Xmalloc Xmalloc_Page Xmalloc_Cut Xmalloc_Store Xmalloc_Frame Xmalloc_Manager Xmalloc_Heap Xmalloc_Props Xltp Xltp_Props
begin

text \<open>
  wenas is a C program that moves messages reliably over UDP. Its own code is under \<open>src/src/\<close>:
  \<open>xnet/\<close> holds the transport and the containers it is built on, \<open>xlib/\<close> an AVL tree and two hashes,
  \<open>xapi/\<close> the layer over the operating system, \<open>app/\<close> and \<open>main.c\<close> small programs.

  \<^bold>\<open>The parts and how they work together.\<close> An application builds messages as xline frames
  (\<open>xnet/xline.h\<close>) and hands them to the messenger (\<open>xnet/xmsger.c\<close>) in local datagrams; what arrives goes to the threads of the
  protocol \<open>xnet/xltp.c\<close> through byte pipes (\<open>xnet/xpipe.h\<close>), which looks up the handler of a request in a radix tree
  (\<open>xnet/xtree.h\<close>). The thread of the messenger owns all channels. It keeps them in a ring list, in which
  it serves them in turn, and in an AVL tree (\<open>xlib/avlmini.c\<close>), by which an arriving datagram finds its
  channel. A channel cuts messages into packets, keeps a window of unacknowledged ones, retransmits, and puts
  arriving packets back in order. Frames, packets and channels are allocated by \<open>xnet/xmalloc.c\<close>, whose
  \<open>mcopy\<close>, \<open>mclear\<close>, \<open>mcompare\<close> and \<open>slength\<close> every part calls. The min-heap (\<open>xnet/xheap.h\<close>), SHA-256
  and xxhash (\<open>xlib/\<close>) are library code for identifiers and timers.

  \<^bold>\<open>Conventions\<close> (theory \<open>Prelude\<close>). A struct is a record, an integer of the source is a word of its width
  unless the text of the theory says why a number is enough, a buffer is a list of bytes, a heap of structs a partial function on
  addresses with 0 for NULL. An operation that may run into undefined behaviour (an access outside an object,
  a NULL pointer, a division by zero) returns an option and \<^term>\<open>None\<close> is that behaviour; so a theorem that
  says an operation equals \<^term>\<open>Some x\<close> also says that it ends and stays inside its objects. Loops without an obvious
  bound are partial functions in the option monad, whose \<^term>\<open>None\<close> includes not returning; no fuel is used anywhere. What the
  operating system decides (clock, results of \<open>malloc\<close>, \<open>mmap\<close> and \<open>sendto\<close>, contents of fresh memory) is part of the state or an argument.

  \<^bold>\<open>The theories.\<close>

  \<^item> \<open>Mem\<close>: the four primitives with the loops of their bodies (words, then the tail), equal to list operations.
  \<^item> \<open>Pipe\<close>: the ring of \<open>xpipe.h\<close> with its wrapping 64-bit counters. The locale \<open>byte_fifo\<close> is what users rely on; the
    interpretation on the ring gives the refinement to a bounded FIFO for any sequence of attempts.
  \<^item> \<open>Xline\<close>, \<open>Xline_Codec\<close>, \<open>Xline_Frame\<close>: lines, frames, builders and parser of \<open>xline.h\<close>; the specification of the encoding as a
    datatype of values; the locale \<open>field_adder\<close>, interpreted for every \<open>xl_add_*\<close>, states that a builder appends exactly the encoding of a
    field and grows the frame when needed. On top: round trips, first match of \<open>xl_find\<close>, nested objects, lists, and what a failed growth does.
  \<^item> \<open>Channel\<close>: the data of a channel and all its operations (\<open>xchannel_*\<close>, \<open>xmsger_send\<close>).
    \<open>Channel_Recv\<close>: arrivals in any order with losses and duplicates; \<open>Channel_Send\<close>: the reachable states of a
    sender as an inductive predicate, acknowledgements, and the composition of both halves.
  \<^item> \<open>Avl\<close>, \<open>Avl_Shape\<close>, \<open>Avl_Tree\<close>: \<open>avlmini.c\<close> as pointer programs; the tree a heap holds; insertion, removal, search, neighbours and
    tear-down over the ordered list of members. \<open>Index\<close>: the interface \<open>keyed_index\<close> of the messenger, interpreted on the AVL tree.
  \<^item> \<open>Ring\<close>: the \<open>__ring_list\<close> macros over a pointer heap, as list operations.
  \<^item> \<open>Msger\<close>, \<open>Msger_Channels\<close>, \<open>Msger_Props\<close>: the messenger: requests of the application, the sending round, the dispatch of datagrams, creation and
    release; its invariant, kept by every step of \<open>msger_reach\<close>, and what follows from it.
  \<^item> \<open>Xltp\<close>, \<open>Xltp_Props\<close>: the protocol above the messenger: the dispatch of messages to handlers, the handlers of put, get and boot,
    who frees a message. The dispatch joins the parser, the radix tree and the string primitives.
  \<^item> \<open>Xtree\<close>, \<open>Xtree_Map\<close>, \<open>Xtree_Order\<close>, \<open>Xtree_Clear\<close>, \<open>Xtree_Props\<close>: the radix tree; the locale \<open>key_map\<close>, interpreted on it, states it as a finite
    map from byte strings; order of keys, and the clearing walk without a stack.
  \<^item> \<open>Xheap\<close>: the min-heap with positions stored in the nodes.
  \<^item> \<open>Sha256\<close>, \<open>Xxhash\<close>: the digests, against reference definitions on whole messages.
  \<^item> \<open>Xmalloc\<close>: the allocator: headers of chunks, pages, pools, \<open>malloc\<close>, \<open>free\<close>, \<open>calloc\<close>, \<open>realloc\<close>, recycle pools, leak check.
    \<open>Xmalloc_Page\<close>, \<open>Xmalloc_Cut\<close>: the page invariant and its preservation by releasing and cutting a chunk. \<open>Xmalloc_Store\<close>: the locale
    \<open>block_store\<close> for any client, interpreted on a page. \<open>Xmalloc_Frame\<close>, \<open>Xmalloc_Manager\<close>, \<open>Xmalloc_Heap\<close>: what operations on one page leave alone, the invariant
    of the whole manager, and the same locale interpreted on \<open>malloc\<close> and \<open>free\<close>. \<open>Xmalloc_Props\<close>: the properties.

  \<^bold>\<open>Hypotheses.\<close> The theorems on the transport assume a window whose size is a power of two, packets that carry the fragments they
  claim, and arrivals at most a window ahead of and half the 16-bit serial space behind the first missing packet. Those on the allocator assume that
  \<open>mmap\<close> returns aligned mappings that do not overlap (\<open>mmap_ok\<close>) and that requests come one after the other. Each theorem with hypotheses is followed
  by an application to a concrete state.

  \<^bold>\<open>Not modelled.\<close> Third-party code (libuv and the other trees under \<open>xapi/dep/\<close>) and the operating-system layer
  \<open>xapi/\<close>, which only calls it: threads, sockets, files. \<open>xnet/xlio.c\<close>, the transfer of files, whose work is walking directories, reading and writing
  files in a thread of its own; of \<open>xnet/xltp.c\<close> the echo and boot requests, which send a test frame, and the creation of threads.
  \<open>xnet/xalloc.c\<close>, an older copy of the allocator that is not built, \<open>xnet/xtable.c\<close> and \<open>xnet/uuid.c\<close>, which nothing calls.
  Of modelled files: the blocking loops of \<open>xpipe_write\<close> and \<open>xpipe_read\<close> (condition variables), the text
  output \<open>xl_format\<close>, the waking datagram and joining of \<open>xmsger_free\<close>, \<open>aligned_alloc\<close> and its aliases, backtraces. Concurrency inside the allocator is
  modelled as far as locks decide branches; interleavings of two threads inside one operation are not.
\<close>

end
